(* ===== verification/Uw_Prelude.thy ===== *)
theory Uw_Prelude
  imports Main
begin

text \<open>
  The part of the Go language that every component of the development shares: bytes and byte
  slices, outcomes of operations that can fail or panic, checked indexing, and the facts about
  them that the component theories use through the collections \<open>outcome_simps\<close> and
  \<open>slice_simps\<close>.

  A Go \<open>byte\<close> is a \<^typ>\<open>char\<close> (both have exactly 256 values) and a \<open>string\<close> or a
  \<open>[]byte\<close> whose position in memory does not matter is a \<^typ>\<open>char list\<close>. Where the position
  matters, because the code subtracts slice addresses (\<open>danger.SubsliceOffset\<close>), a slice is a
  value of type \<open>slice\<close>: the address of its first byte and its bytes. No code modelled here
  writes through such a slice, so a slice carries its contents.
\<close>

section \<open>Bytes\<close>

type_synonym byte = char

abbreviation bval :: "byte \<Rightarrow> nat" where
  "bval c \<equiv> of_char c"

abbreviation (input) c_tab :: byte where "c_tab \<equiv> CHR 0x09"
abbreviation (input) c_nl :: byte where "c_nl \<equiv> CHR 0x0A"
abbreviation (input) c_cr :: byte where "c_cr \<equiv> CHR 0x0D"
abbreviation (input) c_sp :: byte where "c_sp \<equiv> CHR 0x20"
abbreviation (input) c_dq :: byte where "c_dq \<equiv> CHR 0x22"
abbreviation (input) c_sq :: byte where "c_sq \<equiv> CHR 0x27"
abbreviation (input) c_bs :: byte where "c_bs \<equiv> CHR 0x5C"

lemma bval_less: "bval c < 256"
  by simp

lemma bval_inject: "bval c = bval d \<longleftrightarrow> c = d"
  by (rule of_char_eq_iff)

lemma bval_char_of: "n < 256 \<Longrightarrow> bval (char_of n) = n"
  by simp

section \<open>Outcomes\<close>

text \<open>
  What a call ends with: a value, an error value of the code, a run-time panic, or the model's
  fuel used up. \<open>Fuel\<close> only occurs in functions that carry a fuel argument, and each of
  those comes with a theorem that enough fuel excludes it.
\<close>

datatype ('e, 'a) outcome = Ok 'a | Err 'e | Panic | Fuel

named_theorems outcome_simps
named_theorems slice_simps

primrec bind_outcome :: "('e, 'a) outcome \<Rightarrow> ('a \<Rightarrow> ('e, 'b) outcome) \<Rightarrow> ('e, 'b) outcome" where
  "bind_outcome (Ok x) f = f x"
| "bind_outcome (Err e) f = Err e"
| "bind_outcome Panic f = Panic"
| "bind_outcome Fuel f = Fuel"

lemma bind_outcome_cong [fundef_cong]:
  "m = m' \<Longrightarrow> (\<And>x. m' = Ok x \<Longrightarrow> f x = g x) \<Longrightarrow> bind_outcome m f = bind_outcome m' g"
  by (cases m') auto

lemma bind_eq_Ok [outcome_simps]:
  "bind_outcome m f = Ok y \<longleftrightarrow> (\<exists>x. m = Ok x \<and> f x = Ok y)"
  by (cases m) auto

lemma bind_eq_Err [outcome_simps]:
  "bind_outcome m f = Err e \<longleftrightarrow> m = Err e \<or> (\<exists>x. m = Ok x \<and> f x = Err e)"
  by (cases m) auto

lemma bind_eq_Panic [outcome_simps]:
  "bind_outcome m f = Panic \<longleftrightarrow> m = Panic \<or> (\<exists>x. m = Ok x \<and> f x = Panic)"
  by (cases m) auto

lemma bind_eq_Fuel [outcome_simps]:
  "bind_outcome m f = Fuel \<longleftrightarrow> m = Fuel \<or> (\<exists>x. m = Ok x \<and> f x = Fuel)"
  by (cases m) auto

text \<open>\<open>returns\<close>: the call comes back, with a value or with an error value.\<close>

primrec returns :: "('e, 'a) outcome \<Rightarrow> bool" where
  "returns (Ok x) = True"
| "returns (Err e) = True"
| "returns Panic = False"
| "returns Fuel = False"

lemma returns_iff: "returns m \<longleftrightarrow> m \<noteq> Panic \<and> m \<noteq> Fuel"
  by (cases m) auto

lemma returns_bind [outcome_simps]:
  "returns (bind_outcome m f) \<longleftrightarrow> returns m \<and> (\<forall>x. m = Ok x \<longrightarrow> returns (f x))"
  by (cases m) auto

text \<open>
  \<open>ensures P E m\<close>: the call returns, a value satisfying \<open>P\<close> or an error satisfying \<open>E\<close>.
\<close>

primrec ensures :: "('a \<Rightarrow> bool) \<Rightarrow> ('e \<Rightarrow> bool) \<Rightarrow> ('e, 'a) outcome \<Rightarrow> bool" where
  "ensures P E (Ok x) = P x"
| "ensures P E (Err e) = E e"
| "ensures P E Panic = False"
| "ensures P E Fuel = False"

lemma ensures_bind [simp]: "ensures P E (bind_outcome m f) \<longleftrightarrow> ensures (\<lambda>x. ensures P E (f x)) E m"
  by (cases m) auto

lemma ensures_mono:
  "ensures P E m \<Longrightarrow> (\<And>x. m = Ok x \<Longrightarrow> P x \<Longrightarrow> Q x) \<Longrightarrow> (\<And>e. m = Err e \<Longrightarrow> E e \<Longrightarrow> F e) \<Longrightarrow> ensures Q F m"
  by (cases m) auto

lemma ensures_Ok: "ensures P E m \<Longrightarrow> m = Ok x \<Longrightarrow> P x"
  by simp

lemma ensures_Err: "ensures P E m \<Longrightarrow> m = Err e \<Longrightarrow> E e"
  by simp

lemma ensures_returns: "ensures P E m \<Longrightarrow> returns m"
  by (cases m) auto

section \<open>Indexing\<close>

text \<open>\<open>xs[i]\<close> of the source, with Go's index-out-of-range panic.\<close>

definition idx :: "'a list \<Rightarrow> nat \<Rightarrow> ('e, 'a) outcome" where
  "idx xs i = (if i < length xs then Ok (xs ! i) else Panic)"

lemma idx_Ok [simp]: "i < length xs \<Longrightarrow> idx xs i = Ok (xs ! i)"
  by (simp add: idx_def)

lemma idx_eq_Ok [outcome_simps]: "idx xs i = Ok x \<longleftrightarrow> i < length xs \<and> x = xs ! i"
  by (auto simp: idx_def)

lemma idx_eq_Panic [outcome_simps]: "idx xs i = Panic \<longleftrightarrow> length xs \<le> i"
  by (auto simp: idx_def)

lemma idx_neq [simp]: "idx xs i \<noteq> Err e" "idx xs i \<noteq> Fuel"
  by (auto simp: idx_def)

lemma ensures_idx [simp]: "ensures P E (idx xs i) \<longleftrightarrow> i < length xs \<and> P (xs ! i)"
  by (simp add: idx_def)

lemma returns_idx [outcome_simps]: "returns (idx xs i) \<longleftrightarrow> i < length xs"
  by (simp add: idx_def)

text \<open>The same for code that has no error values: \<^const>\<open>None\<close> is the panic.\<close>

definition nth_opt :: "'a list \<Rightarrow> nat \<Rightarrow> 'a option" where
  "nth_opt xs i = (if i < length xs then Some (xs ! i) else None)"

definition or_panic :: "'a option \<Rightarrow> ('e, 'a) outcome" where
  "or_panic v = (case v of None \<Rightarrow> Panic | Some x \<Rightarrow> Ok x)"

lemma nth_opt_Some [simp]: "i < length xs \<Longrightarrow> nth_opt xs i = Some (xs ! i)"
  by (simp add: nth_opt_def)

lemma nth_opt_None [simp]: "length xs \<le> i \<Longrightarrow> nth_opt xs i = None"
  by (simp add: nth_opt_def)

lemma nth_opt_eq_Some [outcome_simps]: "nth_opt xs i = Some x \<longleftrightarrow> i < length xs \<and> x = xs ! i"
  by (auto simp: nth_opt_def)

lemma or_panic_simps [simp]: "or_panic (Some x) = Ok x" "or_panic None = Panic"
  by (simp_all add: or_panic_def)

lemma or_panic_eq [outcome_simps]:
  "or_panic v = Ok x \<longleftrightarrow> v = Some x" "or_panic v = Panic \<longleftrightarrow> v = None"
  "returns (or_panic v) \<longleftrightarrow> v \<noteq> None"
  by (cases v; simp)+

lemma ensures_or_panic [simp]: "ensures P E (or_panic v) \<longleftrightarrow> (\<exists>x. v = Some x \<and> P x)"
  by (cases v) auto

lemma or_panic_neq [simp]: "or_panic v \<noteq> Err e" "or_panic v \<noteq> Fuel"
  by (cases v; simp)+

section \<open>Slices\<close>

datatype slice = Slice (addr: nat) (bytes: "byte list")

abbreviation s_len :: "slice \<Rightarrow> nat" where
  "s_len b \<equiv> length (bytes b)"

text \<open>\<open>b[i:]\<close>, \<open>b[:i]\<close> and \<open>b[i:j]\<close> for indices in range.\<close>

definition s_from :: "slice \<Rightarrow> nat \<Rightarrow> slice" where
  "s_from b i = Slice (addr b + i) (drop i (bytes b))"

definition s_to :: "slice \<Rightarrow> nat \<Rightarrow> slice" where
  "s_to b i = Slice (addr b) (take i (bytes b))"

definition s_sub :: "slice \<Rightarrow> nat \<Rightarrow> nat \<Rightarrow> slice" where
  "s_sub b i j = Slice (addr b + i) (take (j - i) (drop i (bytes b)))"

text \<open>
  \<open>b[i:j]\<close> with its bounds check. Go lets \<open>j\<close> run up to the capacity; the model refuses
  everything past the length, so a theorem that a call does not panic here is stronger than
  what Go needs.
\<close>

definition slice_chk :: "slice \<Rightarrow> nat \<Rightarrow> nat \<Rightarrow> ('e, slice) outcome" where
  "slice_chk b i j = (if i \<le> j \<and> j \<le> s_len b then Ok (s_sub b i j) else Panic)"

lemma bytes_slice_ops [simp]:
  "bytes (s_from b i) = drop i (bytes b)"
  "bytes (s_to b i) = take i (bytes b)"
  "bytes (s_sub b i j) = take (j - i) (drop i (bytes b))"
  by (simp_all add: s_from_def s_to_def s_sub_def)

lemma addr_slice_ops [simp]:
  "addr (s_from b i) = addr b + i"
  "addr (s_to b i) = addr b"
  "addr (s_sub b i j) = addr b + i"
  by (simp_all add: s_from_def s_to_def s_sub_def)

lemma s_from_s_from [simp]: "s_from (s_from b i) j = s_from b (i + j)"
  by (simp add: s_from_def add.commute)

lemma s_from_0 [simp]: "s_from b 0 = b"
  by (simp add: s_from_def)

lemma slice_chk_Ok [simp]: "i \<le> j \<Longrightarrow> j \<le> s_len b \<Longrightarrow> slice_chk b i j = Ok (s_sub b i j)"
  by (simp add: slice_chk_def)

lemma slice_chk_eq_Ok [outcome_simps]:
  "slice_chk b i j = Ok s \<longleftrightarrow> i \<le> j \<and> j \<le> s_len b \<and> s = s_sub b i j"
  by (auto simp: slice_chk_def)

lemma slice_chk_neq [simp]: "slice_chk b i j \<noteq> Err e" "slice_chk b i j \<noteq> Fuel"
  by (auto simp: slice_chk_def)

lemma slice_chk_eq_Panic [outcome_simps]:
  "slice_chk b i j = Panic \<longleftrightarrow> \<not> (i \<le> j \<and> j \<le> s_len b)"
  by (auto simp: slice_chk_def)

lemma ensures_slice_chk [simp]:
  "ensures P E (slice_chk b i j) \<longleftrightarrow> i \<le> j \<and> j \<le> s_len b \<and> P (s_sub b i j)"
  by (auto simp: slice_chk_def)

lemma returns_slice_chk [outcome_simps]:
  "returns (slice_chk b i j) \<longleftrightarrow> i \<le> j \<and> j \<le> s_len b"
  by (simp add: slice_chk_def)

text \<open>\<open>subslice s d\<close>: \<open>s\<close> is a window of \<open>d\<close> (same memory, so same contents).\<close>

definition subslice :: "slice \<Rightarrow> slice \<Rightarrow> bool" where
  "subslice s d \<longleftrightarrow> addr d \<le> addr s \<and> addr s + s_len s \<le> addr d + s_len d \<and>
     bytes s = take (s_len s) (drop (addr s - addr d) (bytes d))"

lemma subslice_refl [simp, intro]: "subslice b b"
  by (simp add: subslice_def)

lemma subslice_sub [slice_simps, intro]: "i \<le> j \<Longrightarrow> j \<le> s_len b \<Longrightarrow> subslice (s_sub b i j) b"
  by (simp add: subslice_def min_def)

lemma subslice_from [slice_simps, intro]: "i \<le> s_len b \<Longrightarrow> subslice (s_from b i) b"
  by (simp add: subslice_def)

lemma subslice_to [slice_simps, intro]: "i \<le> s_len b \<Longrightarrow> subslice (s_to b i) b"
  by (simp add: subslice_def min_def)

lemma subslice_trans [trans]:
  assumes "subslice a b" "subslice b c"
  shows "subslice a c"
proof -
  let ?i = "addr a - addr b" and ?j = "addr b - addr c"
  from assms have le: "?i + s_len a \<le> s_len b" "?j + s_len b \<le> s_len c"
    and ad: "addr c \<le> addr b" "addr b \<le> addr a"
    by (auto simp: subslice_def)
  have "bytes a = take (s_len a) (drop ?i (take (s_len b) (drop ?j (bytes c))))"
    using assms by (simp add: subslice_def)
  also have "\<dots> = take (s_len a) (drop (?i + ?j) (bytes c))"
    using le by (simp add: drop_take min_def)
  also have "?i + ?j = addr a - addr c"
    using ad by simp
  finally show ?thesis
    using assms by (simp add: subslice_def)
qed

lemma subslice_len: "subslice a b \<Longrightarrow> s_len a \<le> s_len b"
  by (simp add: subslice_def)

text \<open>
  \<open>splits b tok rest\<close>: the two slices cut \<open>b\<close> in two, \<open>tok\<close> first. Every scanner returns
  such a pair.
\<close>

definition splits :: "slice \<Rightarrow> slice \<Rightarrow> slice \<Rightarrow> bool" where
  "splits b tok rest \<longleftrightarrow> (\<exists>i \<le> s_len b. tok = s_to b i \<and> rest = s_from b i)"

lemma splitsI [intro]: "i \<le> s_len b \<Longrightarrow> splits b (s_to b i) (s_from b i)"
  by (auto simp: splits_def)

lemma splits_bytes: "splits b tok rest \<Longrightarrow> bytes b = bytes tok @ bytes rest"
  by (auto simp: splits_def)

lemma splits_subslice:
  "splits b tok rest \<Longrightarrow> subslice tok b" "splits b tok rest \<Longrightarrow> subslice rest b"
  by (auto simp: splits_def)

lemma splits_len: "splits b tok rest \<Longrightarrow> s_len tok + s_len rest = s_len b"
  by (auto simp: splits_def)

lemma splits_rest: "splits b tok rest \<Longrightarrow> rest = s_from b (s_len tok)"
  by (auto simp: splits_def min_def)

lemma splits_tok: "splits b tok rest \<Longrightarrow> tok = s_to b (s_len tok)"
  by (auto simp: splits_def min_def)

section \<open>Lists\<close>

lemma drop_nth_cons: "i < length xs \<Longrightarrow> drop i xs = xs ! i # drop (Suc i) xs"
  by (rule Cons_nth_drop_Suc [symmetric])

lemma takeWhile_eq_take_least:
  assumes "i \<le> length xs" "\<forall>j < i. P (xs ! j)" "i = length xs \<or> \<not> P (xs ! i)"
  shows "takeWhile P xs = take i xs" and "dropWhile P xs = drop i xs"
proof -
  show t: "takeWhile P xs = take i xs"
    using assms by (metis le_neq_implies_less takeWhile_eq_take_P_nth take_all order_refl
        takeWhile_eq_all_conv in_set_conv_nth)
  then show "dropWhile P xs = drop i xs"
    by (metis append_take_drop_id same_append_eq takeWhile_dropWhile_id)
qed

end
