(* ===== verification/Toml_Characters.thy ===== *)
theory Toml_Characters
  imports Uw_Prelude "HOL-Library.Word"
begin

unbundle bit_operations_syntax

text \<open>
  \<open>utoml/internal/characters\<close>: the byte tables and the two UTF-8 validators of the TOML
  reader. \<open>InvalidAscii\<close>, \<open>first\<close> and \<open>acceptRanges\<close> are the tables,
  \<open>Utf8ValidNext\<close> looks at one character and \<open>Utf8TomlValidAlreadyEscaped\<close> runs over a
  whole string with an eight-bytes-at-a-time fast path. \<open>encodeRune\<close> is Go's
  \<open>utf8.EncodeRune\<close> and serves as the reference: the first group of lemmas shows that
  \<open>Utf8ValidNext\<close> accepts exactly the encodings of allowed Unicode scalar values, the
  second that the optimised validator accepts exactly their concatenations, and where the
  error it reports lies.
\<close>

section \<open>ascii.go\<close>

definition invalidAsciiTable :: "bool list" where
  "invalidAsciiTable =
     replicate 9 True @ [False, False] @ [True, True] @ [False] @ replicate 18 True @
     replicate 95 False @ [True] @ replicate 128 False"

definition InvalidAscii :: "byte \<Rightarrow> bool" where
  "InvalidAscii b = invalidAsciiTable ! bval b"

section \<open>utf8.go: tables\<close>

abbreviation (input) locb :: nat where "locb \<equiv> 0x80"
abbreviation (input) hicb :: nat where "hicb \<equiv> 0xBF"

abbreviation (input) xx :: nat where "xx \<equiv> 0xF1"
abbreviation (input) as :: nat where "as \<equiv> 0xF0"
abbreviation (input) s1 :: nat where "s1 \<equiv> 0x02"
abbreviation (input) s2 :: nat where "s2 \<equiv> 0x13"
abbreviation (input) s3 :: nat where "s3 \<equiv> 0x03"
abbreviation (input) s4 :: nat where "s4 \<equiv> 0x23"
abbreviation (input) s5 :: nat where "s5 \<equiv> 0x34"
abbreviation (input) s6 :: nat where "s6 \<equiv> 0x04"
abbreviation (input) s7 :: nat where "s7 \<equiv> 0x44"

record acceptRange =
  lo :: nat
  hi :: nat

definition acceptRanges :: "acceptRange list" where
  "acceptRanges =
     [\<lparr>lo = locb, hi = hicb\<rparr>, \<lparr>lo = 0xA0, hi = hicb\<rparr>, \<lparr>lo = locb, hi = 0x9F\<rparr>,
      \<lparr>lo = 0x90, hi = hicb\<rparr>, \<lparr>lo = locb, hi = 0x8F\<rparr>] @ replicate 11 \<lparr>lo = 0, hi = 0\<rparr>"

definition first :: "nat list" where
  "first =
     replicate 128 as @ replicate 66 xx @ replicate 30 s1 @
     [s2] @ replicate 12 s3 @ [s4, s3, s3] @
     [s5, s6, s6, s6, s7] @ replicate 11 xx"

text \<open>The table as ranges of the lead byte.\<close>

lemma first_nth:
  assumes "n < 256"
  shows "first ! n =
    (if n < 0x80 then as else if n < 0xC2 then xx else if n < 0xE0 then s1
     else if n = 0xE0 then s2 else if n = 0xED then s4 else if n < 0xF0 then s3
     else if n = 0xF0 then s5 else if n < 0xF4 then s6 else if n = 0xF4 then s7 else xx)"
  using assms unfolding first_def
  by (auto simp: nth_append nth_Cons' less_diff_conv2)

lemma first_size_pos: "first ! bval c \<noteq> xx \<Longrightarrow> 0x80 \<le> bval c \<Longrightarrow> 2 \<le> first ! bval c mod 8"
  by (simp add: first_nth bval_less split: if_splits)

section \<open>utf8.go: operations\<close>

record utf8Err =
  Index :: nat
  Size :: nat

definition Zero :: "utf8Err \<Rightarrow> bool" where
  "Zero u \<longleftrightarrow> Size u = 0"

definition utf8_ok :: utf8Err where
  "utf8_ok = \<lparr>Index = 0, Size = 0\<rparr>"

text \<open>The eight byte-wise comparisons done at once on two 32-bit words.\<close>

definition load32 :: "byte list \<Rightarrow> nat \<Rightarrow> 32 word" where
  "load32 p i = of_nat (bval (p ! i)) OR push_bit 8 (of_nat (bval (p ! (i + 1))))
     OR push_bit 16 (of_nat (bval (p ! (i + 2)))) OR push_bit 24 (of_nat (bval (p ! (i + 3))))"

definition non_ascii8 :: "byte list \<Rightarrow> bool" where
  "non_ascii8 p \<longleftrightarrow> (load32 p 0 OR load32 p 4) AND 0x80808080 \<noteq> 0"

fun find_invalid :: "byte list \<Rightarrow> nat \<Rightarrow> nat option" where
  "find_invalid [] i = None"
| "find_invalid (b # bs) i = (if InvalidAscii b then Some i else find_invalid bs (Suc i))"

text \<open>The first loop: \<open>Inl\<close> is its \<open>return\<close>, \<open>Inr\<close> the state it leaves to the second.\<close>

function utf8_fast_loop :: "byte list \<Rightarrow> nat \<Rightarrow> utf8Err + byte list \<times> nat" where
  "utf8_fast_loop p offset =
     (if 8 \<le> length p then
        if non_ascii8 p then Inr (p, offset)
        else (case find_invalid (take 8 p) 0 of
                Some i \<Rightarrow> Inl \<lparr>Index = offset + i, Size = 1\<rparr>
              | None \<Rightarrow> utf8_fast_loop (drop 8 p) (offset + 8))
      else Inr (p, offset))"
  by pat_completeness auto
termination
  by (relation "measure (\<lambda>(p, offset). length p)") auto

declare utf8_fast_loop.simps [simp del]

function utf8_slow_loop :: "byte list \<Rightarrow> nat \<Rightarrow> nat \<Rightarrow> utf8Err option" where
  "utf8_slow_loop p offset i =
     (if i < length p then
        let pi = p ! i in
        if bval pi < 0x80 then
          if InvalidAscii pi then Some \<lparr>Index = offset + i, Size = 1\<rparr>
          else utf8_slow_loop p offset (i + 1)
        else
          let x = first ! bval pi in
          if x = xx then Some \<lparr>Index = offset + i, Size = 1\<rparr>
          else let size = x mod 8 in
          if i + size > length p then Some \<lparr>Index = offset + i, Size = length p - i\<rparr>
          else let accept = acceptRanges ! (x div 16) in
          Option.bind (nth_opt p (i + 1)) (\<lambda>c.
            if bval c < lo accept \<or> hi accept < bval c then Some \<lparr>Index = offset + i, Size = 2\<rparr>
            else if size = 2 then utf8_slow_loop p offset (i + size)
            else Option.bind (nth_opt p (i + 2)) (\<lambda>c.
              if bval c < locb \<or> hicb < bval c then Some \<lparr>Index = offset + i, Size = 3\<rparr>
              else if size = 3 then utf8_slow_loop p offset (i + size)
              else Option.bind (nth_opt p (i + 3)) (\<lambda>c.
                if bval c < locb \<or> hicb < bval c then Some \<lparr>Index = offset + i, Size = 4\<rparr>
                else utf8_slow_loop p offset (i + size))))
      else Some utf8_ok)"
  by pat_completeness auto
termination
  by (relation "measure (\<lambda>(p, offset, i). length p - i)")
    (auto dest!: first_size_pos simp: not_less)

declare utf8_slow_loop.simps [simp del]

definition Utf8TomlValidAlreadyEscaped :: "byte list \<Rightarrow> utf8Err option" where
  "Utf8TomlValidAlreadyEscaped p =
     (case utf8_fast_loop p 0 of
        Inl err \<Rightarrow> Some err
      | Inr (p', offset) \<Rightarrow> utf8_slow_loop p' offset 0)"

definition Utf8ValidNext :: "byte list \<Rightarrow> nat option" where
  "Utf8ValidNext p =
     Option.bind (nth_opt p 0) (\<lambda>c.
       if bval c < 0x80 then (if InvalidAscii c then Some 0 else Some 1)
       else
         let x = first ! bval c in
         if x = xx then Some 0
         else let size = x mod 8 in
         if size > length p then Some 0
         else let accept = acceptRanges ! (x div 16) in
         Option.bind (nth_opt p 1) (\<lambda>c.
           if bval c < lo accept \<or> hi accept < bval c then Some 0
           else if size = 2 then Some size
           else Option.bind (nth_opt p 2) (\<lambda>c.
             if bval c < locb \<or> hicb < bval c then Some 0
             else if size = 3 then Some size
             else Option.bind (nth_opt p 3) (\<lambda>c.
               if bval c < locb \<or> hicb < bval c then Some 0 else Some size))))"

section \<open>The reference: UTF-8 encodings of scalar values\<close>

lemma InvalidAscii_iff:
  "InvalidAscii c \<longleftrightarrow> bval c \<le> 8 \<or> bval c = 11 \<or> bval c = 12 \<or> 14 \<le> bval c \<and> bval c \<le> 31 \<or> bval c = 127"
proof -
  have "n < 256 \<Longrightarrow> invalidAsciiTable ! n \<longleftrightarrow> n \<le> 8 \<or> n = 11 \<or> n = 12 \<or> 14 \<le> n \<and> n \<le> 31 \<or> n = 127" for n
    unfolding invalidAsciiTable_def by (auto simp: nth_append nth_Cons' less_diff_conv2)
  then show ?thesis by (simp add: InvalidAscii_def bval_less)
qed

text \<open>
  \<open>scalar\<close> are the Unicode scalar values; \<open>encodeRune\<close> is \<open>utf8.EncodeRune\<close> (also what
  \<open>bytes.Buffer.WriteRune\<close> appends), which encodes anything else as U+FFFD.
\<close>

definition scalar :: "nat \<Rightarrow> bool" where
  "scalar r \<longleftrightarrow> r \<le> 0x10FFFF \<and> \<not> (0xD800 \<le> r \<and> r < 0xE000)"

definition encodeRune :: "nat \<Rightarrow> byte list" where
  "encodeRune r0 =
     (let r = (if scalar r0 then r0 else 0xFFFD) in
      if r \<le> 0x7F then [char_of r]
      else if r \<le> 0x7FF then [char_of (0xC0 + r div 64), char_of (0x80 + r mod 64)]
      else if r \<le> 0xFFFF then
        [char_of (0xE0 + r div 4096), char_of (0x80 + r div 64 mod 64), char_of (0x80 + r mod 64)]
      else
        [char_of (0xF0 + r div 262144), char_of (0x80 + r div 4096 mod 64),
         char_of (0x80 + r div 64 mod 64), char_of (0x80 + r mod 64)])"

text \<open>
  The allowed characters: every scalar value but the control characters other than tab, line feed
  and carriage return. The last two are not in the comment of \<open>Utf8TomlValidAlreadyEscaped\<close>, but in
  its table, since multi-line strings have them.
\<close>

definition toml_char :: "nat \<Rightarrow> bool" where
  "toml_char r \<longleftrightarrow> scalar r \<and> (0x20 \<le> r \<and> r \<noteq> 0x7F \<or> r = 9 \<or> r = 10 \<or> r = 13)"

lemma toml_char_table: "toml_char r \<longleftrightarrow> scalar r \<and> \<not> (r < 0x80 \<and> InvalidAscii (char_of r))"
proof (cases "r < 0x80")
  case True
  then have "bval (char_of r) = r" by simp
  then show ?thesis using True by (auto simp: toml_char_def InvalidAscii_iff)
qed (auto simp: toml_char_def)

lemma char_of_eqI: "n = bval c \<Longrightarrow> char_of n = c"
  by simp

lemma acceptRanges_nth [simp]:
  "acceptRanges ! 0 = \<lparr>lo = locb, hi = hicb\<rparr>" "acceptRanges ! (Suc 0) = \<lparr>lo = 0xA0, hi = hicb\<rparr>"
  "acceptRanges ! 2 = \<lparr>lo = locb, hi = 0x9F\<rparr>"
  "acceptRanges ! 3 = \<lparr>lo = 0x90, hi = hicb\<rparr>" "acceptRanges ! 4 = \<lparr>lo = locb, hi = 0x8F\<rparr>"
  by (simp_all add: acceptRanges_def)

lemma encodeRune_1: "r < 0x80 \<Longrightarrow> encodeRune r = [char_of r]"
  by (simp add: encodeRune_def scalar_def)

lemma encodeRune_2:
  "2 \<le> a \<Longrightarrow> a < 32 \<Longrightarrow> b < 64 \<Longrightarrow>
   encodeRune (a * 64 + b) = [char_of (0xC0 + a), char_of (0x80 + b)]"
  by (simp add: encodeRune_def scalar_def)

lemma digit64:
  "(d::nat) < 64 \<Longrightarrow> (x * 64 + d) div 64 = x" "(d::nat) < 64 \<Longrightarrow> (x * 64 + d) mod 64 = d"
  by simp_all

lemma div4096: "(r::nat) div 4096 = r div 64 div 64" "(r::nat) div 262144 = r div 64 div 64 div 64"
  by (simp_all add: div_mult2_eq [symmetric])

lemma encodeRune_3:
  assumes "a < 16" "b < 64" "c < 64" "a = 0 \<longrightarrow> 32 \<le> b" "a = 13 \<longrightarrow> b < 32"
  shows "scalar ((a * 64 + b) * 64 + c)"
    "encodeRune ((a * 64 + b) * 64 + c) = [char_of (0xE0 + a), char_of (0x80 + b), char_of (0x80 + c)]"
proof -
  let ?r = "(a * 64 + b) * 64 + c"
  have d: "?r div 4096 = a" "?r div 64 mod 64 = b" "?r mod 64 = c"
    using assms(2,3) by (simp_all only: div4096 digit64)
  consider "a = 0" "32 \<le> b" | "0 < a" "a < 13" | "a = 13" "b < 32" | "13 < a" "a < 16"
    using assms by linarith
  then have b: "0x7FF < ?r \<and> ?r \<le> 0xFFFF \<and> (?r < 0xD800 \<or> 0xE000 \<le> ?r)"
    by cases (use assms(2,3) in auto)
  then have r: "\<not> ?r \<le> 0x7F" "\<not> ?r \<le> 0x7FF" "?r \<le> 0xFFFF"
    by linarith+
  from b show s: "scalar ?r"
    unfolding scalar_def by linarith
  show "encodeRune ?r = [char_of (0xE0 + a), char_of (0x80 + b), char_of (0x80 + c)]"
    by (simp only: encodeRune_def Let_def s r d if_True if_False)
qed

lemma encodeRune_4:
  assumes "a \<le> 4" "b < 64" "c < 64" "d < 64" "a = 0 \<longrightarrow> 16 \<le> b" "a = 4 \<longrightarrow> b < 16"
  shows "scalar (((a * 64 + b) * 64 + c) * 64 + d)"
    "encodeRune (((a * 64 + b) * 64 + c) * 64 + d) =
     [char_of (0xF0 + a), char_of (0x80 + b), char_of (0x80 + c), char_of (0x80 + d)]"
proof -
  let ?r = "((a * 64 + b) * 64 + c) * 64 + d"
  have d: "?r div 262144 = a" "?r div 4096 mod 64 = b" "?r div 64 mod 64 = c" "?r mod 64 = d"
    using assms(2,3,4) by (simp_all only: div4096 digit64)
  consider "a = 0" "16 \<le> b" | "0 < a" "a < 4" | "a = 4" "b < 16"
    using assms by linarith
  then have b: "0xFFFF < ?r \<and> ?r \<le> 0x10FFFF"
    by cases (use assms(2,3,4) in auto)
  then have r: "\<not> ?r \<le> 0x7F" "\<not> ?r \<le> 0x7FF" "\<not> ?r \<le> 0xFFFF"
    by linarith+
  from b show s: "scalar ?r"
    unfolding scalar_def by linarith
  show "encodeRune ?r = [char_of (0xF0 + a), char_of (0x80 + b), char_of (0x80 + c), char_of (0x80 + d)]"
    by (simp only: encodeRune_def Let_def s r d if_True if_False)
qed

text \<open>Every scalar value has one of the four shapes.\<close>

lemma scalar_cases:
  assumes "scalar r"
  obtains (1) "r < 0x80"
  | (2) a b where "2 \<le> a" "a < 32" "b < 64" "r = a * 64 + b"
  | (3) a b c where "a < 16" "b < 64" "c < 64" "a = 0 \<longrightarrow> 32 \<le> b" "a = 13 \<longrightarrow> b < 32"
      "r = (a * 64 + b) * 64 + c"
  | (4) a b c d where "a \<le> 4" "b < 64" "c < 64" "d < 64" "a = 0 \<longrightarrow> 16 \<le> b" "a = 4 \<longrightarrow> b < 16"
      "r = ((a * 64 + b) * 64 + c) * 64 + d"
proof -
  define a b c x y z where "a = r div 64" and "b = r div 64 div 64" and "c = r div 64 div 64 div 64"
    and "x = r mod 64" and "y = r div 64 mod 64" and "z = r div 64 div 64 mod 64"
  then have e: "r = a * 64 + x" "a = b * 64 + y" "b = c * 64 + z" and m: "x < 64" "y < 64" "z < 64"
    by simp_all
  consider "r < 0x80" | "0x80 \<le> r" "r < 0x800" | "0x800 \<le> r" "r < 0x10000" | "0x10000 \<le> r"
    by linarith
  then show ?thesis
  proof cases
    assume "r < 0x80" then show ?thesis by (rule 1)
  next
    assume "0x80 \<le> r" "r < 0x800"
    then have "2 \<le> a" "a < 32" using e m by linarith+
    then show ?thesis using 2 [of a x] e m by blast
  next
    assume r: "0x800 \<le> r" "r < 0x10000"
    have s: "r < 0xD800 \<or> 0xE000 \<le> r" using assms unfolding scalar_def by linarith
    have "b < 16" using r m e by linarith
    moreover have "b = 0 \<longrightarrow> 32 \<le> y" using r m e by (intro impI) linarith
    moreover have "b = 13 \<longrightarrow> y < 32" using s m e by (intro impI) linarith
    ultimately show ?thesis using 3 [of b y x] e m by blast
  next
    assume r: "0x10000 \<le> r"
    have s: "r \<le> 0x10FFFF" using assms by (simp add: scalar_def)
    have "c \<le> 4" using s m e by linarith
    moreover have "c = 0 \<longrightarrow> 16 \<le> z" using r m e by (intro impI) linarith
    moreover have "c = 4 \<longrightarrow> z < 16" using s m e by (intro impI) linarith
    ultimately show ?thesis using 4 [of c z y x] e m by blast
  qed
qed

lemma Utf8ValidNext_encode:
  assumes "toml_char r"
  shows "Utf8ValidNext (encodeRune r @ rest) = Some (length (encodeRune r))"
proof -
  from assms have "scalar r" by (simp add: toml_char_table)
  then show ?thesis
  proof (cases rule: scalar_cases)
    case 1
    with assms show ?thesis by (simp add: encodeRune_1 Utf8ValidNext_def toml_char_table)
  next
    case (2 a b)
    then show ?thesis by (simp add: encodeRune_2 Utf8ValidNext_def first_nth)
  next
    case (3 a b c)
    note e = encodeRune_3(2) [OF 3(1-5)]
    consider "a = 0" | "a = 13" | "a \<noteq> 0" "a \<noteq> 13" by blast
    then show ?thesis using 3 e by cases (simp_all add: Utf8ValidNext_def first_nth)
  next
    case (4 a b c d)
    note e = encodeRune_4(2) [OF 4(1-6)]
    consider "a = 0" | "a = 4" | "a \<noteq> 0" "a \<noteq> 4" by blast
    then show ?thesis using 4 e by cases (simp_all add: Utf8ValidNext_def first_nth)
  qed
qed

lemma first_cases:
  assumes "0x80 \<le> n" "n < 256" "first ! n \<noteq> xx"
  obtains (2) a where "2 \<le> a" "a < 32" "n = 0xC0 + a" "first ! n = s1"
  | (3) a where "a < 16" "n = 0xE0 + a" "first ! n = (if a = 0 then s2 else if a = 13 then s4 else s3)"
  | (4) a where "a \<le> 4" "n = 0xF0 + a" "first ! n = (if a = 0 then s5 else if a = 4 then s7 else s6)"
proof -
  consider "0xC2 \<le> n" "n < 0xE0" | "0xE0 \<le> n" "n < 0xF0" | "0xF0 \<le> n" "n \<le> 0xF4"
    using assms by (auto simp: first_nth split: if_splits)
  then show ?thesis
  proof cases
    case 1 then show ?thesis using that(1) [of "n - 0xC0"] by (simp add: first_nth)
  next
    case 2
    then obtain a where "n = 0xE0 + a" by (auto simp: le_iff_add)
    with 2 show ?thesis using that(2) [of a] by (simp add: first_nth)
  next
    case 3
    then obtain a where "n = 0xF0 + a" by (auto simp: le_iff_add)
    with 3 show ?thesis using that(3) [of a] by (auto simp: first_nth)
  qed
qed

lemma cont_byte:
  assumes "\<not> (bval c < 0x80 \<or> 0xBF < bval c)"
  obtains b :: nat where "b < 64" "c = char_of (0x80 + b)" "bval c = 0x80 + b"
  using assms that [of "bval c - 0x80"] by auto

lemma Utf8ValidNext_decode:
  assumes "Utf8ValidNext p = Some n" "0 < n"
  shows "\<exists>r. toml_char r \<and> n = length (encodeRune r) \<and> take n p = encodeRune r"
proof -
  from assms obtain c p' where p: "p = c # p'"
    by (cases p) (auto simp: Utf8ValidNext_def outcome_simps)
  show ?thesis
  proof (cases "bval c < 0x80")
    case True
    with assms p have "n = 1" "\<not> InvalidAscii c" by (auto simp: Utf8ValidNext_def split: if_splits)
    with True p show ?thesis
      by (intro exI [of _ "bval c"]) (auto simp: toml_char_table scalar_def encodeRune_def)
  next
    case False
    then have "first ! bval c \<noteq> xx" using assms p by (auto simp: Utf8ValidNext_def split: if_splits)
    with False have "0x80 \<le> bval c" by simp
    then show ?thesis using bval_less \<open>first ! bval c \<noteq> xx\<close>
    proof (cases rule: first_cases)
      case (2 a)
      obtain d p2 where p': "p' = d # p2"
        using assms p False 2 by (cases p') (auto simp: Utf8ValidNext_def split: if_splits)
      have n: "n = 2" and d: "\<not> (bval d < 0x80 \<or> 0xBF < bval d)"
        using assms p p' False 2 by (auto simp: Utf8ValidNext_def split: if_splits)
      obtain b :: nat where b: "b < 64" "d = char_of (0x80 + b)" using d by (rule cont_byte)
      have "c = char_of (0xC0 + a)" using 2(3) by (simp flip: 2(3))
      with b n p p' 2 show ?thesis
        by (intro exI [of _ "a * 64 + b"]) (auto simp: encodeRune_2 toml_char_table scalar_def)
    next
      case (3 a)
      obtain d e p3 where p': "p' = d # e # p3"
        using assms p False 3 by (cases p'; cases "tl p'") (auto simp: Utf8ValidNext_def split: if_splits)
      have n: "n = 3" and d: "\<not> (bval d < 0x80 \<or> 0xBF < bval d)" and e: "\<not> (bval e < 0x80 \<or> 0xBF < bval e)"
        and ad: "a = 0 \<longrightarrow> 0xA0 \<le> bval d" "a = 13 \<longrightarrow> bval d \<le> 0x9F"
        using assms p p' False 3 by (auto simp: Utf8ValidNext_def split: if_splits)
      obtain b1 where b1: "b1 < 64" "d = char_of (0x80 + b1)" "bval d = 0x80 + b1"
        using d by (rule cont_byte)
      obtain b2 where b2: "b2 < 64" "e = char_of (0x80 + b2)" "bval e = 0x80 + b2"
        using e by (rule cont_byte)
      have c: "c = char_of (0xE0 + a)" using 3(2) by (simp flip: 3(2))
      have h: "a = 0 \<longrightarrow> 32 \<le> b1" "a = 13 \<longrightarrow> b1 < 32" using ad b1 by auto
      have "\<not> (a * 64 + b1) * 64 + b2 < 0x80"
        using h(1) by (cases "a = 0") auto
      with encodeRune_3 [OF 3(1) b1(1) b2(1) h] c n p p' b1 b2 show ?thesis
        by (intro exI [of _ "(a * 64 + b1) * 64 + b2"]) (simp add: toml_char_table)
    next
      case (4 a)
      obtain d e f p4 where p': "p' = d # e # f # p4"
        using assms p False 4
        by (cases p'; cases "tl p'"; cases "tl (tl p')") (auto simp: Utf8ValidNext_def split: if_splits)
      have n: "n = 4" and d: "\<not> (bval d < 0x80 \<or> 0xBF < bval d)" and e: "\<not> (bval e < 0x80 \<or> 0xBF < bval e)"
        and f: "\<not> (bval f < 0x80 \<or> 0xBF < bval f)"
        and ad: "a = 0 \<longrightarrow> 0x90 \<le> bval d" "a = 4 \<longrightarrow> bval d \<le> 0x8F"
        using assms p p' False 4 by (auto simp: Utf8ValidNext_def split: if_splits)
      obtain b1 where b1: "b1 < 64" "d = char_of (0x80 + b1)" "bval d = 0x80 + b1"
        using d by (rule cont_byte)
      obtain b2 where b2: "b2 < 64" "e = char_of (0x80 + b2)" "bval e = 0x80 + b2"
        using e by (rule cont_byte)
      obtain b3 where b3: "b3 < 64" "f = char_of (0x80 + b3)" "bval f = 0x80 + b3"
        using f by (rule cont_byte)
      have c: "c = char_of (0xF0 + a)" using 4(2) by (simp flip: 4(2))
      have h: "a = 0 \<longrightarrow> 16 \<le> b1" "a = 4 \<longrightarrow> b1 < 16" using ad b1 by auto
      have "\<not> ((a * 64 + b1) * 64 + b2) * 64 + b3 < 0x80"
        using h(1) by (cases "a = 0") auto
      with encodeRune_4 [OF 4(1) b1(1) b2(1) b3(1) h] c n p p' b1 b2 b3 show ?thesis
        by (intro exI [of _ "((a * 64 + b1) * 64 + b2) * 64 + b3"]) (simp add: toml_char_table)
    qed
  qed
qed

section \<open>The character that an error reports\<close>

text \<open>
  \<open>viable t\<close>: some allowed character begins with these bytes. \<open>bad_char q n\<close>: the first \<open>n\<close> bytes of
  \<open>q\<close> are what is reported where no allowed character starts. They are the shortest ones that no
  allowed character begins with, or all of \<open>q\<close> when it ends before a character with this first byte
  would.
\<close>

definition viable :: "byte list \<Rightarrow> bool" where
  "viable t \<longleftrightarrow> (\<exists>r x. toml_char r \<and> encodeRune r = t @ x)"

definition bad_char :: "byte list \<Rightarrow> nat \<Rightarrow> bool" where
  "bad_char q n \<longleftrightarrow> 0 < n \<and> n \<le> length q \<and>
     (viable (take (n - 1) q) \<and> \<not> viable (take n q) \<or>
      n = length q \<and> (\<exists>r. toml_char r \<and> hd (encodeRune r) = hd q \<and> length q < length (encodeRune r)))"

lemma viable_Nil [simp]: "viable []"
  unfolding viable_def by (intro exI [of _ 32] exI [of _ "encodeRune 32"]) (simp add: toml_char_def scalar_def)

lemma viableI: "toml_char r \<Longrightarrow> encodeRune r = u \<Longrightarrow> take (length t) u = t \<Longrightarrow> viable t"
  unfolding viable_def by (metis append_take_drop_id)

lemma viable_next: "viable t \<Longrightarrow> \<exists>x n. Utf8ValidNext (t @ x) = Some n \<and> 0 < n"
proof -
  assume "viable t"
  then obtain r x where r: "toml_char r" "encodeRune r = t @ x" by (auto simp: viable_def)
  have "0 < length (encodeRune r)" by (simp add: encodeRune_def Let_def)
  then show ?thesis using Utf8ValidNext_encode [OF r(1), of "[]"] r(2) by (intro exI [of _ x] exI [of _ "length (encodeRune r)"]) simp
qed

lemma toml_char_high: "scalar r \<Longrightarrow> 0x80 \<le> r \<Longrightarrow> toml_char r"
  by (simp add: toml_char_def)

lemma viable_2: "2 \<le> (a :: nat) \<Longrightarrow> a < 32 \<Longrightarrow> viable [char_of (0xC0 + a)]"
  using encodeRune_2 [of a 0] unfolding viable_def
  by (intro exI [of _ "a * 64"] exI [of _ "[char_of 0x80]"]) (simp add: toml_char_def scalar_def)

lemma viable_3:
  assumes "(a :: nat) < 16" "(b :: nat) < 64" "a = 0 \<longrightarrow> 32 \<le> b" "a = 13 \<longrightarrow> b < 32"
  shows "viable [char_of (0xE0 + a), char_of (0x80 + b)]" "viable [char_of (0xE0 + a)]"
proof -
  have "0x80 \<le> (a * 64 + b) * 64 + 0" using assms(3) by (cases "a = 0") auto
  then have "toml_char ((a * 64 + b) * 64 + 0)" using encodeRune_3(1) [of a b 0] assms by (intro toml_char_high) auto
  moreover have e: "encodeRune ((a * 64 + b) * 64 + 0) = [char_of (0xE0 + a), char_of (0x80 + b), char_of (0x80 + (0 :: nat))]"
    using assms by (intro encodeRune_3(2)) simp_all
  ultimately show "viable [char_of (0xE0 + a), char_of (0x80 + b)]" "viable [char_of (0xE0 + a)]"
    by - (rule viableI [OF _ e]; simp)+
qed

lemma viable_4:
  assumes "(a :: nat) \<le> 4" "(b :: nat) < 64" "(c :: nat) < 64" "a = 0 \<longrightarrow> 16 \<le> b" "a = 4 \<longrightarrow> b < 16"
  shows "viable [char_of (0xF0 + a), char_of (0x80 + b), char_of (0x80 + c)]" "viable [char_of (0xF0 + a), char_of (0x80 + b)]"
    "viable [char_of (0xF0 + a)]"
proof -
  have "0x80 \<le> ((a * 64 + b) * 64 + c) * 64 + 0" using assms(4) by (cases "a = 0") auto
  then have "toml_char (((a * 64 + b) * 64 + c) * 64 + 0)" using encodeRune_4(1) [of a b c 0] assms by (intro toml_char_high) auto
  moreover have e: "encodeRune (((a * 64 + b) * 64 + c) * 64 + 0) = [char_of (0xF0 + a), char_of (0x80 + b), char_of (0x80 + c), char_of (0x80 + (0 :: nat))]"
    using assms by (intro encodeRune_4(2)) simp_all
  ultimately show "viable [char_of (0xF0 + a), char_of (0x80 + b), char_of (0x80 + c)]" "viable [char_of (0xF0 + a), char_of (0x80 + b)]"
    "viable [char_of (0xF0 + a)]"
    by - (rule viableI [OF _ e]; simp)+
qed

lemma not_viable: "(\<And>x. Utf8ValidNext (t @ x) = Some 0) \<Longrightarrow> \<not> viable t"
  using viable_next [of t] by fastforce

lemma viable_first:
  assumes "0x80 \<le> bval c" "first ! bval c \<noteq> xx"
  shows "viable [c] \<and> (\<exists>r. toml_char r \<and> hd (encodeRune r) = c \<and> length (encodeRune r) = first ! bval c mod 8)"
  using assms(1) bval_less assms(2)
proof (cases rule: first_cases)
  case (2 a)
  have "c = char_of (0xC0 + a)" using 2(3) by (simp flip: 2(3))
  then show ?thesis using 2 viable_2 [of a] encodeRune_2 [of a 0]
    by (intro conjI exI [of _ "a * 64"]) (auto simp: toml_char_def scalar_def)
next
  case (3 a)
  define b :: nat where "b = (if a = 0 then 32 else 0)"
  have c: "c = char_of (0xE0 + a)" using 3(2) by (simp flip: 3(2))
  have b: "b < 64" "a = 0 \<longrightarrow> 32 \<le> b" "a = 13 \<longrightarrow> b < 32" by (auto simp: b_def)
  have e: "scalar ((a * 64 + b) * 64 + 0)"
    "encodeRune ((a * 64 + b) * 64 + 0) = [char_of (0xE0 + a), char_of (0x80 + b), char_of (0x80 + (0 :: nat))]"
    using 3(1) b by (intro encodeRune_3; simp)+
  have "0x80 \<le> (a * 64 + b) * 64 + 0" by (simp add: b_def)
  then have "toml_char ((a * 64 + b) * 64 + 0)" using e(1) by (intro toml_char_high)
  then show ?thesis using c e(2) 3 viable_3(2) [OF 3(1) b]
    by (intro conjI exI [of _ "(a * 64 + b) * 64 + 0"]) auto
next
  case (4 a)
  define b :: nat where "b = (if a = 0 then 16 else 0)"
  have c: "c = char_of (0xF0 + a)" using 4(2) by (simp flip: 4(2))
  have b: "b < 64" "a = 0 \<longrightarrow> 16 \<le> b" "a = 4 \<longrightarrow> b < 16" by (auto simp: b_def)
  have e: "scalar (((a * 64 + b) * 64 + 0) * 64 + 0)"
    "encodeRune (((a * 64 + b) * 64 + 0) * 64 + 0) =
     [char_of (0xF0 + a), char_of (0x80 + b), char_of (0x80 + (0 :: nat)), char_of (0x80 + (0 :: nat))]"
    using 4(1) b by (intro encodeRune_4; simp)+
  have "0x80 \<le> ((a * 64 + b) * 64 + 0) * 64 + 0" by (simp add: b_def)
  then have "toml_char (((a * 64 + b) * 64 + 0) * 64 + 0)" using e(1) by (intro toml_char_high)
  then show ?thesis using c e(2) 4 viable_4(3) [OF 4(1) b(1) _ b(2,3), of 0]
    by (intro conjI exI [of _ "((a * 64 + b) * 64 + 0) * 64 + 0"]) auto
qed

lemma bad_charI: "\<not> viable (take n q) \<Longrightarrow> viable (take (n - 1) q) \<Longrightarrow> 0 < n \<Longrightarrow> n \<le> length q \<Longrightarrow> bad_char q n"
  by (simp add: bad_char_def)

lemma bad_1:
  "bval c < 0x80 \<Longrightarrow> InvalidAscii c \<Longrightarrow> bad_char (c # q) 1"
  "0x80 \<le> bval c \<Longrightarrow> first ! bval c = xx \<Longrightarrow> bad_char (c # q) 1"
  by (auto simp: Utf8ValidNext_def intro!: bad_charI not_viable)

lemma bad_short:
  "0x80 \<le> bval c \<Longrightarrow> first ! bval c \<noteq> xx \<Longrightarrow> length (c # q) < first ! bval c mod 8 \<Longrightarrow>
   bad_char (c # q) (length (c # q))"
  using viable_first [of c] by (auto simp: bad_char_def)

lemma bad_2:
  "0x80 \<le> bval c \<Longrightarrow> first ! bval c \<noteq> xx \<Longrightarrow>
   bval d < lo (acceptRanges ! (first ! bval c div 16)) \<or> hi (acceptRanges ! (first ! bval c div 16)) < bval d \<Longrightarrow>
   bad_char (c # d # q) 2"
  using viable_first [of c] by (auto simp: Utf8ValidNext_def Let_def intro!: bad_charI not_viable)

lemma viable_second:
  assumes c: "0x80 \<le> bval c" "first ! bval c \<noteq> xx" "3 \<le> first ! bval c mod 8"
    and d: "\<not> (bval d < lo (acceptRanges ! (first ! bval c div 16)) \<or> hi (acceptRanges ! (first ! bval c div 16)) < bval d)"
  shows "viable [c, d]"
proof -
  from c(1) bval_less c(2) show ?thesis
  proof (cases rule: first_cases)
    case (2 a)
    with c(3) show ?thesis by simp
  next
    case (3 a)
    then have "\<not> (bval d < 0x80 \<or> 0xBF < bval d)" and ad: "a = 0 \<longrightarrow> 0xA0 \<le> bval d" "a = 13 \<longrightarrow> bval d \<le> 0x9F"
      using d by (auto split: if_splits)
    then obtain b where b: "b < 64" "d = char_of (0x80 + b)" "bval d = 0x80 + b" using cont_byte by blast
    have "c = char_of (0xE0 + a)" using 3(2) by (simp flip: 3(2))
    then show ?thesis using viable_3(1) [OF 3(1) b(1)] b ad by auto
  next
    case (4 a)
    then have "\<not> (bval d < 0x80 \<or> 0xBF < bval d)" and ad: "a = 0 \<longrightarrow> 0x90 \<le> bval d" "a = 4 \<longrightarrow> bval d \<le> 0x8F"
      using d by (auto split: if_splits)
    then obtain b where b: "b < 64" "d = char_of (0x80 + b)" "bval d = 0x80 + b" using cont_byte by blast
    have "c = char_of (0xF0 + a)" using 4(2) by (simp flip: 4(2))
    then show ?thesis using viable_4(2) [OF 4(1) b(1), of 0] b ad by auto
  qed
qed

lemma viable_third:
  assumes c: "0x80 \<le> bval c" "first ! bval c \<noteq> xx" "first ! bval c mod 8 = 4"
    and d: "\<not> (bval d < lo (acceptRanges ! (first ! bval c div 16)) \<or> hi (acceptRanges ! (first ! bval c div 16)) < bval d)"
    and e: "\<not> (bval e < locb \<or> hicb < bval e)"
  shows "viable [c, d, e]"
proof -
  from c(1) bval_less c(2) show ?thesis
  proof (cases rule: first_cases)
    case (2 a)
    with c(3) show ?thesis by simp
  next
    case (3 a)
    with c(3) show ?thesis by (simp split: if_splits)
  next
    case (4 a)
    then have "\<not> (bval d < 0x80 \<or> 0xBF < bval d)" and ad: "a = 0 \<longrightarrow> 0x90 \<le> bval d" "a = 4 \<longrightarrow> bval d \<le> 0x8F"
      using d by (auto split: if_splits)
    then obtain b where b: "b < 64" "d = char_of (0x80 + b)" "bval d = 0x80 + b" using cont_byte by blast
    have "\<not> (bval e < 0x80 \<or> 0xBF < bval e)" using e by simp
    then obtain b' :: nat where b': "b' < 64" "e = char_of (0x80 + b')" using cont_byte by blast
    have "c = char_of (0xF0 + a)" using 4(2) by (simp flip: 4(2))
    then show ?thesis using viable_4(1) [OF 4(1) b(1) b'(1)] b b' ad by auto
  qed
qed

lemma bad_3:
  assumes "0x80 \<le> bval c" "first ! bval c \<noteq> xx" "3 \<le> first ! bval c mod 8"
    "\<not> (bval d < lo (acceptRanges ! (first ! bval c div 16)) \<or> hi (acceptRanges ! (first ! bval c div 16)) < bval d)"
    "bval e < locb \<or> hicb < bval e"
  shows "bad_char (c # d # e # q) 3"
proof -
  have "\<not> viable [c, d, e]" using assms by (intro not_viable) (auto simp: Utf8ValidNext_def Let_def)
  then show ?thesis using viable_second [OF assms(1-4)] by (simp add: bad_char_def numeral_2_eq_2 numeral_3_eq_3)
qed

lemma bad_4:
  assumes "0x80 \<le> bval c" "first ! bval c \<noteq> xx" "first ! bval c mod 8 = 4"
    "\<not> (bval d < lo (acceptRanges ! (first ! bval c div 16)) \<or> hi (acceptRanges ! (first ! bval c div 16)) < bval d)"
    "\<not> (bval e < locb \<or> hicb < bval e)" "bval f < locb \<or> hicb < bval f"
  shows "bad_char (c # d # e # f # q) 4"
proof -
  have "\<not> viable [c, d, e, f]" using assms by (intro not_viable) (auto simp: Utf8ValidNext_def Let_def)
  then show ?thesis using viable_third [OF assms(1-5)] by (simp add: bad_char_def numeral_2_eq_2 numeral_3_eq_3 numeral_eq_Suc)
qed

text \<open>One round of the second loop does what \<open>Utf8ValidNext\<close> says of the rest of the string.\<close>

definition slow_step :: "byte list \<Rightarrow> nat \<Rightarrow> nat \<Rightarrow> utf8Err option \<Rightarrow> bool" where
  "slow_step p offset i res \<longleftrightarrow>
     (\<exists>n. Utf8ValidNext (drop i p) = Some n \<and> 0 < n \<and> i + n \<le> length p \<and>
        res = utf8_slow_loop p offset (i + n)) \<or>
     (\<exists>e. Utf8ValidNext (drop i p) = Some 0 \<and> res = Some e \<and>
        Index e = offset + i \<and> bad_char (drop i p) (Size e))"

lemma drop_nths:
  assumes "i + n \<le> length p"
  shows "1 \<le> n \<Longrightarrow> drop i p = p ! i # drop (i + 1) p"
    "2 \<le> n \<Longrightarrow> drop i p = p ! i # p ! (i + 1) # drop (i + 2) p"
    "3 \<le> n \<Longrightarrow> drop i p = p ! i # p ! (i + 1) # p ! (i + 2) # drop (i + 3) p"
    "4 \<le> n \<Longrightarrow> drop i p = p ! i # p ! (i + 1) # p ! (i + 2) # p ! (i + 3) # drop (i + 4) p"
  using assms by (simp_all add: Cons_nth_drop_Suc numeral_eq_Suc)

lemma utf8_slow_step:
  assumes "i < length p"
  shows "slow_step p offset i (utf8_slow_loop p offset i)"
proof (cases "bval (p ! i) < 0x80")
  case True
  have "InvalidAscii (p ! i) \<Longrightarrow> bad_char (drop i p) 1" using bad_1(1) [OF True] drop_nths(1) [of i 1 p] assms by simp
  with True assms show ?thesis
    by (auto simp: slow_step_def Utf8ValidNext_def utf8_slow_loop.simps [of p offset i])
next
  case False
  let ?x = "first ! bval (p ! i)"
  note S = slow_step_def Utf8ValidNext_def utf8_slow_loop.simps [of p offset i]
  consider (bad) "?x = xx" | (short) "?x \<noteq> xx" "length p < i + ?x mod 8"
    | (full) "?x \<noteq> xx" "i + ?x mod 8 \<le> length p" by linarith
  then show ?thesis
  proof cases
    case bad
    have "bad_char (drop i p) 1" using bad_1(2) bad False drop_nths(1) [of i 1 p] assms by simp
    with bad False assms show ?thesis by (simp add: S)
  next
    case short
    have "bad_char (drop i p) (length (drop i p))"
      using bad_short [of "p ! i" "drop (i + 1) p"] short False drop_nths(1) [of i 1 p] assms by simp
    with short False assms show ?thesis by (simp add: S less_diff_conv2)
  next
    case full
    let ?a = "acceptRanges ! (?x div 16)" and ?B = "bad_char (drop i p)"
    have h: "0x80 \<le> bval (p ! i)" using False by simp
    from h bval_less full(1) have m: "?x mod 8 = 2 \<or> ?x mod 8 = 3 \<or> ?x mod 8 = 4"
      by (rule first_cases) auto
    note d = drop_nths [OF full(2)]
    have b2: "bval (p ! Suc i) < lo ?a \<or> hi ?a < bval (p ! Suc i) \<Longrightarrow> ?B 2"
      using bad_2 [OF h full(1), of "p ! Suc i"] d(2) m by auto
    have b3: "3 \<le> ?x mod 8 \<Longrightarrow> \<not> (bval (p ! Suc i) < lo ?a \<or> hi ?a < bval (p ! Suc i)) \<Longrightarrow>
      bval (p ! (i + 2)) < locb \<or> hicb < bval (p ! (i + 2)) \<Longrightarrow> ?B 3"
      using bad_3 [OF h full(1), of "p ! Suc i" "p ! (i + 2)"] d(3) by auto
    have b4: "?x mod 8 = 4 \<Longrightarrow> \<not> (bval (p ! Suc i) < lo ?a \<or> hi ?a < bval (p ! Suc i)) \<Longrightarrow>
      \<not> (bval (p ! (i + 2)) < locb \<or> hicb < bval (p ! (i + 2))) \<Longrightarrow>
      bval (p ! (i + 3)) < locb \<or> hicb < bval (p ! (i + 3)) \<Longrightarrow> ?B 4"
      using bad_4 [OF h full(1), of "p ! Suc i" "p ! (i + 2)" "p ! (i + 3)"] d(4) by auto
    from m show ?thesis
      by (elim disjE) (use full False assms b2 b3 b4 in \<open>auto simp: S Let_def\<close>)
  qed
qed

section \<open>The eight-byte test\<close>

lemma mask80_bit: "bit (0x80808080 :: 32 word) n \<longleftrightarrow> n = 7 \<or> n = 15 \<or> n = 23 \<or> n = 31"
proof -
  have "(0x80808080 :: 32 word) = push_bit 7 1 OR push_bit 15 1 OR push_bit 23 1 OR push_bit 31 1"
    by (simp add: push_bit_eq_mult)
  also have "bit \<dots> n \<longleftrightarrow> n = 7 \<or> n = 15 \<or> n = 23 \<or> n = 31"
    by (simp only: bit_or_iff bit_push_bit_iff) (auto simp: bit_simps)
  finally show ?thesis .
qed

lemma mask80: "(x::32 word) AND 0x80808080 \<noteq> 0 \<longleftrightarrow> bit x 7 \<or> bit x 15 \<or> bit x 23 \<or> bit x 31"
proof -
  have "y \<noteq> 0 \<longleftrightarrow> (\<exists>n. bit y n)" for y :: "32 word"
    by (auto intro: bit_word_eqI)
  then have "x AND 0x80808080 \<noteq> 0 \<longleftrightarrow> (\<exists>n. bit (x AND 0x80808080) n)" .
  also have "\<dots> \<longleftrightarrow> (\<exists>n. bit x n \<and> (n = 7 \<or> n = 15 \<or> n = 23 \<or> n = 31))"
    by (simp only: bit_and_iff mask80_bit)
  finally show ?thesis by blast
qed

lemma bit_bval_ge7: 
  assumes "7 \<le> k" shows "bit (bval c) k \<longleftrightarrow> k = 7 \<and> 0x80 \<le> bval c"
proof (cases "k = 7")
  case True
  have "bval c div 128 = 0 \<or> bval c div 128 = 1" using bval_less [of c] by arith
  then show ?thesis using True by (auto simp: bit_iff_odd)
next
  case False
  with assms have "8 \<le> k" by simp
  then have "(2::nat) ^ 8 \<le> 2 ^ k" by (rule power_increasing) simp
  then have "bval c < 2 ^ k" using bval_less [of c] by (simp add: less_le_trans [of _ 256])
  then show ?thesis using False by (simp add: bit_iff_odd)
qed

lemma load32_bit:
  "bit (load32 p i) 7 \<longleftrightarrow> 0x80 \<le> bval (p ! i)"
  "bit (load32 p i) 15 \<longleftrightarrow> 0x80 \<le> bval (p ! (i + 1))"
  "bit (load32 p i) 23 \<longleftrightarrow> 0x80 \<le> bval (p ! (i + 2))"
  "bit (load32 p i) 31 \<longleftrightarrow> 0x80 \<le> bval (p ! (i + 3))"
  unfolding load32_def by (simp_all add: bit_simps bit_bval_ge7)

lemma ex_less_8:
  "(\<exists>i < (8::nat). P i) \<longleftrightarrow> P 0 \<or> P 1 \<or> P 2 \<or> P 3 \<or> P 4 \<or> P 5 \<or> P 6 \<or> P 7"
proof
  assume "\<exists>i < (8::nat). P i"
  then obtain i :: nat where "i < 8" "P i" by blast
  moreover from this have "i = 0 \<or> i = 1 \<or> i = 2 \<or> i = 3 \<or> i = 4 \<or> i = 5 \<or> i = 6 \<or> i = 7"
    by linarith
  ultimately show "P 0 \<or> P 1 \<or> P 2 \<or> P 3 \<or> P 4 \<or> P 5 \<or> P 6 \<or> P 7" by blast
qed (elim disjE; rule exI, rule conjI [rotated], assumption, simp)

lemma non_ascii8_iff:
  assumes "8 \<le> length p"
  shows "non_ascii8 p \<longleftrightarrow> (\<exists>c \<in> set (take 8 p). 0x80 \<le> bval c)"
proof -
  have "non_ascii8 p \<longleftrightarrow> (\<exists>i < 8. 0x80 \<le> bval (p ! i))"
    unfolding non_ascii8_def mask80 bit_or_iff load32_bit ex_less_8
    by (simp add: numeral_2_eq_2 [symmetric]) blast
  also have "\<dots> \<longleftrightarrow> (\<exists>c \<in> set (take 8 p). 0x80 \<le> bval c)"
    using assms by (auto simp: set_conv_nth)
  finally show ?thesis .
qed

lemma find_invalid_None: "find_invalid bs i = None \<longleftrightarrow> (\<forall>c \<in> set bs. \<not> InvalidAscii c)"
  by (induction bs i rule: find_invalid.induct) auto

lemma find_invalid_Some:
  "find_invalid bs i = Some k \<Longrightarrow>
   i \<le> k \<and> k - i < length bs \<and> InvalidAscii (bs ! (k - i)) \<and> (\<forall>c \<in> set (take (k - i) bs). \<not> InvalidAscii c)"
  by (induction bs i rule: find_invalid.induct) (auto split: if_splits simp: Suc_diff_le nth_Cons' take_Cons')

section \<open>The validators against the reference\<close>

text \<open>The texts the reader accepts: concatenations of encoded allowed characters.\<close>

definition toml_text :: "byte list \<Rightarrow> bool" where
  "toml_text p \<longleftrightarrow> (\<exists>rs. (\<forall>r \<in> set rs. toml_char r) \<and> p = concat (map encodeRune rs))"

lemma encodeRune_nonempty [simp]: "encodeRune r \<noteq> []"
  by (simp add: encodeRune_def Let_def)

lemma toml_text_Nil [simp]: "toml_text []"
  unfolding toml_text_def by (rule exI [of _ "[]"]) simp

lemma toml_text_encode: "toml_char r \<Longrightarrow> toml_text p \<Longrightarrow> toml_text (encodeRune r @ p)"
  unfolding toml_text_def by (metis concat.simps(2) list.simps(9) set_ConsD)

lemma toml_text_next:
  assumes "p \<noteq> []"
  shows "toml_text p \<longleftrightarrow> (\<exists>n. Utf8ValidNext p = Some n \<and> 0 < n \<and> toml_text (drop n p))"
proof
  assume "toml_text p"
  with assms obtain r rs where "toml_char r" "\<forall>r \<in> set rs. toml_char r" "p = encodeRune r @ concat (map encodeRune rs)"
    unfolding toml_text_def by (metis concat.simps(1) concat.simps(2) list.exhaust list.set_intros list.simps(8,9))
  then show "\<exists>n. Utf8ValidNext p = Some n \<and> 0 < n \<and> toml_text (drop n p)"
    by (intro exI [of _ "length (encodeRune r)"]) (auto simp: Utf8ValidNext_encode toml_text_def)
next
  assume "\<exists>n. Utf8ValidNext p = Some n \<and> 0 < n \<and> toml_text (drop n p)"
  then show "toml_text p"
    by (metis Utf8ValidNext_decode append_take_drop_id toml_text_encode)
qed

text \<open>
  What the error tells: everything before \<open>Index\<close> is accepted, no allowed character starts there, and
  \<open>Size\<close> bytes of it are the offending ones.
\<close>

definition utf8_report :: "byte list \<Rightarrow> utf8Err \<Rightarrow> bool" where
  "utf8_report p e \<longleftrightarrow> toml_text (take (Index e) p) \<and> \<not> (\<exists>r y. toml_char r \<and> drop (Index e) p = encodeRune r @ y) \<and>
     bad_char (drop (Index e) p) (Size e)"

lemma Utf8ValidNext_0: "Utf8ValidNext q = Some 0 \<Longrightarrow> \<not> (\<exists>r y. toml_char r \<and> q = encodeRune r @ y)"
  using Utf8ValidNext_encode by fastforce

lemma bad_char_bounds: "bad_char q n \<Longrightarrow> 0 < n \<and> n \<le> length q"
  by (simp add: bad_char_def)

lemma utf8_report_append:
  assumes "toml_text pre \<longrightarrow> toml_text (pre @ take (Index e) q)" "toml_text pre" "utf8_report q e"
  shows "utf8_report (pre @ q) (e\<lparr>Index := length pre + Index e\<rparr>)"
  using assms by (simp add: utf8_report_def)

lemma utf8_slow_loop_correct:
  "i \<le> length p \<Longrightarrow> \<exists>e. utf8_slow_loop p offset i = Some e \<and>
     (if toml_text (drop i p) then e = utf8_ok
      else \<exists>k. Index e = offset + i + k \<and> utf8_report (drop i p) (e\<lparr>Index := k\<rparr>))"
proof (induction "length p - i" arbitrary: i rule: less_induct)
  case less
  show ?case
  proof (cases "i < length p")
    case False
    with less.prems show ?thesis
      by (simp add: utf8_slow_loop.simps [of p offset "length p"] utf8_ok_def Zero_def)
  next
    case True
    note st = utf8_slow_step [OF True, of offset, unfolded slow_step_def]
    have ne: "drop i p \<noteq> []" using True by simp
    from st show ?thesis
    proof (elim disjE exE conjE)
      fix n assume n: "Utf8ValidNext (drop i p) = Some n" "0 < n" "i + n \<le> length p"
        "utf8_slow_loop p offset i = utf8_slow_loop p offset (i + n)"
      from n True have "length p - (i + n) < length p - i" by simp
      from less.hyps [OF this n(3)] obtain e where e: "utf8_slow_loop p offset (i + n) = Some e"
        "if toml_text (drop (i + n) p) then e = utf8_ok
         else \<exists>k. Index e = offset + (i + n) + k \<and> utf8_report (drop (i + n) p) (e\<lparr>Index := k\<rparr>)"
        by blast
      obtain r where r: "toml_char r" "n = length (encodeRune r)" "take n (drop i p) = encodeRune r"
        using Utf8ValidNext_decode [OF n(1,2)] by blast
      have d: "drop i p = encodeRune r @ drop (i + n) p"
        by (metis r(3) append_take_drop_id drop_drop add.commute)
      have t: "toml_text (drop i p) \<longleftrightarrow> toml_text (drop (i + n) p)"
        unfolding toml_text_next [OF ne] using n(1,2) by (simp add: add.commute)
      have "utf8_report (drop i p) (e\<lparr>Index := n + k\<rparr>)" if k: "utf8_report (drop (i + n) p) (e\<lparr>Index := k\<rparr>)" for k
        using utf8_report_append [OF _ _ k, of "encodeRune r"] r(1,2) d k toml_text_encode [OF r(1)]
          toml_text_encode [OF r(1) toml_text_Nil] by (simp add: utf8_report_def)
      then have "\<exists>k'. Index e = offset + i + k' \<and> utf8_report (drop i p) (e\<lparr>Index := k'\<rparr>)"
        if "Index e = offset + (i + n) + k" "utf8_report (drop (i + n) p) (e\<lparr>Index := k\<rparr>)" for k
        using that by (intro exI [of _ "n + k"]) simp
      with e n(4) t show ?thesis by (auto split: if_splits)
    next
      fix e assume e: "Utf8ValidNext (drop i p) = Some 0" "utf8_slow_loop p offset i = Some e"
        "Index e = offset + i" "bad_char (drop i p) (Size e)"
      have "\<not> toml_text (drop i p)"
        unfolding toml_text_next [OF ne] using e(1) by simp
      with e Utf8ValidNext_0 [OF e(1)] show ?thesis by (auto simp: utf8_report_def)
    qed
  qed
qed

text \<open>A byte that the fast loop steps over.\<close>

definition plain_ascii :: "byte \<Rightarrow> bool" where
  "plain_ascii c \<longleftrightarrow> bval c < 0x80 \<and> \<not> InvalidAscii c"

lemma toml_text_ascii: "plain_ascii c \<Longrightarrow> toml_text (c # p) \<longleftrightarrow> toml_text p"
  by (simp add: toml_text_next [of "c # p"] Utf8ValidNext_def plain_ascii_def)

lemma toml_text_ascii_append:
  "\<forall>c \<in> set pre. plain_ascii c \<Longrightarrow> toml_text (pre @ p) \<longleftrightarrow> toml_text p"
  by (induction pre) (auto simp: toml_text_ascii)

lemma toml_text_bad_ascii: "bval c < 0x80 \<Longrightarrow> InvalidAscii c \<Longrightarrow> \<not> toml_text (c # p)"
  unfolding toml_text_next [OF list.distinct(2)] by (simp add: Utf8ValidNext_def)

lemma utf8_fast_loop_Inr:
  "utf8_fast_loop p offset = Inr (p', offset') \<Longrightarrow>
   \<exists>pre. p = pre @ p' \<and> offset' = offset + length pre \<and> (\<forall>c \<in> set pre. plain_ascii c)"
proof (induction p offset rule: utf8_fast_loop.induct)
  case (1 p offset)
  show ?case
  proof (cases "8 \<le> length p \<and> \<not> non_ascii8 p")
    case False
    with 1 show ?thesis by (auto simp: utf8_fast_loop.simps [of p offset] split: if_splits)
  next
    case True
    with 1 have n: "find_invalid (take 8 p) 0 = None" and r: "utf8_fast_loop (drop 8 p) (offset + 8) = Inr (p', offset')"
      by (auto simp: utf8_fast_loop.simps [of p offset] split: option.splits)
    from 1 True n r obtain pre where d: "drop 8 p = pre @ p'" "offset' = offset + 8 + length pre" "\<forall>c \<in> set pre. plain_ascii c"
      by blast
    from d(1) have "p = take 8 p @ pre @ p'" by (metis append_take_drop_id)
    moreover have "\<forall>c \<in> set (take 8 p). plain_ascii c"
      using True n by (auto simp: plain_ascii_def non_ascii8_iff find_invalid_None not_le)
    ultimately show ?thesis using True d
      by (intro exI [of _ "take 8 p @ pre"]) auto
  qed
qed

lemma utf8_fast_loop_Inl:
  "utf8_fast_loop p offset = Inl e \<Longrightarrow>
   \<exists>pre c post. p = pre @ c # post \<and> (\<forall>c \<in> set pre. plain_ascii c) \<and> bval c < 0x80 \<and> InvalidAscii c \<and>
     e = \<lparr>Index = offset + length pre, Size = 1\<rparr>"
proof (induction p offset rule: utf8_fast_loop.induct)
  case (1 p offset)
  then have A: "8 \<le> length p" "\<not> non_ascii8 p"
    by (auto simp: utf8_fast_loop.simps [of p offset] split: if_splits)
  show ?case
  proof (cases "find_invalid (take 8 p) 0")
    case None
    with 1 A obtain pre c post where d: "drop 8 p = pre @ c # post" "\<forall>c \<in> set pre. plain_ascii c"
      "bval c < 0x80" "InvalidAscii c" "e = \<lparr>Index = offset + 8 + length pre, Size = 1\<rparr>"
      by (fastforce simp: utf8_fast_loop.simps [of p offset])
    from d(1) have "p = take 8 p @ pre @ c # post" by (metis append_take_drop_id)
    moreover have "\<forall>c \<in> set (take 8 p). plain_ascii c"
      using A None by (auto simp: plain_ascii_def non_ascii8_iff find_invalid_None not_le)
    ultimately show ?thesis using A d
      by (intro exI [of _ "take 8 p @ pre"] exI [of _ c] exI [of _ post]) auto
  next
    case (Some k)
    with 1 A have e: "e = \<lparr>Index = offset + k, Size = 1\<rparr>"
      by (simp add: utf8_fast_loop.simps [of p offset])
    from find_invalid_Some [OF Some] A have k: "k < 8" "InvalidAscii (p ! k)" "\<forall>c \<in> set (take k p). \<not> InvalidAscii c"
      by (auto simp: min_def split: if_splits)
    have "set (take k p) \<subseteq> set (take 8 p)" "p ! k \<in> set (take 8 p)"
      using k(1) A(1) set_take_subset_set_take [of k 8 p] nth_mem [of k "take 8 p"] by auto
    then show ?thesis using A k e
      by (intro exI [of _ "take k p"] exI [of _ "p ! k"] exI [of _ "drop (Suc k) p"])
        (auto simp: plain_ascii_def non_ascii8_iff not_le id_take_nth_drop [symmetric])
  qed
qed

lemma toml_text_ascii_pre: "\<forall>c \<in> set pre. plain_ascii c \<Longrightarrow> toml_text pre"
  using toml_text_ascii_append [of pre "[]"] by simp

lemma Utf8TomlValid_report:
  "\<exists>e. Utf8TomlValidAlreadyEscaped p = Some e \<and> (if toml_text p then e = utf8_ok else utf8_report p e)"
proof (cases "utf8_fast_loop p 0")
  case (Inl e)
  from utf8_fast_loop_Inl [OF this] obtain pre c post where
    e: "p = pre @ c # post" "\<forall>c \<in> set pre. plain_ascii c" "bval c < 0x80" "InvalidAscii c"
      "e = \<lparr>Index = length pre, Size = 1\<rparr>" by auto
  have "Utf8ValidNext (c # post) = Some 0" using e(3,4) by (simp add: Utf8ValidNext_def)
  from Utf8ValidNext_0 [OF this] have "utf8_report p e"
    using e bad_1(1) [OF e(3,4)] toml_text_ascii_pre [OF e(2)] by (simp add: utf8_report_def)
  moreover have "\<not> toml_text p" using e by (simp add: toml_text_ascii_append toml_text_bad_ascii)
  ultimately show ?thesis using Inl by (simp add: Utf8TomlValidAlreadyEscaped_def)
next
  case (Inr s)
  then obtain p' offset where s: "utf8_fast_loop p 0 = Inr (p', offset)" by (cases s) auto
  from utf8_fast_loop_Inr [OF this] obtain pre where
    e: "p = pre @ p'" "offset = length pre" "\<forall>c \<in> set pre. plain_ascii c" by auto
  obtain err where err: "utf8_slow_loop p' offset 0 = Some err"
    "if toml_text p' then err = utf8_ok else \<exists>k. Index err = offset + k \<and> utf8_report p' (err\<lparr>Index := k\<rparr>)"
    using utf8_slow_loop_correct [of 0 p' offset] by (simp only: drop0 add_0_right) blast
  have "utf8_report p err" if "Index err = offset + k" "utf8_report p' (err\<lparr>Index := k\<rparr>)" for k
    using that utf8_report_append [OF _ _ that(2), of pre] e(1,2) toml_text_ascii_pre [OF e(3)]
      toml_text_ascii_append [OF e(3), of "take k p'"] by (simp add: utf8_report_def)
  then show ?thesis using s e err by (auto simp: Utf8TomlValidAlreadyEscaped_def toml_text_ascii_append split: if_splits)
qed

lemma utf8_report_bounds: "utf8_report p e \<Longrightarrow> 0 < Size e \<and> Index e + Size e \<le> length p"
  by (auto simp: utf8_report_def dest: bad_char_bounds)

lemma Utf8TomlValid_spec:
  "\<exists>e. Utf8TomlValidAlreadyEscaped p = Some e \<and> (Zero e \<longleftrightarrow> toml_text p) \<and>
     Index e + Size e \<le> length p"
  using Utf8TomlValid_report [of p] utf8_report_bounds [of p] by (fastforce simp: Zero_def utf8_ok_def split: if_splits)


lemma Utf8ValidNext_Some: "p \<noteq> [] \<Longrightarrow> \<exists>n \<le> length p. Utf8ValidNext p = Some n"
proof -
  assume p: "p \<noteq> []"
  then have i: "0 < length p" by simp
  from utf8_slow_step [OF i, of 0] show ?thesis by (auto simp: slow_step_def dest: bad_char_bounds)
qed

lemma Utf8ValidNext_le: "Utf8ValidNext p = Some n \<Longrightarrow> n \<le> length p"
proof (cases "p = []")
  case True
  moreover assume "Utf8ValidNext p = Some n"
  ultimately show ?thesis by (simp add: Utf8ValidNext_def)
next
  case False
  moreover assume "Utf8ValidNext p = Some n"
  ultimately show ?thesis using Utf8ValidNext_Some [of p] by auto
qed

lemma Utf8ValidNext_None: "Utf8ValidNext p = None \<longleftrightarrow> p = []"
proof
  show "Utf8ValidNext p = None \<Longrightarrow> p = []" using Utf8ValidNext_Some [of p] by fastforce
qed (simp add: Utf8ValidNext_def)

text \<open>
  C11. \<open>Utf8ValidNext\<close> returns a positive size exactly when the slice starts with the UTF-8
  encoding of an allowed character, and the size is that encoding's length.
\<close>

theorem Utf8ValidNext_iff:
  "Utf8ValidNext p = Some n \<and> 0 < n \<longleftrightarrow>
   (\<exists>r. toml_char r \<and> n = length (encodeRune r) \<and> take n p = encodeRune r)"
proof
  assume "Utf8ValidNext p = Some n \<and> 0 < n"
  then show "\<exists>r. toml_char r \<and> n = length (encodeRune r) \<and> take n p = encodeRune r"
    using Utf8ValidNext_decode by blast
next
  assume "\<exists>r. toml_char r \<and> n = length (encodeRune r) \<and> take n p = encodeRune r"
  then obtain r where r: "toml_char r" "n = length (encodeRune r)" "take n p = encodeRune r" by blast
  then have "p = encodeRune r @ drop n p" by (metis append_take_drop_id)
  then have "Utf8ValidNext p = Some n" using Utf8ValidNext_encode [OF r(1), of "drop n p"] r(2) by simp
  with r(2) show "Utf8ValidNext p = Some n \<and> 0 < n" by simp
qed

end
