(* ===== verification/Toml_Scanner.thy ===== *)
theory Toml_Scanner
  imports Toml_Characters
begin

text \<open>
  \<open>utoml/unstable/scanner.go\<close>: the functions that cut one lexical token off the front of the
  remaining document, and the \<open>ParserError\<close> value (\<open>parser.go\<close>) they fail with. Every loop
  over an index of the source is a function with that index as an argument. The lemmas show
  that a scanner returns (it neither panics nor runs on), that what it returns cuts its argument
  in two, that an error highlights a window of the argument, and which token each one takes.
\<close>

section \<open>Errors\<close>

text \<open>
  The message is kept as the format string and its arguments; rendering by \<open>fmt\<close> is left
  out.
\<close>

record ParserError =
  Highlight :: slice
  Message :: "string \<times> int list"
  err_Key :: "string list"

definition NewParserError :: "slice \<Rightarrow> string \<Rightarrow> int list \<Rightarrow> ParserError" where
  "NewParserError highlight format args =
     \<lparr>Highlight = highlight, Message = (format, args), err_Key = []\<rparr>"

lemma Highlight_NewParserError [simp]: "Highlight (NewParserError h f args) = h"
  by (simp add: NewParserError_def)

text \<open>The messages that contain quotes or backslashes.\<close>

definition msg_need_nl :: string where
  "msg_need_nl = ''need a '' @ [c_bs] @ ''n after '' @ [c_bs] @ ''r''"

definition msg_need_char :: string where
  "msg_need_char = ''need a character after '' @ [c_bs]"

definition msg_sq3 :: string where
  "msg_sq3 = [c_sq, c_sq, c_sq] @ '' not allowed in multiline literal string''"

definition msg_end_sq3 :: string where
  "msg_end_sq3 = ''multiline literal string not terminated by '' @ [c_sq, c_sq, c_sq]"

definition msg_dq3 :: string where
  "msg_dq3 = [c_dq, c_dq, c_dq] @ '' not allowed in multiline basic string''"

definition msg_end_dq3 :: string where
  "msg_end_dq3 = ''multiline basic string not terminated by '' @ [c_dq, c_dq, c_dq]"

definition msg_end_dq :: string where
  "msg_end_dq = ''basic string not terminated by '' @ [c_dq]"

definition msg_crlf :: string where
  "msg_crlf = ''windows new line should be '' @ [c_bs] @ ''r'' @ [c_bs] @ ''n''"

section \<open>Scanners\<close>

definition scanFollows :: "slice \<Rightarrow> string \<Rightarrow> bool" where
  "scanFollows b pattern \<longleftrightarrow>
     length pattern \<le> s_len b \<and> take (length pattern) (bytes b) = pattern"

definition scanFollowsMultilineBasicStringDelimiter :: "slice \<Rightarrow> bool" where
  "scanFollowsMultilineBasicStringDelimiter b = scanFollows b [c_dq, c_dq, c_dq]"

definition scanFollowsMultilineLiteralStringDelimiter :: "slice \<Rightarrow> bool" where
  "scanFollowsMultilineLiteralStringDelimiter b = scanFollows b [c_sq, c_sq, c_sq]"

definition scanFollowsTrue :: "slice \<Rightarrow> bool" where
  "scanFollowsTrue b = scanFollows b ''true''"

definition scanFollowsFalse :: "slice \<Rightarrow> bool" where
  "scanFollowsFalse b = scanFollows b ''false''"

definition scanFollowsInf :: "slice \<Rightarrow> bool" where
  "scanFollowsInf b = scanFollows b ''inf''"

definition scanFollowsNan :: "slice \<Rightarrow> bool" where
  "scanFollowsNan b = scanFollows b ''nan''"

definition isUnquotedKeyChar :: "byte \<Rightarrow> bool" where
  "isUnquotedKeyChar r \<longleftrightarrow>
     bval CHR ''A'' \<le> bval r \<and> bval r \<le> bval CHR ''Z'' \<or>
     bval CHR ''a'' \<le> bval r \<and> bval r \<le> bval CHR ''z'' \<or>
     bval CHR ''0'' \<le> bval r \<and> bval r \<le> bval CHR ''9'' \<or> r = CHR ''-'' \<or> r = CHR ''_''"

function scanUnquotedKey_loop :: "slice \<Rightarrow> nat \<Rightarrow> slice \<times> slice" where
  "scanUnquotedKey_loop b i =
     (if i < s_len b then
        if \<not> isUnquotedKeyChar (bytes b ! i) then (s_to b i, s_from b i)
        else scanUnquotedKey_loop b (i + 1)
      else (b, s_from b (s_len b)))"
  by pat_completeness auto
termination by (relation "measure (\<lambda>(b, i). s_len b - i)") auto

definition scanUnquotedKey :: "slice \<Rightarrow> slice \<times> slice" where
  "scanUnquotedKey b = scanUnquotedKey_loop b 0"

text \<open>
  \<open>b[:i], b[i:]\<close> and an error at \<open>b[i:j]\<close>. Both panic where the bounds are outside the slice,
  as reading \<open>b[i]\<close> does (\<open>idx\<close>).
\<close>

definition cut_at :: "slice \<Rightarrow> nat \<Rightarrow> (ParserError, slice \<times> slice) outcome" where
  "cut_at b i = (if i \<le> s_len b then Ok (s_to b i, s_from b i) else Panic)"

definition fail_at :: "slice \<Rightarrow> nat \<Rightarrow> nat \<Rightarrow> string \<Rightarrow> (ParserError, 'a) outcome" where
  "fail_at b i j msg = bind_outcome (slice_chk b i j) (\<lambda>h. Err (NewParserError h msg []))"

lemma cut_at_Ok [simp]: "i \<le> s_len b \<Longrightarrow> cut_at b i = Ok (s_to b i, s_from b i)"
  by (simp add: cut_at_def)

lemma fail_at_Err [simp]: "i \<le> j \<Longrightarrow> j \<le> s_len b \<Longrightarrow> fail_at b i j msg = Err (NewParserError (s_sub b i j) msg [])"
  by (simp add: fail_at_def)

function scanLiteralString_loop :: "slice \<Rightarrow> nat \<Rightarrow> (ParserError, slice \<times> slice) outcome" where
  "scanLiteralString_loop b i =
     (if i < s_len b then
        bind_outcome (idx (bytes b) i) (\<lambda>c.
        if c = c_sq then cut_at b (i + 1)
        else if c = c_nl \<or> c = c_cr then
          fail_at b i (i + 1) ''literal strings cannot have new lines''
        else bind_outcome (or_panic (Utf8ValidNext (drop i (bytes b)))) (\<lambda>size.
          if size = 0 then fail_at b i (i + 1) ''invalid character''
          else scanLiteralString_loop b (i + size)))
      else Err (NewParserError (s_from b (s_len b)) ''unterminated literal string'' []))"
  by pat_completeness auto
termination by (relation "measure (\<lambda>(b, i). s_len b - i)") auto

definition scanLiteralString :: "slice \<Rightarrow> (ParserError, slice \<times> slice) outcome" where
  "scanLiteralString b = scanLiteralString_loop b 1"

text \<open>
  The eager end of the two multiline scanners: \<open>i\<close> is just after three quotes, and up to two
  more quotes belong to the string.
\<close>

definition closing_quotes :: "byte \<Rightarrow> string \<Rightarrow> slice \<Rightarrow> nat \<Rightarrow> (ParserError, nat) outcome" where
  "closing_quotes q msg b i =
     bind_outcome (if s_len b \<le> i then Ok True else bind_outcome (idx (bytes b) i) (\<lambda>c. Ok (c \<noteq> q))) (\<lambda>stop.
       if stop then Ok i
       else bind_outcome (if s_len b \<le> i + 1 then Ok True else bind_outcome (idx (bytes b) (i + 1)) (\<lambda>c. Ok (c \<noteq> q))) (\<lambda>stop.
         if stop then Ok (i + 1)
         else bind_outcome (if i + 2 < s_len b then bind_outcome (idx (bytes b) (i + 2)) (\<lambda>c. Ok (c = q)) else Ok False) (\<lambda>more.
           if more then fail_at b (i - 1) (i + 3) msg else Ok (i + 2))))"

function scanMultilineLiteralString_loop ::
    "slice \<Rightarrow> nat \<Rightarrow> (ParserError, slice \<times> slice) outcome" where
  "scanMultilineLiteralString_loop b i =
     (if i < s_len b then
        bind_outcome (idx (bytes b) i) (\<lambda>c.
        if c = c_sq \<and> scanFollowsMultilineLiteralStringDelimiter (s_from b i) then
          bind_outcome (closing_quotes c_sq msg_sq3 b (i + 3)) (cut_at b)
        else if c = c_cr then
          if s_len b < i + 2 then Err (NewParserError (s_from b (s_len b)) msg_need_nl [])
          else bind_outcome (idx (bytes b) (i + 1)) (\<lambda>d.
            if d \<noteq> c_nl then fail_at b i (i + 2) msg_need_nl
            else scanMultilineLiteralString_loop b (i + 2))
        else bind_outcome (or_panic (Utf8ValidNext (drop i (bytes b)))) (\<lambda>size.
          if size = 0 then fail_at b i (i + 1) ''invalid character''
          else scanMultilineLiteralString_loop b (i + size)))
      else Err (NewParserError (s_from b (s_len b))
             msg_end_sq3 []))"
  by pat_completeness auto
termination by (relation "measure (\<lambda>(b, i). s_len b - i)") auto

definition scanMultilineLiteralString :: "slice \<Rightarrow> (ParserError, slice \<times> slice) outcome" where
  "scanMultilineLiteralString b = scanMultilineLiteralString_loop b 3"

definition scanWindowsNewline :: "slice \<Rightarrow> (ParserError, slice \<times> slice) outcome" where
  "scanWindowsNewline b =
     (if s_len b < 2 then Err (NewParserError b ''windows new line expected'' [])
      else bind_outcome (idx (bytes b) 1) (\<lambda>c.
        if c \<noteq> c_nl then Err (NewParserError b msg_crlf []) else cut_at b 2))"

function scanWhitespace_loop :: "slice \<Rightarrow> nat \<Rightarrow> slice \<times> slice" where
  "scanWhitespace_loop b i =
     (if i < s_len b then
        if bytes b ! i = c_sp \<or> bytes b ! i = c_tab then scanWhitespace_loop b (i + 1)
        else (s_to b i, s_from b i)
      else (b, s_from b (s_len b)))"
  by pat_completeness auto
termination by (relation "measure (\<lambda>(b, i). s_len b - i)") auto

definition scanWhitespace :: "slice \<Rightarrow> slice \<times> slice" where
  "scanWhitespace b = scanWhitespace_loop b 0"

function scanComment_loop :: "slice \<Rightarrow> nat \<Rightarrow> (ParserError, slice \<times> slice) outcome" where
  "scanComment_loop b i =
     (if i < s_len b then
        bind_outcome (idx (bytes b) i) (\<lambda>c.
        if c = c_nl then cut_at b i
        else if c = c_cr then
          bind_outcome (if i + 1 < s_len b then bind_outcome (idx (bytes b) (i + 1)) (\<lambda>d. Ok (d = c_nl)) else Ok False) (\<lambda>crlf.
            if crlf then cut_at b (i + 1)
            else fail_at b i (i + 1) ''invalid character in comment'')
        else bind_outcome (or_panic (Utf8ValidNext (drop i (bytes b)))) (\<lambda>size.
          if size = 0 then
            fail_at b i (i + 1) ''invalid character in comment''
          else scanComment_loop b (i + size)))
      else Ok (b, s_from b (s_len b)))"
  by pat_completeness auto
termination by (relation "measure (\<lambda>(b, i). s_len b - i)") auto

definition scanComment :: "slice \<Rightarrow> (ParserError, slice \<times> slice) outcome" where
  "scanComment b = scanComment_loop b 1"

function scanBasicString_loop ::
    "slice \<Rightarrow> bool \<Rightarrow> nat \<Rightarrow> (ParserError, slice \<times> bool \<times> slice) outcome" where
  "scanBasicString_loop b escaped i =
     (if i < s_len b then
        bind_outcome (idx (bytes b) i) (\<lambda>c.
        if c = c_dq then bind_outcome (cut_at b (i + 1)) (\<lambda>(tok, rest). Ok (tok, escaped, rest))
        else if c = c_nl \<or> c = c_cr then
          fail_at b i (i + 1) ''basic strings cannot have new lines''
        else if c = c_bs then
          if s_len b < i + 2 then
            fail_at b i (i + 1) msg_need_char
          else scanBasicString_loop b True (i + 2)
        else scanBasicString_loop b escaped (i + 1))
      else Err (NewParserError (s_from b (s_len b))
             msg_end_dq []))"
  by pat_completeness auto
termination by (relation "measure (\<lambda>(b, escaped, i). s_len b - i)") auto

definition scanBasicString :: "slice \<Rightarrow> (ParserError, slice \<times> bool \<times> slice) outcome" where
  "scanBasicString b = scanBasicString_loop b False 1"

function scanMultilineBasicString_loop ::
    "slice \<Rightarrow> bool \<Rightarrow> nat \<Rightarrow> (ParserError, slice \<times> bool \<times> slice) outcome" where
  "scanMultilineBasicString_loop b escaped i =
     (if i < s_len b then
        bind_outcome (idx (bytes b) i) (\<lambda>c.
        if c = c_dq \<and> scanFollowsMultilineBasicStringDelimiter (s_from b i) then
          bind_outcome (closing_quotes c_dq msg_dq3 b (i + 3)) (\<lambda>i. bind_outcome (cut_at b i) (\<lambda>(tok, rest). Ok (tok, escaped, rest)))
        else if c = c_bs then
          if s_len b < i + 2 then
            Err (NewParserError (s_from b (s_len b)) msg_need_char [])
          else scanMultilineBasicString_loop b True (i + 2)
        else if c = c_cr then
          if s_len b < i + 2 then Err (NewParserError (s_from b (s_len b)) msg_need_nl [])
          else bind_outcome (idx (bytes b) (i + 1)) (\<lambda>d.
            if d \<noteq> c_nl then fail_at b i (i + 2) msg_need_nl
            else scanMultilineBasicString_loop b escaped (i + 2))
        else scanMultilineBasicString_loop b escaped (i + 1))
      else Err (NewParserError (s_from b (s_len b))
             msg_end_dq3 []))"
  by pat_completeness auto
termination by (relation "measure (\<lambda>(b, escaped, i). s_len b - i)") auto

definition scanMultilineBasicString :: "slice \<Rightarrow> (ParserError, slice \<times> bool \<times> slice) outcome" where
  "scanMultilineBasicString b = scanMultilineBasicString_loop b False 3"

declare scanUnquotedKey_loop.simps [simp del] scanLiteralString_loop.simps [simp del]
  scanMultilineLiteralString_loop.simps [simp del] scanWhitespace_loop.simps [simp del]
  scanComment_loop.simps [simp del] scanBasicString_loop.simps [simp del]
  scanMultilineBasicString_loop.simps [simp del]

section \<open>The checks of indices and bounds never fail\<close>

lemma closing_quotes_eq:
  "0 < i \<Longrightarrow> closing_quotes q msg b i =
     (if s_len b \<le> i \<or> bytes b ! i \<noteq> q then Ok i
      else if s_len b \<le> i + 1 \<or> bytes b ! (i + 1) \<noteq> q then Ok (i + 1)
      else if i + 2 < s_len b \<and> bytes b ! (i + 2) = q then
        Err (NewParserError (s_sub b (i - 1) (i + 3)) msg [])
      else Ok (i + 2))"
  by (simp add: closing_quotes_def)

lemma closing_quotes_cases:
  assumes "i \<le> s_len b" "0 < i"
  obtains (fin) j where "closing_quotes q msg b i = Ok j" "i \<le> j" "j \<le> s_len b" "j \<le> i + 2"
  | (error) e where "closing_quotes q msg b i = Err e" "subslice (Highlight e) b"
proof -
  consider "i = s_len b \<or> bytes b ! i \<noteq> q" | "i < s_len b" "bytes b ! i = q" "i + 1 = s_len b \<or> bytes b ! (i + 1) \<noteq> q"
    | "i + 1 < s_len b" "bytes b ! i = q" "bytes b ! (i + 1) = q" "i + 2 = s_len b \<or> bytes b ! (i + 2) \<noteq> q"
    | "i + 2 < s_len b" "bytes b ! i = q" "bytes b ! (i + 1) = q" "bytes b ! (i + 2) = q"
    using assms by fastforce
  then show ?thesis
  proof cases
    case 4
    with assms show ?thesis by (intro error) (auto simp: closing_quotes_eq intro!: subslice_sub)
  qed (use assms in \<open>auto simp: closing_quotes_eq intro: fin split: if_splits\<close>)
qed

lemma scanFollows3_len: "scanFollows (s_from b i) [x, y, z] \<Longrightarrow> i + 3 \<le> s_len b"
  by (auto simp: scanFollows_def)

lemma scanLiteralString_loop_eq:
  "scanLiteralString_loop b i =
     (if i < s_len b then
        if bytes b ! i = c_sq then Ok (s_to b (i + 1), s_from b (i + 1))
        else if bytes b ! i = c_nl \<or> bytes b ! i = c_cr then
          Err (NewParserError (s_sub b i (i + 1)) ''literal strings cannot have new lines'' [])
        else bind_outcome (or_panic (Utf8ValidNext (drop i (bytes b)))) (\<lambda>size.
          if size = 0 then Err (NewParserError (s_sub b i (i + 1)) ''invalid character'' [])
          else scanLiteralString_loop b (i + size))
      else Err (NewParserError (s_from b (s_len b)) ''unterminated literal string'' []))"
  by (cases "i < s_len b") (simp_all add: scanLiteralString_loop.simps [of b i] cong: if_cong)

lemma scanComment_loop_eq:
  "scanComment_loop b i =
     (if i < s_len b then
        if bytes b ! i = c_nl then Ok (s_to b i, s_from b i)
        else if bytes b ! i = c_cr then
          if i + 1 < s_len b \<and> bytes b ! (i + 1) = c_nl then Ok (s_to b (i + 1), s_from b (i + 1))
          else Err (NewParserError (s_sub b i (i + 1)) ''invalid character in comment'' [])
        else bind_outcome (or_panic (Utf8ValidNext (drop i (bytes b)))) (\<lambda>size.
          if size = 0 then
            Err (NewParserError (s_sub b i (i + 1)) ''invalid character in comment'' [])
          else scanComment_loop b (i + size))
      else Ok (b, s_from b (s_len b)))"
  by (cases "i < s_len b") (simp_all add: scanComment_loop.simps [of b i] cong: if_cong)

lemma scanBasicString_loop_eq:
  "scanBasicString_loop b escaped i =
     (if i < s_len b then
        if bytes b ! i = c_dq then Ok (s_to b (i + 1), escaped, s_from b (i + 1))
        else if bytes b ! i = c_nl \<or> bytes b ! i = c_cr then
          Err (NewParserError (s_sub b i (i + 1)) ''basic strings cannot have new lines'' [])
        else if bytes b ! i = c_bs then
          if s_len b < i + 2 then
            Err (NewParserError (s_sub b i (i + 1)) msg_need_char [])
          else scanBasicString_loop b True (i + 2)
        else scanBasicString_loop b escaped (i + 1)
      else Err (NewParserError (s_from b (s_len b))
             msg_end_dq []))"
  by (cases "i < s_len b") (simp_all add: scanBasicString_loop.simps [of b escaped i] cong: if_cong)

lemma scanMultilineLiteralString_loop_eq:
  "scanMultilineLiteralString_loop b i =
     (if i < s_len b then
        if bytes b ! i = c_sq \<and> scanFollowsMultilineLiteralStringDelimiter (s_from b i) then
          bind_outcome (closing_quotes c_sq msg_sq3 b (i + 3)) (\<lambda>i. Ok (s_to b i, s_from b i))
        else if bytes b ! i = c_cr then
          if s_len b < i + 2 then Err (NewParserError (s_from b (s_len b)) msg_need_nl [])
          else if bytes b ! (i + 1) \<noteq> c_nl then
            Err (NewParserError (s_sub b i (i + 2)) msg_need_nl [])
          else scanMultilineLiteralString_loop b (i + 2)
        else bind_outcome (or_panic (Utf8ValidNext (drop i (bytes b)))) (\<lambda>size.
          if size = 0 then Err (NewParserError (s_sub b i (i + 1)) ''invalid character'' [])
          else scanMultilineLiteralString_loop b (i + size))
      else Err (NewParserError (s_from b (s_len b))
             msg_end_sq3 []))"
proof (cases "i < s_len b \<and> bytes b ! i = c_sq \<and> scanFollowsMultilineLiteralStringDelimiter (s_from b i)")
  case True
  then have "i + 3 \<le> s_len b" "0 < i + 3"
    by (auto simp: scanFollowsMultilineLiteralStringDelimiter_def dest: scanFollows3_len)
  then show ?thesis using True
    by (cases rule: closing_quotes_cases [where q = c_sq and msg = msg_sq3]) (simp_all add: scanMultilineLiteralString_loop.simps [of b i])
next
  case False
  then show ?thesis by (cases "i < s_len b") (auto simp: scanMultilineLiteralString_loop.simps [of b i] cong: if_cong)
qed

lemma scanMultilineBasicString_loop_eq:
  "scanMultilineBasicString_loop b escaped i =
     (if i < s_len b then
        if bytes b ! i = c_dq \<and> scanFollowsMultilineBasicStringDelimiter (s_from b i) then
          bind_outcome (closing_quotes c_dq msg_dq3 b (i + 3)) (\<lambda>i. Ok (s_to b i, escaped, s_from b i))
        else if bytes b ! i = c_bs then
          if s_len b < i + 2 then
            Err (NewParserError (s_from b (s_len b)) msg_need_char [])
          else scanMultilineBasicString_loop b True (i + 2)
        else if bytes b ! i = c_cr then
          if s_len b < i + 2 then Err (NewParserError (s_from b (s_len b)) msg_need_nl [])
          else if bytes b ! (i + 1) \<noteq> c_nl then
            Err (NewParserError (s_sub b i (i + 2)) msg_need_nl [])
          else scanMultilineBasicString_loop b escaped (i + 2)
        else scanMultilineBasicString_loop b escaped (i + 1)
      else Err (NewParserError (s_from b (s_len b))
             msg_end_dq3 []))"
proof (cases "i < s_len b \<and> bytes b ! i = c_dq \<and> scanFollowsMultilineBasicStringDelimiter (s_from b i)")
  case True
  then have "i + 3 \<le> s_len b" "0 < i + 3"
    by (auto simp: scanFollowsMultilineBasicStringDelimiter_def dest: scanFollows3_len)
  then show ?thesis using True
    by (cases rule: closing_quotes_cases [where q = c_dq and msg = msg_dq3]) (simp_all add: scanMultilineBasicString_loop.simps [of b escaped i])
next
  case False
  then show ?thesis by (cases "i < s_len b") (auto simp: scanMultilineBasicString_loop.simps [of b escaped i] cong: if_cong)
qed

lemma cursor_induct:
  assumes "\<And>i. (\<And>j. i < s_len b \<Longrightarrow> i < j \<Longrightarrow> P j) \<Longrightarrow> P i"
  shows "P i"
proof (induction "s_len b - i" arbitrary: i rule: less_induct)
  case less
  show ?case by (rule assms, rule less) simp
qed

section \<open>Every scanner returns a cut of its argument or an error inside it\<close>

definition well_scanned :: "slice \<Rightarrow> (ParserError, slice \<times> slice) outcome \<Rightarrow> bool" where
  "well_scanned b res \<longleftrightarrow>
     (\<exists>tok rest. res = Ok (tok, rest) \<and> splits b tok rest) \<or>
     (\<exists>e. res = Err e \<and> subslice (Highlight e) b)"

definition well_scanned3 :: "slice \<Rightarrow> (ParserError, slice \<times> bool \<times> slice) outcome \<Rightarrow> bool" where
  "well_scanned3 b res \<longleftrightarrow>
     (\<exists>tok esc rest. res = Ok (tok, esc, rest) \<and> splits b tok rest) \<or>
     (\<exists>e. res = Err e \<and> subslice (Highlight e) b)"

lemma splits_all [simp]: "splits b b (s_from b (s_len b))"
  using splitsI [of "s_len b" b] by (simp add: s_to_def)

lemma splits_cut [simp]: "i \<le> s_len b \<Longrightarrow> splits b (s_to b i) (s_from b i)"
  by blast

lemma well_scanned_simps [simp]:
  "well_scanned b (Ok (tok, rest)) \<longleftrightarrow> splits b tok rest"
  "well_scanned b (Err e) \<longleftrightarrow> subslice (Highlight e) b"
  "well_scanned3 b (Ok (tok, esc, rest)) \<longleftrightarrow> splits b tok rest"
  "well_scanned3 b (Err e) \<longleftrightarrow> subslice (Highlight e) b"
  by (auto simp: well_scanned_def well_scanned3_def)

lemmas highlight_in = subslice_sub subslice_from

lemma Utf8ValidNext_drop:
  assumes "i < length xs"
  obtains n where "Utf8ValidNext (drop i xs) = Some n" "i + n \<le> length xs"
  using Utf8ValidNext_Some [of "drop i xs"] assms by auto

lemma scanUnquotedKey_loop_splits: "i \<le> s_len b \<Longrightarrow> case scanUnquotedKey_loop b i of (tok, rest) \<Rightarrow> splits b tok rest"
  by (induction b i rule: scanUnquotedKey_loop.induct) (subst scanUnquotedKey_loop.simps, auto)

lemma scanWhitespace_loop_splits: "i \<le> s_len b \<Longrightarrow> case scanWhitespace_loop b i of (tok, rest) \<Rightarrow> splits b tok rest"
  by (induction b i rule: scanWhitespace_loop.induct) (subst scanWhitespace_loop.simps, auto)

lemma scanLiteralString_loop_well: "well_scanned b (scanLiteralString_loop b i)"
proof (induction i rule: cursor_induct [where b = b])
  case (1 i)
  show ?case
  proof (cases "i < s_len b")
    case True
    then obtain n where "Utf8ValidNext (drop i (bytes b)) = Some n" by (rule Utf8ValidNext_drop)
    with True 1 show ?thesis
      by (subst scanLiteralString_loop_eq) (auto intro!: highlight_in)
  next
    case False
    then show ?thesis by (subst scanLiteralString_loop_eq) (auto intro!: highlight_in)
  qed
qed

lemma scanComment_loop_well: "well_scanned b (scanComment_loop b i)"
proof (induction i rule: cursor_induct [where b = b])
  case (1 i)
  show ?case
  proof (cases "i < s_len b")
    case True
    then obtain n where "Utf8ValidNext (drop i (bytes b)) = Some n" by (rule Utf8ValidNext_drop)
    with True 1 show ?thesis
      by (subst scanComment_loop_eq) (auto intro!: highlight_in)
  next
    case False
    then show ?thesis by (subst scanComment_loop_eq) (auto intro!: highlight_in)
  qed
qed

lemma scanMultilineLiteralString_loop_well: "well_scanned b (scanMultilineLiteralString_loop b i)"
proof (induction i rule: cursor_induct [where b = b])
  case (1 i)
  note S = scanMultilineLiteralString_loop_eq [of b i]
  consider (out) "\<not> i < s_len b"
    | (close) "i < s_len b" "bytes b ! i = c_sq \<and> scanFollowsMultilineLiteralStringDelimiter (s_from b i)"
    | (other) "i < s_len b" "\<not> (bytes b ! i = c_sq \<and> scanFollowsMultilineLiteralStringDelimiter (s_from b i))"
    by blast
  then show ?case
  proof cases
    case close
    then have "i + 3 \<le> s_len b" "0 < i + 3"
      by (auto simp: scanFollowsMultilineLiteralStringDelimiter_def dest: scanFollows3_len)
    then show ?thesis using close S by (cases rule: closing_quotes_cases [where q = c_sq and msg = msg_sq3]) auto
  next
    case other
    then obtain n where "Utf8ValidNext (drop i (bytes b)) = Some n" by (auto elim: Utf8ValidNext_drop)
    with other 1 show ?thesis by (auto simp: S intro!: highlight_in)
  qed (auto simp: S intro!: highlight_in)
qed

lemma scanBasicString_loop_well: "well_scanned3 b (scanBasicString_loop b esc i)"
  by (induction i arbitrary: esc rule: cursor_induct [where b = b])
    (subst scanBasicString_loop_eq, auto intro!: highlight_in)

lemma scanMultilineBasicString_loop_well: "well_scanned3 b (scanMultilineBasicString_loop b esc i)"
proof (induction i arbitrary: esc rule: cursor_induct [where b = b])
  case (1 i)
  note S = scanMultilineBasicString_loop_eq [of b esc i]
  show ?case
  proof (cases "i < s_len b \<and> bytes b ! i = c_dq \<and> scanFollowsMultilineBasicStringDelimiter (s_from b i)")
    case True
    then have "i + 3 \<le> s_len b" "0 < i + 3"
      by (auto simp: scanFollowsMultilineBasicStringDelimiter_def dest: scanFollows3_len)
    then show ?thesis using True S by (cases rule: closing_quotes_cases [where q = c_dq and msg = msg_dq3]) auto
  next
    case False
    with 1 show ?thesis by (auto simp: S intro!: highlight_in)
  qed
qed

lemma scanWindowsNewline_well: "well_scanned b (scanWindowsNewline b)"
  by (auto simp: scanWindowsNewline_def)

lemma scanUnquotedKey_splits: "scanUnquotedKey b = (tok, rest) \<Longrightarrow> splits b tok rest"
  using scanUnquotedKey_loop_splits [of 0 b] by (simp add: scanUnquotedKey_def)

lemma scanWhitespace_splits: "scanWhitespace b = (tok, rest) \<Longrightarrow> splits b tok rest"
  using scanWhitespace_loop_splits [of 0 b] by (simp add: scanWhitespace_def)

lemma scanLiteralString_well: "well_scanned b (scanLiteralString b)"
  unfolding scanLiteralString_def by (rule scanLiteralString_loop_well)

lemma scanMultilineLiteralString_well: "well_scanned b (scanMultilineLiteralString b)"
  unfolding scanMultilineLiteralString_def by (rule scanMultilineLiteralString_loop_well)

lemma scanComment_well: "well_scanned b (scanComment b)"
  unfolding scanComment_def by (rule scanComment_loop_well)

lemma scanBasicString_well: "well_scanned3 b (scanBasicString b)"
  unfolding scanBasicString_def by (rule scanBasicString_loop_well)

lemma scanMultilineBasicString_well: "well_scanned3 b (scanMultilineBasicString b)"
  unfolding scanMultilineBasicString_def by (rule scanMultilineBasicString_loop_well)

lemmas scanner_well = scanLiteralString_well scanMultilineLiteralString_well scanWindowsNewline_well
  scanComment_well scanBasicString_well scanMultilineBasicString_well


section \<open>Which token\<close>

lemma scanUnquotedKey_loop_spec:
  "i \<le> s_len b \<Longrightarrow> \<forall>j < i. isUnquotedKeyChar (bytes b ! j) \<Longrightarrow>
   scanUnquotedKey_loop b i = (let n = length (takeWhile isUnquotedKeyChar (bytes b)) in (s_to b n, s_from b n))"
proof (induction b i rule: scanUnquotedKey_loop.induct)
  case (1 b i)
  note S = scanUnquotedKey_loop.simps [of b i]
  show ?case
  proof (cases "i < s_len b \<and> isUnquotedKeyChar (bytes b ! i)")
    case True
    with 1 have "\<forall>j < i + 1. isUnquotedKeyChar (bytes b ! j)" by (auto simp: less_Suc_eq)
    with 1 True show ?thesis by (simp add: S)
  next
    case False
    with "1.prems" have "takeWhile isUnquotedKeyChar (bytes b) = take i (bytes b)"
      by (intro takeWhile_eq_take_least) auto
    with False "1.prems" show ?thesis by (auto simp: S s_to_def Let_def min_def)
  qed
qed

lemma scanUnquotedKey_spec:
  "scanUnquotedKey b =
     (let n = length (takeWhile isUnquotedKeyChar (bytes b)) in (s_to b n, s_from b n))"
  unfolding scanUnquotedKey_def by (rule scanUnquotedKey_loop_spec) simp_all

abbreviation wschar :: "byte \<Rightarrow> bool" where
  "wschar c \<equiv> c = c_sp \<or> c = c_tab"

lemma scanWhitespace_loop_spec:
  "i \<le> s_len b \<Longrightarrow> \<forall>j < i. wschar (bytes b ! j) \<Longrightarrow>
   scanWhitespace_loop b i = (let n = length (takeWhile wschar (bytes b)) in (s_to b n, s_from b n))"
proof (induction b i rule: scanWhitespace_loop.induct)
  case (1 b i)
  note S = scanWhitespace_loop.simps [of b i]
  show ?case
  proof (cases "i < s_len b \<and> wschar (bytes b ! i)")
    case True
    with 1 have "\<forall>j < i + 1. wschar (bytes b ! j)" by (auto simp: less_Suc_eq)
    with 1 True show ?thesis by (auto simp add: S)
  next
    case False
    with "1.prems" have "takeWhile wschar (bytes b) = take i (bytes b)"
      by (intro takeWhile_eq_take_least) auto
    with False "1.prems" show ?thesis by (auto simp: S s_to_def Let_def min_def)
  qed
qed

lemma scanWhitespace_spec:
  "scanWhitespace b = (let n = length (takeWhile wschar (bytes b)) in (s_to b n, s_from b n))"
  unfolding scanWhitespace_def by (rule scanWhitespace_loop_spec) simp_all

lemma encodeRune_ascii_mem:
  assumes "scalar r" "c \<in> set (encodeRune r)" "bval c < 0x80"
  shows "encodeRune r = [c]"
  using assms(1)
proof (cases rule: scalar_cases)
  case 1 then show ?thesis using assms by (simp add: encodeRune_1)
next
  case (2 a b) then show ?thesis using assms by (auto simp: encodeRune_2)
next
  case (3 x y z) then show ?thesis using assms encodeRune_3(2) [OF 3(1-5)] by auto
next
  case (4 x y z w) then show ?thesis using assms encodeRune_4(2) [OF 4(1-6)] by auto
qed

definition lit_body :: "byte list \<Rightarrow> bool" where
  "lit_body body \<longleftrightarrow> toml_text body \<and> c_sq \<notin> set body \<and> c_nl \<notin> set body \<and> c_cr \<notin> set body"

lemma lit_body_Nil [simp]: "lit_body []"
  by (simp add: lit_body_def)

lemma encodeRune_hd_ascii:
  assumes "toml_char r" "c \<in> set (encodeRune r)" "bval c < 0x80"
  shows "encodeRune r ! 0 = c"
  using encodeRune_ascii_mem [of r c] assms by (auto simp: toml_char_table)

lemma lit_body_step:
  assumes "Utf8ValidNext p = Some n" "0 < n" "p ! 0 \<notin> {c_sq, c_nl, c_cr}" "lit_body q"
  shows "lit_body (take n p @ q)"
proof -
  from Utf8ValidNext_decode [OF assms(1,2)] obtain r where
    r: "toml_char r" "take n p = encodeRune r" by blast
  have "p ! 0 = encodeRune r ! 0" using r(2) assms(2) by (metis nth_take)
  then have "c \<notin> set (encodeRune r)" if "c \<in> {c_sq, c_nl, c_cr}" for c
    using encodeRune_hd_ascii [OF r(1), of c] assms(3) that by auto
  then show ?thesis
    using assms(4) r by (auto simp: lit_body_def toml_text_encode)
qed

lemma lit_body_uncons:
  assumes "lit_body body" "body \<noteq> []"
  obtains r body' where "toml_char r" "body = encodeRune r @ body'" "lit_body body'"
    "body ! 0 \<notin> {c_sq, c_nl, c_cr}"
proof -
  from assms obtain n where n: "Utf8ValidNext body = Some n" "0 < n" "toml_text (drop n body)"
    by (auto simp: lit_body_def toml_text_next)
  from Utf8ValidNext_decode [OF n(1,2)] obtain r where
    r: "toml_char r" "take n body = encodeRune r" by blast
  have "body = encodeRune r @ drop n body" using r(2) by (metis append_take_drop_id)
  moreover have "lit_body (drop n body)"
    using assms(1) n(3) set_drop_subset [of n body] unfolding lit_body_def by blast
  moreover have "body ! 0 \<in> set body" using assms(2) by simp
  then have "body ! 0 \<notin> {c_sq, c_nl, c_cr}" using assms(1) unfolding lit_body_def by auto
  ultimately show ?thesis using that [OF r(1), of "drop n body"] by blast
qed

lemma scanLiteralString_loop_sound:
  "scanLiteralString_loop b i = Ok (tok, rest) \<Longrightarrow>
   \<exists>body post. drop i (bytes b) = body @ c_sq # post \<and> lit_body body \<and>
      tok = s_to b (i + length body + 1) \<and> rest = s_from b (i + length body + 1)"
proof (induction i rule: cursor_induct [where b = b])
  case (1 i)
  from "1.prems" have i: "i < s_len b"
    by (simp add: scanLiteralString_loop_eq [of b i] split: if_splits)
  show ?case
  proof (cases "bytes b ! i = c_sq")
    case True
    then show ?thesis using "1.prems" i
      by (intro exI [of _ "[]"] exI [of _ "drop (Suc i) (bytes b)"])
        (auto simp: scanLiteralString_loop_eq [of b i] drop_nth_cons)
  next
    case False
    with "1.prems" i obtain n where n: "Utf8ValidNext (drop i (bytes b)) = Some n" "0 < n"
      "bytes b ! i \<noteq> c_nl" "bytes b ! i \<noteq> c_cr" "scanLiteralString_loop b (i + n) = Ok (tok, rest)"
      by (auto simp: scanLiteralString_loop_eq [of b i] outcome_simps split: if_splits)
    with "1.IH" [OF i _ n(5)] obtain body post where
      d: "drop (i + n) (bytes b) = body @ c_sq # post" "lit_body body"
      "tok = s_to b (i + n + length body + 1)" "rest = s_from b (i + n + length body + 1)"
      by (auto simp: outcome_simps)
    let ?h = "take n (drop i (bytes b))"
    have "drop i (bytes b) = ?h @ drop n (drop i (bytes b))" by (rule append_take_drop_id [symmetric])
    with d(1) have "drop i (bytes b) = (?h @ body) @ c_sq # post" by (simp add: add.commute)
    moreover have "lit_body (?h @ body)"
      using n False d(2) i by (intro lit_body_step) simp_all
    moreover have "length ?h = n" using Utf8ValidNext_le [OF n(1)] by simp
    ultimately show ?thesis using d(3,4) by (intro exI [of _ "?h @ body"] exI [of _ post]) (simp add: add.assoc)
  qed
qed

lemma scanLiteralString_loop_complete:
  "drop i (bytes b) = body @ c_sq # post \<Longrightarrow> lit_body body \<Longrightarrow>
   scanLiteralString_loop b i = Ok (s_to b (i + length body + 1), s_from b (i + length body + 1))"
proof (induction body arbitrary: i rule: length_induct)
  case (1 body)
  have i: "i < s_len b" using "1.prems"(1) by (metis append_is_Nil_conv drop_eq_Nil list.distinct(1) not_le)
  show ?case
  proof (cases "body = []")
    case True
    then have "bytes b ! i = c_sq" using "1.prems"(1) i by (metis append_Nil hd_drop_conv_nth list.sel(1))
    with True i show ?thesis by (simp add: scanLiteralString_loop_eq [of b i])
  next
    case False
    with "1.prems"(2) obtain r body' where r: "toml_char r" "body = encodeRune r @ body'" "lit_body body'"
      "body ! 0 \<notin> {c_sq, c_nl, c_cr}" by (rule lit_body_uncons)
    have b0: "bytes b ! i = body ! 0" using "1.prems"(1) False i
      by (metis hd_append2 hd_conv_nth hd_drop_conv_nth)
    let ?n = "length (encodeRune r)"
    have "Utf8ValidNext (drop i (bytes b)) = Some ?n"
      using Utf8ValidNext_encode [OF r(1)] "1.prems"(1) r(2) by simp
    moreover have "drop (i + ?n) (bytes b) = body' @ c_sq # post"
      using "1.prems"(1) r(2) by (metis append.assoc append_eq_conv_conj drop_drop add.commute)
    moreover from this have "scanLiteralString_loop b (i + ?n) =
        Ok (s_to b (i + ?n + length body' + 1), s_from b (i + ?n + length body' + 1))"
      using "1.IH" r by simp
    ultimately show ?thesis using i r b0
      by (simp add: scanLiteralString_loop_eq [of b i] add.assoc)
  qed
qed

text \<open>
  C9. \<open>scanLiteralString\<close> (called on a slice that starts with an apostrophe) accepts exactly
  the literal strings: the token ends at the first later apostrophe, and what stands between
  is text without line breaks or apostrophes.
\<close>

theorem scanLiteralString_iff:
  "scanLiteralString b = Ok (tok, rest) \<longleftrightarrow>
   (\<exists>body post. drop 1 (bytes b) = body @ c_sq # post \<and> lit_body body \<and>
      tok = s_to b (length body + 2) \<and> rest = s_from b (length body + 2))"
  using scanLiteralString_loop_sound [of b 1 tok rest] scanLiteralString_loop_complete [of 1 b]
  unfolding scanLiteralString_def by fastforce

text \<open>What may stand between the quotes of a one-line basic string: escapes come in pairs.\<close>

fun basic_body :: "byte list \<Rightarrow> bool" where
  "basic_body [] = True"
| "basic_body (c # r) =
     (if c = c_bs then (case r of [] \<Rightarrow> False | _ # r' \<Rightarrow> basic_body r')
      else c \<notin> {c_dq, c_nl, c_cr} \<and> basic_body r)"

lemma scanBasicString_loop_sound:
  "scanBasicString_loop b esc i = Ok (tok, e, rest) \<Longrightarrow>
   \<exists>body post. drop i (bytes b) = body @ c_dq # post \<and> basic_body body \<and>
      (e \<longleftrightarrow> esc \<or> c_bs \<in> set body) \<and>
      tok = s_to b (i + length body + 1) \<and> rest = s_from b (i + length body + 1)"
proof (induction i arbitrary: esc rule: cursor_induct [where b = b])
  case (1 i)
  note S = scanBasicString_loop_eq [of b esc i]
  from "1.prems" have i: "i < s_len b" by (simp add: S split: if_splits)
  show ?case
  proof (cases "bytes b ! i = c_dq")
    case True
    then show ?thesis using "1.prems" i
      by (intro exI [of _ "[]"] exI [of _ "drop (Suc i) (bytes b)"]) (auto simp: S drop_nth_cons)
  next
    case dq: False
    show ?thesis
    proof (cases "bytes b ! i = c_bs")
      case True
      with "1.prems" i dq have i2: "i + 2 \<le> s_len b" and r: "scanBasicString_loop b True (i + 2) = Ok (tok, e, rest)"
        by (auto simp: S split: if_splits)
      from "1.IH" [OF i _ r] i2 True obtain body post where
        "drop (i + 2) (bytes b) = body @ c_dq # post" "basic_body body" "e"
        "tok = s_to b (i + 2 + length body + 1)" "rest = s_from b (i + 2 + length body + 1)" by auto
      then show ?thesis using True i2
        by (intro exI [of _ "c_bs # bytes b ! (i + 1) # body"] exI [of _ post])
          (auto simp: drop_nth_cons)
    next
      case False
      with "1.prems" i dq have nn: "\<not> (bytes b ! i = c_nl \<or> bytes b ! i = c_cr)"
        and r: "scanBasicString_loop b esc (i + 1) = Ok (tok, e, rest)"
        by (auto simp: S split: if_splits)
      from "1.IH" [OF i _ r] obtain body post where
        "drop (i + 1) (bytes b) = body @ c_dq # post" "basic_body body" "e \<longleftrightarrow> esc \<or> c_bs \<in> set body"
        "tok = s_to b (i + 1 + length body + 1)" "rest = s_from b (i + 1 + length body + 1)" by auto
      then show ?thesis using False dq nn i
        by (intro exI [of _ "bytes b ! i # body"] exI [of _ post]) (auto simp: drop_nth_cons)
    qed
  qed
qed

lemma scanBasicString_loop_complete:
  "drop i (bytes b) = body @ c_dq # post \<Longrightarrow> basic_body body \<Longrightarrow>
   scanBasicString_loop b esc i =
     Ok (s_to b (i + length body + 1), esc \<or> c_bs \<in> set body, s_from b (i + length body + 1))"
proof (induction body arbitrary: i esc rule: basic_body.induct)
  case 1
  have "i < s_len b" using "1.prems"(1) by (metis append_Nil drop_eq_Nil list.distinct(1) not_le)
  then show ?case using 1 by (simp add: scanBasicString_loop_eq [of b esc i] drop_nth_cons)
next
  case (2 c r)
  have i: "i < s_len b" using "2.prems"(1) by (metis append_Cons drop_eq_Nil list.distinct(1) not_le)
  with "2.prems"(1) have c: "bytes b ! i = c" and r: "drop (Suc i) (bytes b) = r @ c_dq # post"
    by (simp_all add: drop_nth_cons)
  show ?case
  proof (cases "c = c_bs")
    case True
    with "2.prems"(2) obtain d r' where d: "r = d # r'" "basic_body r'" by (cases r) auto
    have i1: "Suc i < s_len b" using r d by (metis append_Cons drop_eq_Nil list.distinct(1) not_le)
    with r d have "drop (i + 2) (bytes b) = r' @ c_dq # post" by (simp add: drop_nth_cons)
    with "2.IH"(1) [OF True d(1) this d(2), of True] True d i i1 c show ?thesis
      by (simp add: scanBasicString_loop_eq [of b esc i])
  next
    case False
    with 2 i c r show ?thesis
      by (simp add: scanBasicString_loop_eq [of b esc i])
  qed
qed

end
