(* ===== verification/Toml_Ast.thy ===== *)
theory Toml_Ast
  imports Toml_Scanner
begin

text \<open>
  \<open>utoml/unstable/kind.go\<close>, \<open>ast.go\<close>, \<open>builder.go\<close> and the pointer arithmetic of
  \<open>utoml/internal/danger\<close>. Nodes live in one array; a node refers to its first child and to
  its next sibling by their distance in that array. A \<open>*Node\<close> is modelled by the array's
  contents and an index, so that \<open>danger.Stride\<close> is index arithmetic and reading outside the
  array is a panic of the model. The lemmas give the abstract syntax tree that an array
  represents and show that the builder's operations keep the part of the array they do not
  touch.
\<close>

section \<open>kind.go\<close>

datatype Kind = Invalid | Comment | Key | Table | ArrayTable | KeyValue | Array | InlineTable
  | String | Bool | Float | Integer | LocalDate | LocalTime | LocalDateTime | DateTime

fun Kind_String :: "Kind \<Rightarrow> string" where
  "Kind_String Invalid = ''Invalid''"
| "Kind_String Comment = ''Comment''"
| "Kind_String Key = ''Key''"
| "Kind_String Table = ''Table''"
| "Kind_String ArrayTable = ''ArrayTable''"
| "Kind_String KeyValue = ''KeyValue''"
| "Kind_String Array = ''Array''"
| "Kind_String InlineTable = ''InlineTable''"
| "Kind_String String = ''String''"
| "Kind_String Bool = ''Bool''"
| "Kind_String Float = ''Float''"
| "Kind_String Integer = ''Integer''"
| "Kind_String LocalDate = ''LocalDate''"
| "Kind_String LocalTime = ''LocalTime''"
| "Kind_String LocalDateTime = ''LocalDateTime''"
| "Kind_String DateTime = ''DateTime''"

section \<open>danger.go\<close>

definition maxInt :: nat where
  "maxInt = 2 ^ 63 - 1"

definition SubsliceOffset :: "slice \<Rightarrow> slice \<Rightarrow> ('e, nat) outcome" where
  "SubsliceOffset data sub =
     (if addr sub < addr data then Panic
      else let offset = addr sub - addr data in
        if maxInt < offset then Panic
        else if s_len data < offset then Panic
        else if s_len data < offset + s_len sub then Panic
        else Ok offset)"

section \<open>ast.go\<close>

record Range =
  Offset :: "32 word"
  Length :: "32 word"

definition no_range :: Range where
  "no_range = \<lparr>Offset = 0, Length = 0\<rparr>"

record Node =
  kind :: Kind
  Raw :: Range
  Data :: "byte list"
  "next" :: int
  child :: int

text \<open>A composite literal \<open>Node{Kind: k, Raw: r, Data: d}\<close>.\<close>

definition new_node :: "Kind \<Rightarrow> Range \<Rightarrow> byte list \<Rightarrow> Node" where
  "new_node k r d = \<lparr>kind = k, Raw = r, Data = d, next = 0, child = 0\<rparr>"

text \<open>Reading through a node pointer.\<close>

definition deref :: "Node list \<Rightarrow> int \<Rightarrow> ('e, Node) outcome" where
  "deref ns i = (if 0 \<le> i \<and> i < int (length ns) then Ok (ns ! nat i) else Panic)"

definition Node_Next :: "Node list \<Rightarrow> int \<Rightarrow> ('e, int option) outcome" where
  "Node_Next ns n = bind_outcome (deref ns n) (\<lambda>nd.
     Ok (if next nd = 0 then None else Some (n + next nd)))"

definition Node_Child :: "Node list \<Rightarrow> int \<Rightarrow> ('e, int option) outcome" where
  "Node_Child ns n = bind_outcome (deref ns n) (\<lambda>nd.
     Ok (if child nd = 0 then None else Some (n + child nd)))"

definition Node_Valid :: "int option \<Rightarrow> bool" where
  "Node_Valid n \<longleftrightarrow> n \<noteq> None"

record Iterator =
  started :: bool
  it_node :: "int option"

definition Iterator_Next :: "Node list \<Rightarrow> Iterator \<Rightarrow> ('e, bool \<times> Iterator) outcome" where
  "Iterator_Next ns c =
     (if \<not> started c then Ok (Node_Valid (it_node c), c\<lparr>started := True\<rparr>)
      else case it_node c of
        None \<Rightarrow> Ok (False, c)
      | Some n \<Rightarrow> bind_outcome (Node_Next ns n) (\<lambda>m. Ok (Node_Valid m, c\<lparr>it_node := m\<rparr>)))"

definition Iterator_IsLast :: "Node list \<Rightarrow> Iterator \<Rightarrow> ('e, bool) outcome" where
  "Iterator_IsLast ns c =
     (case it_node c of None \<Rightarrow> Panic
      | Some n \<Rightarrow> bind_outcome (deref ns n) (\<lambda>nd. Ok (next nd = 0)))"

definition Node_Children :: "Node list \<Rightarrow> int \<Rightarrow> ('e, Iterator) outcome" where
  "Node_Children ns n = bind_outcome (Node_Child ns n) (\<lambda>c.
     Ok \<lparr>started = False, it_node = c\<rparr>)"

definition Node_Key :: "Node list \<Rightarrow> int \<Rightarrow> ('e, Iterator) outcome" where
  "Node_Key ns n = bind_outcome (deref ns n) (\<lambda>nd.
     case kind nd of
       KeyValue \<Rightarrow> bind_outcome (Node_Child ns n) (\<lambda>v.
         case v of None \<Rightarrow> Panic
         | Some value \<Rightarrow> bind_outcome (Node_Next ns value) (\<lambda>m.
             Ok \<lparr>started = False, it_node = m\<rparr>))
     | Table \<Rightarrow> Node_Children ns n
     | ArrayTable \<Rightarrow> Node_Children ns n
     | _ \<Rightarrow> Panic)"

definition Node_Value :: "Node list \<Rightarrow> int \<Rightarrow> ('e, int option) outcome" where
  "Node_Value ns n = Node_Child ns n"

section \<open>builder.go\<close>

type_synonym reference = int

definition invalidReference :: reference where
  "invalidReference = - 1"

definition reference_Valid :: "reference \<Rightarrow> bool" where
  "reference_Valid r \<longleftrightarrow> r \<noteq> invalidReference"

record builder =
  nodes :: "Node list"
  lastIdx :: int

definition builder_Reset :: "builder \<Rightarrow> builder" where
  "builder_Reset b = b\<lparr>nodes := take 0 (nodes b), lastIdx := 0\<rparr>"

definition NodeAt :: "builder \<Rightarrow> reference \<Rightarrow> ('e, Node) outcome" where
  "NodeAt b ref = deref (nodes b) ref"

definition Push :: "builder \<Rightarrow> Node \<Rightarrow> builder \<times> reference" where
  "Push b n =
     (let i = int (length (nodes b)) in (b\<lparr>lastIdx := i, nodes := nodes b @ [n]\<rparr>, i))"

text \<open>\<open>nodes[i].f = v\<close> with the bounds check.\<close>

definition upd_node :: "Node list \<Rightarrow> int \<Rightarrow> (Node \<Rightarrow> Node) \<Rightarrow> ('e, Node list) outcome" where
  "upd_node ns i f =
     (if 0 \<le> i \<and> i < int (length ns) then Ok (ns[nat i := f (ns ! nat i)]) else Panic)"

definition PushAndChain :: "builder \<Rightarrow> Node \<Rightarrow> ('e, builder \<times> reference) outcome" where
  "PushAndChain b n =
     (let newIdx = int (length (nodes b)); ns = nodes b @ [n] in
      bind_outcome
        (if 0 \<le> lastIdx b then upd_node ns (lastIdx b) (\<lambda>nd. nd\<lparr>next := newIdx - lastIdx b\<rparr>)
         else Ok ns)
        (\<lambda>ns. Ok (b\<lparr>nodes := ns, lastIdx := newIdx\<rparr>, newIdx)))"

definition AttachChild :: "builder \<Rightarrow> reference \<Rightarrow> reference \<Rightarrow> ('e, builder) outcome" where
  "AttachChild b parent c =
     bind_outcome (upd_node (nodes b) parent (\<lambda>nd. nd\<lparr>child := c - parent\<rparr>))
       (\<lambda>ns. Ok (b\<lparr>nodes := ns\<rparr>))"

definition Chain :: "builder \<Rightarrow> reference \<Rightarrow> reference \<Rightarrow> ('e, builder) outcome" where
  "Chain b frm tgt =
     bind_outcome (upd_node (nodes b) frm (\<lambda>nd. nd\<lparr>next := tgt - frm\<rparr>))
       (\<lambda>ns. Ok (b\<lparr>nodes := ns\<rparr>))"

section \<open>The tree that the array represents\<close>

datatype toml = TNode (t_kind: Kind) (t_data: "byte list") (t_subs: "toml list")

text \<open>The pointer that a relative distance stands for; 0 is the nil pointer.\<close>

definition link :: "int \<Rightarrow> int \<Rightarrow> int option" where
  "link i d = (if d = 0 then None else Some (i + d))"

lemma link_0 [simp]: "link i 0 = None"
  by (simp add: link_def)

lemma link_diff [simp]: "i \<noteq> j \<Longrightarrow> link i (j - i) = Some j"
  by (simp add: link_def)

text \<open>The indices of the nodes of a tree, and of a chain of siblings.\<close>

fun foot :: "Node list \<Rightarrow> int \<Rightarrow> toml \<Rightarrow> int set"
and foots :: "Node list \<Rightarrow> int option \<Rightarrow> toml list \<Rightarrow> int set" where
  "foot ns i (TNode k d ts) = insert i (foots ns (link i (child (ns ! nat i))) ts)"
| "foots ns r [] = {}"
| "foots ns None (t # ts) = {}"
| "foots ns (Some i) (t # ts) = foot ns i t \<union> foots ns (link i (next (ns ! nat i))) ts"

text \<open>
  \<open>repr ns i t\<close>: the node at \<open>i\<close> is the root of tree \<open>t\<close>. \<open>seg ns r ts e\<close>: from pointer
  \<open>r\<close> on, the sibling links lead through trees \<open>ts\<close> to pointer \<open>e\<close>. No node is shared.
\<close>

fun repr :: "Node list \<Rightarrow> int \<Rightarrow> toml \<Rightarrow> bool"
and seg :: "Node list \<Rightarrow> int option \<Rightarrow> toml list \<Rightarrow> int option \<Rightarrow> bool" where
  "repr ns i (TNode k d ts) \<longleftrightarrow>
     0 \<le> i \<and> i < int (length ns) \<and> kind (ns ! nat i) = k \<and> Data (ns ! nat i) = d \<and>
     seg ns (link i (child (ns ! nat i))) ts None \<and>
     i \<notin> foots ns (link i (child (ns ! nat i))) ts"
| "seg ns r [] e \<longleftrightarrow> r = e"
| "seg ns None (t # ts) e \<longleftrightarrow> False"
| "seg ns (Some i) (t # ts) e \<longleftrightarrow>
     repr ns i t \<and> seg ns (link i (next (ns ! nat i))) ts e \<and>
     foot ns i t \<inter> foots ns (link i (next (ns ! nat i))) ts = {}"

lemma foot_root [simp]: "i \<in> foot ns i t"
  by (cases t) simp

lemma repr_range: "repr ns i t \<Longrightarrow> 0 \<le> i \<and> i < int (length ns)"
  by (cases t) simp

lemma foots_append: "seg ns r xs m \<Longrightarrow> foots ns r (xs @ ys) = foots ns r xs \<union> foots ns m ys"
proof (induction xs arbitrary: r)
  case (Cons x xs)
  then show ?case by (cases r) auto
qed simp

lemma seg_append:
  "seg ns r (xs @ ys) e \<longleftrightarrow> (\<exists>m. seg ns r xs m \<and> seg ns m ys e \<and> foots ns r xs \<inter> foots ns m ys = {})"
proof (induction xs arbitrary: r)
  case (Cons x xs)
  then show ?case by (cases r) (auto simp: foots_append Int_Un_distrib Int_Un_distrib2)
qed simp

text \<open>A tree depends on its nodes only, and not on the sibling link of its root.\<close>

lemma repr_frame:
  "repr ns i t \<Longrightarrow> length ns \<le> length ns' \<Longrightarrow> (\<forall>j \<in> foot ns i t. j \<noteq> i \<longrightarrow> ns' ! nat j = ns ! nat j) \<Longrightarrow>
   kind (ns' ! nat i) = kind (ns ! nat i) \<Longrightarrow> Data (ns' ! nat i) = Data (ns ! nat i) \<Longrightarrow>
   child (ns' ! nat i) = child (ns ! nat i) \<Longrightarrow> repr ns' i t \<and> foot ns' i t = foot ns i t"
and seg_frame:
  "seg ns r ts e \<Longrightarrow> length ns \<le> length ns' \<Longrightarrow> (\<forall>j \<in> foots ns r ts. ns' ! nat j = ns ! nat j) \<Longrightarrow>
   seg ns' r ts e \<and> foots ns' r ts = foots ns r ts"
proof (induction ns i t and ns r ts e rule: repr_seg.induct)
  case (1 ns i k d ts)
  let ?r = "link i (child (ns ! nat i))"
  from "1.prems"(1) have i: "i \<notin> foots ns ?r ts" and sg: "seg ns ?r ts None" by simp_all
  then have "\<forall>j \<in> foots ns ?r ts. ns' ! nat j = ns ! nat j" using "1.prems"(3) by auto
  with "1.IH" [OF sg "1.prems"(2)] have "seg ns' ?r ts None \<and> foots ns' ?r ts = foots ns ?r ts" by blast
  with 1 i show ?case by simp
next
  case (4 ns i t ts e)
  let ?r = "link i (next (ns ! nat i))"
  have j: "\<forall>j \<in> foot ns i t \<union> foots ns ?r ts. ns' ! nat j = ns ! nat j" using "4.prems"(3) by simp
  then have e: "ns' ! nat i = ns ! nat i" by simp
  have "repr ns' i t \<and> foot ns' i t = foot ns i t"
    using 4 j by (intro "4.IH"(1)) (simp_all add: e)
  moreover have "seg ns' ?r ts e \<and> foots ns' ?r ts = foots ns ?r ts"
    using 4 j by (intro "4.IH"(2)) simp_all
  ultimately show ?case using "4.prems"(1) e by simp
qed auto


text \<open>\<open>keeps n ns ns'\<close>: the array has only grown, and its first \<open>n\<close> nodes are as before.\<close>

definition keeps :: "int \<Rightarrow> Node list \<Rightarrow> Node list \<Rightarrow> bool" where
  "keeps n ns ns' \<longleftrightarrow> length ns \<le> length ns' \<and> (\<forall>j. 0 \<le> j \<and> j < n \<longrightarrow> ns' ! nat j = ns ! nat j)"

lemma keeps_refl [simp]: "keeps n ns ns"
  by (simp add: keeps_def)

lemma keeps_trans: "keeps n ns ns' \<Longrightarrow> keeps m ns' ns'' \<Longrightarrow> n \<le> m \<Longrightarrow> keeps n ns ns''"
  by (simp add: keeps_def)

lemma keeps_mono: "keeps m ns ns' \<Longrightarrow> n \<le> m \<Longrightarrow> keeps n ns ns'"
  by (simp add: keeps_def)

lemma keeps_append [simp]: "n \<le> int (length ns) \<Longrightarrow> keeps n ns (ns @ ms)"
  by (auto simp: keeps_def nth_append)

lemma keeps_update: "n \<le> i \<Longrightarrow> 0 \<le> i \<Longrightarrow> keeps n ns (ns[nat i := v])"
  by (auto simp: keeps_def nth_list_update)

text \<open>A tree built in the block of indices from \<open>a\<close> to \<open>b\<close>, not yet followed by a sibling.\<close>

definition built :: "Node list \<Rightarrow> int \<Rightarrow> int \<Rightarrow> int \<Rightarrow> toml \<Rightarrow> bool" where
  "built ns a b c t \<longleftrightarrow> repr ns c t \<and> next (ns ! nat c) = 0 \<and> foot ns c t \<subseteq> {a..<b}"

text \<open>A chain of siblings from pointer \<open>r\<close> on that can still grow at its last node \<open>l\<close>.\<close>

definition chn :: "Node list \<Rightarrow> int option \<Rightarrow> toml list \<Rightarrow> int \<Rightarrow> int \<Rightarrow> int \<Rightarrow> bool" where
  "chn ns r ts l a b \<longleftrightarrow> (\<exists>ts0 t. ts = ts0 @ [t] \<and> seg ns r ts0 (Some l) \<and> repr ns l t \<and>
     next (ns ! nat l) = 0 \<and> foots ns r ts0 \<inter> foot ns l t = {} \<and>
     foots ns r ts0 \<subseteq> {a..<b} \<and> foot ns l t \<subseteq> {a..<b})"

lemma chn_seg: "chn ns r ts l a b \<Longrightarrow> seg ns r ts None \<and> foots ns r ts \<subseteq> {a..<b}"
proof -
  assume "chn ns r ts l a b"
  then obtain ts0 t where r: "ts = ts0 @ [t]" "seg ns r ts0 (Some l)" "repr ns l t"
    "next (ns ! nat l) = 0" "foots ns r ts0 \<inter> foot ns l t = {}"
    "foots ns r ts0 \<subseteq> {a..<b}" "foot ns l t \<subseteq> {a..<b}" by (auto simp: chn_def)
  have "seg ns r (ts0 @ [t]) None" unfolding seg_append
    by (rule exI [of _ "Some l"]) (use r in simp)
  moreover have "foots ns r (ts0 @ [t]) = foots ns r ts0 \<union> foot ns l t"
    using r by (simp add: foots_append)
  ultimately show ?thesis using r by (simp add: Un_least)
qed

lemma chn_last: "chn ns r ts l a b \<Longrightarrow> a \<le> l \<and> l < b \<and> 0 \<le> l \<and> l < int (length ns) \<and> ts \<noteq> []"
proof -
  assume "chn ns r ts l a b"
  then obtain ts0 t where r: "ts = ts0 @ [t]" "repr ns l t" "foot ns l t \<subseteq> {a..<b}"
    unfolding chn_def by blast
  then have "l \<in> {a..<b}" using foot_root by blast
  with r repr_range [OF r(2)] show ?thesis by simp
qed

lemma chn_single: "built ns a b c t \<Longrightarrow> chn ns (Some c) [t] c a b"
  unfolding built_def chn_def by (intro exI [of _ "[]"]) auto

lemma built_range: "built ns a b c t \<Longrightarrow> a \<le> c \<and> c < b \<and> 0 \<le> c \<and> c < int (length ns)"
proof -
  assume "built ns a b c t"
  then have r: "repr ns c t" "foot ns c t \<subseteq> {a..<b}" unfolding built_def by blast+
  then have "c \<in> {a..<b}" using foot_root by blast
  with repr_range [OF r(1)] show ?thesis by simp
qed

lemma built_mono: "built ns a b c t \<Longrightarrow> a' \<le> a \<Longrightarrow> b \<le> b' \<Longrightarrow> built ns a' b' c t"
  unfolding built_def by fastforce

lemma repr_pos: 
  "repr ns i t \<Longrightarrow> foot ns i t \<subseteq> {0..<int (length ns)}"
  "seg ns r ts e \<Longrightarrow> foots ns r ts \<subseteq> {0..<int (length ns)}"
  by (induction ns i t and ns r ts e rule: repr_seg.induct) auto

lemma keeps_eq:
  "keeps b ns ns' \<Longrightarrow> X \<subseteq> {a..<b} \<Longrightarrow> X \<subseteq> {0..<int (length ns)} \<Longrightarrow> j \<in> X \<Longrightarrow> ns' ! nat j = ns ! nat j"
  unfolding keeps_def by fastforce

lemma built_keeps:
  assumes "built ns a b c t" "keeps b ns ns'" shows "built ns' a b c t"
proof -
  from assms have r: "repr ns c t" "foot ns c t \<subseteq> {a..<b}" "next (ns ! nat c) = 0" by (auto simp: built_def)
  note eq = keeps_eq [OF assms(2) r(2) repr_pos(1) [OF r(1)]]
  have c: "ns' ! nat c = ns ! nat c" by (rule eq) simp
  from eq c r assms(2) have "repr ns' c t \<and> foot ns' c t = foot ns c t"
    by (intro repr_frame) (auto simp: keeps_def)
  with r c show ?thesis by (simp add: built_def)
qed

lemma chn_keeps:
  assumes "chn ns r ts l a b" "keeps b ns ns'" shows "chn ns' r ts l a b"
proof -
  from assms obtain ts0 t where r: "ts = ts0 @ [t]" "seg ns r ts0 (Some l)" "repr ns l t"
    "next (ns ! nat l) = 0" "foots ns r ts0 \<inter> foot ns l t = {}"
    "foots ns r ts0 \<subseteq> {a..<b}" "foot ns l t \<subseteq> {a..<b}" by (auto simp: chn_def)
  have "built ns' a b l t" by (rule built_keeps [OF _ assms(2)]) (use r in \<open>simp add: built_def\<close>)
  moreover have "seg ns' r ts0 (Some l) \<and> foots ns' r ts0 = foots ns r ts0"
    using r(2) keeps_eq [OF assms(2) r(6) repr_pos(2) [OF r(2)]] assms(2)
    by (intro seg_frame) (auto simp: keeps_def)
  moreover have "foot ns' l t = foot ns l t"
    using r(3) keeps_eq [OF assms(2) r(7) repr_pos(1) [OF r(3)]] assms(2)
    by (intro conjunct2 [OF repr_frame]) (auto simp: keeps_def)
  ultimately show ?thesis using r unfolding chn_def built_def by auto
qed

lemma chn_snoc:
  assumes "chn ns r ts l a b" "built ns b b' c t" "a \<le> b"
  shows "chn (ns[nat l := (ns ! nat l)\<lparr>next := c - l\<rparr>]) r (ts @ [t]) c a b'"
proof -
  let ?ns = "ns[nat l := (ns ! nat l)\<lparr>next := c - l\<rparr>]"
  from assms(1) obtain ts0 u where r: "ts = ts0 @ [u]" "seg ns r ts0 (Some l)" "repr ns l u"
    "next (ns ! nat l) = 0" "foots ns r ts0 \<inter> foot ns l u = {}"
    "foots ns r ts0 \<subseteq> {a..<b}" "foot ns l u \<subseteq> {a..<b}" by (auto simp: chn_def)
  from assms(2) have t: "repr ns c t" "next (ns ! nat c) = 0" "foot ns c t \<subseteq> {b..<b'}"
    by (auto simp: built_def)
  have l: "0 \<le> l" "l < int (length ns)" "l < b" using chn_last [OF assms(1)] by auto
  have cb: "b \<le> c" "c < b'" using built_range [OF assms(2)] by auto
  have upd: "?ns ! nat j = ns ! nat j" if "j \<noteq> l" "0 \<le> j" for j
    using that l by (simp add: nth_list_update nat_eq_iff2)
  have nl: "nat l < length ns" using l by simp
  have updX: "\<forall>j \<in> X. j \<noteq> l \<longrightarrow> ?ns ! nat j = ns ! nat j" if "X \<subseteq> {0..<int (length ns)}" for X
    using upd that by fastforce
  have l0: "l \<notin> foots ns r ts0" "l \<notin> foot ns c t"
    using r(5) foot_root [of l ns u] t(3) l(3) by auto
  have s0: "seg ?ns r ts0 (Some l) \<and> foots ?ns r ts0 = foots ns r ts0"
    using r(2) updX [OF repr_pos(2) [OF r(2)]] l0(1) by (intro seg_frame) auto
  have su: "repr ?ns l u \<and> foot ?ns l u = foot ns l u"
    using r(3) updX [OF repr_pos(1) [OF r(3)]] nl by (intro repr_frame) auto
  have st: "repr ?ns c t \<and> foot ?ns c t = foot ns c t"
    using t(1) updX [OF repr_pos(1) [OF t(1)]] upd [of c] l0(2) cb l by (intro repr_frame) auto
  have lk: "link l (next (?ns ! nat l)) = Some c" using nl cb l(3) by simp
  have n: "next (?ns ! nat c) = 0" using upd [of c] cb l t(2) by simp
  have dis: "foots ns r ts0 \<inter> foot ns c t = {}" "foot ns l u \<inter> foot ns c t = {}" using r(6,7) t(3) by fastforce+
  have "seg ?ns r (ts0 @ [u]) (Some c)" unfolding seg_append
    by (rule exI [of _ "Some l"]) (use s0 su lk r(5) in \<open>simp add: seg.simps\<close>)
  moreover have "foots ?ns r (ts0 @ [u]) = foots ns r ts0 \<union> foot ns l u"
    using s0 su foots_append [of ?ns r ts0 "Some l" "[u]"] by simp
  ultimately show ?thesis unfolding chn_def r(1)
    by (intro exI [of _ "ts0 @ [u]"] exI [of _ t]) (use st n dis r(6,7) t(3) assms(3) cb in auto)
qed

lemma chn_hd: "chn ns (Some c) ts l a b \<Longrightarrow> a \<le> c \<and> c < b"
proof -
  assume c: "chn ns (Some c) ts l a b"
  then obtain t ts' where "ts = t # ts'" using chn_last [OF c] by (cases ts) auto
  with chn_seg [OF c] have "foot ns c t \<subseteq> {a..<b}" by simp
  then have "c \<in> {a..<b}" using foot_root by blast
  then show ?thesis by simp
qed

text \<open>A value built after a chain of keys and put in front of it.\<close>

lemma chn_cons:
  assumes "chn ns (Some key) ks l a b" "built ns b b' v t" "a \<le> b"
  shows "chn (ns[nat v := (ns ! nat v)\<lparr>next := key - v\<rparr>]) (Some v) (t # ks) l a b'"
proof -
  let ?ns = "ns[nat v := (ns ! nat v)\<lparr>next := key - v\<rparr>]"
  from assms(1) obtain ts0 u where r: "ks = ts0 @ [u]" "seg ns (Some key) ts0 (Some l)" "repr ns l u"
    "next (ns ! nat l) = 0" "foots ns (Some key) ts0 \<inter> foot ns l u = {}"
    "foots ns (Some key) ts0 \<subseteq> {a..<b}" "foot ns l u \<subseteq> {a..<b}" by (auto simp: chn_def)
  from assms(2) have t: "repr ns v t" "foot ns v t \<subseteq> {b..<b'}" by (auto simp: built_def)
  have v: "b \<le> v" "v < b'" "0 \<le> v" "v < int (length ns)" using built_range [OF assms(2)] by auto
  have l: "l < b" "0 \<le> l" using chn_last [OF assms(1)] by auto
  have key: "key < b" using chn_hd [OF assms(1)] by simp
  have upd: "\<forall>j \<in> X. j \<noteq> v \<longrightarrow> ?ns ! nat j = ns ! nat j" if "X \<subseteq> {0..<int (length ns)}" for X
    using that v by (auto simp: nth_list_update nat_eq_iff2)
  have v0: "v \<notin> foots ns (Some key) ts0" "v \<notin> foot ns l u" using r(6,7) v by auto
  have s0: "seg ?ns (Some key) ts0 (Some l) \<and> foots ?ns (Some key) ts0 = foots ns (Some key) ts0"
    using r(2) upd [OF repr_pos(2) [OF r(2)]] v0(1) by (intro seg_frame) auto
  have el: "?ns ! nat l = ns ! nat l" using l v by (simp add: nth_list_update nat_eq_iff2)
  have su: "repr ?ns l u \<and> foot ?ns l u = foot ns l u"
    using r(3) upd [OF repr_pos(1) [OF r(3)]] v0(2) el by (intro repr_frame) auto
  have st: "repr ?ns v t \<and> foot ?ns v t = foot ns v t"
    using t(1) upd [OF repr_pos(1) [OF t(1)]] v by (intro repr_frame) auto
  have lk: "link v (next (?ns ! nat v)) = Some key" using v key by simp
  have dis: "foot ns v t \<inter> foots ns (Some key) ts0 = {}" "foot ns v t \<inter> foot ns l u = {}"
    using r(6,7) t(2) by fastforce+
  have "seg ?ns (Some v) (t # ts0) (Some l)" "foots ?ns (Some v) (t # ts0) = foot ns v t \<union> foots ns (Some key) ts0"
    using s0 st lk dis by simp_all
  then show ?thesis unfolding chn_def r(1)
    by (intro exI [of _ "t # ts0"] exI [of _ u])
      (use su el r(4-7) dis t(2) v assms(3) in \<open>auto simp: Int_Un_distrib2\<close>)
qed

text \<open>
  A node that children are being added to: it was pushed before them, \<open>l\<close> is the last of them,
  and \<open>b\<close> bounds the block they fill.
\<close>

definition opn :: "Node list \<Rightarrow> int \<Rightarrow> Kind \<Rightarrow> byte list \<Rightarrow> toml list \<Rightarrow> int \<Rightarrow> int \<Rightarrow> bool" where
  "opn ns i k d ts l b \<longleftrightarrow> 0 \<le> i \<and> i < b \<and> b \<le> int (length ns) \<and>
     kind (ns ! nat i) = k \<and> Data (ns ! nat i) = d \<and> next (ns ! nat i) = 0 \<and>
     (ts = [] \<and> child (ns ! nat i) = 0 \<or> chn ns (link i (child (ns ! nat i))) ts l (i + 1) b)"

lemma opn_built: "opn ns i k d ts l b \<Longrightarrow> built ns i b i (TNode k d ts)"
  unfolding opn_def built_def using chn_seg by fastforce

lemma opn_keeps: "opn ns i k d ts l b \<Longrightarrow> keeps b ns ns' \<Longrightarrow> opn ns' i k d ts l b"
  unfolding opn_def using chn_keeps by (fastforce simp: keeps_def)

lemma chn_mono: "chn ns r ts l a b \<Longrightarrow> a' \<le> a \<Longrightarrow> b \<le> b' \<Longrightarrow> chn ns r ts l a' b'"
  unfolding chn_def by fastforce

lemma opn_mono: "opn ns i k d ts l b \<Longrightarrow> b \<le> b' \<Longrightarrow> b' \<le> int (length ns) \<Longrightarrow> opn ns i k d ts l b'"
  unfolding opn_def using chn_mono [of ns _ ts l "i + 1" b "i + 1" b'] by auto

lemma opn_attach:
  assumes "opn ns i k d [] l0 b" "chn ns (Some c) ts l b b'" "b' \<le> int (length ns)"
  shows "opn (ns[nat i := (ns ! nat i)\<lparr>child := c - i\<rparr>]) i k d ts l b'"
proof -
  let ?ns = "ns[nat i := (ns ! nat i)\<lparr>child := c - i\<rparr>]"
  from assms(1) have i: "0 \<le> i" "i < b" "b \<le> int (length ns)" by (auto simp: opn_def)
  have c: "b \<le> c" "c < b'" using chn_hd [OF assms(2)] by auto
  from assms(2) obtain ts0 u where r: "ts = ts0 @ [u]" "seg ns (Some c) ts0 (Some l)" "repr ns l u"
    "next (ns ! nat l) = 0" "foots ns (Some c) ts0 \<inter> foot ns l u = {}"
    "foots ns (Some c) ts0 \<subseteq> {b..<b'}" "foot ns l u \<subseteq> {b..<b'}" by (auto simp: chn_def)
  have l: "b \<le> l" using chn_last [OF assms(2)] by simp
  have upd: "\<forall>j \<in> X. ?ns ! nat j = ns ! nat j" if "X \<subseteq> {b..<b'}" for X
    using that i by (auto simp: nth_list_update nat_eq_iff2)
  have el: "?ns ! nat l = ns ! nat l" using l i by (simp add: nth_list_update nat_eq_iff2)
  have "seg ?ns (Some c) ts0 (Some l) \<and> foots ?ns (Some c) ts0 = foots ns (Some c) ts0"
    using r(2) upd [OF r(6)] by (intro seg_frame) auto
  moreover have "repr ?ns l u \<and> foot ?ns l u = foot ns l u"
    using r(3) upd [OF r(7)] el by (intro repr_frame) auto
  ultimately have "chn ?ns (Some c) ts l b b'" unfolding chn_def r(1) using r(4-7) el by auto
  then have "chn ?ns (Some c) ts l (i + 1) b'" by (rule chn_mono) (use i in auto)
  moreover have "link i (child (?ns ! nat i)) = Some c" using i c by simp
  ultimately show ?thesis using assms i c by (auto simp: opn_def)
qed

lemma opn_chain:
  assumes "opn ns i k d ts l b" "ts \<noteq> []" "built ns b b' c t" "b' \<le> int (length ns)"
  shows "opn (ns[nat l := (ns ! nat l)\<lparr>next := c - l\<rparr>]) i k d (ts @ [t]) c b'"
proof -
  let ?ns = "ns[nat l := (ns ! nat l)\<lparr>next := c - l\<rparr>]"
  from assms(1,2) have ch: "chn ns (link i (child (ns ! nat i))) ts l (i + 1) b" and i: "0 \<le> i" "i < b"
    by (auto simp: opn_def)
  have "chn ?ns (link i (child (ns ! nat i))) (ts @ [t]) c (i + 1) b'"
    by (rule chn_snoc [OF ch assms(3)]) (use i in simp)
  moreover have "?ns ! nat i = ns ! nat i" using chn_last [OF ch] i by (simp add: nth_list_update nat_eq_iff2)
  ultimately show ?thesis using assms built_range [OF assms(3)] by (auto simp: opn_def)
qed

section \<open>The builder's operations on represented trees\<close>

lemma AttachChild_Ok:
  "0 \<le> i \<Longrightarrow> i < int (length (nodes bd)) \<Longrightarrow>
   AttachChild bd i c = Ok (bd\<lparr>nodes := (nodes bd)[nat i := (nodes bd ! nat i)\<lparr>child := c - i\<rparr>]\<rparr>)"
  by (simp add: AttachChild_def upd_node_def)

lemma Chain_Ok:
  "0 \<le> i \<Longrightarrow> i < int (length (nodes bd)) \<Longrightarrow>
   Chain bd i c = Ok (bd\<lparr>nodes := (nodes bd)[nat i := (nodes bd ! nat i)\<lparr>next := c - i\<rparr>]\<rparr>)"
  by (simp add: Chain_def upd_node_def)

lemma nodes_Push [simp]: "nodes (fst (Push bd n)) = nodes bd @ [n]"
  by (simp add: Push_def Let_def)

lemma ref_Push [simp]: "snd (Push bd n) = int (length (nodes bd))"
  by (simp add: Push_def Let_def)

lemma opn_Push:
  "opn (nodes bd @ [new_node k r d]) (int (length (nodes bd))) k d [] l (int (length (nodes bd)) + 1)"
  by (simp add: opn_def new_node_def)

section \<open>Walking the tree with an iterator\<close>

text \<open>
  The loop \<open>for it.Next() { ... it.Node() ... }\<close> of the package's clients: the nodes it visits.
\<close>

fun iter_nodes :: "nat \<Rightarrow> Node list \<Rightarrow> Iterator \<Rightarrow> (unit, int list) outcome" where
  "iter_nodes 0 ns c = Fuel"
| "iter_nodes (Suc n) ns c = bind_outcome (Iterator_Next ns c) (\<lambda>(more, c').
     if more then
       case it_node c' of None \<Rightarrow> Panic
       | Some j \<Rightarrow> bind_outcome (iter_nodes n ns c') (\<lambda>js. Ok (j # js))
     else Ok [])"

lemma iter_nodes_started:
  "0 \<le> j \<Longrightarrow> j < int (length ns) \<Longrightarrow> seg ns (link j (next (ns ! nat j))) ts None \<Longrightarrow>
   \<exists>js. iter_nodes (Suc (length ts)) ns \<lparr>started = True, it_node = Some j\<rparr> = Ok js \<and>
     list_all2 (repr ns) js ts"
proof (induction ts arbitrary: j)
  case Nil
  then show ?case
    by (auto simp: Iterator_Next_def Node_Next_def deref_def Node_Valid_def link_def split: if_splits)
next
  case (Cons t ts)
  then obtain k where k: "link j (next (ns ! nat j)) = Some k" "repr ns k t" "seg ns (link k (next (ns ! nat k))) ts None"
    by (cases "link j (next (ns ! nat j))") auto
  with Cons.IH [of k] repr_range [OF k(2)] obtain js where
    js: "iter_nodes (Suc (length ts)) ns \<lparr>started = True, it_node = Some k\<rparr> = Ok js" "list_all2 (repr ns) js ts" by blast
  have "Iterator_Next ns \<lparr>started = True, it_node = Some j\<rparr> =
      (Ok (True, \<lparr>started = True, it_node = Some k\<rparr>) :: (unit, bool \<times> Iterator) outcome)"
    using Cons.prems k(1) by (auto simp: Iterator_Next_def Node_Next_def deref_def Node_Valid_def link_def split: if_splits)
  then have "iter_nodes (Suc (Suc (length ts))) ns \<lparr>started = True, it_node = Some j\<rparr> = Ok (k # js)"
    by (subst iter_nodes.simps) (simp add: js del: iter_nodes.simps)
  with js(2) k(2) show ?case by (simp del: iter_nodes.simps)
qed

lemma iter_nodes_seg:
  assumes "seg ns r ts None"
  shows "\<exists>js. iter_nodes (Suc (length ts)) ns \<lparr>started = False, it_node = r\<rparr> = Ok js \<and> list_all2 (repr ns) js ts"
proof (cases ts)
  case Nil
  then show ?thesis using assms by (auto simp: Iterator_Next_def Node_Valid_def)
next
  case (Cons t us)
  with assms obtain k where k: "r = Some k" "repr ns k t" "seg ns (link k (next (ns ! nat k))) us None"
    by (cases r) auto
  with iter_nodes_started [of k ns us] repr_range [OF k(2)] obtain js where
    js: "iter_nodes (Suc (length us)) ns \<lparr>started = True, it_node = Some k\<rparr> = Ok js" "list_all2 (repr ns) js us" by blast
  have "iter_nodes (Suc (Suc (length us))) ns \<lparr>started = False, it_node = Some k\<rparr> = Ok (k # js)"
    by (subst iter_nodes.simps) (simp add: js Iterator_Next_def Node_Valid_def del: iter_nodes.simps)
  then show ?thesis using js(2) k Cons by (simp del: iter_nodes.simps)
qed

lemma Node_Children_repr:
  "repr ns i (TNode k d ts) \<Longrightarrow>
   Node_Children ns i = Ok \<lparr>started = False, it_node = link i (child (ns ! nat i))\<rparr>"
  by (simp add: Node_Children_def Node_Child_def deref_def link_def)

lemma Node_Key_keyvalue:
  assumes "repr ns i (TNode KeyValue d (v # ks))"
  shows "\<exists>r. Node_Key ns i = Ok \<lparr>started = False, it_node = r\<rparr> \<and> seg ns r ks None"
proof -
  from assms obtain j where j: "link i (child (ns ! nat i)) = Some j" "repr ns j v"
    "seg ns (link j (next (ns ! nat j))) ks None" "0 \<le> i" "i < int (length ns)" "kind (ns ! nat i) = KeyValue"
    by (cases "link i (child (ns ! nat i))") auto
  have "Node_Key ns i = Ok \<lparr>started = False, it_node = link j (next (ns ! nat j))\<rparr>"
    using j repr_range [OF j(2)]
    by (auto simp: Node_Key_def Node_Child_def Node_Next_def deref_def link_def split: if_splits)
  with j show ?thesis by blast
qed

text \<open>
  C8. Where the array represents a tree, a client that walks \<open>n.Children()\<close> with the iterator
  visits exactly the children of \<open>n\<close>, in order, without reading outside the array, and the
  loop ends after the last one; for a key-value node \<open>n.Key()\<close> visits the parts of its key.
\<close>

theorem iterator_visits:
  assumes "repr ns i (TNode k d ts)"
  shows "(\<exists>it js. Node_Children ns i = (Ok it :: (unit, Iterator) outcome) \<and>
      iter_nodes (Suc (length ts)) ns it = Ok js \<and> list_all2 (repr ns) js ts) \<and>
    (k = KeyValue \<and> ts = v # ks \<longrightarrow>
     (\<exists>it js. Node_Key ns i = (Ok it :: (unit, Iterator) outcome) \<and>
      iter_nodes (Suc (length ks)) ns it = Ok js \<and> list_all2 (repr ns) js ks))"
  using Node_Children_repr [OF assms] iter_nodes_seg [of ns "link i (child (ns ! nat i))" ts] assms
    Node_Key_keyvalue [of ns i d v ks] iter_nodes_seg [of ns _ ks] by fastforce

theorem iterator_visits_witness:
  "\<exists>ns it js. Node_Key ns 0 = (Ok it :: (unit, Iterator) outcome) \<and>
     iter_nodes 2 ns it = Ok js \<and> list_all2 (repr ns) js [TNode Key ''a'' []]"
proof -
  let ?ns = "[(new_node KeyValue no_range [])\<lparr>child := 2\<rparr>, new_node Key no_range ''a'',
     (new_node Bool no_range ''true'')\<lparr>next := - 1\<rparr>]"
  have "repr ?ns 0 (TNode KeyValue [] [TNode Bool ''true'' [], TNode Key ''a'' []])"
    by (simp add: new_node_def link_def)
  from iterator_visits [OF this, of "TNode Bool ''true'' []" "[TNode Key ''a'' []]"]
  show ?thesis by (auto simp: numeral_2_eq_2)
qed

end
