(* ===== verification/Toml_Strings.thy ===== *)
theory Toml_Strings
  imports Toml_Scanner
begin

text \<open>
  The part of \<open>utoml/unstable/parser.go\<close> that does not touch the builder: white space, line
  ends, the four kinds of string with their escapes, and simple keys. The lemmas show that each
  of these parsers returns on every input, that the token it takes is a prefix of its argument,
  that its errors highlight a window of the argument, and that a string value it returns is
  UTF-8.
\<close>

section \<open>Leaves of the grammar\<close>

definition expect :: "byte \<Rightarrow> slice \<Rightarrow> (ParserError, slice) outcome" where
  "expect x b =
     (if s_len b = 0 then
        Err (NewParserError b ''expected character %c but the document ended here'' [int (bval x)])
      else if bytes b ! 0 \<noteq> x then
        Err (NewParserError (s_to b 1) ''expected character %c'' [int (bval x)])
      else Ok (s_from b 1))"

definition atmost :: "slice \<Rightarrow> nat \<Rightarrow> slice" where
  "atmost b n = (if s_len b \<le> n then b else s_to b n)"

definition parseWhitespace :: "slice \<Rightarrow> slice" where
  "parseWhitespace b = snd (scanWhitespace b)"

definition parseNewline :: "slice \<Rightarrow> (ParserError, slice) outcome" where
  "parseNewline b = bind_outcome (idx (bytes b) 0) (\<lambda>c.
     if c = c_nl then Ok (s_from b 1)
     else if c = c_cr then bind_outcome (scanWindowsNewline b) (\<lambda>(_, rest). Ok rest)
     else Err (NewParserError (s_to b 1) ''expected newline but got %#U'' [int (bval c)]))"

definition isDigit :: "byte \<Rightarrow> bool" where
  "isDigit r \<longleftrightarrow> bval CHR ''0'' \<le> bval r \<and> bval r \<le> bval CHR ''9''"

definition isValidHexRune :: "byte \<Rightarrow> bool" where
  "isValidHexRune r \<longleftrightarrow>
     bval CHR ''a'' \<le> bval r \<and> bval r \<le> bval CHR ''f'' \<or>
     bval CHR ''A'' \<le> bval r \<and> bval r \<le> bval CHR ''F'' \<or>
     bval CHR ''0'' \<le> bval r \<and> bval r \<le> bval CHR ''9'' \<or> r = CHR ''_''"

definition isValidOctalRune :: "byte \<Rightarrow> bool" where
  "isValidOctalRune r \<longleftrightarrow>
     bval CHR ''0'' \<le> bval r \<and> bval r \<le> bval CHR ''7'' \<or> r = CHR ''_''"

definition isValidBinaryRune :: "byte \<Rightarrow> bool" where
  "isValidBinaryRune r \<longleftrightarrow> r = CHR ''0'' \<or> r = CHR ''1'' \<or> r = CHR ''_''"

section \<open>Strings\<close>

fun hexToRune_loop :: "slice \<Rightarrow> byte list \<Rightarrow> nat \<Rightarrow> 32 word \<Rightarrow> (ParserError, 32 word) outcome" where
  "hexToRune_loop b [] i r = Ok r"
| "hexToRune_loop b (c # cs) i r =
     (if bval CHR ''0'' \<le> bval c \<and> bval c \<le> bval CHR ''9'' then
        hexToRune_loop b cs (i + 1) (r * 16 + of_nat (bval c - bval CHR ''0''))
      else if bval CHR ''a'' \<le> bval c \<and> bval c \<le> bval CHR ''f'' then
        hexToRune_loop b cs (i + 1) (r * 16 + of_nat (bval c - bval CHR ''a'' + 10))
      else if bval CHR ''A'' \<le> bval c \<and> bval c \<le> bval CHR ''F'' then
        hexToRune_loop b cs (i + 1) (r * 16 + of_nat (bval c - bval CHR ''A'' + 10))
      else fail_at b i (i + 1) ''non-hex character'')"

definition hexToRune :: "slice \<Rightarrow> nat \<Rightarrow> (ParserError, nat) outcome" where
  "hexToRune b len =
     (if s_len b < len then
        Err (NewParserError b ''unicode point needs %d character, not %d'' [int len, int (s_len b)])
      else bind_outcome (slice_chk b 0 len) (\<lambda>b.
        bind_outcome (hexToRune_loop b (bytes b) 0 0) (\<lambda>r.
          if 0x10FFFF < r \<or> 0xD800 \<le> r \<and> r < 0xE000 then
            Err (NewParserError b ''escape sequence is invalid Unicode code point'' [])
          else Ok (unat r))))"

text \<open>The one-letter escapes of both kinds of basic string.\<close>

definition simple_escape :: "byte \<Rightarrow> byte option" where
  "simple_escape c =
     (if c = c_dq \<or> c = c_bs then Some c
      else if c = CHR ''b'' then Some (CHR 0x08)
      else if c = CHR ''f'' then Some (CHR 0x0C)
      else if c = CHR ''n'' then Some c_nl
      else if c = CHR ''r'' then Some c_cr
      else if c = CHR ''t'' then Some c_tab
      else if c = CHR ''e'' then Some (CHR 0x1B)
      else None)"

type_synonym string_result = "slice \<times> byte list \<times> slice"

definition parseLiteralString :: "slice \<Rightarrow> (ParserError, string_result) outcome" where
  "parseLiteralString b = bind_outcome (scanLiteralString b) (\<lambda>(v, rest).
     bind_outcome (slice_chk v 1 (s_len v - 1)) (\<lambda>str. Ok (v, bytes str, rest)))"

text \<open>\<open>skip the immediate new line\<close>\<close>

definition skip_newline :: "slice \<Rightarrow> nat \<Rightarrow> (ParserError, nat) outcome" where
  "skip_newline token i = bind_outcome (idx (bytes token) i) (\<lambda>c.
     if c = c_nl then Ok (i + 1)
     else if c = c_cr then bind_outcome (idx (bytes token) (i + 1)) (\<lambda>d.
       if d = c_nl then Ok (i + 2) else Ok i)
     else Ok i)"

definition parseMultilineLiteralString :: "slice \<Rightarrow> (ParserError, string_result) outcome" where
  "parseMultilineLiteralString b = bind_outcome (scanMultilineLiteralString b) (\<lambda>(token, rest).
     bind_outcome (skip_newline token 3) (\<lambda>i.
     bind_outcome (slice_chk token i (s_len token - 3)) (\<lambda>str. Ok (token, bytes str, rest))))"

text \<open>The fast path of the two basic-string parsers: nothing is escaped.\<close>

definition unescaped_string ::
    "slice \<Rightarrow> slice \<Rightarrow> nat \<Rightarrow> nat \<Rightarrow> (ParserError, string_result) outcome" where
  "unescaped_string token rest startIdx endIdx =
     bind_outcome (slice_chk token startIdx endIdx) (\<lambda>str.
     bind_outcome (or_panic (Utf8TomlValidAlreadyEscaped (bytes str))) (\<lambda>verr.
       if Zero verr then Ok (token, bytes str, rest)
       else bind_outcome (slice_chk str (Index verr) (Index verr + Size verr)) (\<lambda>h.
         Err (NewParserError h ''invalid UTF-8'' []))))"

function parseBasicString_loop :: "slice \<Rightarrow> nat \<Rightarrow> byte list \<Rightarrow> (ParserError, byte list) outcome" where
  "parseBasicString_loop token i buf =
     (if i < s_len token - 1 then
        if bytes token ! i = c_bs then
          bind_outcome (idx (bytes token) (i + 1)) (\<lambda>c.
            case simple_escape c of
              Some x \<Rightarrow> parseBasicString_loop token (i + 2) (buf @ [x])
            | None \<Rightarrow>
                if c = CHR ''u'' then
                  bind_outcome (slice_chk token (i + 2) (s_len token - 1)) (\<lambda>h.
                  bind_outcome (hexToRune h 4) (\<lambda>x.
                    parseBasicString_loop token (i + 6) (buf @ encodeRune x)))
                else if c = CHR ''U'' then
                  bind_outcome (slice_chk token (i + 2) (s_len token - 1)) (\<lambda>h.
                  bind_outcome (hexToRune h 8) (\<lambda>x.
                    parseBasicString_loop token (i + 10) (buf @ encodeRune x)))
                else Err (NewParserError (s_sub token (i + 1) (i + 2))
                       ''invalid escaped character %#U'' [int (bval c)]))
        else
          bind_outcome (or_panic (Utf8ValidNext (drop i (bytes token)))) (\<lambda>size.
            if size = 0 then
              Err (NewParserError (s_sub token i (i + 1)) ''invalid character %#U''
                     [int (bval (bytes token ! i))])
            else parseBasicString_loop token (i + size) (buf @ take size (drop i (bytes token))))
      else Ok buf)"
  by pat_completeness auto
termination by (relation "measure (\<lambda>(token, i, buf). s_len token - i)") auto

definition parseBasicString :: "slice \<Rightarrow> (ParserError, string_result) outcome" where
  "parseBasicString b = bind_outcome (scanBasicString b) (\<lambda>(token, escaped, rest).
     if \<not> escaped then unescaped_string token rest 1 (s_len token - 1)
     else bind_outcome (parseBasicString_loop token 1 []) (\<lambda>buf. Ok (token, buf, rest)))"

text \<open>\<open>findEOLLoop\<close>: whether only blanks stand between the backslash at \<open>i\<close> and a line end.\<close>

function findEOLLoop :: "slice \<Rightarrow> nat \<Rightarrow> nat \<Rightarrow> (ParserError, bool \<times> nat) outcome" where
  "findEOLLoop token i j =
     (if j < s_len token - 3 - i then
        let c = bytes token ! (i + j) in
        if c = c_sp \<or> c = c_tab then findEOLLoop token i (j + 1)
        else if c = c_cr then
          bind_outcome (idx (bytes token) (i + j + 1)) (\<lambda>d.
            if d = c_nl then findEOLLoop token i (j + 1) else Ok (False, j))
        else if c = c_nl then Ok (True, j)
        else Ok (False, j)
      else Ok (False, j))"
  by pat_completeness auto
termination by (relation "measure (\<lambda>(token, i, j). s_len token - 3 - i - j)") auto

text \<open>The index after the blanks from \<open>i\<close> on, as the loop with its final \<open>i++\<close> leaves it.\<close>

function skip_blanks :: "slice \<Rightarrow> nat \<Rightarrow> nat" where
  "skip_blanks token i =
     (if i < s_len token - 3 then
        let c = bytes token ! i in
        if \<not> (c = c_nl \<or> c = c_cr \<or> c = c_sp \<or> c = c_tab) then i else skip_blanks token (i + 1)
      else i + 1)"
  by pat_completeness auto
termination by (relation "measure (\<lambda>(token, i). s_len token - i)") auto

declare parseBasicString_loop.simps [simp del] findEOLLoop.simps [simp del]
  skip_blanks.simps [simp del]

lemma skip_blanks_ge: "i \<le> skip_blanks token i"
  by (induction token i rule: skip_blanks.induct) (subst skip_blanks.simps, auto simp: Let_def)

lemma findEOLLoop_ge: "findEOLLoop token i j = Ok (e, k) \<Longrightarrow> j \<le> k"
proof (induction token i j rule: findEOLLoop.induct)
  case (1 token i j)
  then show ?case
    by (subst (asm) (3) findEOLLoop.simps)
      (fastforce simp: Let_def outcome_simps split: if_splits)
qed

function parseMultilineBasicString_loop ::
    "slice \<Rightarrow> nat \<Rightarrow> byte list \<Rightarrow> (ParserError, byte list) outcome" where
  "parseMultilineBasicString_loop token i buf =
     (if i < s_len token - 3 then
        if bytes token ! i = c_bs then
          bind_outcome (findEOLLoop token i 1) (\<lambda>(isLastNonWhitespaceOnLine, j).
            if isLastNonWhitespaceOnLine then
              parseMultilineBasicString_loop token (skip_blanks token (i + j)) buf
            else
              bind_outcome (idx (bytes token) (i + 1)) (\<lambda>c.
                case simple_escape c of
                  Some x \<Rightarrow> parseMultilineBasicString_loop token (i + 2) (buf @ [x])
                | None \<Rightarrow>
                    if c = CHR ''u'' then
                      bind_outcome (slice_chk token (i + 2) (s_len token)) (\<lambda>h.
                      bind_outcome (hexToRune (atmost h 4) 4) (\<lambda>x.
                        parseMultilineBasicString_loop token (i + 6) (buf @ encodeRune x)))
                    else if c = CHR ''U'' then
                      bind_outcome (slice_chk token (i + 2) (s_len token)) (\<lambda>h.
                      bind_outcome (hexToRune (atmost h 8) 8) (\<lambda>x.
                        parseMultilineBasicString_loop token (i + 10) (buf @ encodeRune x)))
                    else Err (NewParserError (s_sub token (i + 1) (i + 2))
                           ''invalid escaped character %#U'' [int (bval c)])))
        else
          bind_outcome (or_panic (Utf8ValidNext (drop i (bytes token)))) (\<lambda>size.
            if size = 0 then
              Err (NewParserError (s_sub token i (i + 1)) ''invalid character %#U''
                     [int (bval (bytes token ! i))])
            else parseMultilineBasicString_loop token (i + size)
                   (buf @ take size (drop i (bytes token))))
      else Ok buf)"
  by pat_completeness auto
termination
proof (relation "measure (\<lambda>(token, i, buf). s_len token - i)", goal_cases)
  case (2 token i buf x e j)
  then have "1 \<le> j" by (auto dest: findEOLLoop_ge)
  with skip_blanks_ge [of "i + j" token] 2 show ?case by simp
qed auto

declare parseMultilineBasicString_loop.simps [simp del]

definition parseMultilineBasicString :: "slice \<Rightarrow> (ParserError, string_result) outcome" where
  "parseMultilineBasicString b =
     bind_outcome (scanMultilineBasicString b) (\<lambda>(token, escaped, rest).
     bind_outcome (skip_newline token 3) (\<lambda>i.
       if \<not> escaped then unescaped_string token rest i (s_len token - 3)
       else bind_outcome (parseMultilineBasicString_loop token i []) (\<lambda>buf.
         Ok (token, buf, rest))))"

section \<open>Keys\<close>

definition parseSimpleKey :: "slice \<Rightarrow> (ParserError, string_result) outcome" where
  "parseSimpleKey b =
     (if s_len b = 0 then Err (NewParserError b ''expected key but found none'' [])
      else if bytes b ! 0 = c_sq then parseLiteralString b
      else if bytes b ! 0 = c_dq then parseBasicString b
      else if isUnquotedKeyChar (bytes b ! 0) then
        let (key, rest) = scanUnquotedKey b in Ok (key, bytes key, rest)
      else Err (NewParserError (s_to b 1) ''invalid character at start of key: %c''
             [int (bval (bytes b ! 0))]))"

section \<open>UTF-8 text\<close>

definition utf8_text :: "byte list \<Rightarrow> bool" where
  "utf8_text d \<longleftrightarrow> (\<exists>rs. (\<forall>r \<in> set rs. scalar r) \<and> d = concat (map encodeRune rs))"

lemma utf8_text_Nil [simp]: "utf8_text []"
  unfolding utf8_text_def by (rule exI [of _ "[]"]) simp

lemma utf8_text_append: "utf8_text a \<Longrightarrow> utf8_text b \<Longrightarrow> utf8_text (a @ b)"
  unfolding utf8_text_def by (metis Un_iff concat_append map_append set_append)

lemma utf8_text_encodeRune: "scalar r \<Longrightarrow> utf8_text (encodeRune r)"
  unfolding utf8_text_def by (rule exI [of _ "[r]"]) simp

lemma toml_text_utf8: "toml_text p \<Longrightarrow> utf8_text p"
  unfolding toml_text_def utf8_text_def toml_char_table by blast

lemma utf8_text_ascii: "bval c < 0x80 \<Longrightarrow> utf8_text [c]"
  using utf8_text_encodeRune [of "bval c"] by (simp add: encodeRune_1 scalar_def)

lemma utf8_text_ascii_list: "\<forall>c \<in> set p. bval c < 0x80 \<Longrightarrow> utf8_text p"
proof (induction p)
  case (Cons c p)
  then show ?case using utf8_text_append [OF utf8_text_ascii, of c p] by simp
qed simp

section \<open>What the multiline scanners take\<close>

lemma closing_quotes_Ok:
  "closing_quotes q msg b i = Ok j \<Longrightarrow> i \<le> s_len b \<Longrightarrow> 0 < i \<Longrightarrow>
   i \<le> j \<and> j \<le> s_len b \<and> take (j - i) (drop i (bytes b)) = replicate (j - i) q"
  by (auto simp: closing_quotes_eq outcome_simps drop_nth_cons numeral_2_eq_2 split: if_splits)

lemma closing_quotes_token:
  assumes "closing_quotes q msg b (i + 3) = Ok j" "scanFollows (s_from b i) [q, q, q]"
  shows "i + 3 \<le> j \<and> j \<le> s_len b \<and> drop i (take j (bytes b)) = replicate (j - (i + 3)) q @ [q, q, q]"
proof -
  have l: "i + 3 \<le> s_len b" using assms(2) by (rule scanFollows3_len)
  note c = closing_quotes_Ok [OF assms(1) l, simplified]
  have "take 3 (drop i (bytes b)) = [q, q, q]" using assms(2) by (simp add: scanFollows_def numeral_3_eq_3)
  moreover have "drop i (take j (bytes b)) = take 3 (drop i (bytes b)) @ take (j - (i + 3)) (drop (i + 3) (bytes b))"
    using c take_add [of 3 "j - (i + 3)" "drop i (bytes b)"] by (simp add: drop_take add.commute)
  moreover have "[q, q, q] @ replicate n q = replicate n q @ [q, q, q]" for n
    by (induction n) auto
  ultimately show ?thesis using c by simp
qed

lemma drop_take_step: "i + n \<le> k \<Longrightarrow> k \<le> length xs \<Longrightarrow>
  drop i (take k xs) = take n (drop i xs) @ drop (i + n) (take k xs)"
  using append_take_drop_id [of n "drop i (take k xs)"]
  by (simp add: drop_take min_def add.commute split: if_splits)

lemma toml_text_quotes: "q \<in> {c_sq, c_dq} \<Longrightarrow> toml_text (replicate n q)"
  by (induction n) (auto simp: toml_text_ascii plain_ascii_def InvalidAscii_iff)

lemma toml_text_step: "Utf8ValidNext p = Some n \<Longrightarrow> 0 < n \<Longrightarrow> toml_text q \<Longrightarrow> toml_text (take n p @ q)"
  using Utf8ValidNext_decode [of p n] by (auto simp: toml_text_encode)

lemma toml_text_crlf: "toml_text (c_nl # q) \<longleftrightarrow> toml_text q" "toml_text (c_cr # q) \<longleftrightarrow> toml_text q"
  by (simp_all add: toml_text_ascii plain_ascii_def InvalidAscii_iff)

lemma scanMultilineLiteralString_loop_token:
  "scanMultilineLiteralString_loop b i = Ok (tok, rest) \<Longrightarrow>
   \<exists>k body. i + 3 \<le> k \<and> k \<le> s_len b \<and> tok = s_to b k \<and> rest = s_from b k \<and>
     drop i (take k (bytes b)) = body @ [c_sq, c_sq, c_sq] \<and> toml_text body"
proof (induction i rule: cursor_induct [where b = b])
  case (1 i)
  note S = scanMultilineLiteralString_loop_eq [of b i]
  from "1.prems" have i: "i < s_len b" by (simp add: S split: if_splits)
  show ?case
  proof (cases "bytes b ! i = c_sq \<and> scanFollowsMultilineLiteralStringDelimiter (s_from b i)")
    case True
    with "1.prems" i obtain j where j: "closing_quotes c_sq msg_sq3 b (i + 3) = Ok j"
      "tok = s_to b j" "rest = s_from b j"
      by (auto simp: S outcome_simps)
    from closing_quotes_token [OF j(1)] True j(2,3) show ?thesis
      by (auto simp: scanFollowsMultilineLiteralStringDelimiter_def intro!: toml_text_quotes)
  next
    case close: False
    show ?thesis
    proof (cases "bytes b ! i = c_cr")
      case True
      with "1.prems" i close have n: "i + 2 \<le> s_len b" "bytes b ! (i + 1) = c_nl"
        "scanMultilineLiteralString_loop b (i + 2) = Ok (tok, rest)"
        by (auto simp: S split: if_splits)
      from "1.IH" [OF i _ n(3)] n obtain k body where
        k: "i + 2 + 3 \<le> k" "k \<le> s_len b" "tok = s_to b k" "rest = s_from b k"
        "drop (i + 2) (take k (bytes b)) = body @ [c_sq, c_sq, c_sq]" "toml_text body" by auto
      have "take 2 (drop i (bytes b)) = [c_cr, c_nl]" 
        using n True i by (simp add: drop_nth_cons numeral_2_eq_2)
      then have "drop i (take k (bytes b)) = (c_cr # c_nl # body) @ [c_sq, c_sq, c_sq]"
        using k(1,2,5) drop_take_step [of i 2 k "bytes b"] by simp
      moreover have "toml_text (c_cr # c_nl # body)" using k(6) by (simp only: toml_text_crlf)
      moreover have "i + 3 \<le> k" using k(1) by simp
      ultimately show ?thesis using k(2-4) by blast
    next
      case False
      with "1.prems" i close obtain n where n: "Utf8ValidNext (drop i (bytes b)) = Some n" "0 < n"
        "scanMultilineLiteralString_loop b (i + n) = Ok (tok, rest)"
        by (auto simp: S outcome_simps split: if_splits)
      from "1.IH" [OF i _ n(3)] n obtain k body where
        k: "i + n + 3 \<le> k" "k \<le> s_len b" "tok = s_to b k" "rest = s_from b k"
        "drop (i + n) (take k (bytes b)) = body @ [c_sq, c_sq, c_sq]" "toml_text body"
        by (auto simp: outcome_simps)
      have "drop i (take k (bytes b)) = (take n (drop i (bytes b)) @ body) @ [c_sq, c_sq, c_sq]"
        using k(1,2,5) drop_take_step [of i n k "bytes b"] by simp
      moreover have "toml_text (take n (drop i (bytes b)) @ body)"
        using n(1,2) k(6) by (rule toml_text_step)
      moreover have "i + 3 \<le> k" using k(1) by simp
      ultimately show ?thesis using k(2-4) by blast
    qed
  qed
qed

lemma scanMultilineBasicString_loop_token:
  "scanMultilineBasicString_loop b esc i = Ok (tok, e, rest) \<Longrightarrow>
   \<exists>k body. i + 3 \<le> k \<and> k \<le> s_len b \<and> tok = s_to b k \<and> rest = s_from b k \<and>
     drop i (take k (bytes b)) = body @ [c_dq, c_dq, c_dq]"
proof (induction i arbitrary: esc rule: cursor_induct [where b = b])
  case (1 i)
  note S = scanMultilineBasicString_loop_eq [of b esc i]
  have step: "\<exists>k body. i + 3 \<le> k \<and> k \<le> s_len b \<and> tok = s_to b k \<and> rest = s_from b k \<and>
     drop i (take k (bytes b)) = body @ [c_dq, c_dq, c_dq]"
    if "\<exists>k body. i + n + 3 \<le> k \<and> k \<le> s_len b \<and> tok = s_to b k \<and> rest = s_from b k \<and>
     drop (i + n) (take k (bytes b)) = body @ [c_dq, c_dq, c_dq]" for n
  proof -
    from that obtain k body where k: "i + n + 3 \<le> k" "k \<le> s_len b" "tok = s_to b k" "rest = s_from b k"
      "drop (i + n) (take k (bytes b)) = body @ [c_dq, c_dq, c_dq]" by blast
    have "drop i (take k (bytes b)) = (take n (drop i (bytes b)) @ body) @ [c_dq, c_dq, c_dq]"
      using k(1,2,5) drop_take_step [of i n k "bytes b"] by simp
    moreover have "i + 3 \<le> k" using k(1) by simp
    ultimately show ?thesis using k(2-4) by blast
  qed
  from "1.prems" have i: "i < s_len b" by (simp add: S split: if_splits)
  show ?case
  proof (cases "bytes b ! i = c_dq \<and> scanFollowsMultilineBasicStringDelimiter (s_from b i)")
    case True
    with "1.prems" i obtain j where j: "closing_quotes c_dq msg_dq3 b (i + 3) = Ok j"
      "tok = s_to b j" "rest = s_from b j"
      by (auto simp: S outcome_simps)
    from closing_quotes_token [OF j(1)] True j(2,3) show ?thesis
      by (auto simp: scanFollowsMultilineBasicStringDelimiter_def)
  next
    case close: False
    consider (bs) "bytes b ! i = c_bs" "\<not> s_len b < i + 2" "scanMultilineBasicString_loop b True (i + 2) = Ok (tok, e, rest)"
      | (cr) "bytes b ! i \<noteq> c_bs" "bytes b ! i = c_cr" "\<not> s_len b < i + 2" "\<not> bytes b ! (i + 1) \<noteq> c_nl"
          "scanMultilineBasicString_loop b esc (i + 2) = Ok (tok, e, rest)"
      | (other) "bytes b ! i \<noteq> c_bs" "bytes b ! i \<noteq> c_cr" "scanMultilineBasicString_loop b esc (i + 1) = Ok (tok, e, rest)"
      using "1.prems" i close by (auto simp: S split: if_splits)
    then show ?thesis
    proof cases
      case bs show ?thesis by (rule step [OF "1.IH" [OF i _ bs(3)]]) simp
    next
      case cr show ?thesis by (rule step [OF "1.IH" [OF i _ cr(5)]]) simp
    next
      case other show ?thesis by (rule step [OF "1.IH" [OF i _ other(3)]]) simp
    qed
  qed
qed

section \<open>The string parsers return UTF-8 text or an error inside their argument\<close>

lemma hexToRune_loop_ensures:
  "i + length cs = s_len b \<Longrightarrow>
   ensures (\<lambda>_. True) (\<lambda>e. subslice (Highlight e) b) (hexToRune_loop b cs i r)"
  by (induction b cs i r rule: hexToRune_loop.induct) (auto intro!: subslice_sub)

lemma hexToRune_ensures:
  "ensures (\<lambda>r. scalar r \<and> n \<le> s_len b) (\<lambda>e. subslice (Highlight e) b) (hexToRune b n)"
proof (cases "s_len b < n")
  case False
  then have s: "subslice (s_sub b 0 n) b" by (intro subslice_sub) simp_all
  have "ensures (\<lambda>_. True) (\<lambda>e. subslice (Highlight e) (s_sub b 0 n)) (hexToRune_loop (s_sub b 0 n) (bytes (s_sub b 0 n)) 0 0)"
    by (rule hexToRune_loop_ensures) simp
  then show ?thesis unfolding hexToRune_def using False s
    by (auto simp: Let_def scalar_def word_less_nat_alt word_le_nat_alt
        elim!: ensures_mono intro: subslice_trans)
qed (simp add: hexToRune_def)

lemma simple_escape_ascii: "simple_escape c = Some x \<Longrightarrow> bval x < 0x80"
  by (auto simp: simple_escape_def split: if_splits)

lemma utf8_text_step:
  "Utf8ValidNext p = Some n \<Longrightarrow> 0 < n \<Longrightarrow> utf8_text buf \<Longrightarrow> utf8_text (buf @ take n p)"
  using Utf8ValidNext_decode [of p n]
  by (auto simp: toml_char_table intro!: utf8_text_append utf8_text_encodeRune)

lemma parseBasicString_loop_ensures:
  "bytes token = pre @ [c_dq] \<Longrightarrow> utf8_text buf \<Longrightarrow>
   ensures utf8_text (\<lambda>e. subslice (Highlight e) token) (parseBasicString_loop token i buf)"
proof (induction token i buf rule: parseBasicString_loop.induct)
  case (1 token i buf)
  note S = parseBasicString_loop.simps [of token i buf]
  let ?E = "\<lambda>e. subslice (Highlight e) token"
  show ?case
  proof (cases "i < s_len token - 1")
    case i: True
    show ?thesis
    proof (cases "bytes token ! i = c_bs")
      case bs: True
      have i1: "idx (bytes token) (i + 1) = Ok (bytes token ! (i + 1))" using i by simp
      let ?c = "bytes token ! (i + 1)"
      show ?thesis
      proof (cases "simple_escape ?c")
        case (Some x)
        then have "ensures utf8_text ?E (parseBasicString_loop token (i + 2) (buf @ [x]))"
          using "1.prems" by (intro "1.IH"(3) [OF i bs i1 Some]) (auto intro!: utf8_text_append utf8_text_ascii simple_escape_ascii)
        with i bs Some show ?thesis by (simp add: S)
      next
        case None
        have "i + 1 \<noteq> s_len token - 1"
          using None "1.prems"(1) i by (auto simp: nth_append simple_escape_def)
        with i have i2: "i + 2 \<le> s_len token - 1" by simp
        define h where "h = s_sub token (i + 2) (s_len token - 1)"
        have h: "slice_chk token (i + 2) (s_len token - 1) = Ok h" "subslice h token"
          using i2 by (auto simp: h_def intro!: subslice_sub)
        note tr = subslice_trans [OF _ h(2)]
        consider (u) "?c = CHR ''u''" | (U) "?c = CHR ''U''" | (bad) "?c \<noteq> CHR ''u''" "?c \<noteq> CHR ''U''" by blast
        then show ?thesis
        proof cases
          case u
          have "ensures (\<lambda>x. ensures utf8_text ?E (parseBasicString_loop token (i + 6) (buf @ encodeRune x))) ?E (hexToRune h 4)"
            using hexToRune_ensures [of 4 h]
            by (rule ensures_mono) (use "1.IH"(1) [OF i bs i1 None u h(1)] "1.prems" in
                \<open>auto intro!: utf8_text_append utf8_text_encodeRune tr\<close>)
          then show ?thesis using i bs u None i2 by (simp add: S h_def)
        next
          case U
          then have nu: "?c \<noteq> CHR ''u''" by simp
          have "ensures (\<lambda>x. ensures utf8_text ?E (parseBasicString_loop token (i + 10) (buf @ encodeRune x))) ?E (hexToRune h 8)"
            using hexToRune_ensures [of 8 h]
            by (rule ensures_mono) (use "1.IH"(2) [OF i bs i1 None nu U h(1)] "1.prems" in
                \<open>auto intro!: utf8_text_append utf8_text_encodeRune tr\<close>)
          then show ?thesis using i bs U None i2 by (simp add: S h_def)
        next
          case bad
          then show ?thesis using i bs None by (auto simp: S intro!: subslice_sub)
        qed
      qed
    next
      case False
      have "i < length (bytes token)" using i by simp
      then obtain n where n: "Utf8ValidNext (drop i (bytes token)) = Some n" by (rule Utf8ValidNext_drop)
      have "0 < n \<Longrightarrow> ensures utf8_text ?E (parseBasicString_loop token (i + n) (buf @ take n (drop i (bytes token))))"
        using n by (intro "1.IH"(4) [OF i False] "1.prems"(1) utf8_text_step "1.prems"(2)) simp_all
      then show ?thesis using i False n by (auto simp: S intro!: subslice_sub)
    qed
  qed (use "1.prems" in \<open>simp add: S\<close>)
qed

definition string_token :: "slice \<Rightarrow> string_result \<Rightarrow> bool" where
  "string_token b = (\<lambda>(raw, v, rest). splits b raw rest \<and> 0 < s_len raw \<and> utf8_text v)"

lemma unescaped_string_ensures:
  assumes "splits b token rest" "i \<le> j" "j \<le> s_len token" "0 < s_len token"
  shows "ensures (string_token b) (\<lambda>e. subslice (Highlight e) b) (unescaped_string token rest i j)"
proof -
  let ?str = "s_sub token i j"
  have sub: "subslice ?str b"
    using assms by (meson splits_subslice(1) subslice_sub subslice_trans)
  obtain e where "Utf8TomlValidAlreadyEscaped (bytes ?str) = Some e" "Zero e \<longleftrightarrow> toml_text (bytes ?str)"
    "Index e + Size e \<le> s_len ?str" using Utf8TomlValid_spec by blast
  then show ?thesis using assms sub subslice_trans [OF subslice_sub sub]
    by (auto simp: unescaped_string_def string_token_def toml_text_utf8 simp del: bytes_slice_ops)
qed

lemma s_to_s_len: "i \<le> s_len b \<Longrightarrow> s_len (s_to b i) = i"
  by simp

lemma parseBasicString_ensures:
  "ensures (string_token b) (\<lambda>e. subslice (Highlight e) b) (parseBasicString b)"
proof (cases "scanBasicString b")
  case (Ok r)
  then obtain token e rest where r: "scanBasicString b = Ok (token, e, rest)" by (cases r) auto
  from scanBasicString_loop_sound [of b False 1 token e rest] r obtain body pst where
    d: "drop 1 (bytes b) = body @ c_dq # pst" "token = s_to b (1 + length body + 1)" "rest = s_from b (1 + length body + 1)"
    by (auto simp: scanBasicString_def)
  have l: "2 + length body \<le> s_len b" using arg_cong [OF d(1), of length] by simp
  have "bytes token = take 1 (bytes b) @ body @ [c_dq]"
    using d(2) take_add [of 1 "length body + 1" "bytes b"] d(1) by (simp add: add.assoc)
  then have tok: "bytes token = (take 1 (bytes b) @ body) @ [c_dq]" "2 \<le> s_len token" using l by (auto simp: min_def)
  have sp: "splits b token rest" unfolding d(2,3) using l by (intro splits_cut) simp
  note sub = splits_subslice(1) [OF sp]
  show ?thesis
  proof (cases e)
    case True
    have "ensures (\<lambda>buf. string_token b (token, buf, rest)) (\<lambda>e. subslice (Highlight e) b) (parseBasicString_loop token 1 [])"
      using parseBasicString_loop_ensures [OF tok(1) utf8_text_Nil, of 1]
      by (rule ensures_mono) (use sp sub tok(2) subslice_trans in \<open>auto simp: string_token_def\<close>)
    then show ?thesis using r True by (simp add: parseBasicString_def)
  next
    case False
    have "ensures (string_token b) (\<lambda>e. subslice (Highlight e) b) (unescaped_string token rest 1 (s_len token - 1))"
      by (rule unescaped_string_ensures [OF sp]) (use tok(2) in linarith)+
    then show ?thesis using r False by (simp add: parseBasicString_def)
  qed
qed (use scanBasicString_well [of b] in \<open>auto simp: parseBasicString_def well_scanned3_def\<close>)

lemma parseLiteralString_ensures:
  "ensures (string_token b) (\<lambda>e. subslice (Highlight e) b) (parseLiteralString b)"
proof (cases "scanLiteralString b")
  case (Ok r)
  then obtain token rest where r: "scanLiteralString b = Ok (token, rest)" by (cases r) auto
  from scanLiteralString_loop_sound [of b 1 token rest] r obtain body pst where
    d: "drop 1 (bytes b) = body @ c_sq # pst" "lit_body body"
    "token = s_to b (1 + length body + 1)" "rest = s_from b (1 + length body + 1)"
    by (auto simp: scanLiteralString_def)
  have l: "2 + length body \<le> s_len b" using arg_cong [OF d(1), of length] by simp
  have sp: "splits b token rest" unfolding d(3,4) using l by (intro splits_cut) simp
  have "take (s_len token - 1 - 1) (drop 1 (bytes token)) = body"
    using l d(1) by (simp add: d(3) drop_take min_def)
  then show ?thesis using r l sp d(2,3)
    by (auto simp: parseLiteralString_def string_token_def lit_body_def toml_text_utf8)
qed (use scanLiteralString_well [of b] in \<open>auto simp: parseLiteralString_def well_scanned_def\<close>)

lemma skip_newline_ensures:
  assumes "bytes token = [x, y, z] @ body @ [q, q, q]" "q \<noteq> c_nl" "q \<noteq> c_cr"
  shows "ensures (\<lambda>i. 3 \<le> i \<and> i \<le> s_len token - 3 \<and>
       (toml_text body \<longrightarrow> toml_text (take (s_len token - 3 - i) (drop i (bytes token))))) E
     (skip_newline token 3)"
proof -
  consider (empty) "body = []" | (nl) b' where "body = c_nl # b'"
    | (crlf) b' where "body = c_cr # c_nl # b'"
    | (other) c b' where "body = c # b'" "c \<noteq> c_nl" "c = c_cr \<longrightarrow> (b' = [] \<or> b' ! 0 \<noteq> c_nl)"
  proof -
    have "body = [] \<or> (\<exists>b'. body = c_nl # b') \<or> (\<exists>b'. body = c_cr # c_nl # b') \<or>
      (\<exists>c b'. body = c # b' \<and> c \<noteq> c_nl \<and> (c = c_cr \<longrightarrow> (b' = [] \<or> b' ! 0 \<noteq> c_nl)))"
      by (cases body; cases "List.tl body") auto
    then show thesis using that by blast
  qed
  then show ?thesis
  proof cases
    case (other c b')
    then show ?thesis using assms
      by (cases b') (auto simp: skip_newline_def outcome_simps)
  qed (use assms in \<open>auto simp: skip_newline_def toml_text_crlf\<close>)
qed

lemma ml_token:
  assumes "i = 3" "drop i (take k (bytes b)) = body @ [q, q, q]" "i \<le> k" "k \<le> s_len b" "token = s_to b k"
  obtains x y z where "bytes token = [x, y, z] @ body @ [q, q, q]"
proof -
  have "length (take 3 (bytes token)) = 3" using assms by simp
  then obtain x y z where "take 3 (bytes token) = [x, y, z]"
    by (auto simp: numeral_3_eq_3 length_Suc_conv simp del: length_take)
  then have "bytes token = [x, y, z] @ drop 3 (bytes token)" by (metis append_take_drop_id)
  with assms show thesis using that by simp
qed

lemma parseMultilineLiteralString_ensures:
  "ensures (string_token b) (\<lambda>e. subslice (Highlight e) b) (parseMultilineLiteralString b)"
proof (cases "scanMultilineLiteralString b")
  case (Ok r)
  then obtain token rest where r: "scanMultilineLiteralString b = Ok (token, rest)" by (cases r) auto
  from scanMultilineLiteralString_loop_token [of b 3 token rest] r obtain k body where
    k: "3 + 3 \<le> k" "k \<le> s_len b" "token = s_to b k" "rest = s_from b k"
    "drop 3 (take k (bytes b)) = body @ [c_sq, c_sq, c_sq]" "toml_text body"
    by (auto simp: scanMultilineLiteralString_def)
  obtain x y z where tok: "bytes token = [x, y, z] @ body @ [c_sq, c_sq, c_sq]"
    using ml_token [OF refl k(5) _ k(2,3)] k(1) by auto
  have sp: "splits b token rest" unfolding k(3,4) using k(2) by (rule splits_cut)
  have "ensures (\<lambda>i. ensures (\<lambda>str. string_token b (token, bytes str, rest)) (\<lambda>e. subslice (Highlight e) b)
      (slice_chk token i (s_len token - 3))) (\<lambda>e. subslice (Highlight e) b) (skip_newline token 3)"
    using skip_newline_ensures [OF tok, of "\<lambda>e. subslice (Highlight e) b"]
    by (rule ensures_mono) (use k(6) sp tok in \<open>auto simp: string_token_def toml_text_utf8\<close>)
  then show ?thesis using r by (simp add: parseMultilineLiteralString_def)
qed (use scanMultilineLiteralString_well [of b] in \<open>auto simp: parseMultilineLiteralString_def well_scanned_def\<close>)

lemma findEOLLoop_ensures: "ensures (\<lambda>_. True) E (findEOLLoop token i j)"
proof (induction token i j rule: findEOLLoop.induct)
  case (1 token i j)
  then show ?case by (subst findEOLLoop.simps) (auto simp: Let_def)
qed

lemma subslice_atmost: "subslice (atmost h n) h"
  by (auto simp: atmost_def intro!: subslice_to)

lemma parseMultilineBasicString_loop_ensures:
  "3 \<le> s_len token \<Longrightarrow> utf8_text buf \<Longrightarrow>
   ensures utf8_text (\<lambda>e. subslice (Highlight e) token) (parseMultilineBasicString_loop token i buf)"
proof (induction token i buf rule: parseMultilineBasicString_loop.induct)
  case (1 token i buf)
  note S = parseMultilineBasicString_loop.simps [of token i buf]
  let ?E = "\<lambda>e. subslice (Highlight e) token"
  show ?case
  proof (cases "i < s_len token - 3")
    case i: True
    show ?thesis
    proof (cases "bytes token ! i = c_bs")
      case bs: True
      have "ensures (\<lambda>_. True) (\<lambda>_. False) (findEOLLoop token i 1 :: (ParserError, bool \<times> nat) outcome)"
        by (rule findEOLLoop_ensures)
      then obtain l j where f: "findEOLLoop token i 1 = Ok (l, j)"
        by (cases "findEOLLoop token i 1 :: (ParserError, bool \<times> nat) outcome") auto
      let ?c = "bytes token ! (i + 1)"
      have i1: "idx (bytes token) (i + 1) = Ok ?c" using i by simp
      define h where "h = s_sub token (i + 2) (s_len token)"
      have h: "slice_chk token (i + 2) (s_len token) = Ok h" "subslice h token"
        using i by (auto simp: h_def intro!: subslice_sub)
      note tr = subslice_trans [OF _ subslice_trans [OF subslice_atmost h(2)]]
      consider (eol) l | (esc) x where "\<not> l" "simple_escape ?c = Some x"
        | (u) "\<not> l" "simple_escape ?c = None" "?c = CHR ''u''"
        | (U) "\<not> l" "simple_escape ?c = None" "?c \<noteq> CHR ''u''" "?c = CHR ''U''"
        | (bad) "\<not> l" "simple_escape ?c = None" "?c \<noteq> CHR ''u''" "?c \<noteq> CHR ''U''" by blast
      then show ?thesis
      proof cases
        case eol
        with "1.IH"(1) [OF i bs f refl] "1.prems" i bs f show ?thesis by (simp add: S)
      next
        case (esc x)
        have "ensures utf8_text ?E (parseMultilineBasicString_loop token (i + 2) (buf @ [x]))"
          using "1.prems" esc by (intro "1.IH"(4) [OF i bs f refl esc(1) i1 esc(2)])
            (auto intro!: utf8_text_append utf8_text_ascii simple_escape_ascii)
        with i bs esc f show ?thesis by (simp add: S)
      next
        case u
        have "ensures (\<lambda>x. ensures utf8_text ?E (parseMultilineBasicString_loop token (i + 6) (buf @ encodeRune x)))
            ?E (hexToRune (atmost h 4) 4)"
          using hexToRune_ensures [of 4 "atmost h 4"]
          by (rule ensures_mono) (use "1.IH"(2) [OF i bs f refl u(1) i1 u(2,3) h(1)] "1.prems" in
              \<open>auto intro!: utf8_text_append utf8_text_encodeRune tr\<close>)
        then show ?thesis using i bs u f by (simp add: S h_def)
      next
        case U
        have "ensures (\<lambda>x. ensures utf8_text ?E (parseMultilineBasicString_loop token (i + 10) (buf @ encodeRune x)))
            ?E (hexToRune (atmost h 8) 8)"
          using hexToRune_ensures [of 8 "atmost h 8"]
          by (rule ensures_mono) (use "1.IH"(3) [OF i bs f refl U(1) i1 U(2-4) h(1)] "1.prems" in
              \<open>auto intro!: utf8_text_append utf8_text_encodeRune tr\<close>)
        then show ?thesis using i bs U f by (simp add: S h_def)
      next
        case bad
        then show ?thesis using i bs f by (auto simp: S intro!: subslice_sub)
      qed
    next
      case False
      have "i < length (bytes token)" using i by simp
      then obtain n where n: "Utf8ValidNext (drop i (bytes token)) = Some n" by (rule Utf8ValidNext_drop)
      have "0 < n \<Longrightarrow> ensures utf8_text ?E (parseMultilineBasicString_loop token (i + n) (buf @ take n (drop i (bytes token))))"
        using n by (intro "1.IH"(5) [OF i False] "1.prems"(1) utf8_text_step "1.prems"(2)) simp_all
      then show ?thesis using i False n by (auto simp: S intro!: subslice_sub)
    qed
  qed (use "1.prems" in \<open>simp add: S\<close>)
qed

lemma parseMultilineBasicString_ensures:
  "ensures (string_token b) (\<lambda>e. subslice (Highlight e) b) (parseMultilineBasicString b)"
proof (cases "scanMultilineBasicString b")
  case (Ok r)
  then obtain token e rest where r: "scanMultilineBasicString b = Ok (token, e, rest)" by (cases r) auto
  from scanMultilineBasicString_loop_token [of b False 3 token e rest] r obtain k body where
    k: "3 + 3 \<le> k" "k \<le> s_len b" "token = s_to b k" "rest = s_from b k"
    "drop 3 (take k (bytes b)) = body @ [c_dq, c_dq, c_dq]"
    by (auto simp: scanMultilineBasicString_def)
  obtain x y z where tok: "bytes token = [x, y, z] @ body @ [c_dq, c_dq, c_dq]"
    using ml_token [OF refl k(5) _ k(2,3)] k(1) by auto
  have sp: "splits b token rest" unfolding k(3,4) using k(2) by (rule splits_cut)
  note sub = splits_subslice(1) [OF sp]
  have l: "0 < s_len token" "3 \<le> s_len token" using tok by simp_all
  have "ensures (\<lambda>i. ensures (string_token b) (\<lambda>e. subslice (Highlight e) b)
      (if \<not> e then unescaped_string token rest i (s_len token - 3)
       else bind_outcome (parseMultilineBasicString_loop token i []) (\<lambda>buf. Ok (token, buf, rest))))
     (\<lambda>e. subslice (Highlight e) b) (skip_newline token 3)"
    using skip_newline_ensures [OF tok, of "\<lambda>e. subslice (Highlight e) b"]
  proof (rule ensures_mono, goal_cases)
    case (3 i)
    have "ensures (\<lambda>buf. string_token b (token, buf, rest)) (\<lambda>e. subslice (Highlight e) b) (parseMultilineBasicString_loop token i [])"
      using parseMultilineBasicString_loop_ensures [OF l(2) utf8_text_Nil, of i]
      by (rule ensures_mono) (use sp sub l(1) subslice_trans in \<open>auto simp: string_token_def\<close>)
    moreover have "ensures (string_token b) (\<lambda>e. subslice (Highlight e) b) (unescaped_string token rest i (s_len token - 3))"
      using 3 l by (intro unescaped_string_ensures [OF sp]) simp_all
    ultimately show ?case by simp
  qed auto
  then show ?thesis using r by (simp add: parseMultilineBasicString_def)
qed (use scanMultilineBasicString_well [of b] in \<open>auto simp: parseMultilineBasicString_def well_scanned3_def\<close>)

lemma parseSimpleKey_ensures:
  "ensures (string_token b) (\<lambda>e. subslice (Highlight e) b) (parseSimpleKey b)"
proof -
  obtain key rest where k: "scanUnquotedKey b = (key, rest)" by fastforce
  note sp = scanUnquotedKey_splits [OF k]
  have "bytes key = takeWhile isUnquotedKeyChar (bytes b)"
    using k takeWhile_eq_take [of isUnquotedKeyChar "bytes b"]
    by (auto simp: scanUnquotedKey_spec Let_def)
  moreover from this have "utf8_text (bytes key)"
    by (intro utf8_text_ascii_list) (auto dest!: set_takeWhileD simp: isUnquotedKeyChar_def)
  ultimately have "string_token b (key, bytes key, rest)" if "bytes b \<noteq> []" "isUnquotedKeyChar (bytes b ! 0)"
    using that sp by (cases "bytes b") (auto simp: string_token_def)
  then show ?thesis using k
    by (auto simp: parseSimpleKey_def parseLiteralString_ensures parseBasicString_ensures
        Suc_le_eq intro!: subslice_to)
qed

text \<open>
  C3. The five string and key parsers return on every input. A value they return is valid
  UTF-8, even where \<open>\u\<close> and \<open>\U\<close> escapes put characters together; its token is a non-empty
  prefix of the input, and the rest is what follows it. An error highlights a window of the
  input.
\<close>

theorem string_parsers_utf8:
  "ensures (string_token b) (\<lambda>e. subslice (Highlight e) b) (parseBasicString b) \<and>
   ensures (string_token b) (\<lambda>e. subslice (Highlight e) b) (parseMultilineBasicString b) \<and>
   ensures (string_token b) (\<lambda>e. subslice (Highlight e) b) (parseLiteralString b) \<and>
   ensures (string_token b) (\<lambda>e. subslice (Highlight e) b) (parseMultilineLiteralString b) \<and>
   ensures (string_token b) (\<lambda>e. subslice (Highlight e) b) (parseSimpleKey b)"
  by (intro conjI parseBasicString_ensures parseMultilineBasicString_ensures parseLiteralString_ensures
      parseMultilineLiteralString_ensures parseSimpleKey_ensures)

end
