(* ===== verification/Toml_Parser.thy ===== *)
theory Toml_Parser
  imports Toml_Ast Toml_Strings
begin

text \<open>
  \<open>utoml/unstable/parser.go\<close>: the recursive-descent parser that turns one top-level expression
  after the other into nodes of the builder. Each \<open>parseX\<close> method takes the parser (whose
  \<open>p.data\<close> and \<open>KeepComments\<close> it only reads), the current contents of \<open>p.builder\<close> and the
  remaining bytes, and returns the new builder with its results. After an error the builder is
  not returned: \<open>p.err\<close> makes every later \<open>NextExpression\<close> return false, so its contents are
  not looked at again. \<open>parseVal\<close>, \<open>parseKeyval\<close> and the array and inline-table loops call
  each other; they carry a fuel argument, and \<open>parse_fuel\<close> is shown to be enough.
\<close>

section \<open>The parser's state\<close>

record Parser =
  p_data :: slice
  p_builder :: builder
  p_ref :: reference
  p_left :: slice
  p_err :: "ParserError option"
  p_first :: bool
  KeepComments :: bool

definition Parser_Range :: "Parser \<Rightarrow> slice \<Rightarrow> (ParserError, Range) outcome" where
  "Parser_Range p b = bind_outcome (SubsliceOffset (p_data p) b) (\<lambda>off.
     Ok \<lparr>Offset = of_nat off, Length = of_nat (s_len b)\<rparr>)"

definition Parser_Raw :: "Parser \<Rightarrow> Range \<Rightarrow> (ParserError, slice) outcome" where
  "Parser_Raw p raw = slice_chk (p_data p) (unat (Offset raw)) (unat (Offset raw + Length raw))"

definition Parser_Reset :: "Parser \<Rightarrow> slice \<Rightarrow> Parser" where
  "Parser_Reset p b = p\<lparr>p_builder := builder_Reset (p_builder p), p_ref := invalidReference,
     p_data := b, p_left := b, p_err := None, p_first := True\<rparr>"

text \<open>The messages that contain quotes.\<close>

definition msg_expected_inf :: string where
  "msg_expected_inf = ''expected '' @ [c_sq] @ ''inf'' @ [c_sq]"

definition msg_expected_nan :: string where
  "msg_expected_nan = ''expected '' @ [c_sq] @ ''nan'' @ [c_sq]"

definition msg_expected_true :: string where
  "msg_expected_true = ''expected '' @ [c_sq] @ ''true'' @ [c_sq]"

definition msg_expected_false :: string where
  "msg_expected_false = ''expected '' @ [c_sq] @ ''false'' @ [c_sq]"

definition msg_unexpected_i :: string where
  "msg_unexpected_i = ''unexpected character '' @ [c_sq] @ ''i'' @ [c_sq] @ '' while scanning for a number''"

definition msg_unexpected_n :: string where
  "msg_unexpected_n = ''unexpected character '' @ [c_sq] @ ''n'' @ [c_sq] @ '' while scanning for a number''"

section \<open>Positions\<close>

record Position =
  p_Offset :: nat
  Line :: nat
  Column :: int

record Shape =
  Start :: Position
  End :: Position

text \<open>\<open>bytes.LastIndex(b, []byte{c})\<close>: -1 when the byte does not occur.\<close>

fun LastIndex :: "byte list \<Rightarrow> byte \<Rightarrow> int" where
  "LastIndex [] c = - 1"
| "LastIndex (x # xs) c =
     (let r = LastIndex xs c in if 0 \<le> r then r + 1 else if x = c then 0 else - 1)"

definition position :: "Parser \<Rightarrow> slice \<Rightarrow> (ParserError, Position) outcome" where
  "position p b = bind_outcome (SubsliceOffset (p_data p) b) (\<lambda>offset.
     let lead = take offset (bytes (p_data p)) in
     Ok \<lparr>p_Offset = offset, Line = count_list lead c_nl + 1,
         Column = int (length lead) - LastIndex lead c_nl\<rparr>)"

definition Parser_Shape :: "Parser \<Rightarrow> Range \<Rightarrow> (ParserError, Shape) outcome" where
  "Parser_Shape p r = bind_outcome (Parser_Raw p r) (\<lambda>raw.
     bind_outcome (position p raw) (\<lambda>s.
     bind_outcome (slice_chk raw (unat (Length r)) (s_len raw)) (\<lambda>tail.
     bind_outcome (position p tail) (\<lambda>e. Ok \<lparr>Start = s, End = e\<rparr>))))"

definition parseComment ::
    "Parser \<Rightarrow> builder \<Rightarrow> slice \<Rightarrow> (ParserError, builder \<times> reference \<times> slice) outcome" where
  "parseComment p bd b = bind_outcome (scanComment b) (\<lambda>(dat, rest).
     if KeepComments p then
       bind_outcome (Parser_Range p dat) (\<lambda>r.
         let (bd, ref) = Push bd (new_node Comment r (bytes dat)) in Ok (bd, ref, rest))
     else Ok (bd, invalidReference, rest))"

type_synonym parse_result = "(ParserError, builder \<times> reference \<times> slice) outcome"

text \<open>The loop over \<open>.\<close>-separated keys; every round consumes at least the dot.\<close>

lemma parseWhitespace_splits: "\<exists>w. splits b w (parseWhitespace b)"
  using scanWhitespace_splits [of b] by (cases "scanWhitespace b") (auto simp: parseWhitespace_def)

lemma parseWhitespace_len: "s_len (parseWhitespace b) \<le> s_len b"
  using parseWhitespace_splits [of b] by (auto dest: splits_len)

lemma splits_shorter: "splits b raw rest \<Longrightarrow> 0 < s_len raw \<Longrightarrow> s_len rest < s_len b"
  using splits_len [of b raw rest] by linarith

lemma parseSimpleKey_len: "parseSimpleKey b = Ok (raw, key, rest) \<Longrightarrow> s_len rest < s_len b"
  by (drule ensures_Ok [OF parseSimpleKey_ensures]) (auto simp: string_token_def intro: splits_shorter)

function parseKey_loop :: "Parser \<Rightarrow> builder \<Rightarrow> reference \<Rightarrow> slice \<Rightarrow> parse_result" where
  "parseKey_loop p bd ref b0 =
     (let b = parseWhitespace b0 in
      if 0 < s_len b \<and> bytes b ! 0 = CHR ''.'' then
        let b = parseWhitespace (s_from b 1) in
        bind_outcome (parseSimpleKey b) (\<lambda>(raw, key, b').
        bind_outcome (Parser_Range p raw) (\<lambda>r.
        bind_outcome (PushAndChain bd (new_node Key r key)) (\<lambda>(bd', _).
          parseKey_loop p bd' ref b')))
      else Ok (bd, ref, b))"
  by pat_completeness auto
termination
proof (relation "measure (\<lambda>(p, bd, ref, b). s_len b)", goal_cases)
  case (2 p bd ref b0 b b1 r raw s key b' rg q bd' i)
  then have "s_len b' < s_len b1" by (auto dest: parseSimpleKey_len)
  also have "\<dots> \<le> s_len b" using parseWhitespace_len [of "s_from b 1"] 2 by simp
  also have "\<dots> \<le> s_len b0" using 2 parseWhitespace_len by simp
  finally show ?case by simp
qed simp

definition parseKey :: "Parser \<Rightarrow> builder \<Rightarrow> slice \<Rightarrow> parse_result" where
  "parseKey p bd b =
     bind_outcome (parseSimpleKey b) (\<lambda>(raw, key, b').
     bind_outcome (Parser_Range p raw) (\<lambda>r.
       let (bd', ref) = Push bd (new_node Key r key) in parseKey_loop p bd' ref b'))"

section \<open>Scalar values\<close>

text \<open>\<open>return p.builder.Push(Node{...}), rest, nil\<close>\<close>

definition push_node :: "builder \<Rightarrow> Node \<Rightarrow> slice \<Rightarrow> parse_result" where
  "push_node bd n rest = (let (bd', ref) = Push bd n in Ok (bd', ref, rest))"

definition push_range :: "Parser \<Rightarrow> builder \<Rightarrow> Kind \<Rightarrow> slice \<Rightarrow> nat \<Rightarrow> parse_result" where
  "push_range p bd k b i =
     bind_outcome (slice_chk b 0 i) (\<lambda>tok.
     bind_outcome (Parser_Range p tok) (\<lambda>r. push_node bd (new_node k r (bytes tok)) (s_from b i)))"

record dt_state =
  hasDate :: bool
  hasTime :: bool
  hasTz :: bool
  seenSpace :: bool

function scanDateTime_loop :: "slice \<Rightarrow> nat \<Rightarrow> dt_state \<Rightarrow> nat \<times> dt_state" where
  "scanDateTime_loop b i st =
     (if i < s_len b then
        let c = bytes b ! i in
        if isDigit c then scanDateTime_loop b (i + 1) st
        else if c = CHR ''-'' then
          scanDateTime_loop b (i + 1)
            (let st = st\<lparr>hasDate := True\<rparr> in if 8 \<le> i then st\<lparr>hasTz := True\<rparr> else st)
        else if c = CHR ''T'' \<or> c = CHR ''t'' \<or> c = CHR '':'' \<or> c = CHR ''.'' then
          scanDateTime_loop b (i + 1) (st\<lparr>hasTime := True\<rparr>)
        else if c = CHR ''+'' \<or> c = CHR ''-'' \<or> c = CHR ''Z'' \<or> c = CHR ''z'' then
          scanDateTime_loop b (i + 1) (st\<lparr>hasTz := True\<rparr>)
        else if c = c_sp then
          if \<not> seenSpace st \<and> i + 1 < s_len b \<and> isDigit (bytes b ! (i + 1)) then
            scanDateTime_loop b ((if s_len b \<le> i + 2 then i + 1 else i + 2) + 1)
              (st\<lparr>seenSpace := True, hasTime := True\<rparr>)
          else (i, st)
        else (i, st)
      else (i, st))"
  by pat_completeness auto
termination by (relation "measure (\<lambda>(b, i, st). s_len b - i)") auto

definition scanDateTime :: "Parser \<Rightarrow> builder \<Rightarrow> slice \<Rightarrow> parse_result" where
  "scanDateTime p bd b =
     (let (i, st) = scanDateTime_loop b 0
            \<lparr>hasDate = False, hasTime = False, hasTz = False, seenSpace = False\<rparr>;
          k = (if hasTime st then
                 if hasDate st then if hasTz st then DateTime else LocalDateTime else LocalTime
               else LocalDate)
      in bind_outcome (slice_chk b 0 i) (\<lambda>tok.
           push_node bd (new_node k no_range (bytes tok)) (s_from b i)))"

function scan_while :: "(byte \<Rightarrow> bool) \<Rightarrow> slice \<Rightarrow> nat \<Rightarrow> nat" where
  "scan_while isValidRune b i =
     (if i < s_len b then if \<not> isValidRune (bytes b ! i) then i else scan_while isValidRune b (i + 1)
      else i)"
  by pat_completeness auto
termination by (relation "measure (\<lambda>(f, b, i). s_len b - i)") auto

text \<open>The number loop: where it stops, and with which kind of number.\<close>

function scanNumber_loop :: "slice \<Rightarrow> nat \<Rightarrow> bool \<Rightarrow> (ParserError, nat \<times> Kind) outcome" where
  "scanNumber_loop b i isFloat =
     (let fin = (if i = 0 then Err (NewParserError b ''incomplete number'' [])
                 else Ok (i, if isFloat then Float else Integer)) in
      if i < s_len b then
        let c = bytes b ! i in
        if bval CHR ''0'' \<le> bval c \<and> bval c \<le> bval CHR ''9'' \<or> c = CHR ''+'' \<or> c = CHR ''-'' \<or> c = CHR ''_'' then
          scanNumber_loop b (i + 1) isFloat
        else if c = CHR ''.'' \<or> c = CHR ''e'' \<or> c = CHR ''E'' then scanNumber_loop b (i + 1) True
        else if c = CHR ''i'' then
          if scanFollowsInf (s_from b i) then Ok (i + 3, Float)
          else Err (NewParserError (s_sub b i (i + 1)) msg_unexpected_i [])
        else if c = CHR ''n'' then
          if scanFollowsNan (s_from b i) then Ok (i + 3, Float)
          else Err (NewParserError (s_sub b i (i + 1)) msg_unexpected_n [])
        else fin
      else fin)"
  by pat_completeness auto
termination by (relation "measure (\<lambda>(b, i, fl). s_len b - i)") auto

declare parseKey_loop.simps [simp del] scanDateTime_loop.simps [simp del]
  scan_while.simps [simp del] scanNumber_loop.simps [simp del]

definition scanIntOrFloat :: "Parser \<Rightarrow> builder \<Rightarrow> slice \<Rightarrow> parse_result" where
  "scanIntOrFloat p bd b =
     (if 2 < s_len b \<and> bytes b ! 0 = CHR ''0'' \<and> bytes b ! 1 \<noteq> CHR ''.'' \<and>
          bytes b ! 1 \<noteq> CHR ''e'' \<and> bytes b ! 1 \<noteq> CHR ''E'' then
        let c = bytes b ! 1;
            i = (if c = CHR ''x'' then scan_while isValidHexRune b 2
                 else if c = CHR ''o'' then scan_while isValidOctalRune b 2
                 else if c = CHR ''b'' then scan_while isValidBinaryRune b 2
                 else 1)
        in push_range p bd Integer b i
      else bind_outcome (scanNumber_loop b 0 False) (\<lambda>(i, k). push_range p bd k b i))"

text \<open>Whether the first (at most five) bytes look like the start of a time or a date.\<close>

fun looks_like_datetime :: "byte list \<Rightarrow> nat \<Rightarrow> bool" where
  "looks_like_datetime [] n = False"
| "looks_like_datetime (c # cs) n =
     (if isDigit c then looks_like_datetime cs (n + 1)
      else n = 2 \<and> c = CHR '':'' \<or> n = 4 \<and> c = CHR ''-'')"

definition parseIntOrFloatOrDateTime :: "Parser \<Rightarrow> builder \<Rightarrow> slice \<Rightarrow> parse_result" where
  "parseIntOrFloatOrDateTime p bd b = bind_outcome (idx (bytes b) 0) (\<lambda>c.
     if c = CHR ''i'' then
       if \<not> scanFollowsInf b then Err (NewParserError (atmost b 3) msg_expected_inf [])
       else push_range p bd Float b 3
     else if c = CHR ''n'' then
       if \<not> scanFollowsNan b then Err (NewParserError (atmost b 3) msg_expected_nan [])
       else push_range p bd Float b 3
     else if c = CHR ''+'' \<or> c = CHR ''-'' then scanIntOrFloat p bd b
     else if s_len b < 3 then scanIntOrFloat p bd b
     else
       let s = (if s_len b < 5 then s_len b else 5) in
       if looks_like_datetime (take s (bytes b)) 0 then scanDateTime p bd b
       else scanIntOrFloat p bd b)"

section \<open>Comments between array elements\<close>

text \<open>\<open>addComment\<close> with \<open>rootCommentRef\<close> and \<open>latestCommentRef\<close>.\<close>

definition addComment ::
    "builder \<Rightarrow> reference \<Rightarrow> reference \<Rightarrow> reference \<Rightarrow>
     (ParserError, builder \<times> reference \<times> reference) outcome" where
  "addComment bd root latest ref =
     (if root = invalidReference then Ok (bd, ref, latest)
      else if latest = invalidReference then
        bind_outcome (AttachChild bd root ref) (\<lambda>bd. Ok (bd, root, ref))
      else bind_outcome (Chain bd latest ref) (\<lambda>bd. Ok (bd, root, ref)))"

lemma scanComment_len: "scanComment b = Ok (tok, rest) \<Longrightarrow> s_len rest \<le> s_len b"
  using scanComment_well [of b] by (auto dest: splits_len)

lemma parseComment_len: "parseComment p bd b = Ok (bd', r, rest) \<Longrightarrow> s_len rest \<le> s_len b"
  by (auto simp: parseComment_def outcome_simps Push_def Let_def dest: scanComment_len split: if_splits)

lemma parseNewline_len: "parseNewline b = Ok rest \<Longrightarrow> s_len rest < s_len b"
  by (auto simp: parseNewline_def scanWindowsNewline_def outcome_simps split: if_splits)

function wcn_loop :: "Parser \<Rightarrow> builder \<Rightarrow> reference \<Rightarrow> reference \<Rightarrow> slice \<Rightarrow> parse_result" where
  "wcn_loop p bd root latest b0 =
     (if 0 < s_len b0 then
        let b = parseWhitespace b0 in
        bind_outcome
          (if 0 < s_len b \<and> bytes b ! 0 = CHR ''#'' then
             bind_outcome (parseComment p bd b) (\<lambda>(bd, ref, b).
               if ref \<noteq> invalidReference then
                 bind_outcome (addComment bd root latest ref) (\<lambda>(bd, root, latest).
                   Ok (bd, root, latest, b))
               else Ok (bd, root, latest, b))
           else Ok (bd, root, latest, b))
          (\<lambda>(bd, root, latest, b).
             if s_len b = 0 then Ok (bd, root, b)
             else if bytes b ! 0 = c_nl \<or> bytes b ! 0 = c_cr then
               bind_outcome (parseNewline b) (\<lambda>b. wcn_loop p bd root latest b)
             else Ok (bd, root, b))
      else Ok (bd, root, b0))"
  by pat_completeness auto
termination
proof (relation "measure (\<lambda>(p, bd, root, latest, b). s_len b)", goal_cases)
  case (2 p bd root latest b0 b q bd' q1 root' q2 latest' b1 b2)
  have "s_len b1 \<le> s_len b"
    using 2(3) by (auto simp: outcome_simps 2(4-6) [symmetric] dest!: parseComment_len split: if_splits)
  moreover have "s_len b2 < s_len b1" using 2 parseNewline_len by simp
  ultimately show ?case using 2 parseWhitespace_len [of b0] by simp
qed simp

declare wcn_loop.simps [simp del]

definition parseOptionalWhitespaceCommentNewline :: "Parser \<Rightarrow> builder \<Rightarrow> slice \<Rightarrow> parse_result" where
  "parseOptionalWhitespaceCommentNewline p bd b = wcn_loop p bd invalidReference invalidReference b"

section \<open>Values, arrays, inline tables and key-values\<close>

definition push_string ::
    "Parser \<Rightarrow> builder \<Rightarrow> (ParserError, string_result) outcome \<Rightarrow> parse_result" where
  "push_string p bd res = bind_outcome res (\<lambda>(raw, v, b).
     bind_outcome (Parser_Range p raw) (\<lambda>r. push_node bd (new_node String r v) b))"

text \<open>\<open>addChild\<close> of \<open>parseValArray\<close>, called only with a valid reference.\<close>

definition addChild ::
    "builder \<Rightarrow> reference \<Rightarrow> reference \<Rightarrow> reference \<Rightarrow>
     (ParserError, builder \<times> reference) outcome" where
  "addChild bd parent lastChild valueRef =
     bind_outcome
       (if lastChild = invalidReference then AttachChild bd parent valueRef
        else Chain bd lastChild valueRef)
       (\<lambda>bd. Ok (bd, valueRef))"

text \<open>\<open>parseOptionalWhitespaceCommentNewline\<close> followed by \<open>if cref != invalidReference { addChild(cref) }\<close>.\<close>

definition array_comments ::
    "Parser \<Rightarrow> builder \<Rightarrow> reference \<Rightarrow> reference \<Rightarrow> slice \<Rightarrow>
     (ParserError, builder \<times> reference \<times> slice) outcome" where
  "array_comments p bd parent lastChild b =
     bind_outcome (parseOptionalWhitespaceCommentNewline p bd b) (\<lambda>(bd, cref, b).
       if cref \<noteq> invalidReference then
         bind_outcome (addChild bd parent lastChild cref) (\<lambda>(bd, lastChild). Ok (bd, lastChild, b))
       else Ok (bd, lastChild, b))"

function (sequential) parseVal :: "nat \<Rightarrow> Parser \<Rightarrow> builder \<Rightarrow> slice \<Rightarrow> parse_result"
and parseInlineTable :: "nat \<Rightarrow> Parser \<Rightarrow> builder \<Rightarrow> slice \<Rightarrow> parse_result"
and parseInlineTable_loop ::
    "nat \<Rightarrow> Parser \<Rightarrow> builder \<Rightarrow> reference \<Rightarrow> bool \<Rightarrow> reference \<Rightarrow> slice \<Rightarrow> parse_result"
and parseValArray :: "nat \<Rightarrow> Parser \<Rightarrow> builder \<Rightarrow> slice \<Rightarrow> parse_result"
and parseValArray_loop ::
    "nat \<Rightarrow> Parser \<Rightarrow> builder \<Rightarrow> slice \<Rightarrow> reference \<Rightarrow> bool \<Rightarrow> reference \<Rightarrow> slice \<Rightarrow> parse_result"
and parseKeyval :: "nat \<Rightarrow> Parser \<Rightarrow> builder \<Rightarrow> slice \<Rightarrow> parse_result" where
  "parseVal 0 p bd b = Fuel"
| "parseVal (Suc n) p bd b =
     (if s_len b = 0 then Err (NewParserError b ''expected value, not eof'' [])
      else let c = bytes b ! 0 in
        if c = c_dq then
          push_string p bd
            (if scanFollowsMultilineBasicStringDelimiter b then parseMultilineBasicString b
             else parseBasicString b)
        else if c = c_sq then
          push_string p bd
            (if scanFollowsMultilineLiteralStringDelimiter b then parseMultilineLiteralString b
             else parseLiteralString b)
        else if c = CHR ''t'' then
          if \<not> scanFollowsTrue b then Err (NewParserError (atmost b 4) msg_expected_true [])
          else push_node bd (new_node Bool no_range (take 4 (bytes b))) (s_from b 4)
        else if c = CHR ''f'' then
          if \<not> scanFollowsFalse b then Err (NewParserError (atmost b 5) msg_expected_false [])
          else push_node bd (new_node Bool no_range (take 5 (bytes b))) (s_from b 5)
        else if c = CHR ''['' then parseValArray n p bd b
        else if c = CHR ''{'' then parseInlineTable n p bd b
        else parseIntOrFloatOrDateTime p bd b)"
| "parseInlineTable 0 p bd b = Fuel"
| "parseInlineTable (Suc n) p bd b =
     bind_outcome (slice_chk b 0 1) (\<lambda>h.
     bind_outcome (Parser_Range p h) (\<lambda>r.
       let (bd', parent) = Push bd (new_node InlineTable r []) in
       parseInlineTable_loop n p bd' parent True 0 (s_from b 1)))"
| "parseInlineTable_loop 0 p bd parent is_first prev b = Fuel"
| "parseInlineTable_loop (Suc n) p bd parent is_first prev previousB =
     (let fin = (\<lambda>b. bind_outcome (expect CHR ''}'' b) (\<lambda>rest. Ok (bd, parent, rest))) in
      if 0 < s_len previousB then
        let b = parseWhitespace previousB in
        if s_len b = 0 then Err (NewParserError (s_to previousB 1) ''inline table is incomplete'' [])
        else if bytes b ! 0 = CHR ''}'' then fin b
        else
          bind_outcome
            (if \<not> is_first then
               bind_outcome (expect CHR '','' b) (\<lambda>b. Ok (parseWhitespace b))
             else Ok b) (\<lambda>b.
          bind_outcome (parseKeyval n p bd b) (\<lambda>(bd, kv, b).
          bind_outcome (if is_first then AttachChild bd parent kv else Chain bd prev kv) (\<lambda>bd.
            parseInlineTable_loop n p bd parent False kv b)))
      else fin previousB)"
| "parseValArray 0 p bd b = Fuel"
| "parseValArray (Suc n) p bd b =
     (let (bd', parent) = Push bd (new_node Array no_range []) in
      parseValArray_loop n p bd' b parent True invalidReference (s_from b 1))"
| "parseValArray_loop 0 p bd arrayStart parent is_first lastChild b = Fuel"
| "parseValArray_loop (Suc n) p bd arrayStart parent is_first lastChild b0 =
     (let fin = (\<lambda>bd b. bind_outcome (expect CHR '']'' b) (\<lambda>rest. Ok (bd, parent, rest))) in
      if 0 < s_len b0 then
        bind_outcome (array_comments p bd parent lastChild b0) (\<lambda>(bd, lastChild, b).
          if s_len b = 0 then Err (NewParserError (s_to arrayStart 1) ''array is incomplete'' [])
          else if bytes b ! 0 = CHR '']'' then fin bd b
          else
            bind_outcome
              (if bytes b ! 0 = CHR '','' then
                 if is_first then Err (NewParserError (s_to b 1) ''array cannot start with comma'' [])
                 else array_comments p bd parent lastChild (s_from b 1)
               else if \<not> is_first then
                 Err (NewParserError (s_to b 1) ''array elements must be separated by commas'' [])
               else Ok (bd, lastChild, b)) (\<lambda>(bd, lastChild, b).
              if 0 < s_len b \<and> bytes b ! 0 = CHR '']'' then fin bd b
              else
                bind_outcome (parseVal n p bd b) (\<lambda>(bd, valueRef, b).
                bind_outcome (addChild bd parent lastChild valueRef) (\<lambda>(bd, lastChild).
                bind_outcome (array_comments p bd parent lastChild b) (\<lambda>(bd, lastChild, b).
                  parseValArray_loop n p bd arrayStart parent False lastChild b)))))
      else fin bd b0)"
| "parseKeyval 0 p bd b = Fuel"
| "parseKeyval (Suc n) p bd b =
     (let (bd, ref) = Push bd (new_node KeyValue no_range []) in
      bind_outcome (parseKey p bd b) (\<lambda>(bd, key, b).
        let b = parseWhitespace b in
        if s_len b = 0 then
          Err (NewParserError b ''expected = after a key, but the document ends there'' [])
        else
          bind_outcome (expect CHR ''='' b) (\<lambda>b.
          bind_outcome (parseVal n p bd (parseWhitespace b)) (\<lambda>(bd, valRef, b).
          bind_outcome (Chain bd valRef key) (\<lambda>bd.
          bind_outcome (AttachChild bd ref valRef) (\<lambda>bd. Ok (bd, ref, b)))))))"
  by pat_completeness auto
termination
  by (relation "measure (case_sum (case_sum fst (case_sum fst fst)) (case_sum fst (case_sum fst fst)))")
    simp_all

declare parseVal.simps [simp del] parseInlineTable.simps [simp del] parseInlineTable_loop.simps [simp del]
  parseValArray.simps [simp del] parseValArray_loop.simps [simp del] parseKeyval.simps [simp del]

text \<open>
  Each call that keeps the bytes left unchanged goes to a function of lower rank, and every loop
  round or nested value consumes a byte; there are fewer than six ranks.
\<close>

definition parse_fuel :: "slice \<Rightarrow> nat" where
  "parse_fuel b = 6 * s_len b + 6"

section \<open>Tables and top-level expressions\<close>

definition parseArrayTable :: "Parser \<Rightarrow> builder \<Rightarrow> slice \<Rightarrow> parse_result" where
  "parseArrayTable p bd b =
     (let (bd, ref) = Push bd (new_node ArrayTable no_range []) in
      bind_outcome (slice_chk b 2 (s_len b)) (\<lambda>b.
      bind_outcome (parseKey p bd (parseWhitespace b)) (\<lambda>(bd, k, b).
      bind_outcome (AttachChild bd ref k) (\<lambda>bd.
      bind_outcome (expect CHR '']'' (parseWhitespace b)) (\<lambda>b.
      bind_outcome (expect CHR '']'' b) (\<lambda>b. Ok (bd, ref, b)))))))"

definition parseStdTable :: "Parser \<Rightarrow> builder \<Rightarrow> slice \<Rightarrow> parse_result" where
  "parseStdTable p bd b =
     (let (bd, ref) = Push bd (new_node Table no_range []) in
      bind_outcome (slice_chk b 1 (s_len b)) (\<lambda>b.
      bind_outcome (parseKey p bd (parseWhitespace b)) (\<lambda>(bd, key, b).
      bind_outcome (AttachChild bd ref key) (\<lambda>bd.
      bind_outcome (expect CHR '']'' (parseWhitespace b)) (\<lambda>b. Ok (bd, ref, b))))))"

definition parseTable :: "Parser \<Rightarrow> builder \<Rightarrow> slice \<Rightarrow> parse_result" where
  "parseTable p bd b =
     (if 1 < s_len b \<and> bytes b ! 1 = CHR ''['' then parseArrayTable p bd b
      else parseStdTable p bd b)"

definition parseExpression :: "Parser \<Rightarrow> builder \<Rightarrow> slice \<Rightarrow> parse_result" where
  "parseExpression p bd b0 =
     (let b = parseWhitespace b0 in
      if s_len b = 0 then Ok (bd, invalidReference, b)
      else if bytes b ! 0 = CHR ''#'' then parseComment p bd b
      else if bytes b ! 0 = c_nl \<or> bytes b ! 0 = c_cr then Ok (bd, invalidReference, b)
      else
        bind_outcome
          (if bytes b ! 0 = CHR ''['' then parseTable p bd b
           else parseKeyval (parse_fuel b) p bd b) (\<lambda>(bd, ref, b).
          let b = parseWhitespace b in
          if 0 < s_len b \<and> bytes b ! 0 = CHR ''#'' then
            bind_outcome (parseComment p bd b) (\<lambda>(bd, cref, rest).
              if cref \<noteq> invalidReference then
                bind_outcome (Chain bd ref cref) (\<lambda>bd. Ok (bd, ref, rest))
              else Ok (bd, ref, rest))
          else Ok (bd, ref, b)))"

text \<open>
  \<open>NextExpression\<close> returns its boolean and the updated parser. Errors of the parse methods
  become the value of \<open>p.err\<close>; what then stands in \<open>p.left\<close> is never read.
\<close>

definition fail_with :: "Parser \<Rightarrow> ParserError \<Rightarrow> (ParserError, bool \<times> Parser) outcome" where
  "fail_with p e = Ok (False, p\<lparr>p_err := Some e\<rparr>)"

text \<open>\<open>if !p.first { p.left, p.err = p.parseNewline(p.left) }\<close>\<close>

definition leading_newline :: "Parser \<Rightarrow> (ParserError, slice) outcome" where
  "leading_newline p = (if \<not> p_first p then parseNewline (p_left p) else Ok (p_left p))"

lemma parseTable_ref: "parseTable p bd b = Ok (bd', ref, rest) \<Longrightarrow> ref \<noteq> invalidReference"
  by (auto simp: parseTable_def parseArrayTable_def parseStdTable_def Push_def Let_def outcome_simps
      invalidReference_def split: if_splits)

lemma parseKeyval_ref: "parseKeyval n p bd b = Ok (bd', ref, rest) \<Longrightarrow> ref \<noteq> invalidReference"
  by (cases n) (auto simp: parseKeyval.simps Push_def Let_def outcome_simps invalidReference_def split: if_splits)

lemma parseExpression_none:
  assumes "parseExpression p bd b = Ok (bd', ref, rest)" "\<not> reference_Valid ref"
  shows "s_len rest \<le> s_len b"
  using assms parseWhitespace_len [of b]
  by (fastforce simp: parseExpression_def reference_Valid_def Let_def outcome_simps
      dest: parseComment_len parseTable_ref parseKeyval_ref split: if_splits)

lemma leading_newline_len:
  "leading_newline p = Ok b \<Longrightarrow>
   s_len b \<le> s_len (p_left p) \<and> (\<not> p_first p \<longrightarrow> s_len b < s_len (p_left p))"
  by (auto simp: leading_newline_def dest: parseNewline_len split: if_splits)

function NextExpression_loop :: "Parser \<Rightarrow> (ParserError, bool \<times> Parser) outcome" where
  "NextExpression_loop p =
     (if s_len (p_left p) = 0 \<or> p_err p \<noteq> None then Ok (False, p)
      else case leading_newline p of
        Err e \<Rightarrow> fail_with p e | Panic \<Rightarrow> Panic | Fuel \<Rightarrow> Fuel
      | Ok b \<Rightarrow>
          if s_len b = 0 then Ok (False, p\<lparr>p_left := b\<rparr>)
          else case parseExpression p (p_builder p) b of
            Err e \<Rightarrow> fail_with p e | Panic \<Rightarrow> Panic | Fuel \<Rightarrow> Fuel
          | Ok (bd, r, rest) \<Rightarrow>
              let p' = p\<lparr>p_builder := bd, p_ref := r, p_left := rest, p_first := False\<rparr> in
              if reference_Valid r then Ok (True, p') else NextExpression_loop p')"
  by pat_completeness auto
termination
proof (relation "measure (\<lambda>p. 2 * s_len (p_left p) + (if p_first p then 1 else 0))", goal_cases)
  case (2 p b q bd q1 r rest p')
  then have "s_len rest \<le> s_len b" by (auto dest: parseExpression_none)
  with leading_newline_len [OF 2(2)] 2 show ?case by (auto split: if_splits)
qed simp

declare NextExpression_loop.simps [simp del]

definition NextExpression :: "Parser \<Rightarrow> (ParserError, bool \<times> Parser) outcome" where
  "NextExpression p =
     (if s_len (p_left p) = 0 \<or> p_err p \<noteq> None then Ok (False, p)
      else NextExpression_loop
             (p\<lparr>p_builder := builder_Reset (p_builder p), p_ref := invalidReference\<rparr>))"

definition Expression :: "Parser \<Rightarrow> (ParserError, Node) outcome" where
  "Expression p = NodeAt (p_builder p) (p_ref p)"

end
