(* ===== verification/Toml_Parser_Correct.thy ===== *)
theory Toml_Parser_Correct
  imports Toml_Parser
begin

text \<open>
  What \<open>utoml/unstable/parser.go\<close> guarantees: on every document \<open>NextExpression\<close> returns, no
  index or slice expression panics and the fuel of the model suffices; errors point into the
  document; and after a successful call the node array represents a tree of the shape that the
  TOML grammar gives an expression, whose leaves carry well-formed tokens.
\<close>

section \<open>Positions in the remaining bytes\<close>

text \<open>\<open>adv n b rest\<close>: \<open>rest\<close> is what is left of \<open>b\<close> after at least \<open>n\<close> bytes.\<close>

definition adv :: "nat \<Rightarrow> slice \<Rightarrow> slice \<Rightarrow> bool" where
  "adv n b rest \<longleftrightarrow> (\<exists>i. n \<le> i \<and> i \<le> s_len b \<and> rest = s_from b i)"

lemma adv_refl [simp]: "adv 0 b b"
  unfolding adv_def by (intro exI [of _ 0]) simp

lemma adv_trans: "adv n a b \<Longrightarrow> adv m b c \<Longrightarrow> k \<le> n + m \<Longrightarrow> adv k a c"
  unfolding adv_def by (clarsimp, rule_tac x = "i + ia" in exI) auto

lemma adv_len: "adv n b r \<Longrightarrow> s_len r + n \<le> s_len b"
  by (auto simp: adv_def)

lemma adv_subslice: "adv n b r \<Longrightarrow> subslice r b"
  by (auto simp: adv_def)

lemma adv_from [simp]: "n \<le> i \<Longrightarrow> i \<le> s_len b \<Longrightarrow> adv n b (s_from b i)"
  by (auto simp: adv_def)

lemma splits_adv: "splits b w rest \<Longrightarrow> n \<le> s_len w \<Longrightarrow> adv n b rest"
  by (auto simp: splits_def)

lemma adv_whitespace [simp]: "adv 0 b (parseWhitespace b)"
  using parseWhitespace_splits [of b] by (auto intro: splits_adv)

lemma string_token_adv: "string_token b (raw, v, rest) \<Longrightarrow> adv 1 b rest \<and> subslice raw b \<and> utf8_text v"
  unfolding string_token_def by (auto simp: Suc_le_eq intro: splits_adv splits_subslice)

lemma expect_ensures: "ensures (adv 1 b) (\<lambda>e. subslice (Highlight e) b) (expect x b)"
  by (auto simp: expect_def Suc_le_eq intro!: subslice_to)

lemma parseNewline_ensures:
  "0 < s_len b \<Longrightarrow> ensures (adv 1 b) (\<lambda>e. subslice (Highlight e) b) (parseNewline b)"
  by (auto simp: parseNewline_def scanWindowsNewline_def Suc_le_eq intro!: subslice_to)

lemma ensures_bindI:
  "ensures P' E m \<Longrightarrow> (\<And>x. m = Ok x \<Longrightarrow> P' x \<Longrightarrow> ensures P E (f x)) \<Longrightarrow> ensures P E (bind_outcome m f)"
  by (cases m) auto

text \<open>The document of a parser, and errors that point into it.\<close>

definition in_doc :: "Parser \<Rightarrow> slice \<Rightarrow> bool" where
  "in_doc p b \<longleftrightarrow> subslice b (p_data p)"

abbreviation err_in :: "Parser \<Rightarrow> ParserError \<Rightarrow> bool" where
  "err_in p e \<equiv> in_doc p (Highlight e)"

lemma in_doc_sub: "in_doc p b \<Longrightarrow> subslice a b \<Longrightarrow> in_doc p a"
  unfolding in_doc_def by (rule subslice_trans)

lemma in_doc_adv: "in_doc p b \<Longrightarrow> adv n b a \<Longrightarrow> in_doc p a"
  by (meson in_doc_sub adv_subslice)

lemma ensures_in_doc:
  "ensures P (\<lambda>e. subslice (Highlight e) b) m \<Longrightarrow> in_doc p b \<Longrightarrow> ensures P (err_in p) m"
  by (erule ensures_mono) (auto intro: in_doc_sub)

text \<open>Go's slices are never longer than \<open>maxInt\<close>.\<close>

definition go_slice :: "slice \<Rightarrow> bool" where
  "go_slice b \<longleftrightarrow> s_len b \<le> maxInt"

lemma Parser_Range_Ok:
  assumes "in_doc p b" "go_slice (p_data p)"
  shows "Parser_Range p b = Ok \<lparr>Offset = of_nat (addr b - addr (p_data p)), Length = of_nat (s_len b)\<rparr>"
  using assms by (auto simp: Parser_Range_def SubsliceOffset_def in_doc_def subslice_def go_slice_def Let_def)

section \<open>Trees that the parser builds\<close>

definition int_token :: "byte list \<Rightarrow> bool" where
  "int_token d \<longleftrightarrow> d \<noteq> [] \<and>
     (2 < length d \<and> d ! 0 = CHR ''0'' \<longrightarrow> d ! 1 \<in> {CHR ''x'', CHR ''o'', CHR ''b''})"

definition float_token :: "byte list \<Rightarrow> bool" where
  "float_token d \<longleftrightarrow> (\<exists>c \<in> set d. c \<notin> {CHR ''+'', CHR ''-'', CHR ''_''})"

definition tz_token :: "byte list \<Rightarrow> bool" where
  "tz_token d \<longleftrightarrow> (\<exists>m < length d. d ! m \<in> {CHR ''+'', CHR ''Z'', CHR ''z''} \<or> d ! m = CHR ''-'' \<and> 8 \<le> m)"

fun leaf_ok :: "Kind \<Rightarrow> byte list \<Rightarrow> bool" where
  "leaf_ok String d = utf8_text d"
| "leaf_ok Key d = utf8_text d"
| "leaf_ok Bool d = (d = ''true'' \<or> d = ''false'')"
| "leaf_ok Integer d = int_token d"
| "leaf_ok Float d = float_token d"
| "leaf_ok DateTime d = tz_token d"
| "leaf_ok LocalDate d = True"
| "leaf_ok LocalTime d = True"
| "leaf_ok LocalDateTime d = True"
| "leaf_ok k d = False"

definition key_tree :: "toml \<Rightarrow> bool" where
  "key_tree t \<longleftrightarrow> t_kind t = Key \<and> utf8_text (t_data t) \<and> t_subs t = []"

definition comment_tree :: "toml \<Rightarrow> bool" where
  "comment_tree t \<longleftrightarrow> t_kind t = Comment \<and> (\<forall>c \<in> set (t_subs t). t_kind c = Comment \<and> t_subs c = [])"

text \<open>
  Values: a scalar with a well-formed token, an array of values and comments, or an inline table
  of key-values. A key-value node has its value as first child and then the parts of its key.
\<close>

fun val_tree :: "toml \<Rightarrow> bool"
and keyval_tree :: "toml \<Rightarrow> bool" where
  "val_tree (TNode k d ts) \<longleftrightarrow>
     (if k = Array then \<forall>t \<in> set ts. val_tree t \<or> comment_tree t
      else if k = InlineTable then \<forall>t \<in> set ts. keyval_tree t
      else k \<noteq> Key \<and> leaf_ok k d \<and> ts = [])"
| "keyval_tree (TNode k d ts) \<longleftrightarrow>
     k = KeyValue \<and> (case ts of [] \<Rightarrow> False
       | v # ks \<Rightarrow> val_tree v \<and> ks \<noteq> [] \<and> (\<forall>t \<in> set ks. key_tree t))"

fun expr_tree :: "toml \<Rightarrow> bool" where
  "expr_tree (TNode k d ts) \<longleftrightarrow>
     (if k = Comment then ts = []
      else if k = Table \<or> k = ArrayTable then ts \<noteq> [] \<and> (\<forall>t \<in> set ts. key_tree t)
      else keyval_tree (TNode k d ts))"

section \<open>Scalars\<close>

definition parsed :: "(toml \<Rightarrow> bool) \<Rightarrow> builder \<Rightarrow> slice \<Rightarrow> builder \<times> reference \<times> slice \<Rightarrow> bool" where
  "parsed Q bd b = (\<lambda>(bd', r, rest).
     keeps (int (length (nodes bd))) (nodes bd) (nodes bd') \<and>
     (\<exists>t. built (nodes bd') (int (length (nodes bd))) (int (length (nodes bd'))) r t \<and> Q t) \<and>
     adv 1 b rest)"

lemma push_node_parsed:
  "Q (TNode k d []) \<Longrightarrow> adv 1 b rest \<Longrightarrow> ensures (parsed Q bd b) E (push_node bd (new_node k r d) rest)"
  using opn_built [OF opn_Push [of bd k r d 0]]
  by (auto simp: push_node_def Push_def parsed_def Let_def add.commute)

lemma push_range_parsed:
  assumes "in_doc p b" "go_slice (p_data p)" "0 < i" "i \<le> s_len b" "Q (TNode k (take i (bytes b)) [])"
  shows "ensures (parsed Q bd b) (err_in p) (push_range p bd k b i)"
proof -
  have "in_doc p (s_sub b 0 i)" by (rule in_doc_sub [OF assms(1)]) (rule subslice_sub, use assms in auto)
  then show ?thesis using assms
    by (auto simp: push_range_def Parser_Range_Ok intro!: push_node_parsed)
qed

lemma push_string_parsed:
  assumes "ensures (string_token b) (\<lambda>e. subslice (Highlight e) b) res" "in_doc p b" "go_slice (p_data p)"
    "\<And>d. utf8_text d \<Longrightarrow> Q (TNode String d [])"
  shows "ensures (parsed Q bd b) (err_in p) (push_string p bd res)"
  unfolding push_string_def
proof (rule ensures_bindI [OF ensures_in_doc [OF assms(1,2)]], clarify)
  fix raw v rest assume "string_token b (raw, v, rest)"
  then have s: "adv 1 b rest" "subslice raw b" "utf8_text v" by (auto dest: string_token_adv)
  with assms show "ensures (parsed Q bd b) (err_in p)
      (bind_outcome (Parser_Range p raw) (\<lambda>r. push_node bd (new_node String r v) rest))"
    by (auto simp: Parser_Range_Ok in_doc_sub intro!: push_node_parsed)
qed

lemma scanDateTime_loop_spec:
  "i \<le> s_len b \<Longrightarrow> scanDateTime_loop b i st = (j, st') \<Longrightarrow>
   i \<le> j \<and> j \<le> s_len b \<and> (hasTz st' \<longrightarrow> hasTz st \<or>
     (\<exists>m \<ge> i. m < j \<and> (bytes b ! m \<in> {CHR ''+'', CHR ''Z'', CHR ''z''} \<or> bytes b ! m = CHR ''-'' \<and> 8 \<le> m)))"
proof (induction "s_len b - i" arbitrary: i st rule: less_induct)
  case less
  let ?tz = "\<lambda>m. bytes b ! m \<in> {CHR ''+'', CHR ''Z'', CHR ''z''} \<or> bytes b ! m = CHR ''-'' \<and> 8 \<le> m"
  show ?case
  proof (cases "(j, st') = (i, st)")
    case False
    then have i: "i < s_len b" using less.prems(2) by (subst (asm) scanDateTime_loop.simps) (simp split: if_splits)
    have "\<exists>i' st1. i < i' \<and> i' \<le> s_len b \<and> scanDateTime_loop b i' st1 = (j, st') \<and> (hasTz st1 \<longrightarrow> hasTz st \<or> ?tz i)"
    proof -
      let ?c = "bytes b ! i"
      note S = less.prems(2) [unfolded scanDateTime_loop.simps [of b i st] Let_def]
      consider (digit) "isDigit ?c" | (minus) "\<not> isDigit ?c" "?c = CHR ''-''"
        | (time) "\<not> isDigit ?c" "?c = CHR ''T'' \<or> ?c = CHR ''t'' \<or> ?c = CHR '':'' \<or> ?c = CHR ''.''"
        | (tz) "\<not> isDigit ?c" "?c = CHR ''+'' \<or> ?c = CHR ''Z'' \<or> ?c = CHR ''z''"
        | (space) "\<not> isDigit ?c" "?c = c_sp" "\<not> seenSpace st \<and> i + 1 < s_len b \<and> isDigit (bytes b ! (i + 1))"
        using S False i by (auto split: if_splits)
      then show ?thesis
      proof cases
        case digit
        then show ?thesis using S i by (intro exI [of _ "i + 1"] exI [of _ st]) simp
      next
        case minus
        then show ?thesis using S i
          by (intro exI [of _ "i + 1"] exI [of _ "if 8 \<le> i then st\<lparr>hasDate := True, hasTz := True\<rparr> else st\<lparr>hasDate := True\<rparr>"]) simp
      next
        case time
        then show ?thesis using S i by (intro exI [of _ "i + 1"] exI [of _ "st\<lparr>hasTime := True\<rparr>"]) auto
      next
        case tz
        then show ?thesis using S i by (intro exI [of _ "i + 1"] exI [of _ "st\<lparr>hasTz := True\<rparr>"]) auto
      next
        case space
        then show ?thesis using S i
          by (intro exI [of _ "(if s_len b \<le> i + 2 then i + 1 else i + 2) + 1"]
              exI [of _ "st\<lparr>seenSpace := True, hasTime := True\<rparr>"]) auto
      qed
    qed
    then obtain i' st1 where i': "i < i'" "i' \<le> s_len b" "scanDateTime_loop b i' st1 = (j, st')"
      "hasTz st1 \<longrightarrow> hasTz st \<or> ?tz i" by blast
    with less.hyps [of i' st1] i have "i' \<le> j \<and> j \<le> s_len b \<and>
        (hasTz st' \<longrightarrow> hasTz st1 \<or> (\<exists>m \<ge> i'. m < j \<and> ?tz m))" by auto
    then show ?thesis using i' by (meson le_trans less_imp_le order_refl less_le_trans)
  qed (use less.prems in auto)
qed

lemma scan_while_spec: "i \<le> s_len b \<Longrightarrow> i \<le> scan_while f b i \<and> scan_while f b i \<le> s_len b"
  by (induction f b i rule: scan_while.induct) (subst (1 2) scan_while.simps, auto)

lemma scanFollows_len: "scanFollows (s_from b i) pat \<Longrightarrow> i \<le> s_len b \<Longrightarrow> i + length pat \<le> s_len b"
  by (auto simp: scanFollows_def)

definition number_ok :: "slice \<Rightarrow> nat \<Rightarrow> bool \<Rightarrow> nat \<times> Kind \<Rightarrow> bool" where
  "number_ok b i isFloat = (\<lambda>(j, k). i \<le> j \<and> 0 < j \<and> j \<le> s_len b \<and>
     (k = Integer \<and> (\<forall>m. i \<le> m \<and> m < j \<longrightarrow> bytes b ! m \<notin> {CHR ''.'', CHR ''e'', CHR ''E''}) \<or>
      k = Float \<and> (isFloat \<or> (\<exists>m \<ge> i. m < j \<and> bytes b ! m \<notin> {CHR ''+'', CHR ''-'', CHR ''_''}))))"

lemma number_ok_digit:
  assumes "number_ok b (i + 1) fl x" "bytes b ! i \<notin> {CHR ''.'', CHR ''e'', CHR ''E''}"
  shows "number_ok b i fl x"
proof -
  obtain j k where x: "x = (j, k)" by fastforce
  have "(\<forall>m. i \<le> m \<and> m < j \<longrightarrow> bytes b ! m \<notin> {CHR ''.'', CHR ''e'', CHR ''E''})"
    if "\<forall>m. i + 1 \<le> m \<and> m < j \<longrightarrow> bytes b ! m \<notin> {CHR ''.'', CHR ''e'', CHR ''E''}"
    using that assms(2) by (metis Suc_eq_plus1 Suc_leI le_neq_implies_less)
  with assms(1) show ?thesis unfolding x number_ok_def prod.case by (meson Suc_leD Suc_eq_plus1 le_trans le_add1)
qed

lemma number_ok_float:
  assumes "number_ok b (i + 1) True x" "bytes b ! i \<notin> {CHR ''+'', CHR ''-'', CHR ''_''}"
    "snd x = Float"
  shows "number_ok b i fl x"
  using assms unfolding number_ok_def by fastforce

lemma scanNumber_loop_float:
  "scanNumber_loop b i True = Ok (j, k) \<Longrightarrow> k = Float"
proof (induction "s_len b - i" arbitrary: i rule: less_induct)
  case less
  show ?case
  proof (cases "i < s_len b")
    case True
    with less.hyps [of "i + 1"] less.prems [unfolded scanNumber_loop.simps [of b i True] Let_def] show ?thesis
      by (simp split: if_splits)
  next
    case False
    with less.prems [unfolded scanNumber_loop.simps [of b i True] Let_def] show ?thesis by (simp split: if_splits)
  qed
qed

lemma scanNumber_loop_spec:
  "i \<le> s_len b \<Longrightarrow> ensures (number_ok b i fl) (\<lambda>e. subslice (Highlight e) b) (scanNumber_loop b i fl)"
proof (induction "s_len b - i" arbitrary: i fl rule: less_induct)
  case less
  note S = scanNumber_loop.simps [of b i fl]
  show ?case
  proof (cases "i < s_len b")
    case True
    let ?c = "bytes b ! i"
    let ?d = "bval CHR ''0'' \<le> bval ?c \<and> bval ?c \<le> bval CHR ''9'' \<or> ?c = CHR ''+'' \<or> ?c = CHR ''-'' \<or> ?c = CHR ''_''"
    let ?f = "?c = CHR ''.'' \<or> ?c = CHR ''e'' \<or> ?c = CHR ''E''"
    have IH: "ensures (number_ok b (i + 1) fl) (\<lambda>e. subslice (Highlight e) b) (scanNumber_loop b (i + 1) fl)" for fl
      using True by (intro less.hyps) auto
    consider (digit) ?d | (flt) "\<not> ?d" ?f | (other) "\<not> ?d" "\<not> ?f" by blast
    then show ?thesis
    proof cases
      case digit
      then have c: "?c \<notin> {CHR ''.'', CHR ''e'', CHR ''E''}" by auto
      have "scanNumber_loop b i fl = scanNumber_loop b (i + 1) fl"
        using digit True unfolding S Let_def by (simp only: if_True)
      then show ?thesis using IH [of fl] number_ok_digit [OF _ c] by (simp add: ensures_mono)
    next
      case flt
      then have c: "?c \<notin> {CHR ''+'', CHR ''-'', CHR ''_''}" by auto
      have e: "scanNumber_loop b i fl = scanNumber_loop b (i + 1) True"
        using flt True unfolding S Let_def by (simp only: if_True if_False)
      show ?thesis unfolding e using IH [of True]
        by (rule ensures_mono) (use number_ok_float [OF _ c] scanNumber_loop_float in fastforce)+
    next
      case other
      then have f: "number_ok b i fl (i + 3, Float)" if "i + 3 \<le> s_len b"
        using that by (auto simp: number_ok_def intro!: exI [of _ i])
      have g: "number_ok b i fl (i, Integer)" "fl \<Longrightarrow> number_ok b i fl (i, Float)" if "i \<noteq> 0"
        using that True by (auto simp: number_ok_def)
      have w: "number_ok b i fl (i + 3, Float)" if "scanFollowsInf (s_from b i) \<or> scanFollowsNan (s_from b i)"
        using that True f by (auto simp: scanFollowsInf_def scanFollowsNan_def dest!: scanFollows_len)
      have "subslice (s_sub b i (i + 1)) b" using True by (intro subslice_sub) auto
      with True other w g show ?thesis unfolding S Let_def by auto
    qed
  next
    case False
    then show ?thesis using less.prems unfolding S Let_def by (auto simp: number_ok_def)
  qed
qed

lemma scanIntOrFloat_parsed:
  assumes "in_doc p b" "go_slice (p_data p)" "0 < s_len b"
  shows "ensures (parsed val_tree bd b) (err_in p) (scanIntOrFloat p bd b)"
proof (cases "2 < s_len b \<and> bytes b ! 0 = CHR ''0'' \<and> bytes b ! 1 \<noteq> CHR ''.'' \<and>
          bytes b ! 1 \<noteq> CHR ''e'' \<and> bytes b ! 1 \<noteq> CHR ''E''")
  case True
  define i where "i = (let c = bytes b ! 1 in if c = CHR ''x'' then scan_while isValidHexRune b 2
                 else if c = CHR ''o'' then scan_while isValidOctalRune b 2
                 else if c = CHR ''b'' then scan_while isValidBinaryRune b 2
                 else 1)"
  have "0 < i \<and> i \<le> s_len b \<and> int_token (take i (bytes b))"
    using True scan_while_spec [of 2 b isValidHexRune] scan_while_spec [of 2 b isValidOctalRune]
      scan_while_spec [of 2 b isValidBinaryRune]
    by (auto simp: i_def Let_def int_token_def)
  with assms have "ensures (parsed val_tree bd b) (err_in p) (push_range p bd Integer b i)"
    by (intro push_range_parsed) auto
  then show ?thesis using True by (simp add: scanIntOrFloat_def i_def Let_def)
next
  case False
  have "ensures (number_ok b 0 False) (err_in p) (scanNumber_loop b 0 False)"
    by (rule ensures_in_doc [OF scanNumber_loop_spec assms(1)]) simp
  then have "ensures (parsed val_tree bd b) (err_in p)
      (bind_outcome (scanNumber_loop b 0 False) (\<lambda>(i, k). push_range p bd k b i))"
  proof (rule ensures_bindI, clarify)
    fix j k assume j: "number_ok b 0 False (j, k)"
    have "val_tree (TNode k (take j (bytes b)) [])"
    proof (cases "k = Integer")
      case True
      with j have "\<forall>m < j. bytes b ! m \<notin> {CHR ''.'', CHR ''e'', CHR ''E''}" "0 < j" "j \<le> s_len b"
        by (auto simp: number_ok_def)
      with False assms(3) have "int_token (take j (bytes b))" by (auto simp: int_token_def)
      with True show ?thesis by simp
    next
      case k: False
      with j obtain m where "m < j" "j \<le> s_len b" "bytes b ! m \<notin> {CHR ''+'', CHR ''-'', CHR ''_''}" "k = Float"
        by (auto simp: number_ok_def)
      then have "float_token (take j (bytes b))"
        unfolding float_token_def by (intro bexI [of _ "bytes b ! m"]) (auto simp: in_set_conv_nth)
      with \<open>k = Float\<close> show ?thesis by simp
    qed
    with j assms show "ensures (parsed val_tree bd b) (err_in p) (push_range p bd k b j)"
      by (intro push_range_parsed) (auto simp: number_ok_def)
  qed
  then show ?thesis using False by (auto simp: scanIntOrFloat_def)
qed

lemma scanDateTime_parsed:
  assumes "in_doc p b" "go_slice (p_data p)" "0 < s_len b" "isDigit (bytes b ! 0)"
  shows "ensures (parsed val_tree bd b) (err_in p) (scanDateTime p bd b)"
proof -
  let ?s = "\<lparr>hasDate = False, hasTime = False, hasTz = False, seenSpace = False\<rparr>"
  obtain i st where st: "scanDateTime_loop b 0 ?s = (i, st)" by fastforce
  then have st1: "scanDateTime_loop b 1 ?s = (i, st)"
    using assms(3,4) by (subst (asm) scanDateTime_loop.simps) simp
  from scanDateTime_loop_spec [OF _ st1] assms(3)
  have i: "1 \<le> i" "i \<le> s_len b" by (auto simp: Suc_le_eq)
  have "tz_token (take i (bytes b))" if "hasTz st"
  proof -
    from scanDateTime_loop_spec [OF _ st] that obtain m where
      "m < i" "bytes b ! m \<in> {CHR ''+'', CHR ''Z'', CHR ''z''} \<or> bytes b ! m = CHR ''-'' \<and> 8 \<le> m" by auto
    then show ?thesis unfolding tz_token_def using i by (intro exI [of _ m]) simp
  qed
  then show ?thesis using st i
    by (auto simp: scanDateTime_def intro!: push_node_parsed)
qed

lemma looks_like_datetime_digit: "looks_like_datetime xs 0 \<Longrightarrow> xs \<noteq> [] \<and> isDigit (xs ! 0)"
  by (cases xs) (auto split: if_splits)

lemma parseIntOrFloatOrDateTime_parsed:
  assumes "in_doc p b" "go_slice (p_data p)" "0 < s_len b"
  shows "ensures (parsed val_tree bd b) (err_in p) (parseIntOrFloatOrDateTime p bd b)"
proof -
  have "ensures (parsed val_tree bd b) (err_in p) (push_range p bd Float b 3)" if "scanFollows b [x, y, z]" "x \<in> {CHR ''i'', CHR ''n''}" for x y z
  proof -
    have t: "3 \<le> s_len b" "take 3 (bytes b) = [x, y, z]" using that(1) by (simp_all add: scanFollows_def numeral_3_eq_3)
    have "float_token [x, y, z]" using that(2) by (auto simp: float_token_def)
    with t(2) have "val_tree (TNode Float (take 3 (bytes b)) [])" by simp
    then show ?thesis using assms t(1) by (intro push_range_parsed) simp_all
  qed
  moreover have "in_doc p (atmost b 3)" using assms(1) subslice_atmost by (rule in_doc_sub)
  moreover have "ensures (parsed val_tree bd b) (err_in p) (scanDateTime p bd b)"
    if "looks_like_datetime (take s (bytes b)) 0" for s
    using looks_like_datetime_digit [OF that] assms by (intro scanDateTime_parsed) auto
  ultimately show ?thesis using assms scanIntOrFloat_parsed [OF assms, of bd]
    by (auto simp: parseIntOrFloatOrDateTime_def scanFollowsInf_def scanFollowsNan_def Let_def)
qed

section \<open>Keys and comments\<close>

abbreviation n_len :: "builder \<Rightarrow> int" where
  "n_len bd \<equiv> int (length (nodes bd))"

lemma keeps_snoc_update:
  "n \<le> n_len bd \<Longrightarrow> n \<le> l \<Longrightarrow> 0 \<le> l \<Longrightarrow> keeps n (nodes bd) ((nodes bd @ [x])[nat l := v])"
  by (rule keeps_trans [OF keeps_append keeps_update, of n _ n]) auto

lemma PushAndChain_chn:
  assumes "chn (nodes bd) r ts (lastIdx bd) a (n_len bd)" "a \<le> n_len bd"
  shows "\<exists>bd'. PushAndChain bd (new_node k rg d) = Ok (bd', n_len bd) \<and> n_len bd' = n_len bd + 1 \<and>
    chn (nodes bd') r (ts @ [TNode k d []]) (lastIdx bd') a (n_len bd') \<and> keeps a (nodes bd) (nodes bd')"
proof -
  let ?l = "lastIdx bd" and ?c = "n_len bd"
  let ?ns = "nodes bd @ [new_node k rg d]"
  let ?ns' = "?ns[nat ?l := (?ns ! nat ?l)\<lparr>next := ?c - ?l\<rparr>]"
  from chn_last [OF assms(1)] have l: "0 \<le> ?l" "?l < ?c" "a \<le> ?l" by auto
  have "chn ?ns r ts ?l a ?c" by (rule chn_keeps [OF assms(1)]) simp
  moreover have "built ?ns ?c (?c + 1) ?c (TNode k d [])" by (rule opn_built [OF opn_Push])
  ultimately have "chn ?ns' r (ts @ [TNode k d []]) ?c a (?c + 1)" using assms(2) by (rule chn_snoc)
  moreover have "keeps a (nodes bd) ?ns'" using assms(2) l by (intro keeps_snoc_update) auto
  moreover have "PushAndChain bd (new_node k rg d) = Ok (bd\<lparr>nodes := ?ns', lastIdx := ?c\<rparr>, ?c)"
    using l by (simp add: PushAndChain_def upd_node_def Let_def)
  ultimately show ?thesis by (auto simp: add.commute)
qed

definition keys_parsed :: "int \<Rightarrow> builder \<Rightarrow> nat \<Rightarrow> slice \<Rightarrow> builder \<times> reference \<times> slice \<Rightarrow> bool" where
  "keys_parsed a bd n b = (\<lambda>(bd', r, rest).
     keeps a (nodes bd) (nodes bd') \<and>
     (\<exists>ks l. chn (nodes bd') (Some r) ks l a (n_len bd') \<and> (\<forall>k \<in> set ks. key_tree k)) \<and>
     adv n b rest)"

lemma parseKey_loop_parsed:
  assumes "go_slice (p_data p)"
  shows "in_doc p b \<Longrightarrow> chn (nodes bd) (Some ref) ks (lastIdx bd) a (n_len bd) \<Longrightarrow> a \<le> n_len bd \<Longrightarrow>
   \<forall>k \<in> set ks. key_tree k \<Longrightarrow> ensures (keys_parsed a bd 0 b) (err_in p) (parseKey_loop p bd ref b)"
proof (induction "s_len b" arbitrary: b bd ks rule: less_induct)
  case less
  note S = parseKey_loop.simps [of p bd ref b]
  let ?b = "parseWhitespace b"
  have b: "in_doc p ?b" using less.prems(1) adv_whitespace by (rule in_doc_adv)
  show ?case
  proof (cases "0 < s_len ?b \<and> bytes ?b ! 0 = CHR ''.''")
    case True
    let ?b1 = "parseWhitespace (s_from ?b 1)"
    have "adv 1 ?b (s_from ?b 1)" using True by (simp add: Suc_le_eq)
    then have adv1: "adv 1 b ?b1"
      by (meson adv_trans adv_whitespace le_add1 le_add2 order_refl)
    then have b1: "in_doc p ?b1" using less.prems(1) by (rule in_doc_adv [rotated])
    have "ensures (keys_parsed a bd 0 b) (err_in p)
       (bind_outcome (parseSimpleKey ?b1) (\<lambda>(raw, key, b'). bind_outcome (Parser_Range p raw) (\<lambda>r.
          bind_outcome (PushAndChain bd (new_node Key r key)) (\<lambda>(bd', _). parseKey_loop p bd' ref b'))))"
    proof (rule ensures_bindI [OF ensures_in_doc [OF parseSimpleKey_ensures b1]], clarify)
      fix raw key rest assume "string_token ?b1 (raw, key, rest)"
      then have s: "adv 1 ?b1 rest" "subslice raw ?b1" "utf8_text key" by (auto dest: string_token_adv)
      obtain rg where rg: "Parser_Range p raw = Ok rg"
        using Parser_Range_Ok [OF in_doc_sub [OF b1 s(2)] assms] by blast
      from PushAndChain_chn [OF less.prems(2,3), of Key rg key] obtain bd' where
        bd': "PushAndChain bd (new_node Key rg key) = (Ok (bd', n_len bd) :: (ParserError, _) outcome)" "n_len bd' = n_len bd + 1"
        "chn (nodes bd') (Some ref) (ks @ [TNode Key key []]) (lastIdx bd') a (n_len bd')" "keeps a (nodes bd) (nodes bd')"
        by blast
      have rest: "adv 2 b rest" using adv1 s(1) by (rule adv_trans) simp
      have "ensures (keys_parsed a bd' 0 rest) (err_in p) (parseKey_loop p bd' ref rest)"
        using adv_len [OF rest] bd'(2) less.prems(3,4) s(3) in_doc_adv [OF less.prems(1) rest]
        by (intro less.hyps [OF _ _ bd'(3)]) (auto simp: key_tree_def)
      then have "ensures (keys_parsed a bd 0 b) (err_in p) (parseKey_loop p bd' ref rest)"
        by (rule ensures_mono) (auto simp: keys_parsed_def intro: keeps_trans [OF bd'(4)] adv_trans [OF rest])
      then show "ensures (keys_parsed a bd 0 b) (err_in p) (bind_outcome (Parser_Range p raw) (\<lambda>r.
          bind_outcome (PushAndChain bd (new_node Key r key)) (\<lambda>(bd', _). parseKey_loop p bd' ref rest)))"
        by (simp add: rg bd'(1))
    qed
    then show ?thesis using True by (simp add: S Let_def)
  next
    case False
    then show ?thesis using less.prems unfolding S Let_def by (auto simp: keys_parsed_def)
  qed
qed

lemma parseKey_parsed:
  assumes "go_slice (p_data p)" "in_doc p b"
  shows "ensures (keys_parsed (n_len bd) bd 1 b) (err_in p) (parseKey p bd b)"
  unfolding parseKey_def
proof (rule ensures_bindI [OF ensures_in_doc [OF parseSimpleKey_ensures assms(2)]], clarify)
  fix raw key rest assume "string_token b (raw, key, rest)"
  then have s: "adv 1 b rest" "subslice raw b" "utf8_text key" by (auto dest: string_token_adv)
  obtain rg where rg: "Parser_Range p raw = Ok rg"
    using Parser_Range_Ok [OF in_doc_sub [OF assms(2) s(2)] assms(1)] by blast
  let ?bd = "fst (Push bd (new_node Key rg key))"
  have "chn (nodes ?bd) (Some (n_len bd)) [TNode Key key []] (n_len bd) (n_len bd) (n_len bd + 1)"
    unfolding nodes_Push by (rule chn_single [OF opn_built [OF opn_Push]])
  then have "ensures (keys_parsed (n_len bd) ?bd 0 rest) (err_in p) (parseKey_loop p ?bd (n_len bd) rest)"
    using assms s in_doc_adv
    by (intro parseKey_loop_parsed) (auto simp: key_tree_def Push_def Let_def add.commute)
  then have "ensures (keys_parsed (n_len bd) bd 1 b) (err_in p) (parseKey_loop p ?bd (n_len bd) rest)"
    by (rule ensures_mono)
      (auto simp: keys_parsed_def intro: keeps_trans [OF keeps_append] adv_trans [OF s(1)])
  then show "ensures (keys_parsed (n_len bd) bd 1 b) (err_in p) (bind_outcome (Parser_Range p raw) (\<lambda>r.
      let (bd', ref) = Push bd (new_node Key r key) in parseKey_loop p bd' ref rest))"
    by (simp add: rg Push_def Let_def)
qed

text \<open>Adding a child to an open node, the way \<open>addChild\<close>, \<open>addComment\<close> and the inline-table loop do.\<close>

lemma opn_grow:
  assumes "opn (nodes bd) i k d ts l (n_len bd)" "keeps (n_len bd) (nodes bd) (nodes bd')"
    "built (nodes bd') (n_len bd) (n_len bd') c t"
  shows "\<exists>bd''. (if ts = [] then AttachChild bd' i c else Chain bd' l c) = Ok bd'' \<and>
    opn (nodes bd'') i k d (ts @ [t]) c (n_len bd'') \<and> n_len bd'' = n_len bd' \<and> keeps i (nodes bd') (nodes bd'')"
proof -
  have o: "opn (nodes bd') i k d ts l (n_len bd)" using assms(1,2) by (rule opn_keeps)
  have i: "0 \<le> i" "i < n_len bd'" using o by (auto simp: opn_def)
  show ?thesis
  proof (cases "ts = []")
    case True
    with o have "opn (nodes bd') i k d [] l (n_len bd)" by simp
    from opn_attach [OF this chn_single [OF assms(3)]] True show ?thesis
      using i by (auto simp: AttachChild_Ok intro!: keeps_update)
  next
    case False
    then have "chn (nodes bd') (link i (child (nodes bd' ! nat i))) ts l (i + 1) (n_len bd)"
      using o by (auto simp: opn_def)
    from chn_last [OF this] have l: "0 \<le> l" "l < n_len bd'" "i \<le> l" by auto
    from opn_chain [OF o False assms(3)] False l show ?thesis by (auto simp: Chain_Ok intro!: keeps_update)
  qed
qed

lemma scanComment_loop_pos:
  "scanComment_loop b i = Ok (tok, rest) \<Longrightarrow> i \<le> s_len b \<Longrightarrow> i \<le> s_len tok"
proof (induction "s_len b - i" arbitrary: i rule: less_induct)
  case less
  note S = scanComment_loop_eq [of b i]
  show ?case
  proof (cases "i < s_len b")
    case True
    then obtain n where n: "Utf8ValidNext (drop i (bytes b)) = Some n" "i + n \<le> s_len b" by (rule Utf8ValidNext_drop)
    have "i + n \<le> s_len tok" if "scanComment_loop b (i + n) = Ok (tok, rest)" "0 < n"
      using that n True by (intro less.hyps) auto
    with less.prems True n show ?thesis by (auto simp: S split: if_splits)
  next
    case False
    with less.prems show ?thesis by (simp add: S)
  qed
qed

definition comment_parsed :: "builder \<Rightarrow> slice \<Rightarrow> builder \<times> reference \<times> slice \<Rightarrow> bool" where
  "comment_parsed bd b = (\<lambda>(bd', r, rest). adv 1 b rest \<and>
     (r = invalidReference \<and> bd' = bd \<or>
      r \<noteq> invalidReference \<and> keeps (n_len bd) (nodes bd) (nodes bd') \<and>
        (\<exists>d. \<forall>l. opn (nodes bd') r Comment d [] l (n_len bd')) \<and> r = n_len bd))"

lemma parseComment_parsed:
  assumes "go_slice (p_data p)" "in_doc p b" "0 < s_len b"
  shows "ensures (comment_parsed bd b) (err_in p) (parseComment p bd b)"
proof -
  have "ensures (\<lambda>(tok, rest). splits b tok rest \<and> 1 \<le> s_len tok) (\<lambda>e. subslice (Highlight e) b) (scanComment b)"
    using scanComment_well [of b] scanComment_loop_pos [of b 1] assms(3)
    by (cases "scanComment b") (auto simp: scanComment_def well_scanned_def Suc_le_eq)
  then show ?thesis unfolding parseComment_def
  proof (rule ensures_bindI [OF ensures_in_doc [OF _ assms(2)]], clarify)
    fix tok rest assume s: "splits b tok rest" "1 \<le> s_len tok"
    have "in_doc p tok" using in_doc_sub [OF assms(2)] splits_subslice(1) [OF s(1)] by blast
    then obtain rg where "Parser_Range p tok = Ok rg" using Parser_Range_Ok [OF _ assms(1)] by blast
    then show "ensures (comment_parsed bd b) (err_in p)
        (if KeepComments p
         then bind_outcome (Parser_Range p tok) (\<lambda>r. let (bd, ref) = Push bd (new_node Comment r (bytes tok)) in Ok (bd, ref, rest))
         else Ok (bd, invalidReference, rest))"
      using s opn_Push [of bd Comment rg "bytes tok"]
      by (auto simp: comment_parsed_def Push_def Let_def splits_adv add.commute invalidReference_def)
  qed
qed

definition comments_inv :: "int \<Rightarrow> builder \<Rightarrow> builder \<Rightarrow> reference \<Rightarrow> reference \<Rightarrow> bool" where
  "comments_inv a bd0 bd root latest \<longleftrightarrow> keeps a (nodes bd0) (nodes bd) \<and> a \<le> n_len bd \<and>
     (root = invalidReference \<and> latest = invalidReference \<and> bd = bd0 \<or>
      a \<le> root \<and> (\<exists>d cs. opn (nodes bd) root Comment d cs latest (n_len bd) \<and>
        (cs = [] \<longleftrightarrow> latest = invalidReference) \<and> (\<forall>c \<in> set cs. t_kind c = Comment \<and> t_subs c = [])))"

lemma addComment_inv:
  assumes inv: "comments_inv a bd0 bd root latest" and "0 \<le> a"
    and c: "comment_parsed bd b (bd', r, rest)" "r \<noteq> invalidReference"
  shows "\<exists>bd'' root' latest'. addComment bd' root latest r = Ok (bd'', root', latest') \<and>
     comments_inv a bd0 bd'' root' latest'"
proof -
  from c obtain d where k: "keeps (n_len bd) (nodes bd) (nodes bd')" and r: "r = n_len bd"
    and o: "\<And>l. opn (nodes bd') r Comment d [] l (n_len bd')" by (auto simp: comment_parsed_def)
  have ka: "keeps a (nodes bd0) (nodes bd')" using inv k by (auto simp: comments_inv_def intro: keeps_trans)
  have a: "a \<le> n_len bd" "a \<le> n_len bd'" using inv k by (auto simp: comments_inv_def keeps_def)
  show ?thesis
  proof (cases "root = invalidReference")
    case True
    with inv assms(2) have "latest = invalidReference" by (auto simp: comments_inv_def invalidReference_def)
    with ka a r o have "comments_inv a bd0 bd' r latest"
      unfolding comments_inv_def by (intro conjI disjI2 exI [of _ d] exI [of _ "[]"]) auto
    then show ?thesis using True by (simp add: addComment_def)
  next
    case False
    with inv obtain d' cs where root: "a \<le> root" "opn (nodes bd) root Comment d' cs latest (n_len bd)"
      "cs = [] \<longleftrightarrow> latest = invalidReference" "\<forall>c \<in> set cs. t_kind c = Comment \<and> t_subs c = []"
      by (auto simp: comments_inv_def)
    have bt: "built (nodes bd') (n_len bd) (n_len bd') r (TNode Comment d [])"
      using opn_built [OF o [of 0]] r by simp
    from opn_grow [OF root(2) k bt] obtain bd'' where
      bd'': "(if cs = [] then AttachChild bd' root r else Chain bd' latest r) = (Ok bd'' :: (ParserError, builder) outcome)"
      "opn (nodes bd'') root Comment d' (cs @ [TNode Comment d []]) r (n_len bd'')" "n_len bd'' = n_len bd'"
      "keeps root (nodes bd') (nodes bd'')" by blast
    have "keeps a (nodes bd0) (nodes bd'')" using ka bd''(4) root(1) by (rule keeps_trans)
    with bd'' root False c(2) a have "comments_inv a bd0 bd'' root r"
      unfolding comments_inv_def by (intro conjI disjI2 exI [of _ d'] exI [of _ "cs @ [TNode Comment d []]"]) auto
    moreover have "addComment bd' root latest r = Ok (bd'', root, r)"
      using bd''(1) root(3) False by (auto simp: addComment_def split: if_splits)
    ultimately show ?thesis by blast
  qed
qed

definition comments_parsed :: "int \<Rightarrow> builder \<Rightarrow> slice \<Rightarrow> builder \<times> reference \<times> slice \<Rightarrow> bool" where
  "comments_parsed a bd0 b = (\<lambda>(bd', r, rest). adv 0 b rest \<and> (\<exists>latest. comments_inv a bd0 bd' r latest))"

lemma comments_parsed_adv: "comments_parsed a bd0 b' x \<Longrightarrow> adv n b b' \<Longrightarrow> comments_parsed a bd0 b x"
  by (auto simp: comments_parsed_def intro: adv_trans)

lemma wcn_comment:
  assumes "go_slice (p_data p)" "in_doc p b" "comments_inv a bd0 bd root latest" "0 \<le> a"
  shows "ensures (\<lambda>(bd', root', latest', b'). comments_inv a bd0 bd' root' latest' \<and> adv 0 b b') (err_in p)
    (if 0 < s_len b \<and> bytes b ! 0 = CHR ''#'' then
       bind_outcome (parseComment p bd b) (\<lambda>(bd, ref, b).
         if ref \<noteq> invalidReference then
           bind_outcome (addComment bd root latest ref) (\<lambda>(bd, root, latest). Ok (bd, root, latest, b))
         else Ok (bd, root, latest, b))
     else Ok (bd, root, latest, b))"
proof (cases "0 < s_len b \<and> bytes b ! 0 = CHR ''#''")
  case True
  show ?thesis unfolding if_P [OF True]
  proof (rule ensures_bindI [OF parseComment_parsed [OF assms(1,2) conjunct1 [OF True]]], clarify)
    fix bd' r rest assume c: "comment_parsed bd b (bd', r, rest)"
    then have "adv 0 b rest" by (auto simp: comment_parsed_def adv_def)
    then show "ensures (\<lambda>(bd', root', latest', b'). comments_inv a bd0 bd' root' latest' \<and> adv 0 b b') (err_in p)
        (if r \<noteq> invalidReference then bind_outcome (addComment bd' root latest r) (\<lambda>(bd, root, latest). Ok (bd, root, latest, rest))
         else Ok (bd', root, latest, rest))"
      using addComment_inv [OF assms(3,4) c] assms(3) c by (auto simp: comment_parsed_def)
  qed
qed (use assms in auto)

lemma wcn_loop_parsed:
  assumes "go_slice (p_data p)" "0 \<le> a"
  shows "in_doc p b \<Longrightarrow> comments_inv a bd0 bd root latest \<Longrightarrow>
    ensures (comments_parsed a bd0 b) (err_in p) (wcn_loop p bd root latest b)"
proof (induction "s_len b" arbitrary: b bd root latest rule: less_induct)
  case less
  note S = wcn_loop.simps [of p bd root latest b]
  let ?b = "parseWhitespace b"
  have b: "in_doc p ?b" using less.prems(1) adv_whitespace by (rule in_doc_adv)
  show ?case
  proof (cases "0 < s_len b")
    case True
    show ?thesis unfolding S if_P [OF True] Let_def
    proof (rule ensures_bindI [OF wcn_comment [OF assms(1) b less.prems(2) assms(2)]], clarify)
      fix bd' root' latest' b' assume inv: "comments_inv a bd0 bd' root' latest'" and "adv 0 ?b b'"
      then have b': "adv 0 b b'" by (meson adv_whitespace adv_trans le_add1)
      have nl: "ensures (comments_parsed a bd0 b) (err_in p) (bind_outcome (parseNewline b') (\<lambda>b. wcn_loop p bd' root' latest' b))"
        if "0 < s_len b'"
      proof (rule ensures_bindI [OF ensures_in_doc [OF parseNewline_ensures [OF that] in_doc_adv [OF less.prems(1) b']]])
        fix b2 assume "adv 1 b' b2"
        then have b2: "adv 1 b b2" using b' by (meson adv_trans le_add2)
        have "ensures (comments_parsed a bd0 b2) (err_in p) (wcn_loop p bd' root' latest' b2)"
          using adv_len [OF b2] in_doc_adv [OF less.prems(1) b2] inv by (intro less.hyps) auto
        then show "ensures (comments_parsed a bd0 b) (err_in p) (wcn_loop p bd' root' latest' b2)"
          by (rule ensures_mono) (auto intro: comments_parsed_adv [OF _ b2])
      qed
      then show "ensures (comments_parsed a bd0 b) (err_in p)
          (if s_len b' = 0 then Ok (bd', root', b')
           else if bytes b' ! 0 = c_nl \<or> bytes b' ! 0 = c_cr then bind_outcome (parseNewline b') (\<lambda>b. wcn_loop p bd' root' latest' b)
           else Ok (bd', root', b'))"
        using inv b' by (auto simp: comments_parsed_def simp del: ensures_bind)
    qed
  next
    case False
    then show ?thesis using less.prems by (auto simp: S comments_parsed_def)
  qed
qed

lemma parseOptional_parsed:
  assumes "go_slice (p_data p)" "in_doc p b"
  shows "ensures (comments_parsed (n_len bd) bd b) (err_in p) (parseOptionalWhitespaceCommentNewline p bd b)"
  unfolding parseOptionalWhitespaceCommentNewline_def
  using assms by (intro wcn_loop_parsed) (auto simp: comments_inv_def)

text \<open>The state of \<open>parseValArray\<close>'s loop.\<close>

definition arr_inv :: "builder \<Rightarrow> reference \<Rightarrow> reference \<Rightarrow> bool" where
  "arr_inv bd parent l \<longleftrightarrow> (\<exists>ts. opn (nodes bd) parent Array [] ts l (n_len bd) \<and>
     (ts = [] \<longleftrightarrow> l = invalidReference) \<and> (\<forall>t \<in> set ts. val_tree t \<or> comment_tree t))"

lemma arr_inv_range: "arr_inv bd parent l \<Longrightarrow> 0 \<le> parent \<and> parent < n_len bd"
  by (auto simp: arr_inv_def opn_def)

lemma addChild_inv:
  assumes "arr_inv bd parent l" "keeps (n_len bd) (nodes bd) (nodes bd')"
    "built (nodes bd') (n_len bd) (n_len bd') c t" "val_tree t \<or> comment_tree t"
  shows "\<exists>bd''. addChild bd' parent l c = Ok (bd'', c) \<and> arr_inv bd'' parent c \<and> keeps parent (nodes bd) (nodes bd'')"
proof -
  from assms(1) obtain ts where o: "opn (nodes bd) parent Array [] ts l (n_len bd)"
    "ts = [] \<longleftrightarrow> l = invalidReference" "\<forall>t \<in> set ts. val_tree t \<or> comment_tree t" by (auto simp: arr_inv_def)
  from opn_grow [OF o(1) assms(2,3)] obtain bd'' where
    bd'': "(if ts = [] then AttachChild bd' parent c else Chain bd' l c) = (Ok bd'' :: (ParserError, builder) outcome)"
    "opn (nodes bd'') parent Array [] (ts @ [t]) c (n_len bd'')" "keeps parent (nodes bd') (nodes bd'')" by blast
  have "c \<noteq> invalidReference" using built_range [OF assms(3)] by (auto simp: invalidReference_def)
  with bd''(2) o(3) assms(4) have "arr_inv bd'' parent c"
    unfolding arr_inv_def by (intro exI [of _ "ts @ [t]"]) auto
  moreover have "keeps parent (nodes bd) (nodes bd')"
    using assms(2) by (rule keeps_mono) (use arr_inv_range [OF assms(1)] in simp)
  then have "keeps parent (nodes bd) (nodes bd'')" using bd''(3) by (rule keeps_trans) simp
  ultimately show ?thesis using bd''(1) o(2) by (auto simp: addChild_def)
qed

definition arr_step :: "builder \<Rightarrow> reference \<Rightarrow> slice \<Rightarrow> builder \<times> reference \<times> slice \<Rightarrow> bool" where
  "arr_step bd parent b = (\<lambda>(bd', l', b').
     arr_inv bd' parent l' \<and> keeps parent (nodes bd) (nodes bd') \<and> adv 0 b b')"

lemma comments_inv_tree:
  assumes "comments_inv (n_len bd) bd bd' r latest" "r \<noteq> invalidReference"
  shows "\<exists>t. built (nodes bd') (n_len bd) (n_len bd') r t \<and> comment_tree t"
proof -
  from assms obtain d cs where "n_len bd \<le> r" "opn (nodes bd') r Comment d cs latest (n_len bd')"
    "\<forall>c \<in> set cs. t_kind c = Comment \<and> t_subs c = []" by (auto simp: comments_inv_def)
  then show ?thesis
    by (intro exI [of _ "TNode Comment d cs"]) (auto simp: comment_tree_def dest!: opn_built intro: built_mono)
qed

lemma array_comments_parsed:
  assumes "go_slice (p_data p)" "in_doc p b" "arr_inv bd parent l"
  shows "ensures (arr_step bd parent b) (err_in p) (array_comments p bd parent l b)"
  unfolding array_comments_def
proof (rule ensures_bindI [OF parseOptional_parsed [OF assms(1,2)]], clarify)
  fix bd' r rest assume "comments_parsed (n_len bd) bd b (bd', r, rest)"
  then obtain latest where c: "comments_inv (n_len bd) bd bd' r latest" and rest: "adv 0 b rest"
    by (auto simp: comments_parsed_def)
  show "ensures (arr_step bd parent b) (err_in p)
      (if r \<noteq> invalidReference then bind_outcome (addChild bd' parent l r) (\<lambda>(bd, lastChild). Ok (bd, lastChild, rest))
       else Ok (bd', l, rest))"
  proof (cases "r = invalidReference")
    case True
    with c have "bd' = bd" by (auto simp: comments_inv_def invalidReference_def)
    with True assms(3) rest show ?thesis by (simp add: arr_step_def)
  next
    case False
    from comments_inv_tree [OF c False] obtain t where t: "built (nodes bd') (n_len bd) (n_len bd') r t" "comment_tree t" by blast
    have "keeps (n_len bd) (nodes bd) (nodes bd')" using c by (simp add: comments_inv_def)
    from addChild_inv [OF assms(3) this t(1)] t(2) False rest show ?thesis by (auto simp: arr_step_def)
  qed
qed

section \<open>Values and key-values\<close>

text \<open>
  What each of the mutually recursive methods guarantees when its fuel is at least six times the
  number of bytes left plus its rank.
\<close>

definition val_ok :: "nat \<Rightarrow> Parser \<Rightarrow> bool" where
  "val_ok n p \<longleftrightarrow> (\<forall>bd b. in_doc p b \<and> 6 * s_len b + 2 \<le> n \<longrightarrow>
     ensures (parsed val_tree bd b) (err_in p) (parseVal n p bd b))"

definition tab_ok :: "nat \<Rightarrow> Parser \<Rightarrow> bool" where
  "tab_ok n p \<longleftrightarrow> (\<forall>bd b. in_doc p b \<and> 0 < s_len b \<and> 6 * s_len b + 1 \<le> n \<longrightarrow>
     ensures (parsed val_tree bd b) (err_in p) (parseInlineTable n p bd b))"

definition arr_ok :: "nat \<Rightarrow> Parser \<Rightarrow> bool" where
  "arr_ok n p \<longleftrightarrow> (\<forall>bd b. in_doc p b \<and> 0 < s_len b \<and> 6 * s_len b + 1 \<le> n \<longrightarrow>
     ensures (parsed val_tree bd b) (err_in p) (parseValArray n p bd b))"

definition kv_ok :: "nat \<Rightarrow> Parser \<Rightarrow> bool" where
  "kv_ok n p \<longleftrightarrow> (\<forall>bd b. in_doc p b \<and> 6 * s_len b + 1 \<le> n \<longrightarrow>
     ensures (parsed keyval_tree bd b) (err_in p) (parseKeyval n p bd b))"

text \<open>A loop ends with its parent node \<open>i\<close> closed.\<close>

definition closed :: "(toml \<Rightarrow> bool) \<Rightarrow> reference \<Rightarrow> builder \<Rightarrow> slice \<Rightarrow> builder \<times> reference \<times> slice \<Rightarrow> bool" where
  "closed Q i bd b = (\<lambda>(bd', r, rest). r = i \<and> keeps i (nodes bd) (nodes bd') \<and>
     (\<exists>t. built (nodes bd') i (n_len bd') i t \<and> Q t) \<and> adv 1 b rest)"

lemma closed_step:
  "closed Q i bd' b' x \<Longrightarrow> keeps i (nodes bd) (nodes bd') \<Longrightarrow> adv n b b' \<Longrightarrow> closed Q i bd b x"
  by (auto simp: closed_def intro: keeps_trans adv_trans)

lemma closed_parsed:
  "closed Q (n_len bd) bd' b' x \<Longrightarrow> keeps (n_len bd) (nodes bd) (nodes bd') \<Longrightarrow> adv n b b' \<Longrightarrow> parsed Q bd b x"
  by (auto simp: closed_def parsed_def intro: keeps_trans adv_trans)

definition tab_inv :: "builder \<Rightarrow> reference \<Rightarrow> bool \<Rightarrow> reference \<Rightarrow> bool" where
  "tab_inv bd parent is_first l \<longleftrightarrow> (\<exists>ts. opn (nodes bd) parent InlineTable [] ts l (n_len bd) \<and>
     (ts = [] \<longleftrightarrow> is_first) \<and> (\<forall>t \<in> set ts. keyval_tree t))"

definition tabloop_ok :: "nat \<Rightarrow> Parser \<Rightarrow> bool" where
  "tabloop_ok n p \<longleftrightarrow> (\<forall>bd parent is_first l b. in_doc p b \<and> tab_inv bd parent is_first l \<and> 6 * s_len b + 2 \<le> n \<longrightarrow>
     ensures (closed val_tree parent bd b) (err_in p) (parseInlineTable_loop n p bd parent is_first l b))"

definition arrloop_ok :: "nat \<Rightarrow> Parser \<Rightarrow> bool" where
  "arrloop_ok n p \<longleftrightarrow> (\<forall>bd st parent is_first l b. in_doc p b \<and> in_doc p st \<and> 0 < s_len st \<and> arr_inv bd parent l \<and>
     6 * s_len b + 3 \<le> n \<longrightarrow>
     ensures (closed val_tree parent bd b) (err_in p) (parseValArray_loop n p bd st parent is_first l b))"

lemma val_ok_Suc:
  assumes "go_slice (p_data p)" "tab_ok n p" "arr_ok n p"
  shows "val_ok (Suc n) p"
  unfolding val_ok_def
proof (intro allI impI, elim conjE)
  fix bd b assume b: "in_doc p b" "6 * s_len b + 2 \<le> Suc n"
  have str: "ensures (parsed val_tree bd b) (err_in p) (push_string p bd res)"
    if "ensures (string_token b) (\<lambda>e. subslice (Highlight e) b) res" for res
    using that b(1) assms(1) by (rule push_string_parsed) simp
  have am: "in_doc p (atmost b n)" for n using b(1) subslice_atmost by (rule in_doc_sub)
  have tf: "ensures (parsed val_tree bd b) (err_in p) (push_node bd (new_node Bool no_range (take m (bytes b))) (s_from b m))"
    if "scanFollows b d" "d = ''true'' \<or> d = ''false''" "length d = m" for d m
    using that by (intro push_node_parsed) (auto simp: scanFollows_def)
  have nest: "ensures (parsed val_tree bd b) (err_in p) (parseValArray n p bd b)"
    "ensures (parsed val_tree bd b) (err_in p) (parseInlineTable n p bd b)"
    "ensures (parsed val_tree bd b) (err_in p) (parseIntOrFloatOrDateTime p bd b)" if "0 < s_len b"
    using that b assms parseIntOrFloatOrDateTime_parsed [OF b(1) assms(1) that]
    by (auto simp: tab_ok_def arr_ok_def)
  show "ensures (parsed val_tree bd b) (err_in p) (parseVal (Suc n) p bd b)"
    using b(1) am nest tf [of "''true''" 4] tf [of "''false''" 5]
      str [OF parseBasicString_ensures] str [OF parseMultilineBasicString_ensures]
      str [OF parseLiteralString_ensures] str [OF parseMultilineLiteralString_ensures]
    by (auto simp: parseVal.simps Let_def scanFollowsTrue_def scanFollowsFalse_def)
qed

lemma tab_ok_Suc:
  assumes "go_slice (p_data p)" "tabloop_ok n p"
  shows "tab_ok (Suc n) p"
  unfolding tab_ok_def
proof (intro allI impI, elim conjE)
  fix bd b assume b: "in_doc p b" "0 < s_len b" "6 * s_len b + 1 \<le> Suc n"
  have "in_doc p (s_sub b 0 1)" using b(1) by (rule in_doc_sub) (rule subslice_sub, use b in \<open>auto simp: Suc_le_eq\<close>)
  then obtain rg where rg: "Parser_Range p (s_sub b 0 1) = Ok rg" using Parser_Range_Ok [OF _ assms(1)] by blast
  let ?bd = "fst (Push bd (new_node InlineTable rg []))"
  have "tab_inv ?bd (n_len bd) True 0"
    unfolding tab_inv_def nodes_Push by (rule exI [of _ "[]"]) (use opn_Push [of bd InlineTable rg "[]" 0] in \<open>simp add: add.commute\<close>)
  moreover have f: "adv 1 b (s_from b 1)" using b by (simp add: Suc_le_eq)
  have fu: "6 * s_len (s_from b 1) + 2 \<le> n" using b(3) adv_len [OF f] by linarith
  ultimately have "ensures (closed val_tree (n_len bd) ?bd (s_from b 1)) (err_in p)
      (parseInlineTable_loop n p ?bd (n_len bd) True 0 (s_from b 1))"
    using assms(2) in_doc_adv [OF b(1) f] fu b unfolding tabloop_ok_def by blast
  then have "ensures (parsed val_tree bd b) (err_in p) (parseInlineTable_loop n p ?bd (n_len bd) True 0 (s_from b 1))"
    by (rule ensures_mono) (auto intro: closed_parsed [OF _ _ f])
  then show "ensures (parsed val_tree bd b) (err_in p) (parseInlineTable (Suc n) p bd b)"
    using b rg by (simp add: parseInlineTable.simps Push_def Let_def Suc_le_eq)
qed

lemma arr_ok_Suc:
  assumes "go_slice (p_data p)" "arrloop_ok n p"
  shows "arr_ok (Suc n) p"
  unfolding arr_ok_def
proof (intro allI impI, elim conjE)
  fix bd b assume b: "in_doc p b" "0 < s_len b" "6 * s_len b + 1 \<le> Suc n"
  let ?bd = "fst (Push bd (new_node Array no_range []))"
  have "arr_inv ?bd (n_len bd) invalidReference"
    unfolding arr_inv_def nodes_Push by (rule exI [of _ "[]"]) (use opn_Push [of bd Array no_range "[]"] in \<open>simp add: add.commute\<close>)
  moreover have f: "adv 1 b (s_from b 1)" using b by (simp add: Suc_le_eq)
  have fu: "6 * s_len (s_from b 1) + 3 \<le> n" using b(3) adv_len [OF f] by linarith
  ultimately have "ensures (closed val_tree (n_len bd) ?bd (s_from b 1)) (err_in p)
      (parseValArray_loop n p ?bd b (n_len bd) True invalidReference (s_from b 1))"
    using assms(2) in_doc_adv [OF b(1) f] fu b unfolding arrloop_ok_def by blast
  then have "ensures (parsed val_tree bd b) (err_in p) (parseValArray_loop n p ?bd b (n_len bd) True invalidReference (s_from b 1))"
    by (rule ensures_mono) (auto intro: closed_parsed [OF _ _ f])
  then show "ensures (parsed val_tree bd b) (err_in p) (parseValArray (Suc n) p bd b)"
    by (simp add: parseValArray.simps Push_def Let_def)
qed

lemma kv_ok_Suc:
  assumes "go_slice (p_data p)" "val_ok n p"
  shows "kv_ok (Suc n) p"
  unfolding kv_ok_def
proof (intro allI impI, elim conjE)
  fix bd b assume b: "in_doc p b" "6 * s_len b + 1 \<le> Suc n"
  let ?bd = "fst (Push bd (new_node KeyValue no_range []))" and ?r = "n_len bd"
  have o: "opn (nodes ?bd) ?r KeyValue [] [] 0 (n_len ?bd)" and k0: "keeps ?r (nodes bd) (nodes ?bd)" and l0: "n_len ?bd = ?r + 1"
    using opn_Push [of bd KeyValue no_range "[]" 0] by (simp_all add: add.commute)
  have "ensures (parsed keyval_tree bd b) (err_in p) (bind_outcome (parseKey p ?bd b) (\<lambda>(bd, key, b).
        let b = parseWhitespace b in
        if s_len b = 0 then Err (NewParserError b ''expected = after a key, but the document ends there'' [])
        else bind_outcome (expect CHR ''='' b) (\<lambda>b. bind_outcome (parseVal n p bd (parseWhitespace b)) (\<lambda>(bd, valRef, b).
          bind_outcome (Chain bd valRef key) (\<lambda>bd. bind_outcome (AttachChild bd ?r valRef) (\<lambda>bd. Ok (bd, ?r, b)))))))"
  proof (rule ensures_bindI [OF parseKey_parsed [OF assms(1) b(1)]], clarify)
    fix bd1 key b1 assume "keys_parsed (n_len ?bd) ?bd 1 b (bd1, key, b1)"
    then obtain ks l where k1: "keeps (n_len ?bd) (nodes ?bd) (nodes bd1)" and b1: "adv 1 b b1"
      and ks: "chn (nodes bd1) (Some key) ks l (n_len ?bd) (n_len bd1)" "\<forall>k \<in> set ks. key_tree k"
      by (auto simp: keys_parsed_def)
    have l1: "n_len ?bd \<le> n_len bd1" using k1 by (simp add: keeps_def)
    let ?b = "parseWhitespace b1"
    have b2: "adv 1 b ?b" using b1 adv_whitespace by (rule adv_trans) simp
    have d2: "in_doc p ?b" using b(1) b2 by (rule in_doc_adv)
    have "ensures (parsed keyval_tree bd b) (err_in p) (bind_outcome (expect CHR ''='' ?b)
        (\<lambda>b. bind_outcome (parseVal n p bd1 (parseWhitespace b)) (\<lambda>(bd, valRef, b).
          bind_outcome (Chain bd valRef key) (\<lambda>bd. bind_outcome (AttachChild bd ?r valRef) (\<lambda>bd. Ok (bd, ?r, b))))))"
    proof (rule ensures_bindI [OF ensures_in_doc [OF expect_ensures d2]])
      fix b3 assume b3: "adv 1 ?b b3"
      let ?w = "parseWhitespace b3"
      have "adv 2 b b3" using b2 b3 by (rule adv_trans) simp
      then have w: "adv 2 b ?w" using adv_whitespace by (rule adv_trans) simp
      have "ensures (parsed val_tree bd1 ?w) (err_in p) (parseVal n p bd1 ?w)"
        using assms(2) b adv_len [OF w] in_doc_adv [OF b(1) w] by (auto simp: val_ok_def)
      then show "ensures (parsed keyval_tree bd b) (err_in p) (bind_outcome (parseVal n p bd1 ?w) (\<lambda>(bd, valRef, b).
          bind_outcome (Chain bd valRef key) (\<lambda>bd. bind_outcome (AttachChild bd ?r valRef) (\<lambda>bd. Ok (bd, ?r, b)))))"
      proof (rule ensures_bindI, clarify)
        fix bd2 v b4 assume "parsed val_tree bd1 ?w (bd2, v, b4)"
        then obtain t where k2: "keeps (n_len bd1) (nodes bd1) (nodes bd2)" and b4: "adv 1 ?w b4"
          and t: "built (nodes bd2) (n_len bd1) (n_len bd2) v t" "val_tree t" by (auto simp: parsed_def)
        have l2: "n_len bd1 \<le> n_len bd2" using k2 by (simp add: keeps_def)
        have v: "0 \<le> v" "v < n_len bd2" "n_len bd1 \<le> v" using built_range [OF t(1)] by auto
        let ?ns = "(nodes bd2)[nat v := (nodes bd2 ! nat v)\<lparr>next := key - v\<rparr>]"
        let ?bd3 = "bd2\<lparr>nodes := ?ns\<rparr>"
        have c3: "chn ?ns (Some v) (t # ks) l (n_len ?bd) (n_len bd2)"
          using chn_keeps [OF ks(1) k2] t(1) l1 by (rule chn_cons)
        have k3: "keeps (n_len ?bd) (nodes bd2) ?ns" using v l1 by (intro keeps_update) auto
        have "keeps (n_len ?bd) (nodes ?bd) (nodes bd2)" using k1 k2 l1 by (rule keeps_trans)
        then have k: "keeps (n_len ?bd) (nodes ?bd) ?ns" using k3 by (rule keeps_trans) simp
        have o3: "opn ?ns ?r KeyValue [] [] 0 (n_len ?bd)" using o k by (rule opn_keeps)
        let ?ns4 = "?ns[nat ?r := (?ns ! nat ?r)\<lparr>child := v - ?r\<rparr>]"
        have "opn ?ns4 ?r KeyValue [] (t # ks) l (n_len bd2)" using o3 c3 by (rule opn_attach) simp
        from opn_built [OF this] have "built ?ns4 ?r (n_len bd2) ?r (TNode KeyValue [] (t # ks))" .
        moreover have "ks \<noteq> []" using chn_last [OF ks(1)] by simp
        then have "keyval_tree (TNode KeyValue [] (t # ks))" using t(2) ks(2) by simp
        moreover have "keeps ?r (nodes ?bd) ?ns" using k by (rule keeps_mono) (use l0 in simp)
        then have "keeps ?r (nodes bd) ?ns" by (rule keeps_trans [OF k0]) simp
        then have "keeps ?r (nodes bd) ?ns4" by (rule keeps_trans [OF _ keeps_update, of _ _ _ ?r]) auto
        moreover have "adv 1 b b4" using w b4 by (rule adv_trans) simp
        ultimately have "parsed keyval_tree bd b (?bd3\<lparr>nodes := ?ns4\<rparr>, ?r, b4)" by (auto simp: parsed_def)
        moreover have "Chain bd2 v key = (Ok ?bd3 :: (ParserError, builder) outcome)" using v by (simp add: Chain_Ok)
        moreover have "AttachChild ?bd3 ?r v = (Ok (?bd3\<lparr>nodes := ?ns4\<rparr>) :: (ParserError, builder) outcome)"
          using l0 l1 l2 by (subst AttachChild_Ok) auto
        ultimately show "ensures (parsed keyval_tree bd b) (err_in p) (bind_outcome (Chain bd2 v key) (\<lambda>bd.
            bind_outcome (AttachChild bd ?r v) (\<lambda>bd. Ok (bd, ?r, b4))))" by simp
      qed
    qed
    then show "ensures (parsed keyval_tree bd b) (err_in p) (let b = parseWhitespace b1 in
        if s_len b = 0 then Err (NewParserError b ''expected = after a key, but the document ends there'' [])
        else bind_outcome (expect CHR ''='' b) (\<lambda>b. bind_outcome (parseVal n p bd1 (parseWhitespace b)) (\<lambda>(bd, valRef, b).
          bind_outcome (Chain bd valRef key) (\<lambda>bd. bind_outcome (AttachChild bd ?r valRef) (\<lambda>bd. Ok (bd, ?r, b))))))"
      using d2 unfolding Let_def by (simp del: ensures_bind)
  qed
  then show "ensures (parsed keyval_tree bd b) (err_in p) (parseKeyval (Suc n) p bd b)"
    by (simp add: parseKeyval.simps Push_def Let_def del: ensures_bind)
qed

lemma expect_closed:
  assumes "in_doc p b'" "opn (nodes bd') i k d ts l (n_len bd')" "keeps i (nodes bd) (nodes bd')" "adv n b b'"
    "Q (TNode k d ts)"
  shows "ensures (closed Q i bd b) (err_in p) (bind_outcome (expect x b') (\<lambda>rest. Ok (bd', i, rest)))"
  by (rule ensures_bindI [OF ensures_in_doc [OF expect_ensures assms(1)]])
    (use assms opn_built [OF assms(2)] in \<open>auto simp: closed_def intro: adv_trans [OF assms(4)]\<close>)

lemma tab_inv_grow:
  assumes "tab_inv bd parent is_first l" "parsed keyval_tree bd b (bd', c, rest)"
  shows "\<exists>bd''. (if is_first then AttachChild bd' parent c else Chain bd' l c) = Ok bd'' \<and>
    tab_inv bd'' parent False c \<and> keeps parent (nodes bd) (nodes bd'')"
proof -
  from assms(1) obtain ts where o: "opn (nodes bd) parent InlineTable [] ts l (n_len bd)"
    "ts = [] \<longleftrightarrow> is_first" "\<forall>t \<in> set ts. keyval_tree t" by (auto simp: tab_inv_def)
  from assms(2) obtain t where k: "keeps (n_len bd) (nodes bd) (nodes bd')"
    and t: "built (nodes bd') (n_len bd) (n_len bd') c t" "keyval_tree t" by (auto simp: parsed_def)
  from opn_grow [OF o(1) k t(1)] obtain bd'' where
    bd'': "(if ts = [] then AttachChild bd' parent c else Chain bd' l c) = (Ok bd'' :: ('a, builder) outcome)"
    "opn (nodes bd'') parent InlineTable [] (ts @ [t]) c (n_len bd'')" "keeps parent (nodes bd') (nodes bd'')" by blast
  have "tab_inv bd'' parent False c"
    unfolding tab_inv_def by (rule exI [of _ "ts @ [t]"]) (use bd''(2) o(3) t(2) in auto)
  moreover have "parent \<le> n_len bd" using o(1) by (simp add: opn_def)
  then have "keeps parent (nodes bd) (nodes bd'')" using k bd''(3) by (meson keeps_mono keeps_trans order_refl)
  ultimately show ?thesis using bd''(1) o(2) by auto
qed

lemma tab_inv_tree:
  "tab_inv bd parent is_first l \<Longrightarrow> \<exists>ts. opn (nodes bd) parent InlineTable [] ts l (n_len bd) \<and> val_tree (TNode InlineTable [] ts)"
  by (auto simp: tab_inv_def)

lemma tabloop_ok_Suc:
  assumes "go_slice (p_data p)" "kv_ok n p" "tabloop_ok n p"
  shows "tabloop_ok (Suc n) p"
  unfolding tabloop_ok_def
proof (intro allI impI, elim conjE)
  fix bd parent is_first l b
  assume b: "in_doc p b" and inv: "tab_inv bd parent is_first l" and fu: "6 * s_len b + 2 \<le> Suc n"
  let ?b = "parseWhitespace b"
  have d: "in_doc p ?b" using b adv_whitespace by (rule in_doc_adv)
  from tab_inv_tree [OF inv] obtain ts where ts: "opn (nodes bd) parent InlineTable [] ts l (n_len bd)"
    "val_tree (TNode InlineTable [] ts)" by blast
  note fin = expect_closed [where Q = val_tree, OF _ ts(1) keeps_refl _ ts(2)]
  have item: "ensures (closed val_tree parent bd b) (err_in p) (bind_outcome (parseKeyval n p bd b1) (\<lambda>(bd, kv, b).
        bind_outcome (if is_first then AttachChild bd parent kv else Chain bd l kv) (\<lambda>bd.
          parseInlineTable_loop n p bd parent False kv b)))" if b1: "adv 0 b b1" for b1
  proof -
    have "ensures (parsed keyval_tree bd b1) (err_in p) (parseKeyval n p bd b1)"
      using assms(2) in_doc_adv [OF b b1] adv_len [OF b1] fu by (auto simp: kv_ok_def)
    then show ?thesis
    proof (rule ensures_bindI, clarify)
      fix bd' kv b2 assume kv: "parsed keyval_tree bd b1 (bd', kv, b2)"
      from tab_inv_grow [OF inv this] obtain bd'' where
        bd'': "(if is_first then AttachChild bd' parent kv else Chain bd' l kv) = (Ok bd'' :: (ParserError, builder) outcome)"
        "tab_inv bd'' parent False kv" "keeps parent (nodes bd) (nodes bd'')" by blast
      have b2: "adv 1 b b2" using kv adv_trans [OF b1] by (auto simp: parsed_def)
      have "6 * s_len b2 + 2 \<le> n" using fu adv_len [OF b2] by linarith
      then have "ensures (closed val_tree parent bd'' b2) (err_in p) (parseInlineTable_loop n p bd'' parent False kv b2)"
        using assms(3) in_doc_adv [OF b b2] bd''(2) unfolding tabloop_ok_def by blast
      then have "ensures (closed val_tree parent bd b) (err_in p) (parseInlineTable_loop n p bd'' parent False kv b2)"
        by (rule ensures_mono) (auto intro: closed_step [OF _ bd''(3) b2])
      then show "ensures (closed val_tree parent bd b) (err_in p)
          (bind_outcome (if is_first then AttachChild bd' parent kv else Chain bd' l kv) (\<lambda>bd.
            parseInlineTable_loop n p bd parent False kv b2))" by (simp add: bd''(1))
    qed
  qed
  have comma: "ensures (closed val_tree parent bd b) (err_in p)
      (bind_outcome (if \<not> is_first then bind_outcome (expect CHR '','' ?b) (\<lambda>b. Ok (parseWhitespace b)) else Ok ?b) (\<lambda>b.
        bind_outcome (parseKeyval n p bd b) (\<lambda>(bd, kv, b).
        bind_outcome (if is_first then AttachChild bd parent kv else Chain bd l kv) (\<lambda>bd.
          parseInlineTable_loop n p bd parent False kv b))))"
  proof (rule ensures_bindI [where P' = "adv 0 b"])
    have "adv 0 b (parseWhitespace b')" if "adv 1 ?b b'" for b'
      using that by (meson adv_trans adv_whitespace le_add1)
    then show "ensures (adv 0 b) (err_in p) (if \<not> is_first then bind_outcome (expect CHR '','' ?b) (\<lambda>b. Ok (parseWhitespace b)) else Ok ?b)"
      using ensures_in_doc [OF expect_ensures d, of "CHR '',''"] by (auto elim: ensures_mono)
  qed (rule item)
  have "in_doc p (s_to b 1)" if "0 < s_len b" using that by (intro in_doc_sub [OF b]) (auto simp: Suc_le_eq)
  then show "ensures (closed val_tree parent bd b) (err_in p) (parseInlineTable_loop (Suc n) p bd parent is_first l b)"
    unfolding parseInlineTable_loop.simps Let_def
    using comma fin [OF d adv_whitespace] fin [OF b adv_refl] by (simp del: ensures_bind)
qed

lemma arr_inv_tree:
  "arr_inv bd parent l \<Longrightarrow> \<exists>ts. opn (nodes bd) parent Array [] ts l (n_len bd) \<and> val_tree (TNode Array [] ts)"
  by (auto simp: arr_inv_def)

lemma arr_fin:
  assumes "arr_step bd parent b (bd', l, b')" "in_doc p b"
  shows "ensures (closed val_tree parent bd b) (err_in p) (bind_outcome (expect CHR '']'' b') (\<lambda>rest. Ok (bd', parent, rest)))"
proof -
  from assms(1) have i: "arr_inv bd' parent l" and k: "keeps parent (nodes bd) (nodes bd')" and b': "adv 0 b b'"
    by (auto simp: arr_step_def)
  from arr_inv_tree [OF i] obtain ts where
    ts: "opn (nodes bd') parent Array [] ts l (n_len bd')" "val_tree (TNode Array [] ts)" by blast
  show ?thesis by (rule expect_closed [where Q = val_tree, OF in_doc_adv [OF assms(2) b'] ts(1) k b' ts(2)])
qed

lemma arr_step_trans: "arr_step bd parent b (bd', l', b') \<Longrightarrow> arr_step bd' parent b' x \<Longrightarrow> arr_step bd parent b x"
  by (auto simp: arr_step_def intro: keeps_trans adv_trans)

lemma arrloop_ok_Suc:
  assumes "go_slice (p_data p)" "val_ok n p" "arrloop_ok n p"
  shows "arrloop_ok (Suc n) p"
  unfolding arrloop_ok_def
proof (intro allI impI, elim conjE)
  fix bd st parent is_first l b
  assume b: "in_doc p b" and st: "in_doc p st" "0 < s_len st" and inv: "arr_inv bd parent l" and fu: "6 * s_len b + 3 \<le> Suc n"
  let ?R = "closed val_tree parent bd b"
  note com = array_comments_parsed [OF assms(1)]
  have item: "ensures ?R (err_in p) (bind_outcome (parseVal n p bd2 b2) (\<lambda>(bd, valueRef, b).
        bind_outcome (addChild bd parent l2 valueRef) (\<lambda>(bd, lastChild).
        bind_outcome (array_comments p bd parent lastChild b) (\<lambda>(bd, lastChild, b).
          parseValArray_loop n p bd st parent False lastChild b))))"
    if s: "arr_step bd parent b (bd2, l2, b2)" for bd2 l2 b2
  proof -
    from s have i2: "arr_inv bd2 parent l2" and b2: "adv 0 b b2" and k2: "keeps parent (nodes bd) (nodes bd2)" by (auto simp: arr_step_def)
    have "ensures (parsed val_tree bd2 b2) (err_in p) (parseVal n p bd2 b2)"
      using assms(2) in_doc_adv [OF b b2] adv_len [OF b2] fu by (auto simp: val_ok_def)
    then show ?thesis
    proof (rule ensures_bindI, clarify)
      fix bd3 v b3 assume v: "parsed val_tree bd2 b2 (bd3, v, b3)"
      then obtain t where t: "keeps (n_len bd2) (nodes bd2) (nodes bd3)" "built (nodes bd3) (n_len bd2) (n_len bd3) v t" "val_tree t"
        by (auto simp: parsed_def)
      from addChild_inv [OF i2 t(1,2)] t(3) obtain bd4 where
        bd4: "addChild bd3 parent l2 v = Ok (bd4, v)" "arr_inv bd4 parent v" "keeps parent (nodes bd2) (nodes bd4)" by blast
      have b3: "adv 1 b b3" using v adv_trans [OF b2] by (auto simp: parsed_def)
      have "ensures ?R (err_in p) (bind_outcome (array_comments p bd4 parent v b3) (\<lambda>(bd, lastChild, b).
          parseValArray_loop n p bd st parent False lastChild b))"
      proof (rule ensures_bindI [OF com [OF in_doc_adv [OF b b3] bd4(2)]], clarify)
        fix bd5 l5 b5 assume "arr_step bd4 parent b3 (bd5, l5, b5)"
        then have i5: "arr_inv bd5 parent l5" and k5: "keeps parent (nodes bd4) (nodes bd5)" and "adv 0 b3 b5" by (auto simp: arr_step_def)
        then have b5: "adv 1 b b5" using adv_trans [OF b3] by simp
        have "6 * s_len b5 + 3 \<le> n" using fu adv_len [OF b5] by linarith
        then have "ensures (closed val_tree parent bd5 b5) (err_in p) (parseValArray_loop n p bd5 st parent False l5 b5)"
          using assms(3) in_doc_adv [OF b b5] st i5 unfolding arrloop_ok_def by blast
        moreover have "keeps parent (nodes bd) (nodes bd5)" using k2 bd4(3) k5 by (meson keeps_trans order_refl)
        ultimately show "ensures ?R (err_in p) (parseValArray_loop n p bd5 st parent False l5 b5)"
          by (auto elim!: ensures_mono intro: closed_step [OF _ _ b5])
      qed
      then show "ensures ?R (err_in p) (bind_outcome (addChild bd3 parent l2 v) (\<lambda>(bd, lastChild).
          bind_outcome (array_comments p bd parent lastChild b3) (\<lambda>(bd, lastChild, b).
          parseValArray_loop n p bd st parent False lastChild b)))" by (simp add: bd4(1))
    qed
  qed
  let ?sep = "\<lambda>bd1 l1 b1. if bytes b1 ! 0 = CHR '','' then
                 if is_first then Err (NewParserError (s_to b1 1) ''array cannot start with comma'' [])
                 else array_comments p bd1 parent l1 (s_from b1 1)
               else if \<not> is_first then
                 Err (NewParserError (s_to b1 1) ''array elements must be separated by commas'' [])
               else Ok (bd1, l1, b1)"
  have sep: "ensures (arr_step bd parent b) (err_in p) (?sep bd1 l1 b1)"
    if s: "arr_step bd parent b (bd1, l1, b1)" "0 < s_len b1" for bd1 l1 b1
  proof -
    have b1: "adv 0 b b1" "arr_inv bd1 parent l1" "keeps parent (nodes bd) (nodes bd1)" using s by (auto simp: arr_step_def)
    have d1: "in_doc p b1" using b b1(1) by (rule in_doc_adv)
    then have d2: "in_doc p (s_to b1 1)" "adv 0 b1 (s_from b1 1)" using s(2) by (auto simp: Suc_le_eq intro!: in_doc_sub [OF d1])
    have "ensures (arr_step bd parent b) (err_in p) (array_comments p bd1 parent l1 (s_from b1 1))"
      using com [OF in_doc_adv [OF d1 d2(2)] b1(2)]
    proof (rule ensures_mono, goal_cases)
      case (1 x)
      then obtain bd' l' b' where x: "x = (bd', l', b')" "arr_inv bd' parent l'" "keeps parent (nodes bd1) (nodes bd')" "adv 0 (s_from b1 1) b'"
        by (auto simp: arr_step_def)
      have "adv 0 b b'" using b1(1) d2(2) x(4) by (meson adv_trans le_add1)
      with x b1(3) show ?case by (auto simp: arr_step_def intro: keeps_trans)
    qed
    then show ?thesis using s(1) d2(1) by simp
  qed
  have body: "ensures ?R (err_in p) (bind_outcome (?sep bd1 l1 b1) (\<lambda>(bd, lastChild, b).
              if 0 < s_len b \<and> bytes b ! 0 = CHR '']'' then bind_outcome (expect CHR '']'' b) (\<lambda>rest. Ok (bd, parent, rest))
              else
                bind_outcome (parseVal n p bd b) (\<lambda>(bd, valueRef, b).
                bind_outcome (addChild bd parent lastChild valueRef) (\<lambda>(bd, lastChild).
                bind_outcome (array_comments p bd parent lastChild b) (\<lambda>(bd, lastChild, b).
                  parseValArray_loop n p bd st parent False lastChild b)))))"
    if "arr_step bd parent b (bd1, l1, b1)" "0 < s_len b1" for bd1 l1 b1
    by (rule ensures_bindI [OF sep [OF that]], clarify) (use item arr_fin [OF _ b] in \<open>simp del: ensures_bind\<close>)
  have st1: "in_doc p (s_to st 1)" using st by (intro in_doc_sub [OF st(1)]) (auto simp: Suc_le_eq)
  have "ensures ?R (err_in p) (bind_outcome (array_comments p bd parent l b) (\<lambda>(bd, lastChild, b).
          if s_len b = 0 then Err (NewParserError (s_to st 1) ''array is incomplete'' [])
          else if bytes b ! 0 = CHR '']'' then bind_outcome (expect CHR '']'' b) (\<lambda>rest. Ok (bd, parent, rest))
          else bind_outcome (?sep bd lastChild b) (\<lambda>(bd, lastChild, b).
              if 0 < s_len b \<and> bytes b ! 0 = CHR '']'' then bind_outcome (expect CHR '']'' b) (\<lambda>rest. Ok (bd, parent, rest))
              else
                bind_outcome (parseVal n p bd b) (\<lambda>(bd, valueRef, b).
                bind_outcome (addChild bd parent lastChild valueRef) (\<lambda>(bd, lastChild).
                bind_outcome (array_comments p bd parent lastChild b) (\<lambda>(bd, lastChild, b).
                  parseValArray_loop n p bd st parent False lastChild b))))))"
    by (rule ensures_bindI [OF com [OF b inv]], clarify) (use body arr_fin [OF _ b] st1 in \<open>simp del: ensures_bind\<close>)
  moreover have "arr_step bd parent b (bd, l, b)" using inv by (simp add: arr_step_def)
  from arr_fin [OF this b] have "ensures ?R (err_in p) (bind_outcome (expect CHR '']'' b) (\<lambda>rest. Ok (bd, parent, rest)))" .
  ultimately show "ensures ?R (err_in p) (parseValArray_loop (Suc n) p bd st parent is_first l b)"
    unfolding parseValArray_loop.simps Let_def by (simp del: ensures_bind)
qed

lemma all_ok:
  assumes "go_slice (p_data p)"
  shows "val_ok n p \<and> tab_ok n p \<and> arr_ok n p \<and> kv_ok n p \<and> tabloop_ok n p \<and> arrloop_ok n p"
proof (induction n)
  case 0
  show ?case by (simp add: val_ok_def tab_ok_def arr_ok_def kv_ok_def tabloop_ok_def arrloop_ok_def)
next
  case (Suc n)
  with assms show ?case
    by (simp add: val_ok_Suc tab_ok_Suc arr_ok_Suc kv_ok_Suc tabloop_ok_Suc arrloop_ok_Suc)
qed

lemma parseKeyval_parsed:
  "go_slice (p_data p) \<Longrightarrow> in_doc p b \<Longrightarrow>
   ensures (parsed keyval_tree bd b) (err_in p) (parseKeyval (parse_fuel b) p bd b)"
  using all_ok [of p "parse_fuel b"] by (simp add: kv_ok_def parse_fuel_def)

section \<open>Expressions\<close>

lemma table_assemble:
  assumes "keys_parsed (n_len bd + 1) (fst (Push bd (new_node k no_range []))) n b0 (bd1, key, b1)"
  shows "\<exists>bd2 ks. AttachChild bd1 (n_len bd) key = (Ok bd2 :: (ParserError, builder) outcome) \<and> keeps (n_len bd) (nodes bd) (nodes bd2) \<and>
    built (nodes bd2) (n_len bd) (n_len bd2) (n_len bd) (TNode k [] ks) \<and> ks \<noteq> [] \<and> (\<forall>k \<in> set ks. key_tree k)"
proof -
  let ?bd = "fst (Push bd (new_node k no_range []))" and ?r = "n_len bd"
  have l0: "n_len ?bd = ?r + 1" by simp
  from assms obtain ks l where k1: "keeps (?r + 1) (nodes ?bd) (nodes bd1)"
    and ks: "chn (nodes bd1) (Some key) ks l (?r + 1) (n_len bd1)" "\<forall>k \<in> set ks. key_tree k"
    by (auto simp: keys_parsed_def)
  have l1: "?r + 1 \<le> n_len bd1" using k1 by (simp add: keeps_def)
  have o: "opn (nodes ?bd) ?r k [] [] 0 (?r + 1)" unfolding nodes_Push by (rule opn_Push)
  let ?ns = "(nodes bd1)[nat ?r := (nodes bd1 ! nat ?r)\<lparr>child := key - ?r\<rparr>]"
  have "opn ?ns ?r k [] ks l (n_len bd1)" using opn_keeps [OF o k1] ks(1) by (rule opn_attach) simp
  then have "built ?ns ?r (n_len bd1) ?r (TNode k [] ks)" by (rule opn_built)
  moreover have "keeps ?r (nodes bd) (nodes bd1)"
    by (rule keeps_trans [OF _ k1]) simp_all
  then have "keeps ?r (nodes bd) ?ns" by (rule keeps_trans [OF _ keeps_update, of _ _ _ ?r]) auto
  moreover have "ks \<noteq> []" using chn_last [OF ks(1)] by simp
  moreover have "AttachChild bd1 ?r key = (Ok (bd1\<lparr>nodes := ?ns\<rparr>) :: (ParserError, builder) outcome)" using l1 by (subst AttachChild_Ok) auto
  ultimately show ?thesis using ks(2) by auto
qed

lemma table_header:
  assumes "go_slice (p_data p)" "in_doc p b" "k = Table \<or> k = ArrayTable" "adv 1 b b1"
    and g: "\<And>bd2 ks b3. keeps (n_len bd) (nodes bd) (nodes bd2) \<Longrightarrow>
      built (nodes bd2) (n_len bd) (n_len bd2) (n_len bd) (TNode k [] ks) \<Longrightarrow> expr_tree (TNode k [] ks) \<Longrightarrow> adv 1 b b3 \<Longrightarrow>
      ensures P (err_in p) (g bd2 b3)"
  shows "ensures P (err_in p) (bind_outcome (parseKey p (fst (Push bd (new_node k no_range []))) b1)
      (\<lambda>(bd', key, b). bind_outcome (AttachChild bd' (n_len bd) key) (\<lambda>bd'.
         bind_outcome (expect CHR '']'' (parseWhitespace b)) (\<lambda>b. g bd' b))))"
proof (rule ensures_bindI [OF parseKey_parsed [OF assms(1) in_doc_adv [OF assms(2,4)]]], clarify)
  let ?bd = "fst (Push bd (new_node k no_range []))"
  fix bd1 key b2
  assume "keys_parsed (n_len ?bd) ?bd 1 b1 (bd1, key, b2)"
  then have kp: "keys_parsed (n_len bd + 1) ?bd 1 b1 (bd1, key, b2)" by (simp add: add.commute)
  from table_assemble [OF this] obtain bd2 ks where
    t: "AttachChild bd1 (n_len bd) key = (Ok bd2 :: (ParserError, builder) outcome)" "keeps (n_len bd) (nodes bd) (nodes bd2)"
    "built (nodes bd2) (n_len bd) (n_len bd2) (n_len bd) (TNode k [] ks)" "ks \<noteq> []" "\<forall>k \<in> set ks. key_tree k" by blast
  have e: "expr_tree (TNode k [] ks)" using assms(3) t(4,5) by auto
  have "adv 1 b b2" using kp adv_trans [OF assms(4)] by (auto simp: keys_parsed_def)
  then have w: "adv 1 b (parseWhitespace b2)" by (rule adv_trans [OF _ adv_whitespace]) simp
  have "ensures P (err_in p) (bind_outcome (expect CHR '']'' (parseWhitespace b2)) (\<lambda>b. g bd2 b))"
    by (rule ensures_bindI [OF ensures_in_doc [OF expect_ensures in_doc_adv [OF assms(2) w]]])
      (rule g [OF t(2,3) e adv_trans [OF w]], auto)
  then show "ensures P (err_in p) (bind_outcome (AttachChild bd1 (n_len bd) key) (\<lambda>bd'.
         bind_outcome (expect CHR '']'' (parseWhitespace b2)) (\<lambda>b. g bd' b)))" by (simp add: t(1))
qed

lemma parseTable_parsed:
  assumes "go_slice (p_data p)" "in_doc p b" "0 < s_len b"
  shows "ensures (parsed expr_tree bd b) (err_in p) (parseTable p bd b)"
proof -
  have w: "adv 1 b (parseWhitespace (s_sub b i (s_len b)))" if "1 \<le> i" "i \<le> s_len b" for i
  proof -
    have "s_sub b i (s_len b) = s_from b i" using that by (simp add: s_sub_def s_from_def)
    then show ?thesis using adv_trans [OF adv_from adv_whitespace, of 1 i b 1] that by simp
  qed
  have "ensures (parsed expr_tree bd b) (err_in p) (parseStdTable p bd b)"
  proof -
    have "adv 1 b (parseWhitespace (s_sub b 1 (s_len b)))" using assms(3) by (intro w) (auto simp: Suc_le_eq)
    then have "ensures (parsed expr_tree bd b) (err_in p)
        (bind_outcome (parseKey p (fst (Push bd (new_node Table no_range []))) (parseWhitespace (s_sub b 1 (s_len b))))
          (\<lambda>(bd', key, b). bind_outcome (AttachChild bd' (n_len bd) key) (\<lambda>bd'.
            bind_outcome (expect CHR '']'' (parseWhitespace b)) (\<lambda>b. Ok (bd', n_len bd, b)))))"
      by (intro table_header [OF assms(1,2)]) (auto simp: parsed_def)
    then show ?thesis using assms(3)
      by (simp add: parseStdTable_def Push_def Let_def Suc_le_eq del: ensures_bind)
  qed
  moreover have "ensures (parsed expr_tree bd b) (err_in p) (parseArrayTable p bd b)" if "1 < s_len b"
  proof -
    have f: "ensures (parsed expr_tree bd b) (err_in p) (bind_outcome (expect CHR '']'' b3) (\<lambda>b. Ok (bd2, n_len bd, b)))"
      if "keeps (n_len bd) (nodes bd) (nodes bd2)" "built (nodes bd2) (n_len bd) (n_len bd2) (n_len bd) t" "expr_tree t" "adv 1 b b3" for bd2 t b3
      by (rule ensures_bindI [OF ensures_in_doc [OF expect_ensures in_doc_adv [OF assms(2) that(4)]]])
        (use that adv_trans [OF that(4)] in \<open>auto simp: parsed_def\<close>)
    have "adv 1 b (parseWhitespace (s_sub b 2 (s_len b)))" using that by (intro w) auto
    then have "ensures (parsed expr_tree bd b) (err_in p)
        (bind_outcome (parseKey p (fst (Push bd (new_node ArrayTable no_range []))) (parseWhitespace (s_sub b 2 (s_len b))))
          (\<lambda>(bd', key, b). bind_outcome (AttachChild bd' (n_len bd) key) (\<lambda>bd'.
            bind_outcome (expect CHR '']'' (parseWhitespace b)) (\<lambda>b.
              bind_outcome (expect CHR '']'' b) (\<lambda>b. Ok (bd', n_len bd, b))))))"
      by (intro table_header [OF assms(1,2)]) (rule disjI2 refl f | assumption)+
    then show ?thesis using that
      by (simp add: parseArrayTable_def Push_def Let_def Suc_le_eq del: ensures_bind)
  qed
  ultimately show ?thesis by (simp add: parseTable_def)
qed

text \<open>
  The node at \<open>r\<close> is the root of an expression's tree, with at most one sibling: the comment at
  the end of its line.
\<close>

definition expr_at :: "builder \<Rightarrow> reference \<Rightarrow> bool" where
  "expr_at bd r \<longleftrightarrow> (\<exists>t cs. seg (nodes bd) (Some r) (t # cs) None \<and> expr_tree t \<and>
     (cs = [] \<or> (\<exists>d. cs = [TNode Comment d []])))"

lemma built_expr_at: "built (nodes bd) a b r t \<Longrightarrow> expr_tree t \<Longrightarrow> expr_at bd r"
  using chn_seg [OF chn_single] unfolding expr_at_def by blast

definition expr_parsed :: "builder \<Rightarrow> slice \<Rightarrow> builder \<times> reference \<times> slice \<Rightarrow> bool" where
  "expr_parsed bd b = (\<lambda>(bd', r, rest). adv 0 b rest \<and>
     (r = invalidReference \<and> bd' = bd \<or> r \<noteq> invalidReference \<and> expr_at bd' r \<and> adv 1 b rest))"

lemma keyval_expr_tree: "keyval_tree t \<Longrightarrow> expr_tree t"
  by (cases t) auto

lemma comment_end:
  assumes "parsed expr_tree bd b (bd1, r, b1)" "comment_parsed bd1 b2 (bd2, c, rest)" "c \<noteq> invalidReference"
  shows "\<exists>bd3. Chain bd2 r c = (Ok bd3 :: (ParserError, builder) outcome) \<and> expr_at bd3 r"
proof -
  from assms(1) obtain t where t: "built (nodes bd1) (n_len bd) (n_len bd1) r t" "expr_tree t" and "keeps (n_len bd) (nodes bd) (nodes bd1)"
    by (auto simp: parsed_def)
  then have l: "n_len bd \<le> n_len bd1" by (simp add: keeps_def)
  from assms(2,3) obtain d where k: "keeps (n_len bd1) (nodes bd1) (nodes bd2)" and o: "opn (nodes bd2) c Comment d [] 0 (n_len bd2)"
    and c: "c = n_len bd1" by (auto simp: comment_parsed_def)
  have r: "0 \<le> r" "r < n_len bd2" using built_range [OF t(1)] k by (auto simp: keeps_def)
  let ?ns = "(nodes bd2)[nat r := (nodes bd2 ! nat r)\<lparr>next := c - r\<rparr>]"
  have "chn (nodes bd2) (Some r) [t] r (n_len bd) (n_len bd1)" using chn_keeps [OF chn_single [OF t(1)] k] .
  from chn_snoc [OF this opn_built [OF o, unfolded c] l] have "chn ?ns (Some r) ([t] @ [TNode Comment d []]) (n_len bd1) (n_len bd) (n_len bd2)"
    using c by simp
  from chn_seg [OF this] t(2) have "expr_at (bd2\<lparr>nodes := ?ns\<rparr>) r" unfolding expr_at_def
    by (intro exI [of _ t] exI [of _ "[TNode Comment d []]"]) auto
  moreover have "Chain bd2 r c = (Ok (bd2\<lparr>nodes := ?ns\<rparr>) :: (ParserError, builder) outcome)" using r by (rule Chain_Ok)
  ultimately show ?thesis by blast
qed

lemma parseExpression_parsed:
  assumes "go_slice (p_data p)" "in_doc p b0"
  shows "ensures (expr_parsed bd b0) (err_in p) (parseExpression p bd b0)"
proof -
  let ?b = "parseWhitespace b0"
  have d: "in_doc p ?b" using assms(2) adv_whitespace by (rule in_doc_adv)
  have com: "ensures (expr_parsed bd b0) (err_in p) (parseComment p bd ?b)" if "0 < s_len ?b"
    using parseComment_parsed [OF assms(1) d that]
  proof (rule ensures_mono, clarify)
    fix bd' r rest assume c: "comment_parsed bd ?b (bd', r, rest)"
    then have a: "adv 1 ?b rest" by (simp add: comment_parsed_def)
    have "adv 0 b0 rest" "adv 1 b0 rest" using adv_trans [OF adv_whitespace a] by auto
    moreover have "expr_at bd' r" if r: "r \<noteq> invalidReference"
    proof -
      from c r obtain d where "opn (nodes bd') r Comment d [] 0 (n_len bd')" by (auto simp: comment_parsed_def)
      from built_expr_at [OF opn_built [OF this]] show ?thesis by simp
    qed
    ultimately show "expr_parsed bd b0 (bd', r, rest)" using c by (auto simp: expr_parsed_def comment_parsed_def)
  qed
  have item: "ensures (parsed expr_tree bd ?b) (err_in p)
      (if bytes ?b ! 0 = CHR ''['' then parseTable p bd ?b else parseKeyval (parse_fuel ?b) p bd ?b)" if "0 < s_len ?b"
  proof -
    have "ensures (parsed expr_tree bd ?b) (err_in p) (parseKeyval (parse_fuel ?b) p bd ?b)"
      using parseKeyval_parsed [OF assms(1) d]
      by (rule ensures_mono) (auto simp: parsed_def intro: keyval_expr_tree)
    then show ?thesis using parseTable_parsed [OF assms(1) d that] by simp
  qed
  have fin: "ensures (expr_parsed bd b0) (err_in p) (let b = parseWhitespace b1 in
          if 0 < s_len b \<and> bytes b ! 0 = CHR ''#'' then
            bind_outcome (parseComment p bd1 b) (\<lambda>(bd, cref, rest).
              if cref \<noteq> invalidReference then bind_outcome (Chain bd ref cref) (\<lambda>bd. Ok (bd, ref, rest))
              else Ok (bd, ref, rest))
          else Ok (bd1, ref, b))" if pr: "parsed expr_tree bd ?b (bd1, ref, b1)" for bd1 ref b1
  proof -
    let ?w = "parseWhitespace b1"
    have "adv 1 ?b b1" using pr by (simp add: parsed_def)
    then have "adv 1 b0 b1" using adv_trans [OF adv_whitespace] by simp
    then have w: "adv 1 b0 ?w" using adv_trans [OF _ adv_whitespace] by simp
    from pr obtain t where t: "built (nodes bd1) (n_len bd) (n_len bd1) ref t" "expr_tree t" by (auto simp: parsed_def)
    have ref: "ref \<noteq> invalidReference" using built_range [OF t(1)] by (auto simp: invalidReference_def)
    have e: "expr_at bd1 ref" using t by (rule built_expr_at)
    have a0: "adv 0 b0 x" if "adv 1 b0 x" for x using that by (auto simp: adv_def)
    show ?thesis
    proof (cases "0 < s_len ?w \<and> bytes ?w ! 0 = CHR ''#''")
      case True
      have "ensures (expr_parsed bd b0) (err_in p) (bind_outcome (parseComment p bd1 ?w) (\<lambda>(bd, cref, rest).
              if cref \<noteq> invalidReference then bind_outcome (Chain bd ref cref) (\<lambda>bd. Ok (bd, ref, rest))
              else Ok (bd, ref, rest)))"
      proof (rule ensures_bindI [OF parseComment_parsed [OF assms(1) in_doc_adv [OF assms(2) w] conjunct1 [OF True]]], clarify)
        fix bd2 c rest assume c: "comment_parsed bd1 ?w (bd2, c, rest)"
        then have "adv 1 ?w rest" by (simp add: comment_parsed_def)
        then have r: "adv 1 b0 rest" using adv_trans [OF w] by simp
        show "ensures (expr_parsed bd b0) (err_in p) (if c \<noteq> invalidReference then bind_outcome (Chain bd2 ref c) (\<lambda>bd. Ok (bd, ref, rest))
              else Ok (bd2, ref, rest))"
          using comment_end [OF pr c] c e r a0 [OF r] ref by (auto simp: expr_parsed_def comment_parsed_def)
      qed
      then show ?thesis using True by (simp add: Let_def del: ensures_bind)
    next
      case False
      then show ?thesis using e w a0 [OF w] ref unfolding Let_def by (auto simp: expr_parsed_def)
    qed
  qed
  have "ensures (expr_parsed bd b0) (err_in p) (bind_outcome
      (if bytes ?b ! 0 = CHR ''['' then parseTable p bd ?b else parseKeyval (parse_fuel ?b) p bd ?b) (\<lambda>(bd, ref, b).
          let b = parseWhitespace b in
          if 0 < s_len b \<and> bytes b ! 0 = CHR ''#'' then
            bind_outcome (parseComment p bd b) (\<lambda>(bd, cref, rest).
              if cref \<noteq> invalidReference then bind_outcome (Chain bd ref cref) (\<lambda>bd. Ok (bd, ref, rest))
              else Ok (bd, ref, rest))
          else Ok (bd, ref, b)))" if "0 < s_len ?b"
    by (rule ensures_bindI [OF item [OF that]], clarify) (rule fin)
  then show ?thesis using com unfolding parseExpression_def Let_def
    by (auto simp: expr_parsed_def simp del: ensures_bind)
qed

section \<open>Documents\<close>

definition parser_inv :: "Parser \<Rightarrow> bool" where
  "parser_inv p \<longleftrightarrow> go_slice (p_data p) \<and> in_doc p (p_left p) \<and> (\<forall>e. p_err p = Some e \<longrightarrow> err_in p e)"

definition next_ok :: "Parser \<Rightarrow> bool \<times> Parser \<Rightarrow> bool" where
  "next_ok p = (\<lambda>(more, p'). parser_inv p' \<and> p_data p' = p_data p \<and>
     (if more then p_err p' = None \<and> expr_at (p_builder p') (p_ref p') \<and> s_len (p_left p') < s_len (p_left p)
      else p_err p' \<noteq> None \<or> s_len (p_left p') = 0))"

lemma in_doc_data: "p_data p' = p_data p \<Longrightarrow> in_doc p' b \<longleftrightarrow> in_doc p b"
  by (simp add: in_doc_def)

lemma fail_with_ok:
  "parser_inv p \<Longrightarrow> err_in p e \<Longrightarrow> ensures (next_ok p) E (fail_with p e)"
  by (simp add: fail_with_def next_ok_def parser_inv_def in_doc_def)

lemma leading_newline_ensures:
  assumes "parser_inv p" "0 < s_len (p_left p)"
  shows "ensures (adv 0 (p_left p)) (err_in p) (leading_newline p)"
proof -
  have "ensures (adv 1 (p_left p)) (err_in p) (parseNewline (p_left p))"
    using assms by (intro ensures_in_doc [OF parseNewline_ensures]) (auto simp: parser_inv_def)
  then show ?thesis by (auto simp: leading_newline_def adv_def elim!: ensures_mono)
qed

lemma NextExpression_loop_ok: "parser_inv p \<Longrightarrow> ensures (next_ok p) (\<lambda>_. False) (NextExpression_loop p)"
proof (induction "2 * s_len (p_left p) + (if p_first p then 1 else 0)" arbitrary: p rule: less_induct)
  case less
  note inv = less.prems and S = NextExpression_loop.simps [of p]
  show ?case
  proof (cases "s_len (p_left p) = 0 \<or> p_err p \<noteq> None")
    case True
    then show ?thesis using inv by (auto simp: S next_ok_def)
  next
    case F: False
    then have l: "0 < s_len (p_left p)" by simp
    show ?thesis
    proof (cases "leading_newline p")
      case (Err e)
      then have "err_in p e" using leading_newline_ensures [OF inv l] by simp
      with Err F show ?thesis using fail_with_ok [OF inv] by (auto simp: S)
    next
      case (Ok b)
      then have b: "adv 0 (p_left p) b" using leading_newline_ensures [OF inv l] by simp
      then have d: "in_doc p b" using inv by (auto simp: parser_inv_def intro: in_doc_adv)
      note ex = parseExpression_parsed [OF _ d, of "p_builder p"]
      show ?thesis
      proof (cases "s_len b = 0")
        case True
        with Ok F inv d show ?thesis by (auto simp: S next_ok_def parser_inv_def in_doc_def)
      next
        case b0: False
        show ?thesis
        proof (cases "parseExpression p (p_builder p) b")
          case (Err e)
          then have "err_in p e" using ex inv by (simp add: parser_inv_def)
          with Err Ok b0 F show ?thesis using fail_with_ok [OF inv] by (auto simp: S)
        next
          case ok2: (Ok x)
          obtain bd r rest where x: "x = (bd, r, rest)" by (cases x)
          from ex ok2 x inv have ep: "expr_parsed (p_builder p) b (bd, r, rest)" by (simp add: parser_inv_def)
          then have r0: "adv 0 b rest" by (simp add: expr_parsed_def)
          let ?p = "p\<lparr>p_builder := bd, p_ref := r, p_left := rest, p_first := False\<rparr>"
          have invp: "parser_inv ?p" using inv F in_doc_adv [OF d r0] by (simp add: parser_inv_def in_doc_def)
          show ?thesis
          proof (cases "reference_Valid r")
            case True
            then have "adv 1 b rest" "expr_at bd r" using ep by (auto simp: expr_parsed_def reference_Valid_def)
            moreover from this have "s_len rest < s_len (p_left p)" using adv_len [OF b] adv_len [of 1 b rest] by linarith
            ultimately show ?thesis using True Ok b0 F ok2 x invp by (auto simp: S next_ok_def Let_def)
          next
            case False
            have "2 * s_len (p_left ?p) + (if p_first ?p then 1 else 0) < 2 * s_len (p_left p) + (if p_first p then 1 else 0)"
              using leading_newline_len [OF Ok] adv_len [OF r0] by auto
            from less.hyps [OF this invp] have "ensures (next_ok ?p) (\<lambda>_. False) (NextExpression_loop ?p)" .
            then have "ensures (next_ok p) (\<lambda>_. False) (NextExpression_loop ?p)"
              by (rule ensures_mono) (use adv_len [OF b] adv_len [OF r0] in \<open>auto simp: next_ok_def split: if_splits\<close>)
            then show ?thesis using False Ok b0 F ok2 x by (simp add: S Let_def)
          qed
        qed (use ex inv in \<open>auto simp: parser_inv_def\<close>)
      qed
    qed (use leading_newline_ensures [OF inv l] in auto)
  qed
qed

lemma NextExpression_ok: "parser_inv p \<Longrightarrow> ensures (next_ok p) (\<lambda>_. False) (NextExpression p)"
proof -
  assume inv: "parser_inv p"
  let ?p = "p\<lparr>p_builder := builder_Reset (p_builder p), p_ref := invalidReference\<rparr>"
  have "parser_inv ?p" using inv by (simp add: parser_inv_def in_doc_def)
  from NextExpression_loop_ok [OF this] have "ensures (next_ok p) (\<lambda>_. False) (NextExpression_loop ?p)"
    by (rule ensures_mono) (auto simp: next_ok_def)
  then show ?thesis using inv by (auto simp: NextExpression_def next_ok_def)
qed

text \<open>The loop of the package's clients: \<open>for p.NextExpression() { e := p.Expression() ... }\<close>.\<close>

fun all_expressions :: "nat \<Rightarrow> Parser \<Rightarrow> (ParserError, Parser list \<times> Parser) outcome" where
  "all_expressions 0 p = Fuel"
| "all_expressions (Suc n) p = bind_outcome (NextExpression p) (\<lambda>(more, p').
     if more then bind_outcome (all_expressions n p') (\<lambda>(ps, q). Ok (p' # ps, q)) else Ok ([], p'))"

lemma all_expressions_ok:
  "parser_inv p \<Longrightarrow> s_len (p_left p) < n \<Longrightarrow>
   ensures (\<lambda>(ps, q). parser_inv q \<and> p_data q = p_data p \<and> (\<forall>p' \<in> set ps. expr_at (p_builder p') (p_ref p')) \<and>
       (p_err q \<noteq> None \<or> s_len (p_left q) = 0)) (\<lambda>_. False) (all_expressions n p)"
proof (induction n arbitrary: p)
  case (Suc n)
  show ?case unfolding all_expressions.simps
  proof (rule ensures_bindI [OF NextExpression_ok [OF Suc.prems(1)]], clarify)
    fix more p' assume ok: "next_ok p (more, p')"
    show "ensures (\<lambda>(ps, q). parser_inv q \<and> p_data q = p_data p \<and> (\<forall>p' \<in> set ps. expr_at (p_builder p') (p_ref p')) \<and>
         (p_err q \<noteq> None \<or> s_len (p_left q) = 0)) (\<lambda>_. False)
        (if more then bind_outcome (all_expressions n p') (\<lambda>(ps, q). Ok (p' # ps, q)) else Ok ([], p'))"
    proof (cases more)
      case True
      with ok Suc.prems(2) have "parser_inv p'" "s_len (p_left p') < n" "p_data p' = p_data p" "expr_at (p_builder p') (p_ref p')"
        by (auto simp: next_ok_def)
      with Suc.IH [of p'] True show ?thesis by (auto elim!: ensures_mono)
    next
      case False
      with ok show ?thesis by (auto simp: next_ok_def)
    qed
  qed
qed simp




section \<open>Ranges and positions\<close>

lemma Parser_Raw_Range:
  assumes "in_doc p b" "s_len (p_data p) < 2 ^ 32"
  shows "Parser_Raw p \<lparr>Offset = of_nat (addr b - addr (p_data p)), Length = of_nat (s_len b)\<rparr> = Ok b"
proof -
  let ?o = "addr b - addr (p_data p)"
  from assms(1) have s: "addr (p_data p) \<le> addr b" "?o + s_len b \<le> s_len (p_data p)"
    "bytes b = take (s_len b) (drop ?o (bytes (p_data p)))" by (auto simp: in_doc_def subslice_def)
  have o: "unat (of_nat ?o :: 32 word) = ?o" "unat (of_nat ?o + of_nat (s_len b) :: 32 word) = ?o + s_len b"
    using s(2) assms(2) by (simp_all add: unat_of_nat take_bit_nat_eq_self flip: of_nat_add)
  have "s_sub (p_data p) ?o (?o + s_len b) = b"
    using s by (intro slice.expand) auto
  then show ?thesis unfolding Parser_Raw_def using o s(2) by simp
qed

text \<open>
  C12. \<open>Parser.Raw\<close> undoes \<open>Parser.Range\<close>: in a document of less than 4 GiB, the 32-bit offset
  and length recorded for a window of the document lead back to exactly that window.
\<close>

theorem Range_Raw_roundtrip:
  assumes "subslice b (p_data p)" "s_len (p_data p) < 2 ^ 32"
  shows "bind_outcome (Parser_Range p b) (Parser_Raw p) = Ok b"
proof -
  have "go_slice (p_data p)" using assms(2) by (simp add: go_slice_def maxInt_def)
  with assms show ?thesis by (simp add: Parser_Range_Ok Parser_Raw_Range in_doc_def)
qed

theorem Range_Raw_roundtrip_witness:
  "\<exists>p b. subslice b (p_data p) \<and> s_len (p_data p) < 2 ^ 32 \<and> bytes b = ''bc'' \<and>
     bind_outcome (Parser_Range p b) (Parser_Raw p) = Ok b"
proof -
  define p where "p = \<lparr>p_data = Slice 5 ''abcd'', p_builder = \<lparr>nodes = [], lastIdx = 0\<rparr>, p_ref = 0,
    p_left = Slice 0 [], p_err = None, p_first = False, KeepComments = True\<rparr>"
  have "subslice (Slice 6 ''bc'') (p_data p)" "s_len (p_data p) < 2 ^ 32" by (simp_all add: p_def subslice_def)
  with Range_Raw_roundtrip [OF this] show ?thesis by (intro exI [of _ p] exI [of _ "Slice 6 ''bc''"]) simp
qed

lemma LastIndex_none: "c \<notin> set xs \<Longrightarrow> LastIndex xs c = - 1"
  by (induction xs) (auto simp: Let_def)

lemma LastIndex_append: "c \<notin> set ys \<Longrightarrow> LastIndex (xs @ c # ys) c = int (length xs)"
  by (induction xs) (auto simp: Let_def LastIndex_none)

text \<open>
  C13. \<open>Parser.position\<close> counts lines and columns from one: if the bytes before the window are
  some complete lines \<open>pre\<close> followed by \<open>line\<close>, which has no line feed, the window is at line
  \<open>1 +\<close> the number of line feeds in \<open>pre\<close> and at column \<open>1 +\<close> the length of \<open>line\<close>.
\<close>

theorem position_line_column:
  assumes "subslice b (p_data p)" "s_len (p_data p) \<le> maxInt"
    "take (addr b - addr (p_data p)) (bytes (p_data p)) = pre @ line" "c_nl \<notin> set line"
    "pre = [] \<or> last pre = c_nl"
  shows "position p b = Ok \<lparr>p_Offset = length pre + length line, Line = count_list pre c_nl + 1, Column = int (length line) + 1\<rparr>"
proof -
  let ?o = "addr b - addr (p_data p)"
  have o: "SubsliceOffset (p_data p) b = (Ok ?o :: (ParserError, nat) outcome)"
    using assms(1,2) by (auto simp: SubsliceOffset_def subslice_def Let_def)
  have "?o = length pre + length line"
    using assms(1) arg_cong [OF assms(3), of length] by (auto simp: subslice_def)
  moreover have "LastIndex (pre @ line) c_nl = int (length pre) - 1"
  proof (cases "pre = []")
    case True
    then show ?thesis using assms(4) by (simp add: LastIndex_none)
  next
    case False
    then obtain pre' where "pre = pre' @ [c_nl]" using assms(5) by (metis append_butlast_last_id)
    then show ?thesis using LastIndex_append [OF assms(4), of pre'] by simp
  qed
  ultimately show ?thesis unfolding position_def o bind_outcome.simps Let_def assms(3)
    using assms(4) by (simp add: count_list_append count_list_0_iff)
qed

theorem position_line_column_witness:
  "\<exists>p b. p_data p = Slice 5 (''a=1'' @ [c_nl] @ ''bc=2'') \<and> bytes b = ''=2'' \<and>
     position p b = Ok \<lparr>p_Offset = 6, Line = 2, Column = 3\<rparr>"
proof -
  define p where "p = \<lparr>p_data = Slice 5 (''a=1'' @ [c_nl] @ ''bc=2''), p_builder = \<lparr>nodes = [], lastIdx = 0\<rparr>,
    p_ref = 0, p_left = Slice 0 [], p_err = None, p_first = False, KeepComments = True\<rparr>"
  have "position p (Slice 11 ''=2'') = Ok \<lparr>p_Offset = length (''a=1'' @ [c_nl]) + length ''bc'',
      Line = count_list (''a=1'' @ [c_nl]) c_nl + 1, Column = int (length ''bc'') + 1\<rparr>"
    by (rule position_line_column) (simp_all add: p_def subslice_def maxInt_def)
  then show ?thesis by (intro exI [of _ p] exI [of _ "Slice 11 ''=2''"]) (simp add: p_def)
qed

end
