(* ===== verification/Uw_Strconv.thy ===== *)
theory Uw_Strconv
  imports Uw_Prelude
begin

text \<open>
  The part of Go's \<open>strconv\<close> and \<open>fmt\<close> that the program uses to write and read decimal
  numbers: \<open>strconv.Itoa\<close>, the verb \<open>%0nd\<close> and \<open>strconv.ParseInt\<close>, with the lemma that
  reading undoes writing.
\<close>

section \<open>Writing\<close>

fun utoa :: "nat \<Rightarrow> string" where
  "utoa n = (if n < 10 then [char_of (48 + n)] else utoa (n div 10) @ [char_of (48 + n mod 10)])"

declare utoa.simps [simp del]

definition Itoa :: "int \<Rightarrow> string" where
  "Itoa i = (if i < 0 then CHR ''-'' # utoa (nat (- i)) else utoa (nat i))"

text \<open>\<open>fmt.Sprintf("%0nd", i)\<close>: zeros go between the sign and the digits.\<close>

definition Sprintf_0d :: "nat \<Rightarrow> int \<Rightarrow> string" where
  "Sprintf_0d w i =
     (if i < 0 then let ds = utoa (nat (- i)) in CHR ''-'' # replicate (w - 1 - length ds) CHR ''0'' @ ds
      else let ds = utoa (nat i) in replicate (w - length ds) CHR ''0'' @ ds)"

section \<open>Reading\<close>

text \<open>The value of a digit in \<open>strconv.ParseInt\<close>.\<close>

definition digit_value :: "byte \<Rightarrow> nat option" where
  "digit_value c =
     (if bval CHR ''0'' \<le> bval c \<and> bval c \<le> bval CHR ''9'' then Some (bval c - bval CHR ''0'')
      else if bval CHR ''a'' \<le> bval c \<and> bval c \<le> bval CHR ''z'' then Some (bval c - bval CHR ''a'' + 10)
      else if bval CHR ''A'' \<le> bval c \<and> bval c \<le> bval CHR ''Z'' then Some (bval c - bval CHR ''A'' + 10)
      else None)"

fun digits_value :: "nat \<Rightarrow> string \<Rightarrow> nat \<Rightarrow> nat option" where
  "digits_value base [] v = Some v"
| "digits_value base (c # cs) v =
     (case digit_value c of
        None \<Rightarrow> None
      | Some d \<Rightarrow> if base \<le> d then None else digits_value base cs (v * base + d))"

text \<open>
  \<open>strconv.ParseInt(s, base, 64)\<close> for \<open>base\<close> other than 0: an optional sign, then one or more
  digits of the base; \<^const>\<open>None\<close> is a syntax or range error.
\<close>

definition ParseInt :: "string \<Rightarrow> nat \<Rightarrow> int option" where
  "ParseInt s base =
     (let (neg, ds) = (case s of [] \<Rightarrow> (False, []) | c # cs \<Rightarrow>
            if c = CHR ''+'' then (False, cs) else if c = CHR ''-'' then (True, cs) else (False, s)) in
      if ds = [] then None
      else case digits_value base ds 0 of
        None \<Rightarrow> None
      | Some v \<Rightarrow>
          if neg then (if v \<le> 2 ^ 63 then Some (- int v) else None)
          else if v < 2 ^ 63 then Some (int v) else None)"

section \<open>Reading undoes writing\<close>

lemma digit_value_digit: "n < 10 \<Longrightarrow> digit_value (char_of (48 + n)) = Some n"
  by (simp add: digit_value_def)

lemma utoa_nonempty [simp]: "utoa n \<noteq> []"
  by (simp add: utoa.simps [of n])

lemma digits_value_append:
  "digits_value base (xs @ ys) v = Option.bind (digits_value base xs v) (digits_value base ys)"
  by (induction xs arbitrary: v) (auto split: option.splits)

lemma digits_value_utoa: "digits_value 10 (utoa n) 0 = Some n"
proof (induction n rule: utoa.induct)
  case (1 n)
  show ?case
  proof (cases "n < 10")
    case True
    then show ?thesis by (simp add: utoa.simps [of n] digit_value_digit)
  next
    case False
    then show ?thesis using 1 digit_value_digit [of "n mod 10"]
      by (simp add: utoa.simps [of n] digits_value_append)
  qed
qed

lemma utoa_digits: "c \<in> set (utoa n) \<Longrightarrow> 48 \<le> bval c \<and> bval c \<le> 57"
proof (induction n rule: utoa.induct)
  case (1 n)
  show ?case
  proof (cases "n < 10")
    case True
    then show ?thesis using "1.prems" by (auto simp: utoa.simps [of n])
  next
    case False
    then show ?thesis using 1 by (auto simp: utoa.simps [of n])
  qed
qed

lemma ParseInt_Itoa:
  assumes "- (2 ^ 63) \<le> i" "i < 2 ^ 63"
  shows "ParseInt (Itoa i) 10 = Some i"
proof (cases "i < 0")
  case True
  then have "nat (- i) \<le> 2 ^ 63" using assms by simp
  then show ?thesis using True by (simp add: ParseInt_def Itoa_def digits_value_utoa)
next
  case False
  obtain c cs where u: "utoa (nat i) = c # cs" by (cases "utoa (nat i)") simp_all
  then have "c \<noteq> CHR ''+''" "c \<noteq> CHR ''-''" using utoa_digits [of c "nat i"] by auto
  moreover have "nat i < 2 ^ 63" using assms(2) False by simp
  ultimately show ?thesis using False digits_value_utoa [of "nat i"] u by (simp add: ParseInt_def Itoa_def)
qed

lemma utoa_hd: "10 \<le> n \<Longrightarrow> hd (utoa n) \<noteq> CHR ''0''"
proof (induction n rule: utoa.induct)
  case (1 n)
  then have u: "utoa n = utoa (n div 10) @ [char_of (48 + n mod 10)]" by (simp add: utoa.simps [of n])
  show ?case
  proof (cases "n div 10 < 10")
    case True
    then have "hd (utoa (n div 10)) = char_of (48 + n div 10)" by (simp add: utoa.simps [of "n div 10"])
    moreover have "of_char (char_of (48 + n div 10) :: char) \<noteq> (of_char CHR ''0'' :: nat)" using True 1 by simp
    ultimately show ?thesis using u by (metis hd_append2 utoa_nonempty)
  next
    case False
    then show ?thesis using 1 u by simp
  qed
qed

lemma utoa_length1: "n < 10 \<Longrightarrow> length (utoa n) = 1"
  by (simp add: utoa.simps [of n])

lemma utoa_0: "1 < length (utoa n) \<Longrightarrow> utoa n ! 0 \<noteq> CHR ''0''"
  using utoa_hd [of n] utoa_length1 [of n] by (cases "n < 10") (auto simp: hd_conv_nth)

end
