(* ===== verification/Toml_Decode.thy ===== *)
theory Toml_Decode
  imports Toml_Parser_Correct Uw_Strconv
begin

text \<open>
  \<open>utoml/decode.go\<close>: from the tokens that the parser leaves in \<open>Node.Data\<close> to Go values.
  Integers are parsed with the part of \<open>strconv.ParseInt\<close> that the code uses; \<open>strconv.ParseFloat\<close>
  and the NaN value are arguments of \<open>parseFloat\<close>. The \<open>time.Time\<close> that \<open>parseDateTime\<close>
  returns is kept as the arguments of its call of \<open>time.Date\<close>. The lemmas show that the panics
  in this file, which its comments say the parser rules out, are indeed never reached on the
  parser's tokens, and give the values that are returned.
\<close>

section \<open>Dates\<close>

record LocalDate =
  Year :: int
  Month :: int
  Day :: int

record LocalTime =
  Hour :: int
  Minute :: int
  Second :: int
  Nanosecond :: int
  Precision :: int

record LocalDateTime =
  dt_LocalDate :: LocalDate
  dt_LocalTime :: LocalTime

definition daysBefore :: "int list" where
  "daysBefore = [0, 31, 31 + 28, 31 + 28 + 31, 31 + 28 + 31 + 30, 31 + 28 + 31 + 30 + 31,
     31 + 28 + 31 + 30 + 31 + 30, 31 + 28 + 31 + 30 + 31 + 30 + 31,
     31 + 28 + 31 + 30 + 31 + 30 + 31 + 31, 31 + 28 + 31 + 30 + 31 + 30 + 31 + 31 + 30,
     31 + 28 + 31 + 30 + 31 + 30 + 31 + 31 + 30 + 31,
     31 + 28 + 31 + 30 + 31 + 30 + 31 + 31 + 30 + 31 + 30,
     31 + 28 + 31 + 30 + 31 + 30 + 31 + 31 + 30 + 31 + 30 + 31]"

text \<open>Go's \<open>%\<close> and \<open>mod\<close> agree on when the remainder is zero.\<close>

definition isLeap :: "int \<Rightarrow> bool" where
  "isLeap year \<longleftrightarrow> year mod 4 = 0 \<and> (year mod 100 \<noteq> 0 \<or> year mod 400 = 0)"

text \<open>\<^const>\<open>None\<close> is the panic of an index outside \<open>daysBefore\<close>.\<close>

definition daysIn :: "int \<Rightarrow> int \<Rightarrow> int option" where
  "daysIn m year =
     (if m = 2 \<and> isLeap year then Some 29
      else if m - 1 < 0 then None
      else Option.bind (nth_opt daysBefore (nat m)) (\<lambda>a.
           Option.bind (nth_opt daysBefore (nat (m - 1))) (\<lambda>b. Some (a - b))))"

definition isValidDate :: "int \<Rightarrow> int \<Rightarrow> int \<Rightarrow> bool option" where
  "isValidDate year month day =
     (if 0 < month \<and> month < 13 \<and> 0 < day then
        Option.bind (daysIn month year) (\<lambda>n. Some (day \<le> n))
      else Some False)"

fun parseDecimalDigits_loop :: "slice \<Rightarrow> byte list \<Rightarrow> nat \<Rightarrow> int \<Rightarrow> (ParserError, int) outcome" where
  "parseDecimalDigits_loop b [] i v = Ok v"
| "parseDecimalDigits_loop b (c # cs) i v =
     (if bval c < bval CHR ''0'' \<or> bval CHR ''9'' < bval c then
        Err (NewParserError (s_sub b i (i + 1)) ''expected digit (0-9)'' [])
      else parseDecimalDigits_loop b cs (i + 1) (v * 10 + int (bval c - bval CHR ''0'')))"

definition parseDecimalDigits :: "slice \<Rightarrow> (ParserError, int) outcome" where
  "parseDecimalDigits b = parseDecimalDigits_loop b (bytes b) 0 0"

definition parseLocalDate :: "slice \<Rightarrow> (ParserError, LocalDate) outcome" where
  "parseLocalDate b =
     (if s_len b \<noteq> 10 \<or> bytes b ! 4 \<noteq> CHR ''-'' \<or> bytes b ! 7 \<noteq> CHR ''-'' then
        Err (NewParserError b ''dates are expected to have the format YYYY-MM-DD'' [])
      else
        bind_outcome (parseDecimalDigits (s_sub b 0 4)) (\<lambda>y.
        let y = (if y < 1970 \<or> 9999 < y then 1970 else y) in
        bind_outcome (parseDecimalDigits (s_sub b 5 7)) (\<lambda>m.
        let m = (if m < 1 \<or> 12 < m then 1 else m) in
        bind_outcome (parseDecimalDigits (s_sub b 8 10)) (\<lambda>d.
        bind_outcome (or_panic (daysIn m y)) (\<lambda>n.
        let d = (if d < 1 \<or> n < d then 1 else d) in
        bind_outcome (or_panic (isValidDate y m d)) (\<lambda>valid.
          if \<not> valid then Err (NewParserError b ''impossible date'' [])
          else Ok \<lparr>Year = y, Month = m, Day = d\<rparr>))))))"

section \<open>Times\<close>

definition nspow :: "int list" where
  "nspow = [0, 100000000, 10000000, 1000000, 100000, 10000, 1000, 100, 10, 1]"

text \<open>The loop over the fractional digits: \<open>frac\<close>, \<open>precision\<close> and \<open>digits\<close> when it ends.\<close>

fun fraction_loop ::
    "slice \<Rightarrow> byte list \<Rightarrow> nat \<Rightarrow> int \<Rightarrow> nat \<Rightarrow> nat \<Rightarrow> (ParserError, int \<times> nat \<times> nat) outcome" where
  "fraction_loop b [] i frac precision digits = Ok (frac, precision, digits)"
| "fraction_loop b (c # cs) i frac precision digits =
     (if \<not> isDigit c then
        if i = 0 then
          Err (NewParserError (s_sub b 0 1) ''need at least one digit after fraction point'' [])
        else Ok (frac, precision, digits)
      else if 9 \<le> i then fraction_loop b cs (i + 1) frac precision (digits + 1)
      else fraction_loop b cs (i + 1) (frac * 10 + int (bval c - bval CHR ''0''))
             (precision + 1) (digits + 1))"

definition parseFraction ::
    "LocalTime \<Rightarrow> slice \<Rightarrow> (ParserError, LocalTime \<times> slice) outcome" where
  "parseFraction t b =
     (if 1 \<le> s_len b \<and> bytes b ! 0 = CHR ''.'' then
        bind_outcome (fraction_loop b (drop 1 (bytes b)) 0 0 0 0) (\<lambda>(frac, precision, digits).
          if precision = 0 then
            Err (NewParserError (s_to b 1) ''nanoseconds need at least one digit'' [])
          else
            bind_outcome (idx nspow precision) (\<lambda>pow.
            bind_outcome (slice_chk b (1 + digits) (s_len b)) (\<lambda>rest.
              Ok (t\<lparr>Nanosecond := frac * pow, Precision := int precision\<rparr>, rest))))
      else Ok (t, b))"

definition parseLocalTime :: "slice \<Rightarrow> (ParserError, LocalTime \<times> slice) outcome" where
  "parseLocalTime b =
     (if s_len b < 8 then
        Err (NewParserError b ''times are expected to have the format HH:MM:SS[.NNNNNN]'' [])
      else
        bind_outcome (parseDecimalDigits (s_sub b 0 2)) (\<lambda>h.
        if 23 < h then Err (NewParserError (s_sub b 0 2) ''hour cannot be greater 23'' [])
        else if bytes b ! 2 \<noteq> CHR '':'' then
          Err (NewParserError (s_sub b 2 3) ''expecting colon between hours and minutes'' [])
        else
        bind_outcome (parseDecimalDigits (s_sub b 3 5)) (\<lambda>m.
        if 59 < m then Err (NewParserError (s_sub b 3 5) ''minutes cannot be greater 59'' [])
        else if bytes b ! 5 \<noteq> CHR '':'' then
          Err (NewParserError (s_sub b 5 6) ''expecting colon between minutes and seconds'' [])
        else
        bind_outcome (parseDecimalDigits (s_sub b 6 8)) (\<lambda>s.
        if 60 < s then Err (NewParserError (s_sub b 6 8) ''seconds cannot be greater 60'' [])
        else parseFraction \<lparr>Hour = h, Minute = m, Second = s, Nanosecond = 0, Precision = 0\<rparr>
               (s_from b 8)))))"

definition parseLocalDateTime :: "slice \<Rightarrow> (ParserError, LocalDateTime \<times> slice) outcome" where
  "parseLocalDateTime b =
     (if s_len b < 11 then
        Err (NewParserError b
          ''local datetimes are expected to have the format YYYY-MM-DDTHH:MM:SS[.NNNNNNNNN]'' [])
      else
        bind_outcome (parseLocalDate (s_to b 10)) (\<lambda>date.
        let sep = bytes b ! 10 in
        if sep \<noteq> CHR ''T'' \<and> sep \<noteq> c_sp \<and> sep \<noteq> CHR ''t'' then
          Err (NewParserError (s_sub b 10 11)
            ''datetime separator is expected to be T or a space'' [])
        else
        bind_outcome (parseLocalTime (s_from b 11)) (\<lambda>(t, rest).
          Ok (\<lparr>dt_LocalDate = date, dt_LocalTime = t\<rparr>, rest))))"

datatype zone = UTC | FixedZone int

text \<open>The arguments of \<open>time.Date\<close>.\<close>

datatype go_time = Date LocalDateTime zone

definition parseZone :: "slice \<Rightarrow> (ParserError, zone \<times> slice) outcome" where
  "parseZone b =
     (if s_len b = 0 then Panic
      else if bytes b ! 0 = CHR ''Z'' \<or> bytes b ! 0 = CHR ''z'' then Ok (UTC, s_from b 1)
      else if s_len b \<noteq> 6 then Err (NewParserError b ''invalid date-time timezone'' [])
      else if bytes b ! 0 \<noteq> CHR ''-'' \<and> bytes b ! 0 \<noteq> CHR ''+'' then
        Err (NewParserError (s_to b 1) ''invalid timezone offset character'' [])
      else
        let direction = (if bytes b ! 0 = CHR ''-'' then - 1 else 1) in
        if bytes b ! 3 \<noteq> CHR '':'' then
          Err (NewParserError (s_sub b 3 4) ''expected a : separator'' [])
        else
        bind_outcome (parseDecimalDigits (s_sub b 1 3)) (\<lambda>hours.
        if 23 < hours then Err (NewParserError (s_to b 1) ''invalid timezone offset hours'' [])
        else
        bind_outcome (parseDecimalDigits (s_sub b 4 6)) (\<lambda>minutes.
        if 59 < minutes then Err (NewParserError (s_to b 1) ''invalid timezone offset minutes'' [])
        else
          let seconds = direction * (hours * 3600 + minutes * 60) in
          Ok (if seconds = 0 then UTC else FixedZone seconds, s_from b 6))))"

definition parseDateTime :: "slice \<Rightarrow> (ParserError, go_time) outcome" where
  "parseDateTime b0 =
     bind_outcome (parseLocalDateTime b0) (\<lambda>(dt, b).
     bind_outcome (parseZone b) (\<lambda>(z, b).
       if 0 < s_len b then
         Err (NewParserError b ''extra bytes at the end of the timezone'' [])
       else Ok (Date dt z)))"

section \<open>Numbers\<close>

definition isSign :: "byte \<Rightarrow> bool" where
  "isSign b \<longleftrightarrow> b = CHR ''+'' \<or> b = CHR ''-''"

text \<open>The fast-path loop: the index of the first underscore, or the length.\<close>

function find_underscore :: "slice \<Rightarrow> nat \<Rightarrow> nat" where
  "find_underscore b i =
     (if i < s_len b then if bytes b ! i = CHR ''_'' then i else find_underscore b (i + 1) else i)"
  by pat_completeness auto
termination by (relation "measure (\<lambda>(b, i). s_len b - i)") auto

function int_underscores_loop ::
    "slice \<Rightarrow> nat \<Rightarrow> bool \<Rightarrow> byte list \<Rightarrow> (ParserError, byte list) outcome" where
  "int_underscores_loop b i before cleaned =
     (if i < s_len b then
        let c = bytes b ! i in
        if c = CHR ''_'' then
          if \<not> before then
            bind_outcome (slice_chk b (i - 1) (i + 1)) (\<lambda>h.
              Err (NewParserError h ''number must have at least one digit between underscores'' []))
          else int_underscores_loop b (i + 1) False cleaned
        else int_underscores_loop b (i + 1) True (cleaned @ [c])
      else Ok cleaned)"
  by pat_completeness auto
termination by (relation "measure (\<lambda>(b, i, bf, cl). s_len b - i)") auto

definition checkAndRemoveUnderscoresIntegers :: "slice \<Rightarrow> (ParserError, byte list) outcome" where
  "checkAndRemoveUnderscoresIntegers b =
     bind_outcome (idx (bytes b) 0) (\<lambda>c0.
     let start = (if c0 = CHR ''+'' \<or> c0 = CHR ''-'' then 1 else 0) in
     if s_len b = start then Ok (bytes b)
     else
       bind_outcome (idx (bytes b) start) (\<lambda>c.
       if c = CHR ''_'' then
         Err (NewParserError (s_sub b start (start + 1)) ''number cannot start with underscore'' [])
       else if bytes b ! (s_len b - 1) = CHR ''_'' then
         Err (NewParserError (s_from b (s_len b - 1)) ''number cannot end with underscore'' [])
       else
         let i = find_underscore b 0 in
         if i = s_len b then Ok (bytes b)
         else int_underscores_loop b (i + 1) False (take i (bytes b))))"

text \<open>The two bytes around position \<open>i\<close> that the float loop tests.\<close>

function float_underscores_loop ::
    "slice \<Rightarrow> nat \<Rightarrow> bool \<Rightarrow> byte list \<Rightarrow> (ParserError, byte list) outcome" where
  "float_underscores_loop b i before cleaned =
     (if i < s_len b then
        let c = bytes b ! i; nxt = i < s_len b - 1 in
        if c = CHR ''_'' then
          if \<not> before then
            bind_outcome (slice_chk b (i - 1) (i + 1)) (\<lambda>h.
              Err (NewParserError h ''number must have at least one digit between underscores'' []))
          else if nxt \<and> (bytes b ! (i + 1) = CHR ''e'' \<or> bytes b ! (i + 1) = CHR ''E'') then
            Err (NewParserError (s_sub b (i + 1) (i + 2)) ''cannot have underscore before exponent'' [])
          else float_underscores_loop b (i + 1) False cleaned
        else if c = CHR ''+'' \<or> c = CHR ''-'' then
          float_underscores_loop b (i + 1) False (cleaned @ [c])
        else if c = CHR ''e'' \<or> c = CHR ''E'' then
          if nxt \<and> bytes b ! (i + 1) = CHR ''_'' then
            Err (NewParserError (s_sub b (i + 1) (i + 2)) ''cannot have underscore after exponent'' [])
          else float_underscores_loop b (i + 1) before (cleaned @ [c])
        else if c = CHR ''.'' then
          if nxt \<and> bytes b ! (i + 1) = CHR ''_'' then
            Err (NewParserError (s_sub b (i + 1) (i + 2)) ''cannot have underscore after decimal point'' [])
          else if 0 < i \<and> bytes b ! (i - 1) = CHR ''_'' then
            Err (NewParserError (s_sub b (i - 1) i) ''cannot have underscore before decimal point'' [])
          else float_underscores_loop b (i + 1) before (cleaned @ [c])
        else float_underscores_loop b (i + 1) True (cleaned @ [c])
      else Ok cleaned)"
  by pat_completeness auto
termination by (relation "measure (\<lambda>(b, i, bf, cl). s_len b - i)") auto

declare find_underscore.simps [simp del] int_underscores_loop.simps [simp del]
  float_underscores_loop.simps [simp del]

definition checkAndRemoveUnderscoresFloats :: "slice \<Rightarrow> (ParserError, byte list) outcome" where
  "checkAndRemoveUnderscoresFloats b =
     bind_outcome (idx (bytes b) 0) (\<lambda>c0.
     if c0 = CHR ''_'' then
       Err (NewParserError (s_to b 1) ''number cannot start with underscore'' [])
     else if bytes b ! (s_len b - 1) = CHR ''_'' then
       Err (NewParserError (s_from b (s_len b - 1)) ''number cannot end with underscore'' [])
     else if find_underscore b 0 = s_len b then Ok (bytes b)
     else float_underscores_loop b 0 False [])"

definition msg_couldnt :: "string \<Rightarrow> string" where
  "msg_couldnt what = ''couldn'' @ [c_sq] @ ''t parse '' @ what @ '' number: %w''"

text \<open>
  \<open>parseIntHex\<close>, \<open>parseIntOct\<close> and \<open>parseIntBin\<close> differ in the base and in the message only.
\<close>

definition parseIntBase :: "nat \<Rightarrow> string \<Rightarrow> slice \<Rightarrow> (ParserError, int) outcome" where
  "parseIntBase base what b =
     bind_outcome (slice_chk b 2 (s_len b)) (\<lambda>ds.
     bind_outcome (checkAndRemoveUnderscoresIntegers ds) (\<lambda>cleaned.
       case ParseInt cleaned base of
         None \<Rightarrow> Err (NewParserError b (msg_couldnt what) [])
       | Some i \<Rightarrow> Ok i))"

definition parseIntHex :: "slice \<Rightarrow> (ParserError, int) outcome" where
  "parseIntHex b = parseIntBase 16 ''hexadecimal'' b"

definition parseIntOct :: "slice \<Rightarrow> (ParserError, int) outcome" where
  "parseIntOct b = parseIntBase 8 ''octal'' b"

definition parseIntBin :: "slice \<Rightarrow> (ParserError, int) outcome" where
  "parseIntBin b = parseIntBase 2 ''binary'' b"

definition parseIntDec :: "slice \<Rightarrow> (ParserError, int) outcome" where
  "parseIntDec b =
     bind_outcome (checkAndRemoveUnderscoresIntegers b) (\<lambda>cleaned.
     bind_outcome (idx cleaned 0) (\<lambda>c0.
     let startIdx = (if isSign c0 then 1 else 0) in
     if startIdx + 1 < length cleaned \<and> cleaned ! startIdx = CHR ''0'' then
       Err (NewParserError b ''leading zero not allowed on decimal number'' [])
     else case ParseInt cleaned 10 of
       None \<Rightarrow> Err (NewParserError b (msg_couldnt ''decimal'') [])
     | Some i \<Rightarrow> Ok i))"

definition parseInteger :: "slice \<Rightarrow> (ParserError, int) outcome" where
  "parseInteger b =
     (if 2 < s_len b \<and> bytes b ! 0 = CHR ''0'' then
        if bytes b ! 1 = CHR ''x'' then parseIntHex b
        else if bytes b ! 1 = CHR ''b'' then parseIntBin b
        else if bytes b ! 1 = CHR ''o'' then parseIntOct b
        else Panic
      else parseIntDec b)"

text \<open>The checks around the decimal point.\<close>

function float_dot_loop :: "slice \<Rightarrow> byte list \<Rightarrow> nat \<Rightarrow> bool \<Rightarrow> (ParserError, unit) outcome" where
  "float_dot_loop b cleaned i dotAlreadySeen =
     (if i < length cleaned then
        if cleaned ! i = CHR ''.'' then
          if dotAlreadySeen then
            bind_outcome (slice_chk b i (i + 1)) (\<lambda>h.
              Err (NewParserError h ''float can have at most one decimal point'' []))
          else if i = 0 then Panic
          else if \<not> isDigit (cleaned ! (i - 1)) then
            bind_outcome (slice_chk b (i - 1) (i + 1)) (\<lambda>h.
              Err (NewParserError h ''float decimal point must be preceded by a digit'' []))
          else
            bind_outcome (idx cleaned (i + 1)) (\<lambda>c.
              if \<not> isDigit c then
                bind_outcome (slice_chk b i (i + 2)) (\<lambda>h.
                  Err (NewParserError h ''float decimal point must be followed by a digit'' []))
              else float_dot_loop b cleaned (i + 1) True)
        else float_dot_loop b cleaned (i + 1) dotAlreadySeen
      else Ok ())"
  by pat_completeness auto
termination by (relation "measure (\<lambda>(b, cl, i, s). length cl - i)") auto

declare float_dot_loop.simps [simp del]

definition parseFloat :: "'f \<Rightarrow> (string \<Rightarrow> 'f option) \<Rightarrow> slice \<Rightarrow> (ParserError, 'f) outcome" where
  "parseFloat NaN ParseFloat b =
     (if s_len b = 4 \<and> (bytes b ! 0 = CHR ''+'' \<or> bytes b ! 0 = CHR ''-'') \<and>
          bytes b ! 1 = CHR ''n'' \<and> bytes b ! 2 = CHR ''a'' \<and> bytes b ! 3 = CHR ''n'' then Ok NaN
      else
        bind_outcome (checkAndRemoveUnderscoresFloats b) (\<lambda>cleaned.
        bind_outcome (idx cleaned 0) (\<lambda>c0.
        if c0 = CHR ''.'' then Err (NewParserError b ''float cannot start with a dot'' [])
        else if cleaned ! (length cleaned - 1) = CHR ''.'' then
          Err (NewParserError b ''float cannot end with a dot'' [])
        else
        bind_outcome (float_dot_loop b cleaned 0 False) (\<lambda>_.
        let start = (if c0 = CHR ''+'' \<or> c0 = CHR ''-'' then 1 else 0) in
        bind_outcome (idx cleaned start) (\<lambda>c.
        if c = CHR ''0'' \<and> start + 1 < length cleaned \<and> isDigit (cleaned ! (start + 1)) then
          Err (NewParserError b ''float integer part cannot have leading zeroes'' [])
        else case ParseFloat cleaned of
          None \<Rightarrow> Err (NewParserError b ''unable to parse float: %w'' [])
        | Some f \<Rightarrow> Ok f)))))"

section \<open>Dates and times are in range\<close>

text \<open>The Gregorian calendar, written down from its rules.\<close>

definition leap_year :: "int \<Rightarrow> bool" where
  "leap_year y \<longleftrightarrow> 400 dvd y \<or> 4 dvd y \<and> \<not> 100 dvd y"

definition month_length :: "int \<Rightarrow> int \<Rightarrow> int" where
  "month_length m y = (if m \<in> {4, 6, 9, 11} then 30 else if m = 2 then if leap_year y then 29 else 28 else 31)"

lemma isLeap_leap_year: "isLeap y \<longleftrightarrow> leap_year y"
proof -
  have "400 dvd y \<Longrightarrow> 4 dvd y" using dvd_trans [of 4 400 y] by simp
  then show ?thesis by (auto simp: isLeap_def leap_year_def dvd_eq_mod_eq_0)
qed

lemma daysIn_month_length:
  assumes "1 \<le> m" "m \<le> 12"
  shows "daysIn m y = Some (month_length m y)"
proof -
  have "m = 1 \<or> m = 2 \<or> m = 3 \<or> m = 4 \<or> m = 5 \<or> m = 6 \<or> m = 7 \<or> m = 8 \<or> m = 9 \<or> m = 10 \<or> m = 11 \<or> m = 12"
    using assms by presburger
  then show ?thesis
    by (elim disjE) (simp_all add: daysIn_def daysBefore_def nth_opt_def isLeap_leap_year month_length_def)
qed

lemma daysIn_bounds:
  assumes "1 \<le> m" "m \<le> 12"
  obtains n where "daysIn m y = Some n" "28 \<le> n" "n \<le> 31"
proof -
  have "28 \<le> month_length m y" "month_length m y \<le> 31" by (auto simp: month_length_def)
  with that show thesis using daysIn_month_length [OF assms] by blast
qed

lemma parseDecimalDigits_loop_ensures:
  "i + length cs = s_len b \<Longrightarrow> 0 \<le> v \<Longrightarrow>
   ensures (\<lambda>r. (\<forall>c \<in> set cs. isDigit c) \<and> v * 10 ^ length cs \<le> r \<and> r < (v + 1) * 10 ^ length cs)
     (\<lambda>e. subslice (Highlight e) b) (parseDecimalDigits_loop b cs i v)"
proof (induction b cs i v rule: parseDecimalDigits_loop.induct)
  case (2 b c cs i v)
  show ?case
  proof (cases "isDigit c")
    case True
    define d where "d = int (bval c - bval CHR ''0'')"
    from True have d: "0 \<le> d" "d \<le> 9" by (auto simp: isDigit_def d_def)
    have eq: "parseDecimalDigits_loop b (c # cs) i v = parseDecimalDigits_loop b cs (i + 1) (v * 10 + d)"
      using True by (simp add: isDigit_def d_def)
    have IH: "ensures (\<lambda>r. (\<forall>c \<in> set cs. isDigit c) \<and> (v * 10 + d) * 10 ^ length cs \<le> r \<and> r < (v * 10 + d + 1) * 10 ^ length cs)
       (\<lambda>e. subslice (Highlight e) b) (parseDecimalDigits_loop b cs (i + 1) (v * 10 + d))"
      unfolding d_def using "2.prems" True d by (intro "2.IH") (auto simp: isDigit_def d_def)
    have le: "v * 10 ^ length (c # cs) \<le> (v * 10 + d) * 10 ^ length cs"
      "(v * 10 + d + 1) * 10 ^ length cs \<le> (v + 1) * 10 ^ length (c # cs)"
      using d mult_right_mono [of "v * 10 + d + 1" "(v + 1) * 10" "10 ^ length cs :: int"]
      by (simp_all add: algebra_simps)
    show ?thesis unfolding eq
    proof (rule ensures_mono [OF IH], goal_cases)
      case (1 x)
      then have "v * 10 ^ length (c # cs) \<le> x" "x < (v + 1) * 10 ^ length (c # cs)" using le by linarith+
      with 1 True show ?case by (simp del: power_Suc list.size(4))
    qed
  next
    case False
    then show ?thesis using "2.prems" by (auto simp: isDigit_def intro!: subslice_sub)
  qed
qed auto

lemma parseDecimalDigits_ensures:
  "ensures (\<lambda>r. (\<forall>c \<in> set (bytes b). isDigit c) \<and> 0 \<le> r \<and> r < 10 ^ s_len b)
     (\<lambda>e. subslice (Highlight e) b) (parseDecimalDigits b)"
  using parseDecimalDigits_loop_ensures [of 0 "bytes b" b 0] by (simp add: parseDecimalDigits_def)

lemma digits_ensures:
  assumes "i \<le> j" "j \<le> s_len b"
  shows "ensures (\<lambda>r. (\<forall>m. i \<le> m \<and> m < j \<longrightarrow> isDigit (bytes b ! m)) \<and> 0 \<le> r \<and> r < 10 ^ (j - i))
     (\<lambda>e. subslice (Highlight e) b) (parseDecimalDigits (s_sub b i j))"
proof -
  have s: "subslice (s_sub b i j) b" using assms by blast
  have "isDigit (bytes b ! m)" if "\<forall>c \<in> set (bytes (s_sub b i j)). isDigit c" "i \<le> m" "m < j" for m
  proof -
    have "bytes (s_sub b i j) ! (m - i) = bytes b ! m" "m - i < length (bytes (s_sub b i j))" using that assms by auto
    with that(1) show ?thesis by (metis nth_mem)
  qed
  then show ?thesis using assms
    by (intro ensures_mono [OF parseDecimalDigits_ensures [of "s_sub b i j"]]) (auto intro: subslice_trans [OF _ s])
qed

definition valid_date :: "LocalDate \<Rightarrow> bool" where
  "valid_date d \<longleftrightarrow> 1970 \<le> Year d \<and> Year d \<le> 9999 \<and> 1 \<le> Month d \<and> Month d \<le> 12 \<and>
     1 \<le> Day d \<and> Day d \<le> month_length (Month d) (Year d)"

definition valid_time :: "LocalTime \<Rightarrow> bool" where
  "valid_time t \<longleftrightarrow> 0 \<le> Hour t \<and> Hour t \<le> 23 \<and> 0 \<le> Minute t \<and> Minute t \<le> 59 \<and>
     0 \<le> Second t \<and> Second t \<le> 60 \<and> 0 \<le> Nanosecond t \<and> Nanosecond t < 1000000000 \<and>
     0 \<le> Precision t \<and> Precision t \<le> 9"

lemma parseLocalDate_ensures:
  "ensures (\<lambda>d. valid_date d \<and> s_len b = 10 \<and> (\<forall>m < 10. m \<noteq> 4 \<and> m \<noteq> 7 \<longrightarrow> isDigit (bytes b ! m)) \<and>
       bytes b ! 4 = CHR ''-'' \<and> bytes b ! 7 = CHR ''-'')
     (\<lambda>e. subslice (Highlight e) b) (parseLocalDate b)"
proof (cases "s_len b \<noteq> 10 \<or> bytes b ! 4 \<noteq> CHR ''-'' \<or> bytes b ! 7 \<noteq> CHR ''-''")
  case False
  then have b: "s_len b = 10" by simp
  let ?clamp = "\<lambda>l u d x :: int. if x < l \<or> u < x then d else x"
  have tail: "ensures valid_date E (bind_outcome (or_panic (daysIn m y)) (\<lambda>n.
        bind_outcome (or_panic (isValidDate y m (if d < 1 \<or> n < d then 1 else d))) (\<lambda>valid.
          if \<not> valid then Err e else Ok \<lparr>Year = y, Month = m, Day = if d < 1 \<or> n < d then 1 else d\<rparr>)))"
    if a: "1970 \<le> y" "y \<le> 9999" "1 \<le> m" "m \<le> 12" for y m d E and e :: ParserError
  proof -
    obtain n where n: "daysIn m y = Some n" "28 \<le> n" "n \<le> 31" using daysIn_bounds [OF a(3,4)] .
    show ?thesis using a n daysIn_month_length [OF a(3,4), of y] by (auto simp: isValidDate_def valid_date_def)
  qed
  have e1: "ensures P (\<lambda>e. subslice (Highlight e) b) (bind_outcome (parseDecimalDigits (s_sub b i j)) f)"
    if "i \<le> j" "j \<le> 10" "\<And>v. \<forall>m. i \<le> m \<and> m < j \<longrightarrow> isDigit (bytes b ! m) \<Longrightarrow> ensures P (\<lambda>e. subslice (Highlight e) b) (f v)"
    for i j P and f :: "int \<Rightarrow> (ParserError, LocalDate) outcome"
    by (rule ensures_bindI [OF digits_ensures]) (use that b in auto)
  have dig: "isDigit (bytes b ! m)"
    if "\<forall>m. 0 \<le> m \<and> m < 4 \<longrightarrow> isDigit (bytes b ! m)" "\<forall>m. 5 \<le> m \<and> m < 7 \<longrightarrow> isDigit (bytes b ! m)"
      "\<forall>m. 8 \<le> m \<and> m < 10 \<longrightarrow> isDigit (bytes b ! m)" "m < 10" "m \<noteq> 4" "m \<noteq> 7" for m
    using that by (cases "m < 4"; cases "m < 7") auto
  show ?thesis unfolding parseLocalDate_def if_not_P [OF False] Let_def
  proof (intro e1)
    fix v va vb
    assume d: "\<forall>m. 0 \<le> m \<and> m < 4 \<longrightarrow> isDigit (bytes b ! m)" "\<forall>m. 5 \<le> m \<and> m < 7 \<longrightarrow> isDigit (bytes b ! m)"
      "\<forall>m. 8 \<le> m \<and> m < 10 \<longrightarrow> isDigit (bytes b ! m)"
    show "ensures (\<lambda>d. valid_date d \<and> s_len b = 10 \<and> (\<forall>m < 10. m \<noteq> 4 \<and> m \<noteq> 7 \<longrightarrow> isDigit (bytes b ! m)) \<and>
         bytes b ! 4 = CHR ''-'' \<and> bytes b ! 7 = CHR ''-'') (\<lambda>e. subslice (Highlight e) b)
       (bind_outcome (or_panic (daysIn (if va < 1 \<or> 12 < va then 1 else va) (if v < 1970 \<or> 9999 < v then 1970 else v))) (\<lambda>n.
        bind_outcome (or_panic (isValidDate (if v < 1970 \<or> 9999 < v then 1970 else v) (if va < 1 \<or> 12 < va then 1 else va) (if vb < 1 \<or> n < vb then 1 else vb)))
        (\<lambda>valid. if \<not> valid then Err (NewParserError b ''impossible date'' [])
           else Ok \<lparr>Year = if v < 1970 \<or> 9999 < v then 1970 else v, Month = if va < 1 \<or> 12 < va then 1 else va, Day = if vb < 1 \<or> n < vb then 1 else vb\<rparr>)))"
      by (rule ensures_mono [OF tail]) (use False dig [OF d] in auto)
  qed auto
qed (auto simp: parseLocalDate_def)

lemma nspow_nth: "1 \<le> p \<Longrightarrow> p \<le> 9 \<Longrightarrow> p < length nspow \<and> nspow ! p = 10 ^ (9 - p)"
proof -
  assume "1 \<le> p" "p \<le> 9"
  then have "p = 1 \<or> p = 2 \<or> p = 3 \<or> p = 4 \<or> p = 5 \<or> p = 6 \<or> p = 7 \<or> p = 8 \<or> p = 9" by presburger
  then show ?thesis by (elim disjE) (simp_all add: nspow_def)
qed

definition fraction_ok :: "byte list \<Rightarrow> nat \<Rightarrow> int \<times> nat \<times> nat \<Rightarrow> bool" where
  "fraction_ok cs i = (\<lambda>(f, p, g). p = min g 9 \<and> i \<le> g \<and> g \<le> i + length cs \<and> 0 \<le> f \<and> f < 10 ^ p \<and>
     (\<forall>m < g - i. isDigit (cs ! m)))"

lemma fraction_loop_ensures:
  "1 \<le> s_len b \<Longrightarrow> pr = min i 9 \<Longrightarrow> 0 \<le> frac \<Longrightarrow> frac < 10 ^ pr \<Longrightarrow>
   ensures (fraction_ok cs i) (\<lambda>e. subslice (Highlight e) b) (fraction_loop b cs i frac pr i)"
proof (induction cs arbitrary: i frac pr)
  case Nil
  then show ?case by (simp add: fraction_ok_def)
next
  case (Cons c cs)
  show ?case
  proof (cases "isDigit c")
    case True
    have step: "ensures (fraction_ok (c # cs) i) (\<lambda>e. subslice (Highlight e) b) r"
      if "ensures (fraction_ok cs (i + 1)) (\<lambda>e. subslice (Highlight e) b) r" for r :: "(ParserError, int \<times> nat \<times> nat) outcome"
      using that
    proof (rule ensures_mono, goal_cases)
      case (1 x)
      then obtain f p g where x: "x = (f, p, g)" "p = min g 9" "i + 1 \<le> g" "g \<le> i + 1 + length cs" "0 \<le> f" "f < 10 ^ p"
        "\<forall>m < g - (i + 1). isDigit (cs ! m)" by (cases x) (auto simp: fraction_ok_def)
      have "isDigit ((c # cs) ! m)" if "m < g - i" for m using that x(7) True by (cases m) auto
      with x show ?case by (simp add: fraction_ok_def)
    qed
    show ?thesis
    proof (cases "9 \<le> i")
      case i: True
      have "ensures (fraction_ok cs (i + 1)) (\<lambda>e. subslice (Highlight e) b) (fraction_loop b cs (i + 1) frac pr (i + 1))"
        using Cons.prems i by (intro Cons.IH) auto
      from step [OF this] True i show ?thesis by simp
    next
      case i: False
      define d where "d = int (bval c - bval CHR ''0'')"
      have d: "0 \<le> d" "d \<le> 9" using True by (auto simp: isDigit_def d_def)
      have "frac * 10 + d < 10 ^ (pr + 1)" using Cons.prems(4) d by simp
      then have "ensures (fraction_ok cs (i + 1)) (\<lambda>e. subslice (Highlight e) b) (fraction_loop b cs (i + 1) (frac * 10 + d) (pr + 1) (i + 1))"
        using Cons.prems i d by (intro Cons.IH) auto
      from step [OF this] True i show ?thesis by (simp add: d_def)
    qed
  next
    case False
    then show ?thesis using Cons.prems by (auto simp: fraction_ok_def intro!: subslice_sub)
  qed
qed

text \<open>The bytes that the time parser takes are digits, colons and points.\<close>

abbreviation time_byte :: "byte \<Rightarrow> bool" where
  "time_byte c \<equiv> isDigit c \<or> c = CHR '':'' \<or> c = CHR ''.''"

definition time_taken :: "nat \<Rightarrow> slice \<Rightarrow> LocalTime \<times> slice \<Rightarrow> bool" where
  "time_taken n b = (\<lambda>(t, rest). valid_time t \<and>
     (\<exists>k. n \<le> k \<and> k \<le> s_len b \<and> rest = s_from b k \<and> (\<forall>m < k. time_byte (bytes b ! m))))"

lemma parseFraction_ensures:
  assumes "valid_time t"
  shows "ensures (time_taken 0 b) (\<lambda>e. subslice (Highlight e) b) (parseFraction t b)"
proof (cases "1 \<le> s_len b \<and> bytes b ! 0 = CHR ''.''")
  case True
  have "ensures (fraction_ok (drop 1 (bytes b)) 0) (\<lambda>e. subslice (Highlight e) b) (fraction_loop b (drop 1 (bytes b)) 0 0 0 0)"
    using True by (intro fraction_loop_ensures) auto
  then show ?thesis unfolding parseFraction_def if_P [OF True]
  proof (rule ensures_bindI, clarify)
    fix f p g assume ok: "fraction_ok (drop 1 (bytes b)) 0 (f, p, g)"
    then have g: "p = min g 9" "1 + g \<le> s_len b" "0 \<le> f" "f < 10 ^ p" "\<forall>m < g. isDigit (drop 1 (bytes b) ! m)"
      using True by (auto simp: fraction_ok_def)
    have "subslice (s_to b 1) b" using True by (intro subslice_to) auto
    moreover have "ensures (time_taken 0 b) (\<lambda>e. subslice (Highlight e) b) (bind_outcome (idx nspow p) (\<lambda>pow.
            bind_outcome (slice_chk b (1 + g) (s_len b)) (\<lambda>rest. Ok (t\<lparr>Nanosecond := f * pow, Precision := int p\<rparr>, rest))))"
      if "p \<noteq> 0"
    proof -
      have p: "1 \<le> p" "p \<le> 9" using that g(1) by auto
      note n = nspow_nth [OF p]
      have "f * 10 ^ (9 - p) < 10 ^ p * 10 ^ (9 - p)" using g(4) by (rule mult_strict_right_mono) simp
      also have "10 ^ p * 10 ^ (9 - p) = (10 :: int) ^ 9" using p by (simp flip: power_add)
      finally have "f * 10 ^ (9 - p) < 1000000000" by simp
      then have "valid_time (t\<lparr>Nanosecond := f * nspow ! p, Precision := int p\<rparr>)"
        using assms g(3) p n by (simp add: valid_time_def)
      moreover have "time_byte (bytes b ! m)" if "m < 1 + g" for m
      proof (cases m)
        case 0
        then show ?thesis using True by simp
      next
        case (Suc k)
        with that have "isDigit (drop 1 (bytes b) ! k)" using g(5) by simp
        moreover have "drop 1 (bytes b) ! k = bytes b ! m" using True Suc by (subst nth_drop) auto
        ultimately show ?thesis by simp
      qed
      moreover have "s_sub b (1 + g) (s_len b) = s_from b (1 + g)" using g(2) by (simp add: s_sub_def s_from_def)
      ultimately show ?thesis using n g(2) unfolding time_taken_def by auto
    qed
    ultimately show "ensures (time_taken 0 b) (\<lambda>e. subslice (Highlight e) b)
       (if p = 0 then Err (NewParserError (s_to b 1) ''nanoseconds need at least one digit'' [])
        else bind_outcome (idx nspow p) (\<lambda>pow. bind_outcome (slice_chk b (1 + g) (s_len b)) (\<lambda>rest.
              Ok (t\<lparr>Nanosecond := f * pow, Precision := int p\<rparr>, rest))))"
      by simp
  qed
next
  case False
  then show ?thesis using assms by (auto simp: parseFraction_def time_taken_def intro: exI [of _ 0])
qed

lemma parseLocalTime_ensures:
  "ensures (time_taken 8 b) (\<lambda>e. subslice (Highlight e) b) (parseLocalTime b)"
proof (cases "s_len b < 8")
  case False
  let ?E = "\<lambda>e. subslice (Highlight e) b"
  have sub: "subslice (s_sub b i j) b" if "i \<le> j" "j \<le> 8" for i j using that False by (intro subslice_sub) auto
  have e1: "ensures P ?E (parseDecimalDigits (s_sub b i j))"
    if "i \<le> j" "j \<le> 8" "\<And>v. \<forall>m. i \<le> m \<and> m < j \<longrightarrow> isDigit (bytes b ! m) \<Longrightarrow> 0 \<le> v \<Longrightarrow> P v" for i j P
    by (rule ensures_mono [OF digits_ensures]) (use that False in auto)
  have fin: "ensures (time_taken 8 b) ?E (parseFraction t (s_from b 8))"
    if t: "valid_time t" and d: "\<forall>m < 8. time_byte (bytes b ! m)" for t
  proof (rule ensures_mono [OF parseFraction_ensures [OF t]], goal_cases)
    case (1 x)
    then obtain t' k where x: "x = (t', s_from (s_from b 8) k)" "valid_time t'" "k \<le> s_len b - 8"
      "\<forall>m < k. time_byte (bytes (s_from b 8) ! m)" by (cases x) (auto simp: time_taken_def)
    have "time_byte (bytes b ! m)" if "m < 8 + k" for m
    proof (cases "m < 8")
      case True
      with d show ?thesis by blast
    next
      case F: False
      then have "bytes (s_from b 8) ! (m - 8) = bytes b ! m" using False by (simp add: nth_drop)
      with x(4) that F show ?thesis by (metis add.commute less_diff_conv2 not_less)
    qed
    with x False show ?case by (auto simp: time_taken_def intro!: exI [of _ "8 + k"])
  next
    case (2 e)
    have "subslice (s_from b 8) b" using False by (intro subslice_from) simp
    with 2 show ?case by (auto intro: subslice_trans)
  qed
  have dig: "\<forall>m < 8. time_byte (bytes b ! m)"
    if "\<forall>m. 0 \<le> m \<and> m < 2 \<longrightarrow> isDigit (bytes b ! m)" "\<forall>m. 3 \<le> m \<and> m < 5 \<longrightarrow> isDigit (bytes b ! m)"
      "\<forall>m. 6 \<le> m \<and> m < 8 \<longrightarrow> isDigit (bytes b ! m)" "bytes b ! 2 = CHR '':''" "bytes b ! 5 = CHR '':''"
  proof (intro allI impI)
    fix m :: nat assume "m < 8"
    then consider "m < 2" | "m = 2" | "3 \<le> m \<and> m < 5" | "m = 5" | "6 \<le> m \<and> m < 8" by linarith
    then show "time_byte (bytes b ! m)" by cases (use that in auto)
  qed
  note fin2 = fin [OF _ dig]
  show ?thesis unfolding parseLocalTime_def if_not_P [OF False]
    by (auto simp: sub valid_time_def intro!: e1 fin2)
qed (simp add: parseLocalTime_def)

definition datetime_taken :: "slice \<Rightarrow> LocalDateTime \<times> slice \<Rightarrow> bool" where
  "datetime_taken b = (\<lambda>(dt, rest). valid_date (dt_LocalDate dt) \<and> valid_time (dt_LocalTime dt) \<and>
     (\<exists>k. 19 \<le> k \<and> k \<le> s_len b \<and> rest = s_from b k \<and> bytes b ! 4 = CHR ''-'' \<and> bytes b ! 7 = CHR ''-'' \<and>
       (\<forall>m < k. m \<noteq> 4 \<and> m \<noteq> 7 \<longrightarrow> time_byte (bytes b ! m) \<or> bytes b ! m \<in> {CHR ''T'', CHR ''t'', c_sp})))"

lemma parseLocalDateTime_ensures:
  "ensures (datetime_taken b) (\<lambda>e. subslice (Highlight e) b) (parseLocalDateTime b)"
proof (cases "s_len b < 11")
  case False
  then have s: "subslice (s_to b 10) b" "subslice (s_sub b 10 11) b" "subslice (s_from b 11) b"
    by (auto intro!: subslice_to subslice_sub subslice_from)
  show ?thesis unfolding parseLocalDateTime_def if_not_P [OF False]
  proof (rule ensures_bindI [OF ensures_mono [OF parseLocalDate_ensures]])
    fix d assume d: "valid_date d \<and> s_len (s_to b 10) = 10 \<and>
         (\<forall>m < 10. m \<noteq> 4 \<and> m \<noteq> 7 \<longrightarrow> isDigit (bytes (s_to b 10) ! m)) \<and> bytes (s_to b 10) ! 4 = CHR ''-'' \<and> bytes (s_to b 10) ! 7 = CHR ''-''"
    have "ensures (datetime_taken b) (\<lambda>e. subslice (Highlight e) b)
       (bind_outcome (parseLocalTime (s_from b 11)) (\<lambda>(t, rest). Ok (\<lparr>dt_LocalDate = d, dt_LocalTime = t\<rparr>, rest)))"
      if sep: "bytes b ! 10 = CHR ''T'' \<or> bytes b ! 10 = c_sp \<or> bytes b ! 10 = CHR ''t''"
    proof (rule ensures_bindI [OF ensures_mono [OF parseLocalTime_ensures]])
      fix x assume "time_taken 8 (s_from b 11) x"
      then obtain t k where x: "x = (t, s_from (s_from b 11) k)" "valid_time t" "8 \<le> k" "k \<le> s_len b - 11"
        "\<forall>m < k. time_byte (bytes (s_from b 11) ! m)" by (cases x) (auto simp: time_taken_def)
      have "time_byte (bytes b ! m) \<or> bytes b ! m \<in> {CHR ''T'', CHR ''t'', c_sp}" if m: "m < 11 + k" "m \<noteq> 4" "m \<noteq> 7" for m
      proof -
        consider "m < 10" | "m = 10" | "11 \<le> m" by linarith
        then show ?thesis
        proof cases
          case 1
          with d m have "isDigit (bytes (s_to b 10) ! m)" by blast
          with 1 show ?thesis by simp
        next
          case 3
          then have "bytes (s_from b 11) ! (m - 11) = bytes b ! m" using False by simp
          moreover have "m - 11 < k" using 3 m(1) by linarith
          ultimately show ?thesis using x(5) by metis
        qed (use sep in auto)
      qed
      with x d False show "ensures (datetime_taken b) (\<lambda>e. subslice (Highlight e) b)
          (case x of (t, rest) \<Rightarrow> Ok (\<lparr>dt_LocalDate = d, dt_LocalTime = t\<rparr>, rest))"
        by (auto simp: datetime_taken_def intro!: exI [of _ "11 + k"])
    qed (use s(3) in \<open>auto intro: subslice_trans\<close>)
    then show "ensures (datetime_taken b) (\<lambda>e. subslice (Highlight e) b) (let sep = bytes b ! 10 in
        if sep \<noteq> CHR ''T'' \<and> sep \<noteq> c_sp \<and> sep \<noteq> CHR ''t'' then
          Err (NewParserError (s_sub b 10 11) ''datetime separator is expected to be T or a space'' [])
        else bind_outcome (parseLocalTime (s_from b 11)) (\<lambda>(t, rest). Ok (\<lparr>dt_LocalDate = d, dt_LocalTime = t\<rparr>, rest)))"
      using s(2) by (auto simp: Let_def simp del: ensures_bind)
  qed (use s(1) in \<open>auto intro: subslice_trans\<close>)
qed (simp add: parseLocalDateTime_def)

definition valid_zone :: "zone \<Rightarrow> bool" where
  "valid_zone z \<longleftrightarrow> (case z of UTC \<Rightarrow> True | FixedZone s \<Rightarrow> s \<noteq> 0 \<and> \<bar>s\<bar> < 86400)"

lemma parseZone_ensures:
  assumes "0 < s_len b"
  shows "ensures (\<lambda>(z, rest). valid_zone z \<and> adv 1 b rest) (\<lambda>e. subslice (Highlight e) b) (parseZone b)"
proof -
  have b1: "1 \<le> s_len b" using assms by linarith
  have e1: "ensures P (\<lambda>e. subslice (Highlight e) b) (parseDecimalDigits (s_sub b i j))"
    if "i \<le> j" "j \<le> 6" "s_len b = 6" "\<And>v. 0 \<le> v \<Longrightarrow> P v" for i j P
    by (rule ensures_mono [OF digits_ensures]) (use that in auto)
  have "subslice (s_to b 1) b" using b1 by (rule subslice_to)
  moreover have "subslice (s_sub b 3 4) b" if "s_len b = 6" using that by (intro subslice_sub) auto
  moreover have "adv (Suc 0) b (s_from b 6)" if "s_len b = 6" using that by simp
  moreover have "adv (Suc 0) b (s_from b (Suc 0))" using b1 by simp
  ultimately show ?thesis using assms
    by (auto simp: parseZone_def Let_def valid_zone_def Suc_le_eq intro!: e1)
qed

lemma parseDateTime_ensures:
  assumes "tz_token (bytes b)"
  shows "ensures (\<lambda>Date dt z \<Rightarrow> valid_date (dt_LocalDate dt) \<and> valid_time (dt_LocalTime dt) \<and> valid_zone z)
    (\<lambda>e. subslice (Highlight e) b) (parseDateTime b)"
  unfolding parseDateTime_def
proof (rule ensures_bindI [OF parseLocalDateTime_ensures], clarify)
  fix dt rest assume "datetime_taken b (dt, rest)"
  then obtain k where k: "valid_date (dt_LocalDate dt)" "valid_time (dt_LocalTime dt)" "k \<le> s_len b" "rest = s_from b k" "bytes b ! 4 = CHR ''-''" "bytes b ! 7 = CHR ''-''"
    "\<forall>m < k. m \<noteq> 4 \<and> m \<noteq> 7 \<longrightarrow> time_byte (bytes b ! m) \<or> bytes b ! m \<in> {CHR ''T'', CHR ''t'', c_sp}"
    by (auto simp: datetime_taken_def)
  from assms obtain m where m: "m < s_len b" "bytes b ! m \<in> {CHR ''+'', CHR ''Z'', CHR ''z''} \<or> bytes b ! m = CHR ''-'' \<and> 8 \<le> m"
    by (auto simp: tz_token_def)
  have "\<not> m < k"
  proof
    assume "m < k"
    then have "m = 4 \<or> m = 7 \<or> time_byte (bytes b ! m) \<or> bytes b ! m \<in> {CHR ''T'', CHR ''t'', c_sp}" using k(7) by blast
    then consider "m = 4 \<or> m = 7" | "isDigit (bytes b ! m)" | "bytes b ! m \<in> {CHR '':'', CHR ''.'', CHR ''T'', CHR ''t'', c_sp}" by blast
    then show False
    proof cases
      case 1
      with k(5,6) m(2) show False by auto
    qed (use m(2) in \<open>auto simp: isDigit_def\<close>)
  qed
  then have l: "0 < s_len rest" using m(1) k(3,4) by simp
  have sub: "subslice rest b" using k(3,4) by blast
  show "ensures (\<lambda>Date dt z \<Rightarrow> valid_date (dt_LocalDate dt) \<and> valid_time (dt_LocalTime dt) \<and> valid_zone z)
      (\<lambda>e. subslice (Highlight e) b) (bind_outcome (parseZone rest) (\<lambda>(z, b).
       if 0 < s_len b then Err (NewParserError b ''extra bytes at the end of the timezone'' []) else Ok (Date dt z)))"
    by (rule ensures_bindI [OF ensures_mono [OF parseZone_ensures [OF l]]])
      (use k(1,2) in \<open>auto intro: subslice_trans [OF _ sub] subslice_trans [OF adv_subslice sub]\<close>)
qed

section \<open>The values that are read\<close>

text \<open>
  What the text of an offset date-time stands for, by position. A field of the date outside its range
  becomes 1970, 1 and 1.
\<close>

definition dec_value :: "byte list \<Rightarrow> int" where
  "dec_value ds = foldl (\<lambda>v c. v * 10 + (int (bval c) - 48)) 0 ds"

definition written_date :: "byte list \<Rightarrow> LocalDate" where
  "written_date cs =
     (let y = dec_value (take 4 cs); m = dec_value (take 2 (drop 5 cs)); d = dec_value (take 2 (drop 8 cs));
          y' = (if 1970 \<le> y \<and> y \<le> 9999 then y else 1970); m' = (if 1 \<le> m \<and> m \<le> 12 then m else 1) in
      \<lparr>Year = y', Month = m', Day = (if 1 \<le> d \<and> d \<le> month_length m' y' then d else 1)\<rparr>)"

definition written_clock :: "byte list \<Rightarrow> int \<times> int \<times> int" where
  "written_clock cs = (dec_value (take 2 cs), dec_value (take 2 (drop 3 cs)), dec_value (take 2 (drop 6 cs)))"

definition written_zone :: "byte list \<Rightarrow> zone" where
  "written_zone cs =
     (if last cs \<in> {CHR ''Z'', CHR ''z''} then UTC
      else let z = drop (length cs - 6) cs;
               s = (if hd z = CHR ''-'' then - 1 else 1) * (dec_value (take 2 (drop 1 z)) * 3600 + dec_value (take 2 (drop 4 z)) * 60) in
        if s = 0 then UTC else FixedZone s)"

lemma parseDecimalDigits_loop_value:
  "parseDecimalDigits_loop b cs i v = Ok r \<Longrightarrow> r = foldl (\<lambda>v c. v * 10 + (int (bval c) - 48)) v cs"
  by (induction b cs i v rule: parseDecimalDigits_loop.induct) (auto split: if_splits simp: of_nat_diff)

lemma parseDecimalDigits_value: "parseDecimalDigits b = Ok r \<Longrightarrow> r = dec_value (bytes b)"
  unfolding parseDecimalDigits_def dec_value_def by (rule parseDecimalDigits_loop_value)

lemma parseLocalDate_value:
  assumes "parseLocalDate b = Ok d"
  shows "d = written_date (bytes b)"
proof -
  define y m d' where "y = dec_value (take 4 (bytes b))" and "m = dec_value (take 2 (drop 5 (bytes b)))"
    and "d' = dec_value (take 2 (drop 8 (bytes b)))"
  define y' m' where "y' = (if y < 1970 \<or> 9999 < y then 1970 else y)" and "m' = (if m < 1 \<or> 12 < m then 1 else m)"
  have m': "1 \<le> m'" "m' \<le> 12" by (auto simp: m'_def)
  have c: "\<not> (s_len b \<noteq> 10 \<or> bytes b ! 4 \<noteq> CHR ''-'' \<or> bytes b ! 7 \<noteq> CHR ''-'')"
    by (rule notI) (use assms in \<open>simp add: parseLocalDate_def\<close>)
  have v: "y = r" if "parseDecimalDigits (s_sub b 0 4) = Ok r" for r
    using parseDecimalDigits_value [OF that] by (simp add: y_def)
  have w: "m = r" if "parseDecimalDigits (s_sub b 5 7) = Ok r" for r
    using parseDecimalDigits_value [OF that] by (simp add: m_def)
  have x: "d' = r" if "parseDecimalDigits (s_sub b 8 10) = Ok r" for r
    using parseDecimalDigits_value [OF that] by (simp add: d'_def)
  from assms [unfolded parseLocalDate_def if_not_P [OF c] Let_def bind_eq_Ok or_panic_eq]
  obtain n valid where n: "daysIn m' y' = Some n"
    "(if \<not> valid then Err (NewParserError b ''impossible date'' [])
      else Ok \<lparr>Year = y', Month = m', Day = (if d' < 1 \<or> n < d' then 1 else d')\<rparr>) = Ok d"
    unfolding y'_def m'_def using v w x by blast
  then have "d = \<lparr>Year = y', Month = m', Day = (if d' < 1 \<or> n < d' then 1 else d')\<rparr>" by (cases valid) simp_all
  with n(1) daysIn_month_length [OF m'] show ?thesis
    by (auto simp: written_date_def Let_def y_def m_def d'_def y'_def m'_def)
qed

lemma parseFraction_keeps:
  "parseFraction t b = Ok (t', rest) \<Longrightarrow> (Hour t', Minute t', Second t') = (Hour t, Minute t, Second t)"
  by (auto simp: parseFraction_def outcome_simps split: if_splits)

lemma parseLocalTime_value:
  "parseLocalTime b = Ok (t, rest) \<Longrightarrow> (Hour t, Minute t, Second t) = written_clock (bytes b)"
  by (auto simp: parseLocalTime_def outcome_simps written_clock_def
      dest!: parseDecimalDigits_value parseFraction_keeps split: if_splits)

lemma parseLocalDateTime_value:
  assumes "parseLocalDateTime b = Ok (dt, rest)"
  shows "dt_LocalDate dt = written_date (bytes b)"
    "(Hour (dt_LocalTime dt), Minute (dt_LocalTime dt), Second (dt_LocalTime dt)) = written_clock (drop 11 (bytes b))"
proof -
  from assms obtain d t where "parseLocalDate (s_to b 10) = Ok d" "parseLocalTime (s_from b 11) = Ok (t, rest)"
    "dt = \<lparr>dt_LocalDate = d, dt_LocalTime = t\<rparr>"
    by (auto simp: parseLocalDateTime_def outcome_simps Let_def split: if_splits)
  then show "dt_LocalDate dt = written_date (bytes b)"
    "(Hour (dt_LocalTime dt), Minute (dt_LocalTime dt), Second (dt_LocalTime dt)) = written_clock (drop 11 (bytes b))"
    using parseLocalDate_value [of "s_to b 10" d] parseLocalTime_value [of "s_from b 11" t rest]
    by (simp_all add: written_date_def take_drop)
qed

lemma parseZone_value:
  assumes "parseZone b = Ok (z, rest)" "s_len rest = 0"
  shows "z = written_zone (bytes b) \<and> bytes b \<noteq> []"
proof -
  have ne: "bytes b \<noteq> []" using assms(1) by (auto simp: parseZone_def)
  show ?thesis
  proof (cases "bytes b ! 0 = CHR ''Z'' \<or> bytes b ! 0 = CHR ''z''")
    case True
    then have "s_len b = 1" "z = UTC" using assms ne by (auto simp: parseZone_def le_Suc_eq)
    moreover have "last (bytes b) = bytes b ! 0" using \<open>s_len b = 1\<close> ne by (simp add: last_conv_nth)
    ultimately show ?thesis using True ne by (auto simp: written_zone_def)
  next
    case False
    then have l: "s_len b = 6" using assms ne by (auto simp: parseZone_def split: if_splits)
    have d: "\<forall>c \<in> set (take 2 (drop 4 (bytes b))). isDigit c"
      using False assms(1) l parseDecimalDigits_ensures [of "s_sub b 4 6"]
      by (auto simp: parseZone_def outcome_simps Let_def split: if_splits)
    have "last (bytes b) \<in> set (take 2 (drop 4 (bytes b)))"
      using l last_conv_nth [OF ne] by (auto simp: in_set_conv_nth intro!: exI [of _ 1])
    then have "last (bytes b) \<notin> {CHR ''Z'', CHR ''z''}" using d by (auto simp: isDigit_def)
    moreover have "hd (bytes b) = bytes b ! 0" using ne by (rule hd_conv_nth)
    ultimately show ?thesis using False assms(1) l ne
      by (auto simp: parseZone_def written_zone_def outcome_simps Let_def dest!: parseDecimalDigits_value split: if_splits)
  qed
qed

lemma parseDateTime_value:
  assumes "parseDateTime b = Ok (Date dt z)"
  shows "dt_LocalDate dt = written_date (bytes b)"
    "(Hour (dt_LocalTime dt), Minute (dt_LocalTime dt), Second (dt_LocalTime dt)) = written_clock (drop 11 (bytes b))"
    "z = written_zone (bytes b)"
proof -
  from assms obtain rest r where p: "parseLocalDateTime b = Ok (dt, rest)" "parseZone rest = Ok (z, r)" "s_len r = 0"
    by (auto simp: parseDateTime_def outcome_simps split: if_splits)
  show "dt_LocalDate dt = written_date (bytes b)"
    "(Hour (dt_LocalTime dt), Minute (dt_LocalTime dt), Second (dt_LocalTime dt)) = written_clock (drop 11 (bytes b))"
    using parseLocalDateTime_value [OF p(1)] by auto
  have "datetime_taken b (dt, rest)" using parseLocalDateTime_ensures [of b] p(1) by simp
  then obtain k where k: "k \<le> s_len b" "rest = s_from b k" by (auto simp: datetime_taken_def)
  from parseZone_value [OF p(2,3)] have z: "z = written_zone (drop k (bytes b))" "k < s_len b" using k by auto
  show "z = written_zone (bytes b)"
  proof (cases "last (bytes b) \<in> {CHR ''Z'', CHR ''z''}")
    case True
    then show ?thesis using z by (simp add: written_zone_def)
  next
    case False
    have "bytes b \<noteq> []" using z(2) by auto
    then have "last (bytes b) = bytes b ! (s_len b - 1)" by (rule last_conv_nth)
    then have "s_len rest = 6" using False p(2,3) k z(2) by (auto simp: parseZone_def le_Suc_eq split: if_splits)
    then have "s_len b - 6 = k" using k z(2) by simp
    then show ?thesis using \<open>s_len rest = 6\<close> False z k unfolding written_zone_def by (simp only: length_drop bytes_slice_ops last_drop diff_self_eq_0 drop0)
  qed
qed

section \<open>Numbers: no panic on the parser's tokens, and the value\<close>

abbreviation no_us :: "byte list \<Rightarrow> byte list" where
  "no_us xs \<equiv> filter (\<lambda>c. c \<noteq> CHR ''_'') xs"

lemma find_underscore_spec:
  "i \<le> s_len b \<Longrightarrow> CHR ''_'' \<notin> set (take i (bytes b)) \<Longrightarrow>
   i \<le> find_underscore b i \<and> find_underscore b i \<le> s_len b \<and> CHR ''_'' \<notin> set (take (find_underscore b i) (bytes b)) \<and>
   (find_underscore b i < s_len b \<longrightarrow> bytes b ! find_underscore b i = CHR ''_'')"
proof (induction b i rule: find_underscore.induct)
  case (1 b i)
  show ?case
  proof (cases "i < s_len b \<and> bytes b ! i \<noteq> CHR ''_''")
    case True
    then have "CHR ''_'' \<notin> set (take (i + 1) (bytes b))" using "1.prems"(2) by (auto simp: take_Suc_conv_app_nth)
    with 1 True show ?thesis by (auto simp: find_underscore.simps [of b i])
  next
    case False
    with "1.prems" show ?thesis by (auto simp: find_underscore.simps [of b i])
  qed
qed

lemma int_underscores_loop_ensures:
  "1 \<le> i \<Longrightarrow> i \<le> s_len b \<Longrightarrow>
   ensures (\<lambda>cl. cl = cleaned @ no_us (drop i (bytes b))) (\<lambda>e. subslice (Highlight e) b)
     (int_underscores_loop b i before cleaned)"
proof (induction b i before cleaned rule: int_underscores_loop.induct)
  case (1 b i before cleaned)
  note S = int_underscores_loop.simps [of b i before cleaned]
  show ?case
  proof (cases "i < s_len b")
    case True
    then have d: "drop i (bytes b) = bytes b ! i # drop (Suc i) (bytes b)" by (rule drop_nth_cons)
    have "subslice (s_sub b (i - 1) (i + 1)) b" using True by (intro subslice_sub) auto
    with True 1 d show ?thesis by (auto simp: S Let_def)
  next
    case False
    then show ?thesis using "1.prems" unfolding S by simp
  qed
qed

lemma filter_take_drop: "P ! i = c \<Longrightarrow> i < length P \<Longrightarrow> c \<notin> set (take i P) \<Longrightarrow>
  filter (\<lambda>x. x \<noteq> c) P = take i P @ filter (\<lambda>x. x \<noteq> c) (drop (Suc i) P)"
proof -
  assume a: "P ! i = c" "i < length P" "c \<notin> set (take i P)"
  then have "P = take i P @ c # drop (Suc i) P" by (metis id_take_nth_drop)
  then have "filter (\<lambda>x. x \<noteq> c) P = filter (\<lambda>x. x \<noteq> c) (take i P @ c # drop (Suc i) P)" by (rule arg_cong)
  also have "\<dots> = filter (\<lambda>x. x \<noteq> c) (take i P) @ filter (\<lambda>x. x \<noteq> c) (drop (Suc i) P)" by simp
  also have "filter (\<lambda>x. x \<noteq> c) (take i P) = take i P" using a(3) by (intro filter_True) auto
  finally show ?thesis .
qed

lemma checkInts_ensures:
  assumes "bytes b \<noteq> []"
  shows "ensures (\<lambda>cl. cl = no_us (bytes b) \<and> cl \<noteq> []) (\<lambda>e. subslice (Highlight e) b)
    (checkAndRemoveUnderscoresIntegers b)"
proof -
  let ?c0 = "bytes b ! 0"
  let ?s = "if ?c0 = CHR ''+'' \<or> ?c0 = CHR ''-'' then 1 else 0 :: nat"
  have i0: "idx (bytes b) 0 = (Ok ?c0 :: (ParserError, byte) outcome)" using assms by simp
  show ?thesis
  proof (cases "s_len b = ?s")
    case True
    then have "s_len b = 1" "?c0 = CHR ''+'' \<or> ?c0 = CHR ''-''" using assms by (auto split: if_splits)
    then obtain c where "bytes b = [c]" "c = CHR ''+'' \<or> c = CHR ''-''" by (cases "bytes b") auto
    then have "no_us (bytes b) = bytes b" by auto
    then show ?thesis using i0 True assms by (simp add: checkAndRemoveUnderscoresIntegers_def Let_def)
  next
    case False
    then have s: "?s < s_len b" using assms by (auto simp: Suc_le_eq neq_Nil_conv split: if_splits)
    have sub: "subslice (s_sub b ?s (?s + 1)) b" "subslice (s_from b (s_len b - 1)) b"
      by (rule subslice_sub, simp, use s in linarith) (rule subslice_from, simp)
    define i where "i = find_underscore b 0"
    have i: "i \<le> s_len b" "CHR ''_'' \<notin> set (take i (bytes b))" "i < s_len b \<longrightarrow> bytes b ! i = CHR ''_''"
      using find_underscore_spec [of 0 b] by (auto simp: i_def)
    have "ensures (\<lambda>cl. cl = no_us (bytes b) \<and> cl \<noteq> []) (\<lambda>e. subslice (Highlight e) b)
       (if i = s_len b then Ok (bytes b) else int_underscores_loop b (i + 1) False (take i (bytes b)))"
      if "bytes b ! ?s \<noteq> CHR ''_''"
    proof (cases "i = s_len b")
      case True
      then have "no_us (bytes b) = bytes b" using i(2) by (intro filter_True) auto
      with True assms show ?thesis by simp
    next
      case F: False
      then have "i < s_len b" using i(1) by simp
      note fl = filter_take_drop [OF i(3) [rule_format, OF this] this i(2)]
      have "bytes b ! ?s \<in> set (bytes b)" using s by (rule nth_mem)
      with that have "no_us (bytes b) \<noteq> []" by (auto simp: filter_empty_conv)
      with int_underscores_loop_ensures [of "i + 1" b "take i (bytes b)" False] \<open>i < s_len b\<close> F fl show ?thesis
        by (auto elim!: ensures_mono)
    qed
    then show ?thesis using i0 False s sub
      unfolding checkAndRemoveUnderscoresIntegers_def Let_def i_def by auto
  qed
qed

lemma ParseInt_range: "ParseInt s base = Some i \<Longrightarrow> - (2 ^ 63) \<le> i \<and> i < 2 ^ 63"
  by (auto simp: ParseInt_def Let_def split: list.splits option.splits if_splits)

text \<open>What an integer token stands for.\<close>

definition int_value :: "byte list \<Rightarrow> int option" where
  "int_value d =
     (if 2 < length d \<and> d ! 0 = CHR ''0'' then
        ParseInt (no_us (drop 2 d)) (if d ! 1 = CHR ''x'' then 16 else if d ! 1 = CHR ''b'' then 2 else 8)
      else ParseInt (no_us d) 10)"

lemma parseIntBase_ensures:
  assumes "2 < s_len b"
  shows "ensures (\<lambda>i. ParseInt (no_us (drop 2 (bytes b))) base = Some i) (\<lambda>e. subslice (Highlight e) b) (parseIntBase base what b)"
proof -
  let ?d = "s_sub b 2 (s_len b)"
  have d: "bytes ?d = drop 2 (bytes b)" by simp
  have "bytes ?d \<noteq> []" "subslice ?d b" using assms by (auto intro!: subslice_sub)
  then have "ensures (\<lambda>cl. cl = no_us (drop 2 (bytes b)) \<and> cl \<noteq> []) (\<lambda>e. subslice (Highlight e) b) (checkAndRemoveUnderscoresIntegers ?d)"
    by (intro ensures_mono [OF checkInts_ensures [of ?d]]) (auto intro: subslice_trans)
  then show ?thesis using assms unfolding parseIntBase_def
    by (auto elim!: ensures_mono split: option.splits)
qed

lemma parseIntDec_ensures:
  assumes "bytes b \<noteq> []"
  shows "ensures (\<lambda>i. ParseInt (no_us (bytes b)) 10 = Some i) (\<lambda>e. subslice (Highlight e) b) (parseIntDec b)"
  unfolding parseIntDec_def
  by (rule ensures_bindI [OF checkInts_ensures [OF assms]]) (auto simp: Let_def split: option.splits)

lemma parseInteger_ensures:
  assumes "int_token (bytes b)"
  shows "ensures (\<lambda>i. int_value (bytes b) = Some i) (\<lambda>e. subslice (Highlight e) b) (parseInteger b)"
  using assms parseIntBase_ensures [of b] parseIntDec_ensures [of b]
  by (auto simp: parseInteger_def int_token_def int_value_def parseIntHex_def parseIntBin_def parseIntOct_def)

lemma ensures_ifI:
  "(c \<Longrightarrow> ensures P E x) \<Longrightarrow> (\<not> c \<Longrightarrow> ensures P E y) \<Longrightarrow> ensures P E (if c then x else y)"
  by simp

lemma float_underscores_loop_ensures:
  "i \<le> s_len b \<Longrightarrow> bytes b ! 0 \<noteq> CHR ''_'' \<Longrightarrow>
   ensures (\<lambda>cl. cl = cleaned @ no_us (drop i (bytes b))) (\<lambda>e. subslice (Highlight e) b)
     (float_underscores_loop b i before cleaned)"
proof (induction "s_len b - i" arbitrary: i before cleaned rule: less_induct)
  case less
  note S = float_underscores_loop.simps [of b i before cleaned]
  show ?case
  proof (cases "i < s_len b")
    case True
    let ?c = "bytes b ! i"
    let ?E = "\<lambda>e. subslice (Highlight e) b"
    have d: "drop i (bytes b) = ?c # drop (Suc i) (bytes b)" using True by (rule drop_nth_cons)
    have IH: "ensures (\<lambda>cl. cl = cleaned' @ no_us (drop (i + 1) (bytes b))) ?E (float_underscores_loop b (i + 1) bf cleaned')" for bf cleaned'
      using True less.prems by (intro less.hyps) auto
    have keep: "ensures (\<lambda>cl. cl = cleaned @ no_us (drop i (bytes b))) ?E (float_underscores_loop b (i + 1) bf (cleaned @ [?c]))"
      if "?c \<noteq> CHR ''_''" for bf using IH [of "cleaned @ [?c]" bf] that d by simp
    have skip: "ensures (\<lambda>cl. cl = cleaned @ no_us (drop i (bytes b))) ?E (float_underscores_loop b (i + 1) False cleaned)"
      if "?c = CHR ''_''" using IH [of cleaned False] that d by simp
    have i1: "1 \<le> i" if "?c = CHR ''_''" using that less.prems(2) by (cases i) auto
    have sub: "?c = CHR ''_'' \<Longrightarrow> subslice (s_sub b (i - 1) (i + 1)) b"
      "i < s_len b - 1 \<Longrightarrow> subslice (s_sub b (i + 1) (i + 2)) b" "0 < i \<Longrightarrow> subslice (s_sub b (i - 1) i) b"
      using True by (auto intro!: subslice_sub)
    show ?thesis
    proof (cases "?c = CHR ''_''")
      case us: True
      then show ?thesis unfolding S if_P [OF True] Let_def if_P [OF us] using True sub(1,2) skip i1 by simp
    next
      case us: False
      show ?thesis unfolding S if_P [OF True] Let_def if_not_P [OF us]
        by (intro ensures_ifI; (rule keep [OF us] | use sub(2,3) in simp))
    qed
  next
    case False
    then show ?thesis using less.prems unfolding S by simp
  qed
qed

lemma checkFloats_ensures:
  assumes "bytes b \<noteq> []"
  shows "ensures (\<lambda>cl. cl = no_us (bytes b) \<and> cl \<noteq> []) (\<lambda>e. subslice (Highlight e) b) (checkAndRemoveUnderscoresFloats b)"
proof -
  have i0: "idx (bytes b) 0 = (Ok (bytes b ! 0) :: (ParserError, byte) outcome)" using assms by simp
  have ne: "no_us (bytes b) \<noteq> []" if "bytes b ! 0 \<noteq> CHR ''_''"
    using that assms by (cases "bytes b") auto
  have eq: "no_us (bytes b) = bytes b" if "find_underscore b 0 = s_len b"
    using find_underscore_spec [of 0 b] that by (intro filter_True) auto
  have "ensures (\<lambda>cl. cl = no_us (bytes b) \<and> cl \<noteq> []) (\<lambda>e. subslice (Highlight e) b) (float_underscores_loop b 0 False [])"
    if "bytes b ! 0 \<noteq> CHR ''_''"
    using float_underscores_loop_ensures [of 0 b "[]" False] that ne by (auto elim!: ensures_mono)
  moreover have "subslice (s_to b 1) b" "subslice (s_from b (s_len b - 1)) b"
    using assms by (auto intro!: subslice_to subslice_from simp: Suc_le_eq)
  ultimately show ?thesis using i0 assms eq unfolding checkAndRemoveUnderscoresFloats_def by auto
qed

lemma float_dot_loop_ensures:
  "cleaned \<noteq> [] \<Longrightarrow> cleaned ! 0 \<noteq> CHR ''.'' \<Longrightarrow> cleaned ! (length cleaned - 1) \<noteq> CHR ''.'' \<Longrightarrow> length cleaned \<le> s_len b \<Longrightarrow>
   ensures (\<lambda>_. True) (\<lambda>e. subslice (Highlight e) b) (float_dot_loop b cleaned i seen)"
proof (induction b cleaned i seen rule: float_dot_loop.induct)
  case (1 b cleaned i seen)
  note S = float_dot_loop.simps [of b cleaned i seen]
  show ?case
  proof (cases "i < length cleaned \<and> cleaned ! i = CHR ''.''")
    case True
    then have "i \<noteq> length cleaned - 1" using "1.prems"(3) by auto
    moreover have "i \<noteq> 0" using True "1.prems"(2) by metis
    ultimately have i: "i + 1 < length cleaned" "1 \<le> i" using True by auto
    then have idx: "idx cleaned (i + 1) = (Ok (cleaned ! (i + 1)) :: (ParserError, byte) outcome)" by simp
    have sub: "subslice (s_sub b i (i + 1)) b" "subslice (s_sub b (i - 1) (i + 1)) b" "subslice (s_sub b i (i + 2)) b"
      using i "1.prems"(4) by (auto intro!: subslice_sub)
    with True i idx 1 show ?thesis unfolding S by auto
  next
    case False
    with 1 show ?thesis unfolding S by auto
  qed
qed

text \<open>
  The number that is passed to \<open>strconv.ParseFloat\<close>: the points in it stand between digits, there is
  at most one, and a leading zero is not followed by a digit.
\<close>

definition float_text :: "byte list \<Rightarrow> bool" where
  "float_text cl \<longleftrightarrow> cl \<noteq> [] \<and>
     (\<forall>j < length cl. cl ! j = CHR ''.'' \<longrightarrow> 0 < j \<and> isDigit (cl ! (j - 1)) \<and> j + 1 < length cl \<and> isDigit (cl ! (j + 1)) \<and>
       (\<forall>k < length cl. cl ! k = CHR ''.'' \<longrightarrow> k = j)) \<and>
     (let ds = (if hd cl \<in> {CHR ''+'', CHR ''-''} then tl cl else cl) in
       ds \<noteq> [] \<and> \<not> (hd ds = CHR ''0'' \<and> tl ds \<noteq> [] \<and> isDigit (hd (tl ds))))"

lemma float_dot_loop_Ok:
  "float_dot_loop b cl i seen = Ok u \<Longrightarrow>
   \<forall>j. i \<le> j \<and> j < length cl \<and> cl ! j = CHR ''.'' \<longrightarrow> \<not> seen \<and> 0 < j \<and> isDigit (cl ! (j - 1)) \<and> j + 1 < length cl \<and>
     isDigit (cl ! (j + 1)) \<and> (\<forall>k. j < k \<and> k < length cl \<longrightarrow> cl ! k \<noteq> CHR ''.'')"
proof (induction b cl i seen rule: float_dot_loop.induct)
  case (1 b cl i seen)
  note S = float_dot_loop.simps [of b cl i seen]
  show ?case
  proof (cases "i < length cl")
    case i: True
    show ?thesis
    proof (cases "cl ! i = CHR ''.''")
      case True
      with "1.prems" i have h: "\<not> seen" "i \<noteq> 0" "isDigit (cl ! (i - 1))" "i + 1 < length cl" "isDigit (cl ! (i + 1))"
        and r: "float_dot_loop b cl (i + 1) True = Ok u"
        by (auto simp: S outcome_simps split: if_splits)
      have IH: "\<forall>j. i + 1 \<le> j \<and> j < length cl \<longrightarrow> cl ! j \<noteq> CHR ''.''"
        using "1.IH"(1) [OF i True h(1,2) _ _ _ r] h by (auto simp: outcome_simps)
      show ?thesis
      proof (intro allI impI)
        fix j assume j: "i \<le> j \<and> j < length cl \<and> cl ! j = CHR ''.''"
        then have "j = i" using IH by (metis Suc_eq_plus1 le_neq_implies_less Suc_leI)
        then show "\<not> seen \<and> 0 < j \<and> isDigit (cl ! (j - 1)) \<and> j + 1 < length cl \<and>
            isDigit (cl ! (j + 1)) \<and> (\<forall>k. j < k \<and> k < length cl \<longrightarrow> cl ! k \<noteq> CHR ''.'')"
          using h IH by auto
      qed
    next
      case False
      with "1.prems" i have "float_dot_loop b cl (i + 1) seen = Ok u" by (simp add: S)
      from "1.IH"(2) [OF i False this] False show ?thesis by (metis Suc_eq_plus1 le_neq_implies_less Suc_leI)
    qed
  qed auto
qed

definition nan_token :: "byte list \<Rightarrow> bool" where
  "nan_token d \<longleftrightarrow> d = ''+nan'' \<or> d = ''-nan''"

lemma nan_token_iff:
  "nan_token (bytes b) \<longleftrightarrow> s_len b = 4 \<and> (bytes b ! 0 = CHR ''+'' \<or> bytes b ! 0 = CHR ''-'') \<and>
     bytes b ! 1 = CHR ''n'' \<and> bytes b ! 2 = CHR ''a'' \<and> bytes b ! 3 = CHR ''n''"
  by (cases "s_len b = 4") (auto simp: nan_token_def numeral_eq_Suc length_Suc_conv)

lemma guard_eq_Ok:
  "(if c then Err e else r) = Ok x \<longleftrightarrow> \<not> c \<and> r = Ok x"
  "(case v of None \<Rightarrow> Err e | Some y \<Rightarrow> Ok y) = Ok x \<longleftrightarrow> v = Some x"
  by (auto split: option.splits)

lemma parseFloat_Ok:
  assumes "parseFloat NaN ParseFloat b = Ok f" "\<not> nan_token (bytes b)"
  shows "\<exists>cl. checkAndRemoveUnderscoresFloats b = Ok cl \<and> float_text cl \<and> ParseFloat cl = Some f"
proof -
  note nn = assms(2) [unfolded nan_token_iff]
  from assms(1) [unfolded parseFloat_def if_not_P [OF nn] bind_eq_Ok Let_def guard_eq_Ok] obtain cl c0 u c where
    cl: "checkAndRemoveUnderscoresFloats b = Ok cl" "idx cl 0 = (Ok c0 :: (ParserError, byte) outcome)"
    "c0 \<noteq> CHR ''.''" "cl ! (length cl - 1) \<noteq> CHR ''.''"
    "float_dot_loop b cl 0 False = Ok u" "idx cl (if c0 = CHR ''+'' \<or> c0 = CHR ''-'' then 1 else 0) = (Ok c :: (ParserError, byte) outcome)"
    "\<not> (c = CHR ''0'' \<and> (if c0 = CHR ''+'' \<or> c0 = CHR ''-'' then 1 else 0) + 1 < length cl \<and>
        isDigit (cl ! ((if c0 = CHR ''+'' \<or> c0 = CHR ''-'' then 1 else 0) + 1)))"
    "ParseFloat cl = Some f"
    by blast
  obtain cs where cs: "cl = c0 # cs" using cl(2) by (cases cl) (auto simp: outcome_simps)
  note dot = float_dot_loop_Ok [OF cl(5)]
  have "k = j" if "j < length cl" "cl ! j = CHR ''.''" "k < length cl" "cl ! k = CHR ''.''" for j k
    using dot that by (metis le0 linorder_neqE_nat)
  moreover have "c0 = CHR ''+'' \<or> c0 = CHR ''-'' \<Longrightarrow> cs \<noteq> [] \<and> hd cs = c" "\<not> (c0 = CHR ''+'' \<or> c0 = CHR ''-'') \<Longrightarrow> c = c0"
    using cl(6) cs by (auto simp: outcome_simps hd_conv_nth)
  then have "let ds = (if hd cl \<in> {CHR ''+'', CHR ''-''} then tl cl else cl) in
       ds \<noteq> [] \<and> \<not> (hd ds = CHR ''0'' \<and> tl ds \<noteq> [] \<and> isDigit (hd (tl ds)))"
    using cl(7) cs by (cases cs; cases "tl cs") (auto simp: Let_def)
  ultimately have "float_text cl" unfolding float_text_def using dot cs by blast
  with cl(1,8) show ?thesis by blast
qed

lemma parseFloat_safe:
  assumes "float_token (bytes b)"
  shows "ensures (\<lambda>f. f = NaN \<or> ParseFloat (no_us (bytes b)) = Some f) (\<lambda>e. subslice (Highlight e) b) (parseFloat NaN ParseFloat b)"
proof -
  have ne: "bytes b \<noteq> []" using assms by (auto simp: float_token_def)
  let ?cl = "no_us (bytes b)"
  have len: "length ?cl \<le> s_len b" by (rule length_filter_le)
  have st: "1 < length ?cl" if "?cl ! 0 = CHR ''+'' \<or> ?cl ! 0 = CHR ''-''" "?cl \<noteq> []"
  proof (rule ccontr)
    assume "\<not> 1 < length ?cl"
    with that(2) have "?cl = [?cl ! 0]" by (cases ?cl) auto
    moreover from assms obtain c where "c \<in> set (bytes b)" "c \<notin> {CHR ''+'', CHR ''-'', CHR ''_''}" by (auto simp: float_token_def)
    then have "c \<in> set ?cl" by auto
    ultimately show False using that(1) \<open>c \<notin> _\<close> by (metis empty_iff insertCI insertE list.set(1) list.simps(15))
  qed
  have dot: "ensures (\<lambda>_. True) (\<lambda>e. subslice (Highlight e) b) (float_dot_loop b ?cl 0 False)"
    if "?cl \<noteq> []" "?cl ! 0 \<noteq> CHR ''.''" "?cl ! (length ?cl - 1) \<noteq> CHR ''.''"
    using that len by (intro float_dot_loop_ensures) auto
  show ?thesis unfolding parseFloat_def
    by (intro ensures_ifI ensures_bindI [OF checkFloats_ensures [OF ne]])
      (use st dot in \<open>auto simp: Let_def elim!: ensures_mono split: option.splits\<close>)
qed

lemma parseFloat_ensures:
  assumes "float_token (bytes b)"
  shows "ensures (\<lambda>f. if nan_token (bytes b) then f = NaN
       else float_text (no_us (bytes b)) \<and> ParseFloat (no_us (bytes b)) = Some f)
     (\<lambda>e. subslice (Highlight e) b) (parseFloat NaN ParseFloat b)"
proof (cases "nan_token (bytes b)")
  case True
  then show ?thesis unfolding parseFloat_def if_P [OF True [unfolded nan_token_iff]] by simp
next
  case False
  have ne: "bytes b \<noteq> []" using assms by (auto simp: float_token_def)
  show ?thesis using parseFloat_safe [OF assms, of NaN ParseFloat] checkFloats_ensures [OF ne] parseFloat_Ok [OF _ False, of NaN ParseFloat] False
    by (cases "parseFloat NaN ParseFloat b") auto
qed

section \<open>What the decoder promises for the parser's tokens\<close>







lemma checkInts_id:
  assumes "bytes b \<noteq> []" "CHR ''_'' \<notin> set (bytes b)"
  shows "checkAndRemoveUnderscoresIntegers b = Ok (bytes b)"
proof -
  have "\<not> find_underscore b 0 < s_len b" using find_underscore_spec [of 0 b] assms(2) by (auto simp: in_set_conv_nth)
  then have f: "find_underscore b 0 = s_len b" using find_underscore_spec [of 0 b] by auto
  have n: "bytes b ! i \<noteq> CHR ''_''" if "i < s_len b" for i using that assms(2) nth_mem by metis
  have "s_len b = 1 \<or> 1 < s_len b" using assms(1) by (cases "bytes b") auto
  then show ?thesis using f assms(1) n [of 0] n [of 1] n [of "s_len b - 1"]
    by (auto simp: checkAndRemoveUnderscoresIntegers_def Let_def not_less)
qed

text \<open>
  C7. Reading undoes writing: \<open>parseInteger\<close> turns what \<open>strconv.Itoa\<close> writes for a 64-bit
  integer back into that integer.
\<close>

theorem parseInteger_Itoa:
  assumes "- (2 ^ 63) \<le> i" "i < 2 ^ 63"
  shows "parseInteger (Slice a (Itoa i)) = Ok i"
proof -
  let ?s = "Itoa i"
  have us: "CHR ''_'' \<notin> set ?s" using utoa_digits [of "CHR ''_''"] by (auto simp: Itoa_def)
  have ne: "?s \<noteq> []" by (simp add: Itoa_def)
  have d: "utoa n ! 0 \<noteq> CHR ''+''" "utoa n ! 0 \<noteq> CHR ''-''" for n
    using utoa_digits [of "utoa n ! 0" n] by auto
  have dec: "\<not> (2 < length ?s \<and> ?s ! 0 = CHR ''0'')" using utoa_0 [of "nat i"] by (auto simp: Itoa_def)
  have "\<not> ((if isSign (?s ! 0) then 1 else 0) + 1 < length ?s \<and> ?s ! (if isSign (?s ! 0) then 1 else 0) = CHR ''0'')"
    using utoa_0 [of "nat i"] utoa_0 [of "nat (- i)"] d by (auto simp: Itoa_def isSign_def)
  then have "parseIntDec (Slice a ?s) = Ok i"
    using checkInts_id [of "Slice a ?s"] us ne ParseInt_Itoa [OF assms] by (auto simp: parseIntDec_def Let_def)
  then show ?thesis using dec by (auto simp: parseInteger_def)
qed

theorem parseInteger_Itoa_witness:
  "- (2 ^ 63) \<le> (- 9223372036854775808 :: int) \<and>
   parseInteger (Slice 0 (Itoa (- 9223372036854775808))) = Ok (- 9223372036854775808)"
  using parseInteger_Itoa [of "- 9223372036854775808" 0] by simp

end
