(* ===== verification/Toml_LocalTime.thy ===== *)
theory Toml_LocalTime
  imports Toml_Decode
begin

text \<open>
  The text form of local dates and times (\<open>src/utoml/localtime.go\<close>). A receiver is a pointer:
  the methods that test it for \<open>nil\<close> take an option, and \<open>LocalDate.String\<close>, which writes to the
  fields of its receiver, returns the receiver with the text. \<open>UnmarshalText\<close> returns the new
  value of its receiver, or an error and then the receiver is unchanged. The lemmas show that the
  parser of \<open>decode.go\<close> reads back what the \<open>String\<close> methods write.
\<close>

section \<open>Local dates\<close>

definition LocalDate_IsZero :: "LocalDate option \<Rightarrow> bool" where
  "LocalDate_IsZero d = (case d of None \<Rightarrow> True
     | Some d \<Rightarrow> Year d \<le> 1970 \<and> Month d \<le> 1 \<and> Day d \<le> 1)"

definition LocalDate_String :: "LocalDate \<Rightarrow> ('e, string \<times> LocalDate) outcome" where
  "LocalDate_String d =
     (let d = (if Year d < 1970 then d\<lparr>Year := 1970\<rparr> else d);
          d = (if Month d < 1 \<or> 12 < Month d then d\<lparr>Month := 1\<rparr> else d) in
      bind_outcome (if Day d < 1 then Ok True
                    else bind_outcome (or_panic (daysIn (Month d) (Year d))) (\<lambda>n. Ok (n < Day d))) (\<lambda>out.
      let d = (if out then d\<lparr>Day := 1\<rparr> else d) in
      Ok (Sprintf_0d 4 (Year d) @ ''-'' @ Sprintf_0d 2 (Month d) @ ''-'' @ Sprintf_0d 2 (Day d), d)))"

definition LocalDate_MarshalText :: "LocalDate option \<Rightarrow> ('e, string \<times> LocalDate option) outcome" where
  "LocalDate_MarshalText d =
     (if LocalDate_IsZero d then Ok ([], d)
      else bind_outcome (or_panic d) (\<lambda>d. bind_outcome (LocalDate_String d) (\<lambda>(s, d). Ok (s, Some d))))"

definition LocalDate_UnmarshalText :: "LocalDate \<Rightarrow> slice \<Rightarrow> (ParserError, LocalDate) outcome" where
  "LocalDate_UnmarshalText d b =
     (if s_len b < 1 then Ok d else bind_outcome (parseLocalDate b) (\<lambda>res. Ok res))"

section \<open>Local times\<close>

definition LocalTime_IsZero :: "LocalTime option \<Rightarrow> bool" where
  "LocalTime_IsZero d = (case d of None \<Rightarrow> True
     | Some d \<Rightarrow> Hour d = 0 \<or> Minute d = 0 \<or> Second d = 0)"

text \<open>\<open>strings.Trim(s, "0")\<close>\<close>

definition Trim :: "char \<Rightarrow> string \<Rightarrow> string" where
  "Trim c s = rev (dropWhile (\<lambda>x. x = c) (rev (dropWhile (\<lambda>x. x = c) s)))"

definition LocalTime_String :: "LocalTime \<Rightarrow> ('e, string) outcome" where
  "LocalTime_String d =
     (let s = Sprintf_0d 2 (Hour d) @ '':'' @ Sprintf_0d 2 (Minute d) @ '':'' @ Sprintf_0d 2 (Second d);
          f = CHR ''.'' # Sprintf_0d 9 (Nanosecond d) in
      if 0 < Precision d then
        if int (length f) < Precision d + 1 then Panic else Ok (s @ take (nat (Precision d + 1)) f)
      else if 0 < Nanosecond d then Ok (s @ Trim CHR ''0'' f)
      else Ok s)"

definition LocalTime_MarshalText :: "LocalTime option \<Rightarrow> ('e, string) outcome" where
  "LocalTime_MarshalText d =
     (if LocalTime_IsZero d then Ok [] else bind_outcome (or_panic d) LocalTime_String)"

definition LocalTime_UnmarshalText :: "LocalTime \<Rightarrow> slice \<Rightarrow> (ParserError, LocalTime) outcome" where
  "LocalTime_UnmarshalText d b =
     (if s_len b < 1 then Ok d
      else bind_outcome (parseLocalTime b) (\<lambda>(res, left).
        if s_len left \<noteq> 0 then Err (NewParserError left ''extra characters'' []) else Ok res))"

section \<open>Local date-times\<close>

definition LocalDateTime_IsZero :: "LocalDateTime option \<Rightarrow> bool" where
  "LocalDateTime_IsZero d = (case d of None \<Rightarrow> True
     | Some d \<Rightarrow> LocalDate_IsZero (Some (dt_LocalDate d)) \<or> LocalTime_IsZero (Some (dt_LocalTime d)))"

definition LocalDateTime_String :: "LocalDateTime option \<Rightarrow> ('e, string \<times> LocalDateTime option) outcome" where
  "LocalDateTime_String d =
     (if LocalDateTime_IsZero d then Ok ([], d)
      else bind_outcome (or_panic d) (\<lambda>d.
           bind_outcome (LocalDate_String (dt_LocalDate d)) (\<lambda>(s, ld).
           bind_outcome (LocalTime_String (dt_LocalTime d)) (\<lambda>t.
             Ok (s @ ''T'' @ t, Some (d\<lparr>dt_LocalDate := ld\<rparr>))))))"

definition LocalDateTime_MarshalText :: "LocalDateTime option \<Rightarrow> ('e, string \<times> LocalDateTime option) outcome" where
  "LocalDateTime_MarshalText d = LocalDateTime_String d"

definition LocalDateTime_UnmarshalText :: "LocalDateTime \<Rightarrow> slice \<Rightarrow> (ParserError, LocalDateTime) outcome" where
  "LocalDateTime_UnmarshalText d b =
     (if s_len b < 1 then Ok d
      else bind_outcome (parseLocalDateTime b) (\<lambda>(res, left).
        if s_len left \<noteq> 0 then Err (NewParserError left ''extra characters'' []) else Ok res))"

section \<open>Padded numbers\<close>

abbreviation pad :: "nat \<Rightarrow> nat \<Rightarrow> string" where
  "pad w n \<equiv> Sprintf_0d w (int n)"

lemma pad_eq: "pad w n = replicate (w - length (utoa n)) CHR ''0'' @ utoa n"
  by (simp add: Sprintf_0d_def Let_def)

lemma pad_1: "n < 10 \<Longrightarrow> pad 1 n = [char_of (48 + n)]"
  by (simp add: pad_eq utoa.simps [of n])

lemma pad_Suc:
  assumes "1 \<le> w"
  shows "pad (Suc w) n = pad w (n div 10) @ [char_of (48 + n mod 10)]"
proof (cases "n < 10")
  case True
  obtain v where w: "w = Suc v" using assms by (cases w) auto
  have c: "char_of (48 :: nat) = CHR ''0''" by code_simp
  have "pad w 0 = replicate v CHR ''0'' @ [CHR ''0'']" unfolding w pad_eq by (simp add: utoa.simps [of 0] c)
  moreover have "pad (Suc w) n = (replicate v CHR ''0'' @ [CHR ''0'']) @ [char_of (48 + n)]"
    using True unfolding w pad_eq by (simp add: utoa.simps [of n] replicate_append_same)
  ultimately show ?thesis using True by simp
next
  case False
  then show ?thesis by (simp add: pad_eq utoa.simps [of n])
qed

lemma length_pad: "1 \<le> w \<Longrightarrow> n < 10 ^ w \<Longrightarrow> length (pad w n) = w"
proof (induction w arbitrary: n rule: nat_induct_at_least)
  case base
  then show ?case using pad_1 [of n] by simp
next
  case (Suc w)
  then have "n div 10 < 10 ^ w" by (simp add: less_mult_imp_div_less)
  then show ?case using Suc by (simp add: pad_Suc)
qed

lemma take_pad:
  assumes "1 \<le> p" "n < 10 ^ (p + k)"
  shows "take p (pad (p + k) n) = pad p (n div 10 ^ k)"
  using assms(2)
proof (induction k arbitrary: n)
  case 0
  then show ?case using assms(1) length_pad [of p n] by simp
next
  case (Suc k)
  then have n: "n div 10 < 10 ^ (p + k)" by (simp add: less_mult_imp_div_less)
  then have l: "length (pad (p + k) (n div 10)) = p + k" using assms(1) by (intro length_pad) auto
  show ?case using Suc.IH [OF n] l assms(1) by (simp add: pad_Suc div_mult2_eq)
qed

lemma pad_digits: "c \<in> set (pad w n) \<Longrightarrow> isDigit c"
  using utoa_digits [of c n] by (auto simp: pad_eq isDigit_def)

lemma digits_value_zeros: "digits_value 10 (replicate k CHR ''0'') 0 = Some 0"
  by (induction k) (simp_all add: digit_value_def)

lemma digits_value_pad: "digits_value 10 (pad w n) 0 = Some n"
  by (simp add: pad_eq digits_value_append digits_value_zeros digits_value_utoa)

lemma digit_value_isDigit: "isDigit c \<Longrightarrow> digit_value c = Some (bval c - 48)"
  by (auto simp: digit_value_def isDigit_def)

lemma parseDecimalDigits_loop_digits:
  "\<forall>c \<in> set cs. isDigit c \<Longrightarrow> digits_value 10 cs v = Some w \<Longrightarrow> parseDecimalDigits_loop b cs i (int v) = Ok (int w)"
proof (induction cs arbitrary: v i)
  case (Cons c cs)
  then have d: "isDigit c" "digit_value c = Some (bval c - 48)" using digit_value_isDigit by auto
  then have "bval c - 48 < 10" "\<not> bval c < 48" "\<not> 57 < bval c" by (auto simp: isDigit_def)
  then show ?case using Cons.IH [of "v * 10 + (bval c - 48)" "i + 1"] Cons.prems d by (simp add: add_diff_eq)
qed simp

lemma parseDecimalDigits_pad: "parseDecimalDigits (Slice a (pad w n)) = Ok (int n)"
  using parseDecimalDigits_loop_digits [of "pad w n" 0 n "Slice a (pad w n)" 0] pad_digits
  by (simp add: parseDecimalDigits_def digits_value_pad)

lemma parseDecimalDigits_Sprintf [simp]: "0 \<le> i \<Longrightarrow> parseDecimalDigits (Slice a (Sprintf_0d w i)) = Ok i"
  using parseDecimalDigits_pad [of a w "nat i"] by simp

lemma length_Sprintf: "1 \<le> w \<Longrightarrow> 0 \<le> i \<Longrightarrow> i < 10 ^ w \<Longrightarrow> length (Sprintf_0d w i) = w"
  using length_pad [of w "nat i"] by (simp add: nat_less_iff)

lemma fraction_loop_digits:
  "\<forall>c \<in> set cs. isDigit c \<Longrightarrow> digits_value 10 cs v = Some w \<Longrightarrow> i + length cs \<le> 9 \<Longrightarrow>
   fraction_loop b cs i (int v) pr dg = Ok (int w, pr + length cs, dg + length cs)"
proof (induction cs arbitrary: v i pr dg)
  case (Cons c cs)
  then have d: "isDigit c" "digit_value c = Some (bval c - 48)" using digit_value_isDigit by auto
  then have "bval c - 48 < 10" by (auto simp: isDigit_def)
  then show ?case using Cons.IH [of "v * 10 + (bval c - 48)" "i + 1" "pr + 1" "dg + 1"] Cons.prems d by (simp add: isDigit_def add_diff_eq)
qed simp

section \<open>The parser reads what the String methods write\<close>

text \<open>The date that \<open>LocalDate.String\<close> writes, and leaves in its receiver.\<close>

definition clamp_date :: "LocalDate \<Rightarrow> LocalDate" where
  "clamp_date d =
     (let y = max 1970 (Year d); m = (if 1 \<le> Month d \<and> Month d \<le> 12 then Month d else 1) in
      \<lparr>Year = y, Month = m, Day = (if 1 \<le> Day d \<and> Day d \<le> month_length m y then Day d else 1)\<rparr>)"

abbreviation date_text :: "LocalDate \<Rightarrow> string" where
  "date_text d \<equiv> Sprintf_0d 4 (Year d) @ CHR ''-'' # Sprintf_0d 2 (Month d) @ CHR ''-'' # Sprintf_0d 2 (Day d)"

lemma parseLocalDate_text:
  assumes "valid_date d"
  shows "parseLocalDate (Slice a (date_text d)) = Ok d" "length (date_text d) = 10"
proof -
  obtain n where n: "daysIn (Month d) (Year d) = Some n" "28 \<le> n" "n \<le> 31" "Day d \<le> n"
    using assms daysIn_bounds [of "Month d" "Year d"] daysIn_month_length [of "Month d" "Year d"] by (force simp: valid_date_def)
  have d: "0 \<le> Year d" "Year d < 10 ^ 4" "0 \<le> Month d" "Month d < 10 ^ 2" "0 \<le> Day d" "Day d < 10 ^ 2"
    using assms n by (auto simp: valid_date_def)
  then have l: "length (Sprintf_0d 4 (Year d)) = 4" "length (Sprintf_0d 2 (Month d)) = 2" "length (Sprintf_0d 2 (Day d)) = 2"
    by (auto intro!: length_Sprintf)
  let ?b = "Slice a (date_text d)"
  have "s_sub ?b 0 4 = Slice a (Sprintf_0d 4 (Year d))" "s_sub ?b 5 7 = Slice (a + 5) (Sprintf_0d 2 (Month d))"
    "s_sub ?b 8 10 = Slice (a + 8) (Sprintf_0d 2 (Day d))"
    using l by (simp_all add: s_sub_def)
  moreover have "s_len ?b = 10" "bytes ?b ! 4 = CHR ''-''" "bytes ?b ! 7 = CHR ''-''"
    using l by (simp_all add: nth_append)
  ultimately show "parseLocalDate ?b = Ok d" "length (date_text d) = 10"
    using assms n d by (auto simp: parseLocalDate_def Let_def isValidDate_def valid_date_def)
qed

lemma clamp_date_valid:
  assumes "Year d \<le> 9999"
  shows "valid_date (clamp_date d)"
proof -
  let ?m = "if 1 \<le> Month d \<and> Month d \<le> 12 then Month d else 1"
  obtain n where "daysIn ?m (max 1970 (Year d)) = Some n" "28 \<le> n" by (rule daysIn_bounds [of ?m]) auto
  then show ?thesis using assms daysIn_month_length [of ?m "max 1970 (Year d)"] by (simp add: clamp_date_def valid_date_def Let_def)
qed

lemma clamp_date_id: "valid_date d \<Longrightarrow> clamp_date d = d"
  by (cases d) (auto simp: clamp_date_def valid_date_def Let_def)

lemma LocalDate_String_text: "LocalDate_String d = Ok (date_text (clamp_date d), clamp_date d)"
proof -
  let ?m = "if 1 \<le> Month d \<and> Month d \<le> 12 then Month d else 1"
  have "daysIn ?m (max 1970 (Year d)) = Some (month_length ?m (max 1970 (Year d)))" by (rule daysIn_month_length) auto
  then show ?thesis by (cases d) (auto simp: LocalDate_String_def clamp_date_def Let_def max_def not_less not_le)
qed

section \<open>Times\<close>

abbreviation clock_text :: "LocalTime \<Rightarrow> string" where
  "clock_text t \<equiv> Sprintf_0d 2 (Hour t) @ CHR '':'' # Sprintf_0d 2 (Minute t) @ CHR '':'' # Sprintf_0d 2 (Second t)"

lemma parseLocalTime_text:
  assumes "valid_time t"
  shows "parseLocalTime (Slice a (clock_text t @ f)) =
      parseFraction (t\<lparr>Nanosecond := 0, Precision := 0\<rparr>) (Slice (a + 8) f)"
proof -
  have d: "0 \<le> Hour t" "Hour t < 10 ^ 2" "0 \<le> Minute t" "Minute t < 10 ^ 2" "0 \<le> Second t" "Second t < 10 ^ 2"
    "Hour t \<le> 23" "Minute t \<le> 59" "Second t \<le> 60"
    using assms by (auto simp: valid_time_def)
  then have l: "length (Sprintf_0d 2 (Hour t)) = 2" "length (Sprintf_0d 2 (Minute t)) = 2" "length (Sprintf_0d 2 (Second t)) = 2"
    by (auto intro!: length_Sprintf)
  let ?b = "Slice a (clock_text t @ f)"
  have "s_sub ?b 0 2 = Slice a (Sprintf_0d 2 (Hour t))" "s_sub ?b 3 5 = Slice (a + 3) (Sprintf_0d 2 (Minute t))"
    "s_sub ?b 6 8 = Slice (a + 6) (Sprintf_0d 2 (Second t))" "s_from ?b 8 = Slice (a + 8) f"
    using l by (simp_all add: s_sub_def s_from_def)
  moreover have "\<not> s_len ?b < 8" "bytes ?b ! 2 = CHR '':''" "bytes ?b ! 5 = CHR '':''"
    using l by (simp_all add: nth_append)
  moreover have r: "t\<lparr>Nanosecond := 0, Precision := 0\<rparr> = \<lparr>Hour = Hour t, Minute = Minute t, Second = Second t, Nanosecond = 0, Precision = 0\<rparr>"
    by (cases t) simp
  ultimately show ?thesis using d unfolding parseLocalTime_def r by auto
qed

lemma parseFraction_digits:
  assumes "ds \<noteq> []" "length ds \<le> 9" "\<forall>c \<in> set ds. isDigit c" "digits_value 10 ds 0 = Some v"
  shows "parseFraction t (Slice a (CHR ''.'' # ds)) =
    Ok (t\<lparr>Nanosecond := int v * 10 ^ (9 - length ds), Precision := int (length ds)\<rparr>, Slice (a + 1 + length ds) [])"
proof -
  have f: "fraction_loop (Slice a (CHR ''.'' # ds)) ds 0 0 0 0 = Ok (int v, length ds, length ds)"
    using fraction_loop_digits [of ds 0 v 0 _ 0 0] assms by simp
  have "length ds < length nspow" "nspow ! length ds = 10 ^ (9 - length ds)"
    using nspow_nth [of "length ds"] assms(1,2) by (auto simp: Suc_le_eq)
  then show ?thesis using f assms(1) by (simp add: parseFraction_def s_sub_def)
qed

lemma Trim_Cons:
  assumes "x \<noteq> c"
  obtains ys k where "Trim c (x # xs) = x # ys" "xs = ys @ replicate k c" "ys \<noteq> [] \<Longrightarrow> last ys \<noteq> c"
proof
  let ?r = "rev xs"
  show "Trim c (x # xs) = x # rev (dropWhile (\<lambda>x. x = c) ?r)"
    using assms by (simp add: Trim_def dropWhile_append3)
  have "takeWhile (\<lambda>x. x = c) ?r = replicate (length (takeWhile (\<lambda>x. x = c) ?r)) c"
    by (intro replicate_eqI) (auto dest: set_takeWhileD)
  then show "xs = rev (dropWhile (\<lambda>x. x = c) ?r) @ replicate (length (takeWhile (\<lambda>x. x = c) ?r)) c"
    by (metis rev_append rev_replicate rev_rev_ident takeWhile_dropWhile_id)
  show "last (rev (dropWhile (\<lambda>x. x = c) ?r)) \<noteq> c" if "rev (dropWhile (\<lambda>x. x = c) ?r) \<noteq> []"
    using that hd_dropWhile [of "\<lambda>x. x = c" ?r] by (simp add: last_rev)
qed

lemma digits_value_zeros_acc: "digits_value 10 (replicate k CHR ''0'') v = Some (v * 10 ^ k)"
  by (induction k arbitrary: v) (simp_all add: digit_value_def)

text \<open>
  The time that the text of a time stands for. With a precision, the nanoseconds are cut to it. Without
  one, as many digits are written as the nanoseconds need, and reading sets the precision to their number.
\<close>

definition frac_digits :: "int \<Rightarrow> nat" where
  "frac_digits n = (if n = 0 then 0 else hd (filter (\<lambda>p. n mod 10 ^ (9 - p) = 0) [1..<10]))"

definition read_back :: "LocalTime \<Rightarrow> LocalTime" where
  "read_back t =
     (if Precision t = 0 then t\<lparr>Precision := int (frac_digits (Nanosecond t))\<rparr>
      else let k = 10 ^ (9 - nat (Precision t)) in t\<lparr>Nanosecond := Nanosecond t div k * k\<rparr>)"

lemma digits_value_mod10:
  assumes "digits_value 10 (xs @ [c]) 0 = Some v" "isDigit c"
  shows "v mod 10 = bval c - 48"
proof -
  have "bval c - 48 < 10" using assms(2) by (auto simp: isDigit_def)
  then show ?thesis using assms
    by (auto simp: digits_value_append bind_eq_Some_conv digit_value_isDigit split: if_splits)
qed

lemma frac_digits_eq:
  assumes "v mod 10 \<noteq> 0" "l + k = 9" "0 < l"
  shows "frac_digits (int (v * 10 ^ k)) = l"
proof -
  let ?P = "\<lambda>p. int (v * 10 ^ k) mod 10 ^ (9 - p) = 0"
  have no: "\<not> ?P p" if "p < l" for p
  proof
    assume "?P p"
    then have "(10 :: nat) ^ (9 - p) dvd v * 10 ^ k"
      by (metis dvd_eq_mod_eq_0 int_dvd_int_iff of_nat_numeral of_nat_power)
    moreover have "9 - p = k + Suc (l - Suc p)" using that assms(2) by linarith
    ultimately have "10 ^ k * 10 ^ Suc (l - Suc p) dvd 10 ^ k * v" by (simp add: power_add mult.commute)
    then have "10 ^ Suc (l - Suc p) dvd v" by (subst (asm) nat_mult_dvd_cancel_disj) simp
    then have "10 dvd v" by (metis dvd_mult_left power_Suc)
    with assms(1) show False by (simp add: dvd_eq_mod_eq_0)
  qed
  have "9 - l = k" using assms(2) by linarith
  then have yes: "?P l" by simp
  have sp: "[1..<10] = [1..<l] @ l # [Suc l..<10]" using upt_add_eq_append [of 1 l "10 - l"] assms(2,3) by (simp add: upt_conv_Cons)
  have "filter ?P [1..<l] = []" using no by (simp add: filter_empty_conv)
  then have "filter ?P [1..<10] = l # filter ?P [Suc l..<10]" using yes unfolding sp by simp
  moreover have "v \<noteq> 0" using assms(1) by (intro notI) simp
  ultimately show ?thesis by (simp add: frac_digits_def)
qed

lemma frac_digits_0: "0 \<le> n \<Longrightarrow> n < 10 ^ 9 \<Longrightarrow> frac_digits n = 0 \<longleftrightarrow> 10 ^ 9 dvd n"
proof -
  assume n: "0 \<le> n" "n < 10 ^ 9"
  have "10 ^ 9 dvd n \<longleftrightarrow> n = 0" using n by (auto dest: zdvd_imp_le)
  moreover have "set (filter (\<lambda>p. n mod 10 ^ (9 - p) = 0) [1..<10]) \<subseteq> {1..<10}" by auto
  moreover have "9 \<in> set (filter (\<lambda>p. n mod 10 ^ (9 - p) = 0) [1..<10])" by simp
  then have "filter (\<lambda>p. n mod 10 ^ (9 - p) = 0) [1..<10] \<noteq> []" by (metis empty_iff list.set(1))
  ultimately show ?thesis unfolding frac_digits_def by (metis (no_types, lifting) atLeastLessThan_iff hd_in_set not_one_le_zero subsetD)
qed

lemma read_back_same:
  assumes "valid_time t"
  shows "(read_back t = t) = (10 ^ (9 - nat (Precision t)) dvd Nanosecond t)"
proof (cases "Precision t = 0")
  case True
  then have "(read_back t = t) = (frac_digits (Nanosecond t) = 0)" by (cases t) (simp add: read_back_def)
  then show ?thesis using True frac_digits_0 [of "Nanosecond t"] assms by (simp add: valid_time_def)
next
  case False
  have "n div k * k = n \<longleftrightarrow> k dvd n" for n k :: int by (metis dvd_div_mult_self dvd_triv_right)
  then show ?thesis using False by (cases t) (simp add: read_back_def Let_def)
qed

lemma LocalTime_text:
  assumes "valid_time t"
  obtains s where "LocalTime_String t = (Ok s :: ('e, string) outcome)"
    "parseLocalTime (Slice a s) = Ok (read_back t, Slice (a + length s) [])" "8 \<le> length s"
proof -
  define n where "n = nat (Nanosecond t)"
  have n: "Nanosecond t = int n" "n < 10 ^ 9" using assms by (auto simp: n_def valid_time_def)
  have l9: "length (pad 9 n) = 9" using n(2) by (intro length_pad) auto
  have l8: "length (clock_text t) = 8"
    using assms by (auto simp: valid_time_def length_Sprintf)
  note parse = parseLocalTime_text [OF assms, of a]
  consider "0 < Precision t" | "Precision t = 0" "0 < n" | "Precision t = 0" "n = 0"
    using assms by (force simp: valid_time_def)
  then show thesis
  proof cases
    case 1
    define p where "p = nat (Precision t)"
    have p: "Precision t = int p" "1 \<le> p" "p \<le> 9" using 1 assms by (auto simp: p_def valid_time_def)
    let ?v = "n div 10 ^ (9 - p)"
    have v: "?v < 10 ^ p" using n(2) p(3) by (simp add: less_mult_imp_div_less flip: power_add)
    have ds: "take p (pad 9 n) = pad p ?v" using take_pad [of p n "9 - p"] p n(2) by simp
    have s: "LocalTime_String t = (Ok (clock_text t @ CHR ''.'' # pad p ?v) :: ('e, string) outcome)"
      using p l9 n(1) ds by (simp add: LocalTime_String_def Let_def nat_add_distrib)
    have lp: "length (pad p ?v) = p" using p(2) v by (rule length_pad)
    then have "parseFraction t' (Slice (a + 8) (CHR ''.'' # pad p ?v)) =
      Ok (t'\<lparr>Nanosecond := int ?v * 10 ^ (9 - p), Precision := int p\<rparr>, Slice (a + 8 + 1 + p) [])" for t'
      using parseFraction_digits [of "pad p ?v" ?v t' "a + 8"] p pad_digits digits_value_pad by force
    with parse [of "CHR ''.'' # pad p ?v"] s show thesis
      by (intro that [of "clock_text t @ CHR ''.'' # pad p ?v"]) (use p l8 lp n(1) in \<open>auto simp: read_back_def Let_def zdiv_int\<close>)
  next
    case 2
    obtain ys k where y: "Trim CHR ''0'' (CHR ''.'' # pad 9 n) = CHR ''.'' # ys" "pad 9 n = ys @ replicate k CHR ''0''"
      "ys \<noteq> [] \<Longrightarrow> last ys \<noteq> CHR ''0''"
      by (rule Trim_Cons [of "CHR ''.''" "CHR ''0''" "pad 9 n"]) auto
    obtain v where v: "digits_value 10 ys 0 = Some v" "v * 10 ^ k = n"
      using digits_value_pad [of 9 n] unfolding y(2) digits_value_append
      by (auto simp: bind_eq_Some_conv digits_value_zeros_acc)
    have k: "length ys + k = 9" using l9 y(2) by simp
    have ne: "ys \<noteq> []" using v 2(2) by auto
    have dg: "\<forall>c \<in> set ys. isDigit c" using pad_digits [of _ 9 n] y(2) by auto
    have "isDigit (last ys)" "last ys \<noteq> CHR ''0''" using dg y(3) [OF ne] last_in_set [OF ne] by auto
    moreover have "char_of (48 :: nat) = CHR ''0''" by code_simp
    ultimately have "isDigit (last ys)" "bval (last ys) \<noteq> 48" using char_of_eqI [of 48 "last ys"] by auto
    then have "v mod 10 \<noteq> 0"
      using digits_value_mod10 [of "butlast ys" "last ys" v] v(1) ne by (auto simp: isDigit_def)
    then have fd: "frac_digits (int n) = length ys" using frac_digits_eq [of v "length ys" k] k ne v(2) by simp
    have f: "parseFraction t' (Slice (a + 8) (CHR ''.'' # ys)) =
      Ok (t'\<lparr>Nanosecond := int v * 10 ^ (9 - length ys), Precision := int (length ys)\<rparr>, Slice (a + 8 + 1 + length ys) [])" for t'
      using k v(1) ne dg by (intro parseFraction_digits) auto
    have "int v * 10 ^ (9 - length ys) = int n" using v(2) k by (auto simp flip: v(2))
    moreover have "LocalTime_String t = (Ok (clock_text t @ CHR ''.'' # ys) :: ('e, string) outcome)"
      using 2 n(1) y(1) by (simp add: LocalTime_String_def Let_def)
    ultimately show thesis using parse [of "CHR ''.'' # ys"] f
      by (intro that [of "clock_text t @ CHR ''.'' # ys"]) (use 2 l8 n(1) fd in \<open>auto simp: read_back_def\<close>)
  next
    case 3
    then have "LocalTime_String t = (Ok (clock_text t) :: ('e, string) outcome)"
      using n(1) by (simp add: LocalTime_String_def Let_def)
    with parse [of "[]"] show thesis
      by (intro that [of "clock_text t"]) (use 3 l8 n(1) in \<open>auto simp: read_back_def frac_digits_def parseFraction_def\<close>)
  qed
qed

section \<open>Round trips\<close>

text \<open>
  \<open>LocalDate.String\<close> never panics, and \<open>UnmarshalText\<close> reads its text back: for every date
  up to the year 9999 the text stands for the date that \<open>String\<close> leaves in its receiver, which is
  a day of the calendar, and is the receiver itself if that is a day of the calendar from 1970 on.
\<close>

theorem LocalDate_roundtrip:
  assumes "Year d \<le> 9999"
  shows "\<exists>s. LocalDate_String d = (Ok (s, clamp_date d) :: (ParserError, _) outcome) \<and>
    LocalDate_UnmarshalText d0 (Slice a s) = Ok (clamp_date d) \<and>
    valid_date (clamp_date d) \<and> (valid_date d \<longrightarrow> clamp_date d = d)"
  using parseLocalDate_text [OF clamp_date_valid [OF assms]] clamp_date_valid [OF assms] clamp_date_id [of d]
  by (simp add: LocalDate_String_text LocalDate_UnmarshalText_def)

theorem LocalDate_roundtrip_witness:
  "\<exists>s. LocalDate_String \<lparr>Year = 2024, Month = 2, Day = 29\<rparr> =
      (Ok (s, \<lparr>Year = 2024, Month = 2, Day = 29\<rparr>) :: (ParserError, _) outcome) \<and>
    LocalDate_UnmarshalText \<lparr>Year = 0, Month = 0, Day = 0\<rparr> (Slice 3 s) = Ok \<lparr>Year = 2024, Month = 2, Day = 29\<rparr>"
proof -
  let ?d = "\<lparr>Year = 2024, Month = 2, Day = 29\<rparr>"
  have "valid_date ?d" by (simp add: valid_date_def month_length_def leap_year_def)
  with LocalDate_roundtrip [of ?d "\<lparr>Year = 0, Month = 0, Day = 0\<rparr>" 3] show ?thesis by auto
qed

text \<open>
  \<open>LocalTime.String\<close> never panics on a time in range, and \<open>UnmarshalText\<close> reads its text
  back to the same hour, minute and second, with nothing left over; the nanoseconds are cut to
  the precision, and are exact if no precision is set.
\<close>

theorem LocalTime_roundtrip:
  assumes "valid_time t"
  shows "\<exists>s t'. LocalTime_String t = (Ok s :: (ParserError, string) outcome) \<and>
    LocalTime_UnmarshalText t0 (Slice a s) = Ok t' \<and>
    Hour t' = Hour t \<and> Minute t' = Minute t \<and> Second t' = Second t \<and>
    (if Precision t = 0 then Nanosecond t' = Nanosecond t
     else Nanosecond t' = Nanosecond t div 10 ^ (9 - nat (Precision t)) * 10 ^ (9 - nat (Precision t)) \<and>
       Precision t' = Precision t)"
proof -
  obtain s where s: "LocalTime_String t = (Ok s :: (ParserError, string) outcome)"
    "parseLocalTime (Slice a s) = Ok (read_back t, Slice (a + length s) [])" "8 \<le> length s"
    by (rule LocalTime_text [OF assms])
  then have "LocalTime_UnmarshalText t0 (Slice a s) = Ok (read_back t)" by (auto simp: LocalTime_UnmarshalText_def)
  with s(1) show ?thesis by (intro exI [of _ s] exI [of _ "read_back t"]) (auto simp: read_back_def Let_def)
qed

theorem LocalTime_roundtrip_witness:
  "valid_time \<lparr>Hour = 7, Minute = 32, Second = 0, Nanosecond = 999999000, Precision = 3\<rparr> \<and>
   (\<exists>s t'. LocalTime_String \<lparr>Hour = 7, Minute = 32, Second = 0, Nanosecond = 999999000, Precision = 3\<rparr> =
        (Ok s :: (ParserError, string) outcome) \<and>
      LocalTime_UnmarshalText \<lparr>Hour = 0, Minute = 0, Second = 0, Nanosecond = 0, Precision = 0\<rparr> (Slice 0 s) = Ok t' \<and>
      Nanosecond t' = 999000000)"
proof
  let ?t = "\<lparr>Hour = 7, Minute = 32, Second = 0, Nanosecond = 999999000, Precision = 3\<rparr>"
  show v: "valid_time ?t" by (simp add: valid_time_def)
  from LocalTime_roundtrip [OF this, of "\<lparr>Hour = 0, Minute = 0, Second = 0, Nanosecond = 0, Precision = 0\<rparr>" 0]
  show "\<exists>s t'. LocalTime_String ?t = (Ok s :: (ParserError, string) outcome) \<and>
      LocalTime_UnmarshalText \<lparr>Hour = 0, Minute = 0, Second = 0, Nanosecond = 0, Precision = 0\<rparr> (Slice 0 s) = Ok t' \<and>
      Nanosecond t' = 999000000" by auto
qed

text \<open>
  C17. \<open>LocalTime.MarshalText\<close> loses times: although the text of every time in range is read back,
  the text is empty for every time of which the hour, the minute or the second is zero, and
  \<open>UnmarshalText\<close> leaves its receiver unchanged on the empty text.
\<close>

theorem LocalTime_MarshalText_empty:
  assumes "valid_time t"
  shows "(LocalTime_MarshalText (Some t) = (Ok [] :: (ParserError, string) outcome)) =
      (Hour t = 0 \<or> Minute t = 0 \<or> Second t = 0) \<and>
    LocalTime_UnmarshalText t0 (Slice a []) = Ok t0"
proof -
  obtain s where "LocalTime_String t = (Ok s :: (ParserError, string) outcome)" "8 \<le> length s"
    by (rule LocalTime_text [OF assms])
  then show ?thesis
    by (auto simp: LocalTime_MarshalText_def LocalTime_IsZero_def LocalTime_UnmarshalText_def or_panic_def)
qed

theorem LocalTime_MarshalText_empty_witness:
  "valid_time \<lparr>Hour = 10, Minute = 0, Second = 0, Nanosecond = 0, Precision = 0\<rparr> \<and>
   LocalTime_MarshalText (Some \<lparr>Hour = 10, Minute = 0, Second = 0, Nanosecond = 0, Precision = 0\<rparr>) =
     (Ok [] :: (ParserError, string) outcome)"
proof
  show v: "valid_time \<lparr>Hour = 10, Minute = 0, Second = 0, Nanosecond = 0, Precision = 0\<rparr>" by (simp add: valid_time_def)
  from LocalTime_MarshalText_empty [OF this]
  show "LocalTime_MarshalText (Some \<lparr>Hour = 10, Minute = 0, Second = 0, Nanosecond = 0, Precision = 0\<rparr>) =
     (Ok [] :: (ParserError, string) outcome)" by simp
qed



end
