(* ===== verification/Toml_Errors.thy ===== *)
theory Toml_Errors
  imports Toml_Parser_Correct Uw_Strconv
begin

text \<open>
  \<open>utoml/errors.go\<close>: from a \<open>ParserError\<close>, which points into the document, to a \<open>DecodeError\<close>
  with line, column and a human-readable extract of the document. What \<open>ParserError.Error()\<close>
  returns is an argument, since the model keeps messages as format strings. The lemmas show that
  the lines of context are the lines around the error, that the position agrees with the one
  that \<open>Parser.position\<close> computes in another way, and which line the extract marks.
\<close>

section \<open>Model\<close>

record DecodeError =
  message :: string
  line :: int
  column :: int
  err_key :: "string list"
  human :: string

definition DecodeError_Error :: "DecodeError \<Rightarrow> string" where
  "DecodeError_Error e = ''toml: '' @ message e"

definition DecodeError_String :: "DecodeError \<Rightarrow> string" where
  "DecodeError_String e = human e"

definition DecodeError_Position :: "DecodeError \<Rightarrow> int \<times> int" where
  "DecodeError_Position e = (line e, column e)"

definition DecodeError_Key :: "DecodeError \<Rightarrow> string list" where
  "DecodeError_Key e = err_key e"

record StrictMissingError =
  Errors :: "DecodeError list"

fun missing_loop :: "nat \<Rightarrow> DecodeError list \<Rightarrow> string" where
  "missing_loop i [] = []"
| "missing_loop i (e # es) =
     (if 0 < i then [c_nl] @ ''---'' @ [c_nl] else []) @ DecodeError_String e @ missing_loop (i + 1) es"

definition StrictMissingError_String :: "StrictMissingError \<Rightarrow> string" where
  "StrictMissingError_String s = missing_loop 0 (Errors s)"

fun position_loop :: "int \<Rightarrow> int \<Rightarrow> byte list \<Rightarrow> int \<times> int" where
  "position_loop row col [] = (row, col)"
| "position_loop row col (c # cs) =
     (if c = c_nl then position_loop (row + 1) 1 cs else position_loop row (col + 1) cs)"

definition positionAtEnd :: "byte list \<Rightarrow> int \<times> int" where
  "positionAtEnd b = position_loop 1 1 b"

text \<open>\<open>fmt.Sprintf("%wd", i)\<close>\<close>

definition Sprintf_d :: "nat \<Rightarrow> int \<Rightarrow> string" where
  "Sprintf_d w i = replicate (w - length (Itoa i)) c_sp @ Itoa i"

definition formatLineNumber :: "int \<Rightarrow> nat \<Rightarrow> string" where
  "formatLineNumber ln width = Sprintf_d width ln"

text \<open>The loop \<open>backward\<close>; \<open>i\<close> is the index \<open>o\<close> of the source.\<close>

function before_loop :: "nat \<Rightarrow> byte list \<Rightarrow> int \<Rightarrow> byte list list \<Rightarrow> ('e, byte list list) outcome" where
  "before_loop linesAround rest i ls =
     (if 0 \<le> i \<and> length ls \<le> linesAround \<and> 0 < length rest then
        bind_outcome (idx rest (nat i)) (\<lambda>c.
          if c = c_nl then
            before_loop linesAround (take (nat i) rest) (int (length (take (nat i) rest)) - 1) (ls @ [drop (nat i + 1) rest])
          else if i = 0 then Ok (ls @ [rest])
          else before_loop linesAround rest (i - 1) ls)
      else Ok ls)"
  by pat_completeness auto
termination by (relation "measure (\<lambda>(n, r, i, ls). nat (i + 1))") auto

definition beforeLines :: "byte list \<Rightarrow> nat \<Rightarrow> nat \<Rightarrow> ('e, byte list list) outcome" where
  "beforeLines document offset linesAround =
     (if length document < offset then Panic
      else let rest = take offset document in before_loop linesAround rest (int (length rest) - 1) [])"

function after_loop :: "nat \<Rightarrow> byte list \<Rightarrow> nat \<Rightarrow> byte list list \<Rightarrow> byte list list" where
  "after_loop linesAround rest i ls =
     (if i < length rest \<and> length ls \<le> linesAround then
        if rest ! i = c_nl then after_loop linesAround (drop (i + 1) rest) 0 (ls @ [take i rest])
        else if i = length rest - 1 then ls @ [rest]
        else after_loop linesAround rest (i + 1) ls
      else ls)"
  by pat_completeness auto
termination by (relation "measures [\<lambda>(n, r, i, ls). length r, \<lambda>(n, r, i, ls). length r - i]") auto

declare before_loop.simps [simp del] after_loop.simps [simp del]

definition afterLines :: "byte list \<Rightarrow> byte list \<Rightarrow> nat \<Rightarrow> nat \<Rightarrow> ('e, byte list list) outcome" where
  "afterLines document highlight offset linesAround =
     (if length document < offset + length highlight then Panic
      else Ok (after_loop linesAround (drop (offset + length highlight) document) 0 []))"

definition linesOfContext ::
    "byte list \<Rightarrow> byte list \<Rightarrow> nat \<Rightarrow> nat \<Rightarrow> ('e, byte list list \<times> byte list list) outcome" where
  "linesOfContext document highlight offset linesAround =
     bind_outcome (beforeLines document offset linesAround) (\<lambda>b.
     bind_outcome (afterLines document highlight offset linesAround) (\<lambda>a. Ok (b, a)))"

text \<open>A line of context, after its number.\<close>

definition context_line :: "int \<Rightarrow> nat \<Rightarrow> byte list \<Rightarrow> string" where
  "context_line ln width l = formatLineNumber ln width @ ''|'' @ (if 0 < length l then c_sp # l else [])"

text \<open>The lines strictly before the error, from the farthest to the nearest.\<close>

fun context_before :: "int \<Rightarrow> nat \<Rightarrow> byte list list \<Rightarrow> nat \<Rightarrow> string" where
  "context_before errLine width before 0 = []"
| "context_before errLine width before (Suc i) =
     context_line (errLine - int (Suc i)) width (before ! Suc i) @ [c_nl] @ context_before errLine width before i"

text \<open>The lines strictly after the error.\<close>

fun context_after :: "int \<Rightarrow> nat \<Rightarrow> nat \<Rightarrow> byte list list \<Rightarrow> string" where
  "context_after errLine width i [] = []"
| "context_after errLine width i (l # ls) =
     c_nl # context_line (errLine + int i) width l @ context_after errLine width (i + 1) ls"

definition wrapDecodeError :: "(ParserError \<Rightarrow> string) \<Rightarrow> slice \<Rightarrow> ParserError \<Rightarrow> ('e, DecodeError) outcome" where
  "wrapDecodeError Error document de =
     bind_outcome (SubsliceOffset document (Highlight de)) (\<lambda>offset.
     let errMessage = Error de;
         hl = bytes (Highlight de);
         (errLine, errColumn) = positionAtEnd (take offset (bytes document)) in
     bind_outcome (linesOfContext (bytes document) hl offset 3) (\<lambda>(before, after).
     let maxLine = errLine + int (length after) - 1;
         lineColumnWidth = length (Itoa maxLine);
         buf = context_before errLine lineColumnWidth before (length before - 1)
           @ formatLineNumber errLine lineColumnWidth @ ''| ''
           @ (if 0 < length before then before ! 0 else [])
           @ hl
           @ (if 0 < length after then after ! 0 else []) @ [c_nl]
           @ replicate lineColumnWidth c_sp @ ''| ''
           @ (if 0 < length before then replicate (length (before ! 0)) c_sp else [])
           @ replicate (length hl) CHR ''~''
           @ (if 0 < length errMessage then c_sp # errMessage else [])
           @ context_after errLine lineColumnWidth 1 (drop 1 after) in
     Ok \<lparr>message = errMessage, line = errLine, column = errColumn, err_key = err_Key de, human = buf\<rparr>))"

section \<open>Lines\<close>

text \<open>The lines of a text: at least one, separated by line feeds.\<close>

fun lines :: "byte list \<Rightarrow> byte list list" where
  "lines [] = [[]]"
| "lines (c # cs) = (if c = c_nl then [] # lines cs else (c # hd (lines cs)) # tl (lines cs))"

lemma lines_nonempty [simp]: "lines xs \<noteq> []"
  by (induction xs) auto

lemma lines_no_nl: "c_nl \<notin> set xs \<Longrightarrow> lines xs = [xs]"
  by (induction xs) auto

lemma lines_append: "lines (xs @ c_nl # ys) = lines xs @ lines ys"
  by (induction xs) auto

lemma lines_snoc: "c_nl \<notin> set ys \<Longrightarrow> lines (xs @ c_nl # ys) = lines xs @ [ys]"
  by (simp add: lines_append lines_no_nl)

lemma lines_Cons: "c_nl \<notin> set xs \<Longrightarrow> lines (xs @ c_nl # ys) = xs # lines ys"
  by (simp add: lines_append lines_no_nl)

lemma hd_lines: "hd (lines xs) = takeWhile (\<lambda>c. c \<noteq> c_nl) xs"
  by (induction xs) auto

text \<open>The loops leave out an empty line at the end of their walk.\<close>

definition strip_end :: "byte list list \<Rightarrow> byte list list" where
  "strip_end ls = (if last ls = [] then butlast ls else ls)"

lemma strip_end_Cons: "ls \<noteq> [] \<Longrightarrow> strip_end (l # ls) = l # strip_end ls"
  by (simp add: strip_end_def)

lemma before_loop_lines:
  assumes "c_nl \<notin> set S" "P = [] \<longrightarrow> S = []" "length ls \<le> n + 1"
  shows "before_loop n (P @ S) (int (length P) - 1) ls =
    (Ok (ls @ take (n + 1 - length ls) (strip_end (rev (lines (P @ S))))) :: ('e, _) outcome)"
  using assms
proof (induction "length P" arbitrary: P S ls rule: less_induct)
  case less
  note U = before_loop.simps [of n "P @ S" "int (length P) - 1" ls]
  show ?case
  proof (cases "P = [] \<or> length ls = n + 1")
    case True
    then show ?thesis using less.prems unfolding U by (auto simp: strip_end_def)
  next
    case False
    then obtain P' c where P: "P = P' @ [c]" by (metis rev_exhaust)
    have ls: "length ls \<le> n" using False less.prems(3) by auto
    have ix: "idx (P @ S) (nat (int (length P) - 1)) = (Ok c :: ('e, _) outcome)" by (simp add: P nth_append)
    have enter: "0 \<le> int (length P) - 1 \<and> length ls \<le> n \<and> 0 < length (P @ S)" using ls by (simp add: P)
    consider "c = c_nl" | "c \<noteq> c_nl" "P' = []" | "c \<noteq> c_nl" "P' \<noteq> []" by blast
    then show ?thesis
    proof cases
      case 1
      have "before_loop n P' (int (length P') - 1) (ls @ [S]) =
          (Ok ((ls @ [S]) @ take (n + 1 - length (ls @ [S])) (strip_end (rev (lines P')))) :: ('e, _) outcome)"
        using less.hyps [of P' "[]" "ls @ [S]"] ls by (simp add: P)
      moreover have "strip_end (rev (lines (P @ S))) = S # strip_end (rev (lines P'))"
        using 1 less.prems(1) by (simp add: P lines_snoc strip_end_Cons)
      moreover have "n + 1 - length ls = Suc (n + 1 - length (ls @ [S]))" using ls by simp
      ultimately show ?thesis unfolding U if_P [OF enter] ix bind_outcome.simps using 1 by (simp add: P)
    next
      case 2
      then have "lines (P @ S) = [P @ S]" using less.prems(1) by (intro lines_no_nl) (simp add: P)
      then show ?thesis unfolding U if_P [OF enter] ix bind_outcome.simps using 2 ls by (simp add: P strip_end_def)
    next
      case 3
      then have "before_loop n (P' @ c # S) (int (length P') - 1) ls =
          (Ok (ls @ take (n + 1 - length ls) (strip_end (rev (lines (P' @ c # S))))) :: ('e, _) outcome)"
        using less.hyps [of P' "c # S" ls] less.prems by (auto simp: P)
      then show ?thesis unfolding U if_P [OF enter] ix bind_outcome.simps using 3 by (simp add: P)
    qed
  qed
qed

lemma beforeLines_lines:
  assumes "offset \<le> length document"
  shows "beforeLines document offset n = Ok (take (n + 1) (strip_end (rev (lines (take offset document)))))"
  using before_loop_lines [of "[]" "take offset document" "[]" n] assms by (simp add: beforeLines_def Let_def)

lemma after_loop_lines:
  assumes "c_nl \<notin> set S" "Q = [] \<longrightarrow> S = []" "length ls \<le> n + 1"
  shows "after_loop n (S @ Q) (length S) ls = ls @ take (n + 1 - length ls) (strip_end (lines (S @ Q)))"
  using assms
proof (induction "length Q" arbitrary: Q S ls rule: less_induct)
  case less
  note U = after_loop.simps [of n "S @ Q" "length S" ls]
  show ?case
  proof (cases "Q = [] \<or> length ls = n + 1")
    case True
    then show ?thesis using less.prems unfolding U by (auto simp: strip_end_def)
  next
    case False
    then obtain c Q' where Q: "Q = c # Q'" by (cases Q) auto
    have ls: "length ls \<le> n" using False less.prems(3) by auto
    have enter: "length S < length (S @ Q) \<and> length ls \<le> n" using ls by (simp add: Q)
    have ix: "(S @ Q) ! length S = c" by (simp add: Q)
    consider "c = c_nl" | "c \<noteq> c_nl" "Q' = []" | "c \<noteq> c_nl" "Q' \<noteq> []" by blast
    then show ?thesis
    proof cases
      case 1
      have "after_loop n Q' 0 (ls @ [S]) = (ls @ [S]) @ take (n + 1 - length (ls @ [S])) (strip_end (lines Q'))"
        using less.hyps [of Q' "[]" "ls @ [S]"] ls by (simp add: Q)
      moreover have "strip_end (lines (S @ Q)) = S # strip_end (lines Q')"
        using 1 less.prems(1) by (simp add: Q lines_Cons strip_end_Cons)
      moreover have "n + 1 - length ls = Suc (n + 1 - length (ls @ [S]))" using ls by simp
      ultimately show ?thesis unfolding U if_P [OF enter] ix using 1 by (simp add: Q)
    next
      case 2
      then have "lines (S @ Q) = [S @ Q]" using less.prems(1) by (intro lines_no_nl) (simp add: Q)
      then show ?thesis unfolding U if_P [OF enter] ix using 2 ls by (simp add: Q strip_end_def)
    next
      case 3
      then have "after_loop n ((S @ [c]) @ Q') (length (S @ [c])) ls =
          ls @ take (n + 1 - length ls) (strip_end (lines ((S @ [c]) @ Q')))"
        using less.hyps [of Q' "S @ [c]" ls] less.prems by (auto simp: Q)
      then show ?thesis unfolding U if_P [OF enter] ix using 3 by (simp add: Q)
    qed
  qed
qed

lemma afterLines_lines:
  assumes "offset + length hl \<le> length document"
  shows "afterLines document hl offset n = Ok (take (n + 1) (strip_end (lines (drop (offset + length hl) document))))"
  using after_loop_lines [of "[]" "drop (offset + length hl) document" "[]" n] assms by (simp add: afterLines_def)

section \<open>Positions\<close>

lemma tl_lines: "c_nl \<in> set xs \<Longrightarrow> tl (lines xs) \<noteq> [] \<and> last (tl (lines xs)) = last (lines xs)"
  by (auto simp: lines_Cons dest!: split_list_first)

lemma position_loop_lines:
  "position_loop r c xs = (r + int (count_list xs c_nl), (if c_nl \<in> set xs then 1 else c) + int (length (last (lines xs))))"
proof (induction xs arbitrary: r c)
  case (Cons x xs)
  then show ?case using tl_lines [of xs] by (cases "c_nl \<in> set xs") (auto simp: lines_no_nl)
qed simp

lemma positionAtEnd_lines:
  "positionAtEnd xs = (1 + int (count_list xs c_nl), 1 + int (length (last (lines xs))))"
  by (simp add: positionAtEnd_def position_loop_lines)

lemma LastIndex_lines: "int (length xs) - LastIndex xs c_nl = 1 + int (length (last (lines xs)))"
proof (cases "c_nl \<in> set xs")
  case True
  then obtain a b where "xs = a @ c_nl # b" "c_nl \<notin> set b" using split_list_last by fast
  then show ?thesis by (simp add: LastIndex_append lines_snoc)
next
  case False
  then show ?thesis by (simp add: LastIndex_none lines_no_nl)
qed

lemma SubsliceOffset_window:
  assumes "subslice b d" "s_len d \<le> maxInt"
  shows "SubsliceOffset d b = Ok (addr b - addr d)"
  using assms by (auto simp: SubsliceOffset_def subslice_def Let_def)

text \<open>
  C19. The two ways in which the package computes a position agree: what \<open>Parser.position\<close> finds
  with \<open>bytes.Count\<close> and \<open>bytes.LastIndex\<close> is the row and column that \<open>positionAtEnd\<close> of
  \<open>errors.go\<close> counts byte by byte.
\<close>

theorem positionAtEnd_position:
  assumes "subslice b (p_data p)" "s_len (p_data p) \<le> maxInt"
  shows "\<exists>pos. position p b = Ok pos \<and>
    positionAtEnd (take (p_Offset pos) (bytes (p_data p))) = (int (Line pos), Column pos)"
  using LastIndex_lines [of "take (addr b - addr (p_data p)) (bytes (p_data p))"]
  by (simp add: position_def SubsliceOffset_window [OF assms] Let_def positionAtEnd_lines)

theorem positionAtEnd_position_witness:
  "\<exists>p b pos. p_data p = Slice 5 (''a=1'' @ [c_nl] @ ''bc=2'') \<and> bytes b = ''=2'' \<and> position p b = Ok pos \<and>
    positionAtEnd (take (p_Offset pos) (bytes (p_data p))) = (int (Line pos), Column pos)"
proof -
  define p where "p = \<lparr>p_data = Slice 5 (''a=1'' @ [c_nl] @ ''bc=2''), p_builder = \<lparr>nodes = [], lastIdx = 0\<rparr>,
    p_ref = 0, p_left = Slice 0 [], p_err = None, p_first = False, KeepComments = True\<rparr>"
  have "subslice (Slice 11 ''=2'') (p_data p)" "s_len (p_data p) \<le> maxInt"
    by (simp_all add: p_def subslice_def maxInt_def)
  from positionAtEnd_position [OF this] show ?thesis
    by (intro exI [of _ p] exI [of _ "Slice 11 ''=2''"]) (simp add: p_def)
qed

section \<open>The human-readable error\<close>

lemma before_head:
  assumes "pre = [] \<or> last pre = c_nl" "c_nl \<notin> set l1"
  shows "let ls = take (Suc n) (strip_end (rev (lines (pre @ l1)))) in (if 0 < length ls then ls ! 0 else []) = l1"
proof (cases "pre = []")
  case True
  then show ?thesis using assms(2) by (simp add: lines_no_nl strip_end_def)
next
  case False
  then obtain pre' where "pre = pre' @ [c_nl]" using assms(1) by (metis append_butlast_last_id)
  then show ?thesis using assms(2) by (simp add: lines_snoc strip_end_Cons)
qed

lemma after_head:
  assumes "post = [] \<or> hd post = c_nl" "c_nl \<notin> set l2"
  shows "let ls = take (Suc n) (strip_end (lines (l2 @ post))) in (if 0 < length ls then ls ! 0 else []) = l2"
proof (cases post)
  case Nil
  then show ?thesis using assms(2) by (simp add: lines_no_nl strip_end_def)
next
  case (Cons c post')
  then show ?thesis using assms by (simp add: lines_Cons strip_end_Cons)
qed

lemma last_line:
  assumes "pre = [] \<or> last pre = c_nl" "c_nl \<notin> set l1"
  shows "last (lines (pre @ l1)) = l1" "count_list (pre @ l1) c_nl = count_list pre c_nl"
proof -
  show "last (lines (pre @ l1)) = l1"
  proof (cases "pre = []")
    case False
    then obtain pre' where "pre = pre' @ [c_nl]" using assms(1) by (metis append_butlast_last_id)
    then show ?thesis using assms(2) by (simp add: lines_snoc)
  qed (use assms(2) in \<open>simp add: lines_no_nl\<close>)
  show "count_list (pre @ l1) c_nl = count_list pre c_nl" using assms(2) by (simp add: count_list_0_iff)
qed

lemma wrapDecodeError_text:
  assumes doc: "bytes document = pre @ l1 @ hl @ l2 @ post" "s_len document \<le> maxInt"
    and de: "Highlight de = Slice (addr document + length pre + length l1) hl"
    and pre: "pre = [] \<or> last pre = c_nl" "c_nl \<notin> set l1"
    and post: "post = [] \<or> hd post = c_nl" "c_nl \<notin> set l2"
  shows "let n = int (count_list pre c_nl) + 1;
      before = take 4 (strip_end (rev (lines (pre @ l1))));
      after = take 4 (strip_end (lines (l2 @ post)));
      w = length (Itoa (n + int (length after) - 1)) in
    wrapDecodeError Error document de = (Ok \<lparr>message = Error de, line = n, column = int (length l1) + 1, err_key = err_Key de,
      human = context_before n w before (length before - 1) @
        formatLineNumber n w @ ''| '' @ l1 @ hl @ l2 @ [c_nl] @
        replicate w c_sp @ ''| '' @ replicate (length l1) c_sp @ replicate (length hl) CHR ''~'' @
        (if Error de = [] then [] else c_sp # Error de) @
        context_after n w 1 (drop 1 after)\<rparr> :: ('e, DecodeError) outcome)"
proof -
  let ?o = "length pre + length l1"
  have "subslice (Highlight de) document" using doc(1) de by (auto simp: subslice_def)
  then have o: "SubsliceOffset document (Slice (addr document + length pre + length l1) hl) = (Ok ?o :: ('e, nat) outcome)"
    using SubsliceOffset_window doc(2) de by fastforce
  have d: "take ?o (bytes document) = pre @ l1" "drop (?o + length hl) (bytes document) = l2 @ post"
    "?o + length hl \<le> length (bytes document)" by (simp_all add: doc(1))
  define before after where
    "before = take 4 (strip_end (rev (lines (pre @ l1))))" and "after = take 4 (strip_end (lines (l2 @ post)))"
  note defs = before_def [symmetric] after_def [symmetric]
  have ctx: "linesOfContext (bytes document) hl ?o 3 = (Ok (before, after) :: ('e, _) outcome)"
    using d by (simp add: linesOfContext_def beforeLines_lines afterLines_lines defs)
  have pos: "positionAtEnd (pre @ l1) = (int (count_list pre c_nl) + 1, int (length l1) + 1)"
    using last_line [OF pre] by (simp add: positionAtEnd_lines)
  have h: "(if 0 < length before then before ! 0 else []) = l1" "(if 0 < length after then after ! 0 else []) = l2"
    using before_head [OF pre, of 3] after_head [OF post, of 3] by (simp_all add: defs Let_def)
  have r: "(if 0 < length before then replicate (length (before ! 0)) c_sp else []) = replicate (length l1) c_sp"
    using h(1) by (auto split: if_splits)
  show ?thesis
    unfolding wrapDecodeError_def o bind_outcome.simps Let_def defs de slice.sel d(1) pos ctx prod.case h r by simp
qed

lemma lines_before: "\<forall>l \<in> set bs. c_nl \<notin> set l \<Longrightarrow> c_nl \<notin> set l1 \<Longrightarrow> lines (concat (map (\<lambda>l. l @ [c_nl]) bs) @ l1) = bs @ [l1]"
  by (induction bs) (simp_all add: lines_no_nl lines_Cons)

lemma lines_after: "\<forall>l \<in> set qs. c_nl \<notin> set l \<Longrightarrow> c_nl \<notin> set l2 \<Longrightarrow> lines (l2 @ concat (map (\<lambda>l. c_nl # l) qs)) = l2 # qs"
  by (induction qs arbitrary: l2) (simp_all add: lines_no_nl lines_Cons)

lemma count_before: "\<forall>l \<in> set bs. c_nl \<notin> set l \<Longrightarrow> count_list (concat (map (\<lambda>l. l @ [c_nl]) bs)) c_nl = length bs"
  by (induction bs) (simp_all add: count_list_0_iff)

text \<open>
  The lines around the error that are shown: at most three on each side, and neither the first line of the
  document nor what follows its last line feed if that is empty.
\<close>

definition shown_before :: "byte list list \<Rightarrow> byte list list" where
  "shown_before bs = (if bs \<noteq> [] \<and> length bs \<le> 3 \<and> hd bs = [] then tl bs else drop (length bs - 3) bs)"

definition shown_after :: "byte list list \<Rightarrow> byte list list" where
  "shown_after qs = (if qs \<noteq> [] \<and> length qs \<le> 3 \<and> last qs = [] then butlast qs else take 3 qs)"

text \<open>A number right-aligned in a column, and a numbered line.\<close>

definition aligned :: "nat \<Rightarrow> nat \<Rightarrow> string" where
  "aligned w j = replicate (w - length (utoa j)) c_sp @ utoa j"

definition numbered :: "nat \<Rightarrow> nat \<times> byte list \<Rightarrow> string" where
  "numbered w = (\<lambda>(j, l). aligned w j @ (if l = [] then ''|'' else ''| '' @ l))"

lemma Itoa_int: "Itoa (int j) = utoa j"
  by (simp add: Itoa_def)

lemma context_line_numbered: "context_line (int j) w l = numbered w (j, l)"
  by (simp add: context_line_def numbered_def formatLineNumber_def Sprintf_d_def aligned_def Itoa_def)

lemma context_before_append: "i < length xs \<Longrightarrow> context_before n w (xs @ ys) i = context_before n w xs i"
  by (induction i) (simp_all add: nth_append)

lemma context_before_rows:
  "length zs < n \<Longrightarrow> context_before (int n) w (x # zs) (length zs) =
     concat (map (\<lambda>r. numbered w r @ [c_nl]) (enumerate (n - length zs) (rev zs)))"
proof (induction zs rule: rev_induct)
  case (snoc z zs)
  have c: "context_before (int n) w (x # zs @ [z]) (length zs) = context_before (int n) w (x # zs) (length zs)"
    using context_before_append [of "length zs" "x # zs" "int n" w "[z]"] by simp
  have "int n - int (Suc (length zs)) = int (n - Suc (length zs))" using snoc.prems by simp
  then have "context_line (int n - int (Suc (length zs))) w z = numbered w (n - Suc (length zs), z)"
    by (simp only: context_line_numbered)
  moreover have "Suc (n - Suc (length zs)) = n - length zs" using snoc.prems by simp
  ultimately show ?case using snoc c by (simp add: nth_append del: of_nat_Suc)
qed simp

lemma context_after_rows:
  "context_after (int n) w i ls = concat (map (\<lambda>r. c_nl # numbered w r) (enumerate (n + i) ls))"
proof (induction ls arbitrary: i)
  case (Cons l ls)
  have "int n + int i = int (n + i)" by simp
  with Cons show ?case by (simp only: context_after.simps context_line_numbered enumerate_simps list.map concat.simps) simp
qed simp

lemma before_shown:
  "context_before (int (length bs + 1)) w (take 4 (strip_end (rev (bs @ [l1])))) (length (take 4 (strip_end (rev (bs @ [l1])))) - 1) =
   concat (map (\<lambda>r. numbered w r @ [c_nl]) (enumerate (length bs + 1 - length (shown_before bs)) (shown_before bs)))"
proof (cases "bs = []")
  case True
  then show ?thesis by (simp add: strip_end_def shown_before_def)
next
  case False
  have "strip_end (rev bs) = rev (if hd bs = [] then tl bs else bs)"
    using False by (cases bs) (auto simp: strip_end_def)
  moreover have "take 3 (rev (if hd bs = [] then tl bs else bs)) = rev (shown_before bs)"
    using False by (cases bs) (auto simp: shown_before_def take_rev Suc_diff_le drop_Cons')
  ultimately have e: "take 4 (strip_end (rev (bs @ [l1]))) = l1 # rev (shown_before bs)"
    using False by (simp add: strip_end_Cons)
  have "length (shown_before bs) \<le> length bs" by (auto simp: shown_before_def)
  then show ?thesis using context_before_rows [of "rev (shown_before bs)" "length bs + 1" w l1] unfolding e by simp
qed

lemma after_shown:
  "drop 1 (take 4 (strip_end (l2 # qs))) = shown_after qs"
  "length (take 4 (strip_end (l2 # qs))) = (if l2 = [] \<and> qs = [] then 0 else length (shown_after qs) + 1)"
proof -
  have e: "take 3 (strip_end qs) = shown_after qs" if "qs \<noteq> []"
    using that by (auto simp: strip_end_def shown_after_def take_butlast)
  show "drop 1 (take 4 (strip_end (l2 # qs))) = shown_after qs"
    using e by (cases "qs = []") (auto simp: strip_end_Cons, auto simp: strip_end_def shown_after_def)
  show "length (take 4 (strip_end (l2 # qs))) = (if l2 = [] \<and> qs = [] then 0 else length (shown_after qs) + 1)"
  proof (cases "qs = []")
    case False
    then have "take 4 (strip_end (l2 # qs)) = l2 # shown_after qs" using e by (simp add: strip_end_Cons)
    with False show ?thesis by simp
  qed (auto simp: strip_end_def shown_after_def)
qed

lemma length_utoa_mono: "m \<le> n \<Longrightarrow> length (utoa m) \<le> length (utoa n)"
proof (induction n arbitrary: m rule: less_induct)
  case (less n)
  show ?case
  proof (cases "m < 10")
    case True
    then show ?thesis by (simp add: utoa.simps [of m] utoa.simps [of n])
  next
    case False
    then have "length (utoa (m div 10)) \<le> length (utoa (n div 10))" using less.prems by (intro less.IH) (auto simp: div_le_mono)
    then show ?thesis using False less.prems by (simp add: utoa.simps [of m] utoa.simps [of n])
  qed
qed

lemma aligned_length: "length (aligned w j) = max w (length (utoa j))"
  by (simp add: aligned_def)

text \<open>
  C18. \<open>wrapDecodeError\<close> shows the error where it is. Let the document consist of the lines \<open>bs\<close>, each with its
  line feed, then \<open>l1\<close>, the highlighted bytes \<open>hl\<close> and the rest \<open>l2\<close> of their line, and then the lines \<open>qs\<close>, each
  after a line feed. Then no panic occurs, and the error carries the number of the line and the column of \<open>hl\<close>. Its text
  is made of up to three lines before, the line of the error, a line with tildes and the message, and up to three lines
  after. Every line of the document has its own number, right-aligned to the width \<open>w\<close>, which is that of the last number shown,
  or that of the number before the error's if the document ends with \<open>hl\<close>. The tildes come after \<open>w\<close> blanks, the bar
  and as many blanks as \<open>l1\<close> has bytes, while \<open>hl\<close> comes after the number, the bar and \<open>l1\<close>: the tildes are exactly
  below \<open>hl\<close> if and only if the number is as wide as \<open>w\<close>, and it is, except at the end of the document where the number of the
  line has one digit more than the one before (line 10, 100 and so on).
\<close>

theorem wrapDecodeError_line:
  assumes doc: "bytes document = concat (map (\<lambda>l. l @ [c_nl]) bs) @ l1 @ hl @ l2 @ concat (map (\<lambda>l. c_nl # l) qs)"
      "s_len document \<le> maxInt"
    and de: "Highlight de = Slice (addr document + length (concat (map (\<lambda>l. l @ [c_nl]) bs)) + length l1) hl"
    and nl: "\<forall>l \<in> set (l1 # l2 # bs @ qs). c_nl \<notin> set l"
  shows "let n = length bs + 1; b = shown_before bs; a = shown_after qs;
      w = length (utoa (if l2 = [] \<and> qs = [] then n - 1 else n + length a)) in
    wrapDecodeError Error document de = (Ok \<lparr>message = Error de, line = int n, column = int (length l1) + 1, err_key = err_Key de,
      human = concat (map (\<lambda>r. numbered w r @ [c_nl]) (enumerate (n - length b) b)) @
        aligned w n @ ''| '' @ l1 @ hl @ l2 @ [c_nl] @
        replicate w c_sp @ ''| '' @ replicate (length l1) c_sp @ replicate (length hl) CHR ''~'' @
        (if Error de = [] then [] else c_sp # Error de) @
        concat (map (\<lambda>r. c_nl # numbered w r) (enumerate (n + 1) a))\<rparr> :: ('e, DecodeError) outcome) \<and>
    (length (aligned w n) = w) = (l2 \<noteq> [] \<or> qs \<noteq> [] \<or> length (utoa (n - 1)) = length (utoa n))"
proof -
  let ?pre = "concat (map (\<lambda>l. l @ [c_nl]) bs)" and ?post = "concat (map (\<lambda>l. c_nl # l) qs)"
  let ?n = "length bs + 1" and ?b = "shown_before bs" and ?a = "shown_after qs"
  define w where "w = length (utoa (if l2 = [] \<and> qs = [] then ?n - 1 else ?n + length ?a))"
  have pre: "?pre = [] \<or> last ?pre = c_nl" by (cases bs rule: rev_cases) auto
  have post: "?post = [] \<or> hd ?post = c_nl" by (cases qs) auto
  have nl1: "c_nl \<notin> set l1" "c_nl \<notin> set l2" "\<forall>l \<in> set bs. c_nl \<notin> set l" "\<forall>l \<in> set qs. c_nl \<notin> set l" using nl by auto
  note T = wrapDecodeError_text [OF doc de pre nl1(1) post nl1(2), of Error, where 'e = 'e]
  have n: "int (count_list ?pre c_nl) + 1 = int ?n" using count_before [OF nl1(3)] by simp
  have "length (Itoa (int ?n + int (length ?a + 1) - 1)) = length (utoa (?n + length ?a))"
    using Itoa_int [of "?n + length ?a"] by (simp add: algebra_simps)
  moreover have "length (Itoa (int ?n + int 0 - 1)) = length (utoa (?n - 1))"
    using Itoa_int [of "length bs"] by simp
  ultimately have W: "length (Itoa (int ?n + int (length (take 4 (strip_end (l2 # qs)))) - 1)) = w"
    unfolding after_shown(2) w_def by (simp add: algebra_simps)
  have f: "formatLineNumber (int ?n) w = aligned w ?n"
    by (simp only: formatLineNumber_def Sprintf_d_def aligned_def Itoa_int)
  have "wrapDecodeError Error document de = (Ok \<lparr>message = Error de, line = int ?n, column = int (length l1) + 1, err_key = err_Key de,
      human = concat (map (\<lambda>r. numbered w r @ [c_nl]) (enumerate (?n - length ?b) ?b)) @
        aligned w ?n @ ''| '' @ l1 @ hl @ l2 @ [c_nl] @
        replicate w c_sp @ ''| '' @ replicate (length l1) c_sp @ replicate (length hl) CHR ''~'' @
        (if Error de = [] then [] else c_sp # Error de) @
        concat (map (\<lambda>r. c_nl # numbered w r) (enumerate (?n + 1) ?a))\<rparr> :: ('e, DecodeError) outcome)"
    using T unfolding lines_before [OF nl1(3,1)] lines_after [OF nl1(4,2)] n Let_def W f before_shown after_shown(1) context_after_rows .
  moreover have "(length (aligned w ?n) = w) = (l2 \<noteq> [] \<or> qs \<noteq> [] \<or> length (utoa (?n - 1)) = length (utoa ?n))"
    using length_utoa_mono [of "?n" "?n + length ?a"] length_utoa_mono [of "?n - 1" "?n"]
    unfolding aligned_length w_def by (auto simp: max_def)
  ultimately show ?thesis unfolding Let_def w_def by blast
qed

theorem wrapDecodeError_line_witness:
  "\<exists>e. wrapDecodeError (\<lambda>_. ''bad value'') (Slice 10 (''a=1'' @ [c_nl] @ ''b=?'' @ [c_nl] @ ''c=3''))
      (NewParserError (Slice 16 ''?'') ''bad value'' []) = (Ok e :: (unit, _) outcome) \<and> line e = 2 \<and> column e = 3 \<and>
      human e = ''1| a=1'' @ [c_nl] @ ''2| b=?'' @ [c_nl] @ '' |   ~ bad value'' @ [c_nl] @ ''3| c=3''"
proof -
  have u: "utoa (Suc 0) = ''1''" "utoa 1 = ''1''" "utoa 2 = ''2''" "utoa 3 = ''3''" by code_simp+
  have r: "replicate 2 x = [x, x]" for x :: byte by (simp add: numeral_2_eq_2)
  show ?thesis
    using wrapDecodeError_line [of "Slice 10 (''a=1'' @ [c_nl] @ ''b=?'' @ [c_nl] @ ''c=3'')" "[''a=1'']" "''b=''" "''?''" "[]" "[''c=3'']"
        "NewParserError (Slice 16 ''?'') ''bad value'' []" "\<lambda>_. ''bad value''", where 'e = unit]
    by (simp add: maxInt_def Let_def shown_before_def shown_after_def numbered_def aligned_def u numeral_2_eq_2 [symmetric] r)
qed

end
