(* ===== verification/Toml_Tracker.thy ===== *)
theory Toml_Tracker
  imports Toml_Parser_Correct
begin

text \<open>
  \<open>utoml/internal/tracker\<close>: which keys a document has used so far (\<open>seen.go\<close>) and the key that is
  being processed (\<open>key.go\<close>). A node argument is the tree that the node array represents
  (\<open>repr\<close> in \<open>Toml_Ast\<close>), and a loop over its iterator is a recursion over the list of its
  children. \<open>SeenTracker\<close> keeps a tree in an array of entries, linked by first child and next
  sibling, with the free entries chained from the root entry; the loops along these links have
  fuel, since nothing in the types keeps the links from forming a cycle. The state after an error
  is not modelled: the decoder stops.
\<close>

section \<open>key.go\<close>

record KeyTracker =
  kt_k :: "string list"

text \<open>The parts of the key of a node: \<open>Node.Key()\<close>.\<close>

definition key_parts :: "toml \<Rightarrow> ('e, byte list list) outcome" where
  "key_parts node = (case t_kind node of
      KeyValue \<Rightarrow> (case t_subs node of [] \<Rightarrow> Panic | v # ks \<Rightarrow> Ok (map t_data ks))
    | Table \<Rightarrow> Ok (map t_data (t_subs node))
    | ArrayTable \<Rightarrow> Ok (map t_data (t_subs node))
    | _ \<Rightarrow> Panic)"

definition KeyTracker_reset :: "KeyTracker \<Rightarrow> KeyTracker" where
  "KeyTracker_reset t = t\<lparr>kt_k := []\<rparr>"

definition KeyTracker_Push :: "KeyTracker \<Rightarrow> toml \<Rightarrow> ('e, KeyTracker) outcome" where
  "KeyTracker_Push t node = bind_outcome (key_parts node) (\<lambda>ks. Ok (t\<lparr>kt_k := kt_k t @ ks\<rparr>))"

fun pop_loop :: "byte list list \<Rightarrow> string list \<Rightarrow> ('e, string list) outcome" where
  "pop_loop [] xs = Ok xs"
| "pop_loop (p # ps) xs = (if xs = [] then Panic else pop_loop ps (butlast xs))"

definition KeyTracker_Pop :: "KeyTracker \<Rightarrow> toml \<Rightarrow> ('e, KeyTracker) outcome" where
  "KeyTracker_Pop t node = bind_outcome (key_parts node) (\<lambda>ks.
     bind_outcome (pop_loop ks (kt_k t)) (\<lambda>xs. Ok (t\<lparr>kt_k := xs\<rparr>)))"

definition UpdateTable :: "KeyTracker \<Rightarrow> toml \<Rightarrow> ('e, KeyTracker) outcome" where
  "UpdateTable t node = KeyTracker_Push (KeyTracker_reset t) node"

definition UpdateArrayTable :: "KeyTracker \<Rightarrow> toml \<Rightarrow> ('e, KeyTracker) outcome" where
  "UpdateArrayTable t node = KeyTracker_Push (KeyTracker_reset t) node"

definition KeyTracker_Key :: "KeyTracker \<Rightarrow> string list" where
  "KeyTracker_Key t = kt_k t"

section \<open>seen.go\<close>

datatype keyKind = invalidKind | valueKind | tableKind | arrayTableKind

fun keyKind_String :: "keyKind \<Rightarrow> string" where
  "keyKind_String invalidKind = ''invalid''"
| "keyKind_String valueKind = ''value''"
| "keyKind_String tableKind = ''table''"
| "keyKind_String arrayTableKind = ''array table''"

record entry =
  e_child :: int
  e_next :: int
  e_name :: "byte list"
  e_kind :: keyKind
  explicit :: bool
  kv :: bool

text \<open>The slice of entries is \<open>nil\<close> exactly when it is empty.\<close>

record SeenTracker =
  entries :: "entry list"
  currentIdx :: int

text \<open>An error of \<open>fmt.Errorf\<close>: the format and its arguments.\<close>

datatype seen_error = Errorf string "string list"

definition zero_entry :: entry where
  "zero_entry = \<lparr>e_child = 0, e_next = 0, e_name = [], e_kind = invalidKind, explicit = False, kv = False\<rparr>"

definition SeenTracker_reset :: "SeenTracker \<Rightarrow> SeenTracker" where
  "SeenTracker_reset s =
     (let es = (if length (entries s) = 0 then [zero_entry] else take 1 (entries s)) in
      s\<lparr>currentIdx := 0, entries := [(es ! 0)\<lparr>e_child := -1, e_next := -1\<rparr>]\<rparr>)"

text \<open>Reading and writing \<open>s.entries[i]\<close>.\<close>

definition ent :: "entry list \<Rightarrow> int \<Rightarrow> ('e, entry) outcome" where
  "ent es i = (if 0 \<le> i \<and> i < int (length es) then Ok (es ! nat i) else Panic)"

definition set_ent :: "(entry \<Rightarrow> entry) \<Rightarrow> int \<Rightarrow> entry list \<Rightarrow> ('e, entry list) outcome" where
  "set_ent f i es = bind_outcome (ent es i) (\<lambda>e. Ok (es[nat i := f e]))"

fun find_loop :: "nat \<Rightarrow> entry list \<Rightarrow> int \<Rightarrow> byte list \<Rightarrow> ('e, int) outcome" where
  "find_loop 0 es i key = Fuel"
| "find_loop (Suc n) es i key =
     (if 0 \<le> i then
        bind_outcome (ent es i) (\<lambda>e. if e_name e = key then Ok i else find_loop n es (e_next e) key)
      else Ok (-1))"

definition find_key :: "entry list \<Rightarrow> int \<Rightarrow> byte list \<Rightarrow> ('e, int) outcome" where
  "find_key es parentIdx key = bind_outcome (ent es parentIdx) (\<lambda>e.
     find_loop (length es + 1) es (e_child e) key)"

fun clear :: "nat \<Rightarrow> entry list \<Rightarrow> int \<Rightarrow> ('e, entry list) outcome"
and clear_loop :: "nat \<Rightarrow> entry list \<Rightarrow> int \<Rightarrow> ('e, entry list) outcome" where
  "clear 0 es i = Fuel"
| "clear (Suc n) es i =
     (if int (length es) \<le> i then Ok es
      else bind_outcome (ent es i) (\<lambda>e.
           bind_outcome (clear_loop n es (e_child e)) (\<lambda>es. set_ent (\<lambda>e. e\<lparr>e_child := -1\<rparr>) i es)))"
| "clear_loop 0 es i = Fuel"
| "clear_loop (Suc n) es i =
     (if 0 \<le> i then
        bind_outcome (ent es i) (\<lambda>e.
        bind_outcome (ent es 0) (\<lambda>e0.
        bind_outcome (set_ent (\<lambda>e. e\<lparr>e_next := i\<rparr>) 0 es) (\<lambda>es.
        bind_outcome (set_ent (\<lambda>e. e\<lparr>e_next := e_next e0\<rparr>) i es) (\<lambda>es.
        bind_outcome (set_ent (\<lambda>e. e\<lparr>e_name := []\<rparr>) i es) (\<lambda>es.
        bind_outcome (clear n es i) (\<lambda>es. clear_loop n es (e_next e)))))))
      else Ok es)"

definition create ::
    "entry list \<Rightarrow> int \<Rightarrow> byte list \<Rightarrow> keyKind \<Rightarrow> bool \<Rightarrow> bool \<Rightarrow> ('e, entry list \<times> int) outcome" where
  "create es parentIdx key kd expl iskv =
     bind_outcome (ent es parentIdx) (\<lambda>p.
     bind_outcome (ent es 0) (\<lambda>e0.
     let e = \<lparr>e_child = -1, e_next = e_child p, e_name = key, e_kind = kd, explicit = expl, kv = iskv\<rparr> in
     bind_outcome
       (if 0 \<le> e_next e0 then
          let i = e_next e0 in
          bind_outcome (ent es i) (\<lambda>old.
          bind_outcome (set_ent (\<lambda>e. e\<lparr>e_next := e_next old\<rparr>) 0 es) (\<lambda>es.
          bind_outcome (set_ent (\<lambda>_. e) i es) (\<lambda>es. Ok (es, i))))
        else Ok (es @ [e], int (length es))) (\<lambda>(es, i).
     bind_outcome (set_ent (\<lambda>e. e\<lparr>e_child := i\<rparr>) parentIdx es) (\<lambda>es. Ok (es, i)))))"

fun setExplicitFlag :: "nat \<Rightarrow> entry list \<Rightarrow> int \<Rightarrow> ('e, entry list) outcome"
and flag_loop :: "nat \<Rightarrow> entry list \<Rightarrow> int \<Rightarrow> ('e, entry list) outcome" where
  "setExplicitFlag 0 es parentIdx = Fuel"
| "setExplicitFlag (Suc n) es parentIdx = bind_outcome (ent es parentIdx) (\<lambda>e. flag_loop n es (e_child e))"
| "flag_loop 0 es i = Fuel"
| "flag_loop (Suc n) es i =
     (if 0 \<le> i then
        bind_outcome (ent es i) (\<lambda>e.
        bind_outcome (if kv e then set_ent (\<lambda>e. e\<lparr>explicit := True, kv := False\<rparr>) i es else Ok es) (\<lambda>es.
        bind_outcome (setExplicitFlag n es i) (\<lambda>es.
        bind_outcome (ent es i) (\<lambda>e. flag_loop n es (e_next e)))))
      else Ok es)"

text \<open>Enough fuel for one walk over all entries.\<close>

definition walk_fuel :: "entry list \<Rightarrow> nat" where
  "walk_fuel es = 2 * length es + 2"

text \<open>
  The loop that \<open>checkTable\<close> and \<open>checkArrayTable\<close> share: all parts of the key but the last,
  which is returned. \<open>it.Node()\<close> after a loop over an empty key would be \<open>nil\<close>.
\<close>

fun parents_loop :: "entry list \<Rightarrow> int \<Rightarrow> byte list list \<Rightarrow> (seen_error, entry list \<times> int \<times> byte list) outcome" where
  "parents_loop es parentIdx [] = Panic"
| "parents_loop es parentIdx [key] = Ok (es, parentIdx, key)"
| "parents_loop es parentIdx (key # ks) =
     bind_outcome (find_key es parentIdx key) (\<lambda>i.
     if i < 0 then
       bind_outcome (create es parentIdx key tableKind False False) (\<lambda>(es, i). parents_loop es i ks)
     else
       bind_outcome (ent es i) (\<lambda>e.
       if e_kind e = valueKind then
         Err (Errorf ''toml: expected %s to be a table, not a %s'' [key, keyKind_String (e_kind e)])
       else parents_loop es i ks))"

text \<open>The first statement of both functions.\<close>

definition close_table :: "SeenTracker \<Rightarrow> (seen_error, entry list) outcome" where
  "close_table s = (if 0 \<le> currentIdx s then setExplicitFlag (walk_fuel (entries s)) (entries s) (currentIdx s)
     else Ok (entries s))"

text \<open>The last part of the key of a table header.\<close>

definition last_table ::
    "SeenTracker \<Rightarrow> entry list \<Rightarrow> int \<Rightarrow> byte list \<Rightarrow> (seen_error, bool \<times> SeenTracker) outcome" where
  "last_table s es parentIdx key =
     bind_outcome (find_key es parentIdx key) (\<lambda>i.
     if 0 \<le> i then
       bind_outcome (ent es i) (\<lambda>e.
       if e_kind e \<noteq> tableKind then
         Err (Errorf ''toml: key %s should be a table, not a %s'' [key, keyKind_String (e_kind e)])
       else if explicit e then Err (Errorf ''toml: table %s already exists'' [key])
       else bind_outcome (set_ent (\<lambda>e. e\<lparr>explicit := True\<rparr>) i es) (\<lambda>es.
         Ok (False, s\<lparr>entries := es, currentIdx := i\<rparr>)))
     else
       bind_outcome (create es parentIdx key tableKind True False) (\<lambda>(es, i).
         Ok (True, s\<lparr>entries := es, currentIdx := i\<rparr>)))"

definition checkTable :: "SeenTracker \<Rightarrow> toml \<Rightarrow> (seen_error, bool \<times> SeenTracker) outcome" where
  "checkTable s node =
     bind_outcome (close_table s) (\<lambda>es.
     bind_outcome (key_parts node) (\<lambda>ks.
     bind_outcome (parents_loop es 0 ks) (\<lambda>(es, parentIdx, key). last_table s es parentIdx key)))"

text \<open>The last part of the key of an array table header.\<close>

definition last_arrayTable ::
    "SeenTracker \<Rightarrow> entry list \<Rightarrow> int \<Rightarrow> byte list \<Rightarrow> (seen_error, bool \<times> SeenTracker) outcome" where
  "last_arrayTable s es parentIdx key =
     bind_outcome (find_key es parentIdx key) (\<lambda>i.
     if i < 0 then
       bind_outcome (create es parentIdx key arrayTableKind True False) (\<lambda>(es, i).
         Ok (True, s\<lparr>entries := es, currentIdx := i\<rparr>))
     else
       bind_outcome (ent es i) (\<lambda>e.
       if e_kind e \<noteq> arrayTableKind then
         Err (Errorf ''toml: key %s already exists as a %s,  but should be an array table'' [keyKind_String (e_kind e), key])
       else bind_outcome (clear (walk_fuel es) es i) (\<lambda>es.
         Ok (False, s\<lparr>entries := es, currentIdx := i\<rparr>))))"

definition checkArrayTable :: "SeenTracker \<Rightarrow> toml \<Rightarrow> (seen_error, bool \<times> SeenTracker) outcome" where
  "checkArrayTable s node =
     bind_outcome (close_table s) (\<lambda>es.
     bind_outcome (key_parts node) (\<lambda>ks.
     bind_outcome (parents_loop es 0 ks) (\<lambda>(es, parentIdx, key). last_arrayTable s es parentIdx key)))"

fun keyvalue_loop :: "entry list \<Rightarrow> int \<Rightarrow> byte list list \<Rightarrow> (seen_error, entry list \<times> int) outcome" where
  "keyvalue_loop es parentIdx [] = Ok (es, parentIdx)"
| "keyvalue_loop es parentIdx (key # ks) =
     bind_outcome (find_key es parentIdx key) (\<lambda>i.
     if i < 0 then
       bind_outcome (create es parentIdx key tableKind False True) (\<lambda>(es, i). keyvalue_loop es i ks)
     else
       bind_outcome (ent es i) (\<lambda>e.
       if ks = [] then Err (Errorf ''toml: key %s is already defined'' [key])
       else if e_kind e \<noteq> tableKind then
         Err (Errorf ''toml: expected %s to be a table, not a %s'' [key, keyKind_String (e_kind e)])
       else if explicit e then
         Err (Errorf ''toml: cannot redefine table %s that has already been explicitly defined'' [key])
       else keyvalue_loop es i ks))"

text \<open>
  The tracker that \<open>checkInlineTable\<close> takes from the pool and resets. One that was used before
  differs after the reset at most in the name, kind and flags of its root, which are never read.
\<close>

definition new_tracker :: SeenTracker where
  "new_tracker = SeenTracker_reset \<lparr>entries = [], currentIdx = 0\<rparr>"

text \<open>The part of \<open>checkKeyValue\<close> before the value is looked at.\<close>

definition define_key :: "SeenTracker \<Rightarrow> byte list list \<Rightarrow> (seen_error, SeenTracker) outcome" where
  "define_key s ks =
     bind_outcome (keyvalue_loop (entries s) (currentIdx s) ks) (\<lambda>(es, parentIdx).
     bind_outcome (set_ent (\<lambda>e. e\<lparr>e_kind := valueKind\<rparr>) parentIdx es) (\<lambda>es. Ok (s\<lparr>entries := es\<rparr>)))"

text \<open>
  \<open>checkArray\<close> and \<open>checkInlineTable\<close> take the children of their node and the named result \<open>first\<close>;
  \<open>checkArray\<close> does not use its tracker, and \<open>checkInlineTable\<close> is started on the pool's one.
\<close>

function (sequential) checkKeyValue :: "SeenTracker \<Rightarrow> toml \<Rightarrow> (seen_error, bool \<times> SeenTracker) outcome"
and checkArray :: "bool \<Rightarrow> toml list \<Rightarrow> (seen_error, bool) outcome"
and checkInlineTable :: "SeenTracker \<Rightarrow> bool \<Rightarrow> toml list \<Rightarrow> (seen_error, bool) outcome" where
  "checkKeyValue s (TNode kd d []) = Panic"
| "checkKeyValue s (TNode kd d (TNode vk vd vs # ks)) =
     bind_outcome (key_parts (TNode kd d (TNode vk vd vs # ks))) (\<lambda>ks.
     bind_outcome (define_key s ks) (\<lambda>s.
       if vk = InlineTable then bind_outcome (checkInlineTable new_tracker False vs) (\<lambda>b. Ok (b, s))
       else if vk = Array then bind_outcome (checkArray False vs) (\<lambda>b. Ok (b, s))
       else Ok (False, s)))"
| "checkArray b [] = Ok b"
| "checkArray b (TNode nk nd vs # ns) =
     (if nk = InlineTable then bind_outcome (checkInlineTable new_tracker False vs) (\<lambda>b. checkArray b ns)
      else if nk = Array then bind_outcome (checkArray False vs) (\<lambda>b. checkArray b ns)
      else checkArray b ns)"
| "checkInlineTable s b [] = Ok b"
| "checkInlineTable s b (n # ns) =
     bind_outcome (checkKeyValue s n) (\<lambda>(b, s). checkInlineTable s b ns)"
  by pat_completeness auto
termination
  by (relation "measure (case_sum (\<lambda>(s, t). size t) (case_sum (\<lambda>(b, ts). size_list size ts + 1) (\<lambda>(s, b, ts). size_list size ts + 1)))")
    auto

definition CheckExpression :: "SeenTracker \<Rightarrow> toml \<Rightarrow> (seen_error, bool \<times> SeenTracker) outcome" where
  "CheckExpression s node =
     (let s = (if entries s = [] then SeenTracker_reset s else s) in
      case t_kind node of
        KeyValue \<Rightarrow> checkKeyValue s node
      | Table \<Rightarrow> checkTable s node
      | ArrayTable \<Rightarrow> checkArrayTable s node
      | _ \<Rightarrow> Panic)"

end
