(* ===== verification/Toml_Tracker_Correct.thy ===== *)
theory Toml_Tracker_Correct
  imports Toml_Tracker
begin

text \<open>
  What the tracker of \<open>utoml/internal/tracker\<close> does. The entries of the array are related to a
  tree of keys that carries the index of each entry, and the tree to a map from paths to kinds
  and flags, on which the operations are specified. Each operation on the array, the recursive
  ones with their free list included, is shown to do to the tree what the specification does to
  the map; then the handlers follow by composition, and with them that no duplicate key is
  accepted.
\<close>

section \<open>The tree in the array\<close>

text \<open>
  The tree of keys, each with the index of its entry. \<open>in_store es t\<close>: the entries hold the tree
  \<open>t\<close>; the sibling link of its root is left open.
\<close>

datatype seen = Seen (s_idx: nat) (s_name: "byte list") (s_kind: keyKind) (s_explicit: bool) (s_kv: bool) (s_subs: "seen list")

definition head_idx :: "seen list \<Rightarrow> int" where
  "head_idx ts = (case ts of [] \<Rightarrow> -1 | t # _ \<Rightarrow> int (s_idx t))"

lemma head_idx_simps [simp]: "head_idx [] = -1" "head_idx (t # ts) = int (s_idx t)"
  by (simp_all add: head_idx_def)

fun siblings :: "entry list \<Rightarrow> seen list \<Rightarrow> bool" where
  "siblings es [] = True"
| "siblings es (t # ts) \<longleftrightarrow> e_next (es ! s_idx t) = head_idx ts \<and> siblings es ts"

definition holds :: "entry \<Rightarrow> seen \<Rightarrow> bool" where
  "holds e t \<longleftrightarrow> e_child e = head_idx (s_subs t) \<and> e_name e = s_name t \<and> e_kind e = s_kind t \<and>
     explicit e = s_explicit t \<and> kv e = s_kv t"

fun idxs :: "seen \<Rightarrow> nat list" where
  "idxs (Seen i n kd e v ts) = i # concat (map idxs ts)"

abbreviation idxss :: "seen list \<Rightarrow> nat list" where
  "idxss ts \<equiv> concat (map idxs ts)"

fun in_store :: "entry list \<Rightarrow> seen \<Rightarrow> bool" where
  "in_store es (Seen i n kd e v ts) \<longleftrightarrow>
     i < length es \<and> holds (es ! i) (Seen i n kd e v ts) \<and> siblings es ts \<and> (\<forall>t \<in> set ts. in_store es t)"

lemma s_idx_idxs [simp, intro]: "s_idx t \<in> set (idxs t)"
  by (cases t) simp

lemma idxs_def': "idxs t = s_idx t # idxss (s_subs t)"
  by (cases t) simp

lemma in_store_def':
  "in_store es t \<longleftrightarrow> s_idx t < length es \<and> holds (es ! s_idx t) t \<and> siblings es (s_subs t) \<and> (\<forall>u \<in> set (s_subs t). in_store es u)"
  by (cases t) simp

lemma in_store_bound: "in_store es t \<Longrightarrow> i \<in> set (idxs t) \<Longrightarrow> i < length es"
  by (induction t) auto

lemma siblings_frame: "siblings es ts \<Longrightarrow> \<forall>t \<in> set ts. e_next (es' ! s_idx t) = e_next (es ! s_idx t) \<Longrightarrow> siblings es' ts"
  by (induction ts) auto

lemma in_store_frame:
  "in_store es t \<Longrightarrow> length es \<le> length es' \<Longrightarrow> holds (es' ! s_idx t) t \<Longrightarrow>
   \<forall>i \<in> set (idxss (s_subs t)). es' ! i = es ! i \<Longrightarrow> in_store es' t"
proof (induction t)
  case (Seen i n kd e v ts)
  have "in_store es' u" if u: "u \<in> set ts" for u
  proof (rule Seen.IH [OF u])
    show "in_store es u" using Seen.prems(1) u by simp
    then show "holds (es' ! s_idx u) u" using Seen.prems(4) u by (cases u) auto
    show "\<forall>i \<in> set (idxss (s_subs u)). es' ! i = es ! i" using Seen.prems(4) u by (cases u) force
  qed (use Seen.prems in simp)
  moreover have "siblings es' ts"
    by (rule siblings_frame [of es]) (use Seen.prems in auto)
  ultimately show ?case using Seen.prems by simp
qed

lemma in_store_frame':
  "in_store es t \<Longrightarrow> length es \<le> length es' \<Longrightarrow> \<forall>i \<in> set (idxs t). es' ! i = es ! i \<Longrightarrow> in_store es' t"
  by (rule in_store_frame) (auto simp: idxs_def' [of t] in_store_def' [of es t])

text \<open>The chain of free entries, linked by \<open>e_next\<close> from pointer \<open>r\<close>.\<close>

fun chain :: "entry list \<Rightarrow> int \<Rightarrow> nat list \<Rightarrow> bool" where
  "chain es r [] \<longleftrightarrow> r = -1"
| "chain es r (i # is) \<longleftrightarrow> r = int i \<and> i < length es \<and> chain es (e_next (es ! i)) is"

lemma chain_frame: "chain es r is \<Longrightarrow> length es \<le> length es' \<Longrightarrow> \<forall>i \<in> set is. e_next (es' ! i) = e_next (es ! i) \<Longrightarrow> chain es' r is"
  by (induction "is" arbitrary: r) auto

lemma ent_ok [simp]: "i < length es \<Longrightarrow> ent es (int i) = Ok (es ! i)"
  by (simp add: ent_def)

lemma ent_0 [simp]: "es \<noteq> [] \<Longrightarrow> ent es 0 = Ok (es ! 0)"
  by (simp add: ent_def)

lemma set_ent_ok [simp]: "i < length es \<Longrightarrow> set_ent f (int i) es = Ok (es[i := f (es ! i)])"
  by (simp add: set_ent_def)

lemma set_ent_0 [simp]: "es \<noteq> [] \<Longrightarrow> set_ent f 0 es = Ok (es[0 := f (es ! 0)])"
  by (simp add: set_ent_def)

section \<open>Each operation on the array does what it does on the tree\<close>

lemma find_loop_ok:
  "siblings es ts \<Longrightarrow> \<forall>t \<in> set ts. in_store es t \<Longrightarrow> length ts < n \<Longrightarrow>
   find_loop n es (head_idx ts) key = Ok (case List.find (\<lambda>t. s_name t = key) ts of None \<Rightarrow> -1 | Some t \<Rightarrow> int (s_idx t))"
proof (induction ts arbitrary: n)
  case Nil
  then show ?case by (cases n) auto
next
  case (Cons t ts)
  then obtain m where "n = Suc m" by (cases n) auto
  then show ?case using Cons by (auto simp: in_store_def' [of es t] holds_def)
qed

text \<open>The entries of a tree are distinct, so that there are no more of them than the array has.\<close>

lemma length_idxs: "distinct xs \<Longrightarrow> \<forall>i \<in> set xs. i < n \<Longrightarrow> length xs \<le> (n :: nat)"
  using card_mono [of "{..<n}" "set xs"] by (auto simp: distinct_card)

lemma length_subs: "length ts \<le> length (idxss ts)"
proof (induction ts)
  case (Cons t ts)
  then show ?case by (cases t) simp
qed simp

lemma find_key_ok:
  assumes "in_store es t" "distinct (idxs t)"
  shows "find_key es (int (s_idx t)) key =
    Ok (case List.find (\<lambda>t. s_name t = key) (s_subs t) of None \<Rightarrow> -1 | Some t \<Rightarrow> int (s_idx t))"
proof -
  have "length (s_subs t) < length es + 1"
    using length_idxs [OF assms(2), of "length es"] in_store_bound [OF assms(1)] length_subs [of "s_subs t"]
    by (auto simp: idxs_def' [of t])
  then show ?thesis using assms(1) find_loop_ok [of es "s_subs t" "length es + 1" key]
    by (simp add: find_key_def in_store_def' [of es t] holds_def del: find_loop.simps)
qed

definition cleared :: "entry list \<Rightarrow> nat set \<Rightarrow> nat list \<Rightarrow> entry list \<Rightarrow> nat list \<Rightarrow> bool" where
  "cleared es X fl es' fl' \<longleftrightarrow> length es' = length es \<and> chain es' (e_next (es' ! 0)) fl' \<and>
     set fl' = X \<union> set fl \<and> distinct fl' \<and> (\<forall>i. i \<noteq> 0 \<and> i \<notin> X \<longrightarrow> es' ! i = es ! i) \<and>
     (\<exists>nx. es' ! 0 = (es ! 0)\<lparr>e_next := nx\<rparr>)"

lemma forest_frame:
  assumes "siblings es ts" "\<forall>t \<in> set ts. in_store es t" "length es \<le> length es'" "\<forall>i \<in> set (idxss ts). es' ! i = es ! i"
  shows "siblings es' ts" "\<forall>t \<in> set ts. in_store es' t"
proof -
  show "siblings es' ts" by (rule siblings_frame [OF assms(1)]) (use assms(4) in force)
  show "\<forall>t \<in> set ts. in_store es' t"
    using assms(2,4) by (auto intro!: in_store_frame' [of es _ es'] assms(3))
qed

lemma clear_loop_ok:
  assumes "siblings es ts" "\<forall>t \<in> set ts. in_store es t" "distinct (0 # idxss ts @ fl)"
    "chain es (e_next (es ! 0)) fl" "es \<noteq> []" "2 * length (idxss ts) + 1 \<le> n"
  shows "\<exists>es' fl'. clear_loop n es (head_idx ts) = (Ok es' :: ('e, _) outcome) \<and> cleared es (set (idxss ts)) fl es' fl'"
  using assms
proof (induction "length (idxss ts)" arbitrary: ts es fl n rule: less_induct)
  case less
  show ?case
  proof (cases ts)
    case Nil
    then show ?thesis using less.prems by (cases n) (auto simp: cleared_def intro!: exI [of _ "e_next (es ! 0)"])
  next
    case (Cons t us)
    obtain m where m: "n = Suc (Suc m)" using less.prems(6) Cons by (cases n; cases "n - 1") (auto simp: idxs_def' [of t])
    let ?i = "s_idx t" and ?S = "idxss (s_subs t)"
    have I: "idxss ts = ?i # ?S @ idxss us" by (simp add: Cons idxs_def' [of t])
    have t: "in_store es t" and sib: "e_next (es ! ?i) = head_idx us" "siblings es us" "\<forall>t \<in> set us. in_store es t"
      using less.prems(1,2) Cons by auto
    have il: "?i < length es" and hi: "holds (es ! ?i) t" and sub: "siblings es (s_subs t)" "\<forall>u \<in> set (s_subs t). in_store es u"
      using t by (simp_all add: in_store_def' [of es t])
    have d: "?i \<noteq> 0" "0 \<notin> set ?S" "?i \<notin> set ?S" "distinct ?S" "?i \<notin> set fl" "0 \<notin> set fl" "distinct fl" "set ?S \<inter> set fl = {}"
      "0 \<notin> set (idxss us)" "?i \<notin> set (idxss us)" "distinct (idxss us)" "set ?S \<inter> set (idxss us) = {}" "set (idxss us) \<inter> set fl = {}"
      using less.prems(3) unfolding I by auto
    define es1 where "es1 = es[0 := (es ! 0)\<lparr>e_next := int ?i\<rparr>, ?i := (es ! ?i)\<lparr>e_next := e_next (es ! 0), e_name := []\<rparr>]"
    have l1: "length es1 = length es" by (simp add: es1_def)
    have n1: "es1 ! j = es ! j" if "j \<noteq> 0" "j \<noteq> ?i" for j using that by (simp add: es1_def)
    have n1': "es1 ! 0 = (es ! 0)\<lparr>e_next := int ?i\<rparr>" "es1 ! ?i = (es ! ?i)\<lparr>e_next := e_next (es ! 0), e_name := []\<rparr>"
      using d(1) less.prems(5) il by (simp_all add: es1_def)
    have "\<forall>j \<in> set ?S. es1 ! j = es ! j" using n1 d(2,3) by metis
    note sub1 = forest_frame [OF sub _ this, simplified l1, simplified]
    have "\<forall>j \<in> set fl. es1 ! j = es ! j" using n1 d(5,6) by metis
    then have "chain es1 (e_next (es ! 0)) fl"
      by (intro chain_frame [OF less.prems(4)]) (use l1 in auto)
    then have "chain es1 (e_next (es1 ! 0)) (?i # fl)" using n1' il l1 by simp
    from less.hyps [OF _ sub1 _ this, of m] obtain es2 fl2 where
      c2: "clear_loop m es1 (head_idx (s_subs t)) = (Ok es2 :: ('e, _) outcome)" "cleared es1 (set ?S) (?i # fl) es2 fl2"
      using d less.prems(5,6) l1 by (force simp: I m)
    define es3 where "es3 = es2[?i := (es2 ! ?i)\<lparr>e_child := -1\<rparr>]"
    have l3: "length es2 = length es" "length es3 = length es" using c2(2) l1 by (simp_all add: cleared_def es3_def)
    have n3: "es3 ! j = es ! j" if "j \<noteq> 0" "j \<noteq> ?i" "j \<notin> set ?S" for j
      using that c2(2) n1 by (simp add: es3_def cleared_def)
    obtain nx where z3: "es3 ! 0 = (es ! 0)\<lparr>e_next := nx\<rparr>" "chain es3 (e_next (es3 ! 0)) fl2"
    proof -
      obtain nx where "es2 ! 0 = (es1 ! 0)\<lparr>e_next := nx\<rparr>" using c2(2) by (auto simp: cleared_def)
      then have "es3 ! 0 = (es ! 0)\<lparr>e_next := nx\<rparr>" using d(1) n1' by (simp add: es3_def)
      moreover have nx3: "\<forall>j \<in> set fl2. e_next (es3 ! j) = e_next (es2 ! j)"
      proof
        fix j show "e_next (es3 ! j) = e_next (es2 ! j)"
          using il l3 by (cases "j = ?i") (simp_all add: es3_def)
      qed
      have "chain es2 (e_next (es2 ! 0)) fl2" using c2(2) by (simp add: cleared_def)
      from chain_frame [OF this _ nx3] have "chain es3 (e_next (es2 ! 0)) fl2" using l3 by simp
      moreover have z: "es3 ! 0 = es2 ! 0" using d(1) by (simp add: es3_def)
      ultimately show thesis using that by metis
    qed
    have cl: "clear (Suc m) es1 (int ?i) = (Ok es3 :: ('e, _) outcome)"
      using c2(1) il l1 l3 n1'(2) hi by (simp add: es3_def holds_def del: clear_loop.simps)
    have "\<forall>j \<in> set (idxss us). es3 ! j = es ! j" using n3 d(9,10,12) by (metis IntI empty_iff)
    note us3 = forest_frame [OF sib(2,3) _ this, simplified l3, simplified]
    have f2: "set fl2 = set ?S \<union> insert ?i (set fl)" "distinct fl2" using c2(2) by (auto simp: cleared_def)
    have "\<exists>es' fl'. clear_loop (Suc m) es3 (head_idx us) = (Ok es' :: ('e, _) outcome) \<and> cleared es3 (set (idxss us)) fl2 es' fl'"
    proof (rule less.hyps [OF _ us3 _ z3(2)])
      show "distinct (0 # idxss us @ fl2)" using d f2 by auto
      show "es3 \<noteq> []" using l3 less.prems(5) by auto
    qed (use less.prems(6) in \<open>auto simp: I m\<close>)
    then obtain es' fl' where c4: "clear_loop (Suc m) es3 (head_idx us) = (Ok es' :: ('e, _) outcome)" "cleared es3 (set (idxss us)) fl2 es' fl'"
      by blast
    have "es[0 := (es ! 0)\<lparr>e_next := int ?i\<rparr>, ?i := (es ! ?i)\<lparr>e_next := e_next (es ! 0)\<rparr>,
        ?i := ((es ! ?i)\<lparr>e_next := e_next (es ! 0)\<rparr>)\<lparr>e_name := []\<rparr>] = es1" by (simp add: es1_def)
    then have "clear_loop n es (head_idx ts) = (Ok es' :: ('e, _) outcome)"
      using il d(1) less.prems(5) sib(1) cl c4(1)
      by (simp add: m Cons del: clear.simps clear_loop.simps) (simp add: clear_loop.simps(2) [of "Suc m"] del: clear.simps clear_loop.simps)
    moreover have "cleared es (set (idxss ts)) fl es' fl'"
      using c4(2) f2 l3 n3 z3(1) unfolding I cleared_def by auto
    ultimately show ?thesis by blast
  qed
qed

section \<open>Paths in the tree\<close>

fun sub :: "seen \<Rightarrow> byte list list \<Rightarrow> seen option" where
  "sub t [] = Some t"
| "sub t (key # ks) = (case List.find (\<lambda>u. s_name u = key) (s_subs t) of None \<Rightarrow> None | Some u \<Rightarrow> sub u ks)"

text \<open>Replace the subtree at a path.\<close>

fun put :: "byte list list \<Rightarrow> (seen \<Rightarrow> seen) \<Rightarrow> seen \<Rightarrow> seen" where
  "put [] f t = f t"
| "put (key # ks) f (Seen i n kd e v ts) =
     Seen i n kd e v (map (\<lambda>u. if s_name u = key then put ks f u else u) ts)"

fun names_ok :: "seen \<Rightarrow> bool" where
  "names_ok (Seen i n kd e v ts) \<longleftrightarrow> distinct (map s_name ts) \<and> (\<forall>t \<in> set ts. names_ok t)"

lemma find_mem: "List.find P xs = Some x \<Longrightarrow> x \<in> set xs \<and> P x"
  by (auto simp: find_Some_iff)

lemma find_split:
  assumes "List.find (\<lambda>u. s_name u = key) ts = Some u" "distinct (map s_name ts)"
  obtains as bs where "ts = as @ u # bs" "s_name u = key"
    "\<And>g. map (\<lambda>u. if s_name u = key then g u else u) ts = as @ g u # bs"
proof -
  from assms(1) have u: "u \<in> set ts" "s_name u = key" by (auto simp: find_Some_iff)
  then obtain as bs where ts: "ts = as @ u # bs" by (meson split_list)
  have "s_name u \<notin> s_name ` set as" "s_name u \<notin> s_name ` set bs" using assms(2) by (auto simp: ts)
  then have "\<forall>x \<in> set as \<union> set bs. s_name x \<noteq> key" using u(2) by (metis Un_iff image_eqI)
  then have "map (\<lambda>u. if s_name u = key then g u else u) ts = as @ g u # bs" for g :: "seen \<Rightarrow> seen"
    using u(2) by (auto simp: ts intro!: map_idI)
  with that ts u(2) show thesis by blast
qed

lemma find_none: "List.find (\<lambda>u. s_name u = key) ts = None \<Longrightarrow> u \<in> set ts \<Longrightarrow> s_name u \<noteq> key"
  by (auto simp: find_None_iff)

text \<open>Going down one step of a path.\<close>

lemma sub_step:
  assumes "sub t (key # ks) = Some u" "names_ok t"
  obtains u0 as bs i n kd e v where "t = Seen i n kd e v (as @ u0 # bs)" "s_name u0 = key" "sub u0 ks = Some u"
    "\<forall>f. put (key # ks) f t = Seen i n kd e v (as @ put ks f u0 # bs)" "names_ok u0"
proof -
  obtain i n kd e v ts where t: "t = Seen i n kd e v ts" by (cases t)
  from assms(1) obtain u0 where u0: "List.find (\<lambda>u. s_name u = key) ts = Some u0" "sub u0 ks = Some u"
    by (auto simp: t split: option.splits)
  from find_split [OF u0(1)] assms(2) obtain as bs where s: "ts = as @ u0 # bs" "s_name u0 = key"
    "\<And>g. map (\<lambda>u. if s_name u = key then g u else u) ts = as @ g u0 # bs" by (auto simp: t)
  show thesis
  proof (rule that [OF _ s(2) u0(2)])
    show "t = Seen i n kd e v (as @ u0 # bs)" by (simp add: t s(1))
    show "\<forall>f. put (key # ks) f t = Seen i n kd e v (as @ put ks f u0 # bs)" by (simp add: t s(3))
    show "names_ok u0" using assms(2) by (simp add: t s(1))
  qed
qed

lemma sub_idxs: "sub t p = Some u \<Longrightarrow> set (idxs u) \<subseteq> set (idxs t)"
proof (induction p arbitrary: t)
  case (Cons key p)
  then obtain u0 where "u0 \<in> set (s_subs t)" "sub u0 p = Some u" by (auto dest!: find_mem split: option.splits)
  with Cons.IH [of u0] show ?case by (auto simp: idxs_def' [of t])
qed simp

lemma sub_in_store: "sub t p = Some u \<Longrightarrow> in_store es t \<Longrightarrow> in_store es u"
proof (induction p arbitrary: t)
  case (Cons key p)
  then obtain u0 where "u0 \<in> set (s_subs t)" "sub u0 p = Some u" by (auto dest!: find_mem split: option.splits)
  with Cons show ?case by (auto simp: in_store_def' [of es t])
qed simp

lemma sub_names_ok: "sub t p = Some u \<Longrightarrow> names_ok t \<Longrightarrow> names_ok u"
proof (induction p arbitrary: t)
  case (Cons key p)
  obtain u0 where "sub u0 p = Some u" "names_ok u0" by (rule sub_step [OF Cons.prems])
  with Cons.IH show ?case by blast
qed simp

lemma sub_distinct: "sub t p = Some u \<Longrightarrow> names_ok t \<Longrightarrow> distinct (idxs t) \<Longrightarrow> distinct (idxs u)"
proof (induction p arbitrary: t)
  case (Cons key p)
  obtain u0 as bs i n kd e v where s: "t = Seen i n kd e v (as @ u0 # bs)" "sub u0 p = Some u" "names_ok u0"
    by (rule sub_step [OF Cons.prems(1,2)])
  then show ?case using Cons.IH [of u0] Cons.prems(3) by simp
qed simp

lemma sub_root_idx:
  "sub t p = Some u \<Longrightarrow> names_ok t \<Longrightarrow> distinct (idxs t) \<Longrightarrow> s_idx t \<in> set (idxs u) \<Longrightarrow> p = []"
proof (cases p)
  case (Cons key ks)
  assume a: "sub t p = Some u" "names_ok t" "distinct (idxs t)" "s_idx t \<in> set (idxs u)"
  obtain u0 as bs i n kd e v where s: "t = Seen i n kd e v (as @ u0 # bs)" "sub u0 ks = Some u"
    using a(1,2) unfolding Cons by (rule sub_step)
  with sub_idxs [OF s(2)] a(3,4) show ?thesis by auto
qed

lemma siblings_map: "map s_idx ts = map s_idx ts' \<Longrightarrow> siblings es ts = siblings es ts'"
proof (induction ts arbitrary: ts')
  case (Cons t ts)
  then obtain t' us where u: "ts' = t' # us" "s_idx t = s_idx t'" "map s_idx ts = map s_idx us" by (cases ts') auto
  then have "head_idx ts = head_idx us" by (cases ts; cases us) auto
  with Cons.IH [OF u(3)] u show ?case by simp
qed simp

lemma head_idx_map: "map s_idx ts = map s_idx ts' \<Longrightarrow> head_idx ts = head_idx ts'"
  by (cases ts; cases ts') auto

lemma put_keeps:
  "sub t p = Some u \<Longrightarrow> names_ok t \<Longrightarrow> s_idx (f u) = s_idx u \<Longrightarrow> s_name (f u) = s_name u \<Longrightarrow>
   s_idx (put p f t) = s_idx t \<and> s_name (put p f t) = s_name t"
proof (cases p)
  case (Cons key ks)
  assume a: "sub t p = Some u" "names_ok t" "s_idx (f u) = s_idx u" "s_name (f u) = s_name u"
  obtain u0 as bs i n kd e v where "t = Seen i n kd e v (as @ u0 # bs)"
    "\<forall>f. put (key # ks) f t = Seen i n kd e v (as @ put ks f u0 # bs)"
    using a(1,2) unfolding Cons by (rule sub_step)
  then show ?thesis by (simp add: Cons)
qed simp

lemma names_ok_put:
  "sub t p = Some u \<Longrightarrow> names_ok t \<Longrightarrow> s_idx (f u) = s_idx u \<Longrightarrow> s_name (f u) = s_name u \<Longrightarrow> names_ok (f u) \<Longrightarrow>
   names_ok (put p f t)"
proof (induction p arbitrary: t)
  case (Cons key p)
  obtain u0 as bs i n kd e v where s: "t = Seen i n kd e v (as @ u0 # bs)" "sub u0 p = Some u"
    "\<forall>f. put (key # p) f t = Seen i n kd e v (as @ put p f u0 # bs)" "names_ok u0"
    by (rule sub_step [OF Cons.prems(1,2)])
  have "names_ok (put p f u0)" using Cons s(2,4) by blast
  moreover have "s_name (put p f u0) = s_name u0" using put_keeps [OF s(2,4)] Cons.prems(3,4) by blast
  ultimately show ?case using Cons.prems(2) unfolding s(3) [rule_format] by (simp add: s(1))
qed simp

lemma set_idxs_put:
  assumes "sub t p = Some u" "names_ok t" "distinct (idxs t)"
  shows "set (idxs (put p f t)) = set (idxs t) - set (idxs u) \<union> set (idxs (f u))"
  using assms
proof (induction p arbitrary: t)
  case (Cons key p)
  obtain u0 as bs i n kd e v where s: "t = Seen i n kd e v (as @ u0 # bs)" "sub u0 p = Some u"
    "\<forall>f. put (key # p) f t = Seen i n kd e v (as @ put p f u0 # bs)" "names_ok u0"
    by (rule sub_step [OF Cons.prems(1,2)])
  have "distinct (idxs u0)" using Cons.prems(3) by (simp add: s(1))
  note IH = Cons.IH [OF s(2,4) this]
  have sb: "set (idxs u) \<subseteq> set (idxs u0)" by (rule sub_idxs [OF s(2)])
  have "(insert i (set (idxss as) \<union> set (idxss bs))) \<inter> set (idxs u0) = {}" using Cons.prems(3) unfolding s(1) by auto
  then have "(insert i (set (idxss as) \<union> set (idxss bs))) \<inter> set (idxs u) = {}" using sb by blast
  then show ?case unfolding s(3) [rule_format] unfolding s(1) using IH by auto
qed simp

lemma distinct_put:
  assumes "sub t p = Some u" "names_ok t" "distinct (idxs t)" "distinct (idxs (f u))"
    "set (idxs (f u)) \<inter> (set (idxs t) - set (idxs u)) = {}"
  shows "distinct (idxs (put p f t))"
  using assms
proof (induction p arbitrary: t)
  case (Cons key p)
  obtain u0 as bs i n kd e v where s: "t = Seen i n kd e v (as @ u0 # bs)" "sub u0 p = Some u"
    "\<forall>f. put (key # p) f t = Seen i n kd e v (as @ put p f u0 # bs)" "names_ok u0"
    by (rule sub_step [OF Cons.prems(1,2)])
  have d: "distinct (idxs u0)" "distinct (idxss as)" "distinct (idxss bs)" "i \<notin> set (idxss as) \<union> set (idxs u0) \<union> set (idxss bs)"
    "set (idxss as) \<inter> set (idxs u0) = {}" "set (idxs u0) \<inter> set (idxss bs) = {}" "set (idxss as) \<inter> set (idxss bs) = {}"
    using Cons.prems(3) unfolding s(1) by auto
  have sb: "set (idxs u) \<subseteq> set (idxs u0)" by (rule sub_idxs [OF s(2)])
  have f: "set (idxs (f u)) \<inter> (insert i (set (idxss as) \<union> set (idxs u0) \<union> set (idxss bs)) - set (idxs u)) = {}"
    using Cons.prems(5) unfolding s(1) by auto
  have "distinct (idxs (put p f u0))" using Cons.IH [OF s(2,4) d(1) Cons.prems(4)] f by blast
  moreover have "set (idxs (put p f u0)) = set (idxs u0) - set (idxs u) \<union> set (idxs (f u))"
    by (rule set_idxs_put [OF s(2,4) d(1)])
  moreover have "set (idxs (f u)) \<inter> (insert i (set (idxss as) \<union> set (idxss bs))) = {}" using f d(4-6) sb by blast
  ultimately have x: "distinct (idxs (put p f u0))" "set (idxs (put p f u0)) \<inter> insert i (set (idxss as) \<union> set (idxss bs)) = {}"
    using d(4-6) by blast+
  show ?case unfolding s(3) [rule_format] idxs.simps map_append list.map concat_append concat.simps distinct.simps distinct_append set_append
    using d(2-7) x by blast
qed simp

lemma in_store_put:
  assumes "sub t p = Some u" "names_ok t" "distinct (idxs t)" "in_store es t" "in_store es' (f u)"
    "s_idx (f u) = s_idx u" "s_name (f u) = s_name u" "length es \<le> length es'"
    "p \<noteq> [] \<longrightarrow> e_next (es' ! s_idx u) = e_next (es ! s_idx u) \<and> (\<exists>nx. es' ! s_idx t = (es ! s_idx t)\<lparr>e_next := nx\<rparr>)"
    "\<forall>i \<in> set (idxs t) - set (idxs u). i \<noteq> s_idx t \<longrightarrow> es' ! i = es ! i"
  shows "in_store es' (put p f t)"
  using assms
proof (induction p arbitrary: t)
  case (Cons key p)
  obtain u0 as bs i n kd e v where s: "t = Seen i n kd e v (as @ u0 # bs)" "s_name u0 = key" "sub u0 p = Some u"
    "\<forall>f. put (key # p) f t = Seen i n kd e v (as @ put p f u0 # bs)" "names_ok u0"
    by (rule sub_step [OF Cons.prems(1,2)])
  have d: "distinct (idxs u0)" "i \<notin> set (idxss as) \<union> set (idxs u0) \<union> set (idxss bs)"
    "set (idxss as) \<inter> set (idxs u0) = {}" "set (idxs u0) \<inter> set (idxss bs) = {}"
    using Cons.prems(3) unfolding s(1) by auto
  have sb: "set (idxs u) \<subseteq> set (idxs u0)" by (rule sub_idxs [OF s(3)])
  have st: "in_store es u0" "\<forall>x \<in> set as \<union> set bs. in_store es x" "siblings es (as @ u0 # bs)" "i < length es" "holds (es ! i) t"
    using Cons.prems(4) unfolding s(1) by auto
  have same: "es' ! j = es ! j" if "j \<in> set (idxss as) \<union> set (idxss bs) \<or> j \<in> set (idxs u0) - set (idxs u)" for j
  proof -
    have "set (idxs t) = insert i (set (idxss as) \<union> set (idxs u0) \<union> set (idxss bs))" by (auto simp: s(1))
    then have "j \<in> set (idxs t) - set (idxs u)" "j \<noteq> i" using that d sb by blast+
    moreover have "s_idx t = i" by (simp add: s(1))
    ultimately show ?thesis using Cons.prems(10) by blast
  qed
  have nu0: "e_next (es' ! s_idx u0) = e_next (es ! s_idx u0)" "p \<noteq> [] \<longrightarrow> es' ! s_idx u0 = es ! s_idx u0"
  proof -
    have *: "p \<noteq> [] \<longrightarrow> s_idx u0 \<notin> set (idxs u)" using sub_root_idx [OF s(3,5) d(1)] by blast
    then show "p \<noteq> [] \<longrightarrow> es' ! s_idx u0 = es ! s_idx u0" using same by auto
    show "e_next (es' ! s_idx u0) = e_next (es ! s_idx u0)"
    proof (cases "p = []")
      case True
      then show ?thesis using s(3) Cons.prems(9) by simp
    qed (use * same in auto)
  qed
  have "in_store es' (put p f u0)"
  proof (rule Cons.IH [OF s(3,5) d(1) st(1) Cons.prems(5-8)])
    show "p \<noteq> [] \<longrightarrow> e_next (es' ! s_idx u) = e_next (es ! s_idx u) \<and> (\<exists>nx. es' ! s_idx u0 = (es ! s_idx u0)\<lparr>e_next := nx\<rparr>)"
      using Cons.prems(9) nu0(2) by (auto intro!: exI [of _ "e_next (es ! s_idx u0)"])
    show "\<forall>j \<in> set (idxs u0) - set (idxs u). j \<noteq> s_idx u0 \<longrightarrow> es' ! j = es ! j" using same by blast
  qed
  moreover have "in_store es' x" if x: "x \<in> set as \<union> set bs" for x
  proof (rule in_store_frame' [OF _ Cons.prems(8)])
    show "in_store es x" using st(2) x by blast
    show "\<forall>j \<in> set (idxs x). es' ! j = es ! j" using x same by auto
  qed
  moreover have k: "s_idx (put p f u0) = s_idx u0" using put_keeps [OF s(3,5)] Cons.prems(6,7) by blast
  moreover have "siblings es' (as @ u0 # bs)"
  proof (rule siblings_frame [OF st(3)], rule ballI)
    fix x assume "x \<in> set (as @ u0 # bs)"
    then consider "s_idx x \<in> set (idxss as) \<union> set (idxss bs)" | "x = u0" by force
    then show "e_next (es' ! s_idx x) = e_next (es ! s_idx x)"
      by cases (use same [of "s_idx x"] nu0(1) in auto)
  qed
  then have "siblings es' (as @ put p f u0 # bs)" using siblings_map [of "as @ put p f u0 # bs" "as @ u0 # bs"] k by simp
  moreover have "holds (es' ! i) (Seen i n kd e v (as @ put p f u0 # bs))"
  proof -
    obtain nx where "es' ! i = (es ! i)\<lparr>e_next := nx\<rparr>" using Cons.prems(9) by (auto simp: s(1))
    then show ?thesis using st(5) head_idx_map [of "as @ put p f u0 # bs" "as @ u0 # bs"] k
      by (simp add: holds_def s(1))
  qed
  moreover have "i < length es'" using st(4) Cons.prems(8) by simp
  ultimately show ?case unfolding s(4) [rule_format] by (auto simp: s(1))
qed simp

text \<open>What is known of each path: index, kind, explicit, kv.\<close>

type_synonym key_info = "keyKind \<times> bool \<times> bool"

definition info :: "seen \<Rightarrow> int \<times> key_info" where
  "info t = (int (s_idx t), s_kind t, s_explicit t, s_kv t)"

definition infos :: "seen \<Rightarrow> byte list list \<Rightarrow> (int \<times> key_info) option" where
  "infos t p = map_option info (sub t p)"

lemma find_middle:
  "s_name x \<notin> s_name ` set xs \<Longrightarrow> List.find (\<lambda>u. s_name u = key) (xs @ x # ys) =
     (if s_name x = key then Some x else List.find (\<lambda>u. s_name u = key) (xs @ ys))"
  by (induction xs) auto

lemma sub_append: "sub t (p @ q) = Option.bind (sub t p) (\<lambda>u. sub u q)"
  by (induction p arbitrary: t) (auto split: option.splits)

lemma infos_append: "sub t p = Some u \<Longrightarrow> infos t (p @ q) = infos u q"
  by (simp add: infos_def sub_append)

lemma infos_put:
  assumes "sub t p = Some u" "names_ok t" "s_idx (f u) = s_idx u" "s_name (f u) = s_name u"
  shows "sub (put p f t) p = Some (f u)" "(\<nexists>r. q = p @ r) \<Longrightarrow> infos (put p f t) q = infos t q"
proof -
  have "sub (put p f t) p = Some (f u) \<and> ((\<nexists>r. q = p @ r) \<longrightarrow> infos (put p f t) q = infos t q)"
    using assms
  proof (induction p arbitrary: t q)
    case (Cons key p)
    obtain u0 as bs i n kd e v where s: "t = Seen i n kd e v (as @ u0 # bs)" "s_name u0 = key" "sub u0 p = Some u"
      "\<forall>f. put (key # p) f t = Seen i n kd e v (as @ put p f u0 # bs)" "names_ok u0"
      by (rule sub_step [OF Cons.prems(1,2)])
    have k: "s_name (put p f u0) = key" using put_keeps [OF s(3,5)] Cons.prems(3,4) s(2) by simp
    have a: "key \<notin> s_name ` set as" using Cons.prems(2) s(2) unfolding s(1) by auto
    note F = find_middle [of u0 as _ bs, unfolded s(2), OF a] find_middle [of "put p f u0" as _ bs, unfolded k, OF a]
    have IH: "sub (put p f u0) p = Some (f u)" "(\<nexists>r. q' = p @ r) \<longrightarrow> infos (put p f u0) q' = infos u0 q'" for q'
      using Cons.IH [OF s(3,5) Cons.prems(3,4)] by auto
    have "infos (put (key # p) f t) q = infos t q" if "\<nexists>r. q = (key # p) @ r"
    proof (cases q)
      case Nil
      then show ?thesis unfolding s(4) [rule_format] by (simp add: s(1) infos_def info_def)
    next
      case (Cons a q')
      then have "key = a \<longrightarrow> (\<nexists>r. q' = p @ r)" using that by auto
      then show ?thesis using IH(2) [of q'] unfolding s(4) [rule_format] by (auto simp: s(1) infos_def Cons F)
    qed
    moreover have "sub (put (key # p) f t) (key # p) = Some (f u)" unfolding s(4) [rule_format] by (simp add: F IH(1))
    ultimately show ?case by blast
  qed simp
  then show "sub (put p f t) p = Some (f u)" "(\<nexists>r. q = p @ r) \<Longrightarrow> infos (put p f t) q = infos t q" by blast+
qed

lemma infos_put_eq:
  assumes "sub t p = Some u" "names_ok t" "s_idx (f u) = s_idx u" "s_name (f u) = s_name u"
  shows "infos (put p f t) q = (if \<exists>r. q = p @ r then infos (f u) (drop (length p) q) else infos t q)"
  using infos_put [where f = f, OF assms] infos_append [of "put p f t" p "f u"] by auto

section \<open>The array as a map from paths\<close>

definition forest :: "entry list \<Rightarrow> seen \<Rightarrow> nat list \<Rightarrow> bool" where
  "forest es t fl \<longleftrightarrow> s_idx t = 0 \<and> in_store es t \<and> names_ok t \<and> distinct (idxs t @ fl) \<and> chain es (e_next (es ! 0)) fl"

definition tracks :: "entry list \<Rightarrow> (byte list list \<Rightarrow> (int \<times> key_info) option) \<Rightarrow> bool" where
  "tracks es m \<longleftrightarrow> (\<exists>t fl. forest es t fl \<and> m = infos t)"

lemma tracksE:
  assumes "tracks es m" "m p = Some (i, nfo)"
  obtains t fl u where "forest es t fl" "m = infos t" "sub t p = Some u" "i = int (s_idx u)" "nfo = (s_kind u, s_explicit u, s_kv u)"
proof -
  from assms(1) obtain t fl where t: "forest es t fl" "m = infos t" by (auto simp: tracks_def)
  with assms(2) obtain u where "sub t p = Some u" "info u = (i, nfo)" by (auto simp: infos_def)
  with t that show thesis by (simp add: info_def)
qed

lemma tracks_ent:
  assumes "tracks es m" "m p = Some (i, kd, ex, v)"
  shows "\<exists>e. ent es i = Ok e \<and> e_kind e = kd \<and> explicit e = ex \<and> kv e = v"
proof -
  obtain t fl u where t: "forest es t fl" "m = infos t" "sub t p = Some u" "i = int (s_idx u)"
    "(kd, ex, v) = (s_kind u, s_explicit u, s_kv u)" by (rule tracksE [OF assms])
  have "in_store es u" using sub_in_store [OF t(3)] t(1) by (simp add: forest_def)
  with t(4,5) show ?thesis by (auto simp: in_store_def' [of es u] holds_def)
qed

lemma tracks_find:
  assumes "tracks es m" "m p = Some (i, nfo)"
  shows "find_key es i key = Ok (case m (p @ [key]) of None \<Rightarrow> -1 | Some (j, _) \<Rightarrow> j)"
proof -
  obtain t fl u where t: "forest es t fl" "m = infos t" "sub t p = Some u" "i = int (s_idx u)" by (rule tracksE [OF assms])
  have u: "in_store es u" "distinct (idxs u)" using sub_in_store [OF t(3)] sub_distinct [OF t(3)] t(1) by (auto simp: forest_def)
  show ?thesis unfolding t(4) find_key_ok [OF u] t(2) infos_append [OF t(3)]
    by (auto simp: infos_def info_def split: option.splits)
qed

lemma tracks_pos: "tracks es m \<Longrightarrow> m p = Some (i, nfo) \<Longrightarrow> 0 \<le> i"
  by (erule (1) tracksE) simp

lemma tracks_root: "tracks es m \<Longrightarrow> \<exists>nfo. m [] = Some (0, nfo)"
  by (auto simp: tracks_def forest_def infos_def info_def)

text \<open>A change of the subtree at a path that keeps the other entries.\<close>

lemma forest_put:
  assumes t: "forest es t fl" "sub t p = Some u"
    and f: "s_idx u' = s_idx u" "s_name u' = s_name u" "in_store es' u'" "names_ok u'" "distinct (idxs u')"
      "set (idxs u') \<inter> (set (idxs t) - set (idxs u)) = {}"
    and es: "length es \<le> length es'" "p \<noteq> [] \<longrightarrow> e_next (es' ! s_idx u) = e_next (es ! s_idx u) \<and> (\<exists>nx. es' ! 0 = (es ! 0)\<lparr>e_next := nx\<rparr>)"
      "\<forall>i \<in> set (idxs t) - set (idxs u). i \<noteq> 0 \<longrightarrow> es' ! i = es ! i"
    and fl: "distinct fl'" "set fl' \<inter> (set (idxs t) - set (idxs u) \<union> set (idxs u')) = {}" "chain es' (e_next (es' ! 0)) fl'"
  shows "forest es' (put p (\<lambda>_. u') t) fl'"
proof -
  have b: "s_idx t = 0" "in_store es t" "names_ok t" "distinct (idxs t)" using t(1) by (auto simp: forest_def)
  note P = put_keeps [where f = "\<lambda>_. u'", OF t(2) b(3) f(1,2)] names_ok_put [where f = "\<lambda>_. u'", OF t(2) b(3) f(1,2,4)]
    set_idxs_put [where f = "\<lambda>_. u'", OF t(2) b(3,4)] distinct_put [where f = "\<lambda>_. u'", OF t(2) b(3,4) f(5,6)]
  have "in_store es' (put p (\<lambda>_. u') t)"
    by (rule in_store_put [where f = "\<lambda>_. u'", OF t(2) b(3,4,2) f(3,1,2) es(1)]) (use es b(1) in auto)
  then show ?thesis using P b(1) fl by (auto simp: forest_def)
qed

lemma tracks_put:
  assumes "forest es t fl" "sub t p = Some u" "forest es' (put p (\<lambda>_. u') t) fl'" "s_idx u' = s_idx u" "s_name u' = s_name u"
    "\<And>q. m' q = (if \<exists>r. q = p @ r then infos u' (drop (length p) q) else infos t q)"
  shows "tracks es' m'"
proof -
  have "names_ok t" using assms(1) by (simp add: forest_def)
  then have "m' = infos (put p (\<lambda>_. u') t)"
    using infos_put_eq [OF assms(2), where f = "\<lambda>_. u'"] assms(4-6) by auto
  with assms(3) show ?thesis by (auto simp: tracks_def)
qed

lemma root_not_below:
  assumes "forest es t fl" "sub t p = Some u"
  shows "0 \<notin> set (idxss (s_subs u))" "p \<noteq> [] \<Longrightarrow> s_idx u \<noteq> 0"
proof -
  have b: "s_idx t = 0" "names_ok t" "distinct (idxs t)" using assms(1) by (auto simp: forest_def)
  have r: "0 \<in> set (idxs u) \<Longrightarrow> p = []" using sub_root_idx [OF assms(2) b(2,3)] b(1) by simp
  then show "p \<noteq> [] \<Longrightarrow> s_idx u \<noteq> 0" using s_idx_idxs [of u] by metis
  show "0 \<notin> set (idxss (s_subs u))"
  proof
    assume a: "0 \<in> set (idxss (s_subs u))"
    then have "p = []" using r by (simp add: idxs_def' [of u])
    then have "u = t" using assms(2) by simp
    then show False using a b(1,3) by (simp add: idxs_def' [of t])
  qed
qed

lemma tracks_set:
  assumes "tracks es m" "m p = Some (i, nfo)"
    and f: "\<And>e. e_child (f e) = e_child e \<and> e_next (f e) = e_next e \<and> e_name (f e) = e_name e"
      "\<And>e. (e_kind e, explicit e, kv e) = nfo \<Longrightarrow> (e_kind (f e), explicit (f e), kv (f e)) = nfo'"
  shows "\<exists>es'. set_ent f i es = Ok es' \<and> tracks es' (m(p \<mapsto> (i, nfo')))"
proof -
  obtain t fl u where t: "forest es t fl" "m = infos t" "sub t p = Some u" "i = int (s_idx u)" "nfo = (s_kind u, s_explicit u, s_kv u)"
    by (rule tracksE [OF assms(1,2)])
  let ?i = "s_idx u"
  have u: "in_store es u" "distinct (idxs u)" "names_ok u"
    using sub_in_store [OF t(3)] sub_distinct [OF t(3)] sub_names_ok [OF t(3)] t(1) by (auto simp: forest_def)
  then have il: "?i < length es" and h: "holds (es ! ?i) u" by (simp_all add: in_store_def' [of es u])
  define es' where "es' = es[?i := f (es ! ?i)]"
  obtain kd ex v where n: "nfo' = (kd, ex, v)" by (cases nfo')
  define u' where "u' = Seen ?i (s_name u) kd ex v (s_subs u)"
  have u': "s_idx u' = ?i" "s_name u' = s_name u" "idxs u' = idxs u" "names_ok u'"
    using u(3) by (cases u, simp add: u'_def)+
  have e': "es' ! ?i = f (es ! ?i)" "j \<noteq> ?i \<Longrightarrow> es' ! j = es ! j" for j using il by (simp_all add: es'_def)
  have nx: "e_next (es' ! j) = e_next (es ! j)" for j using e' f(1) by (cases "j = ?i") auto
  have "holds (es' ! ?i) u'" using h f(1) f(2) [of "es ! ?i"] n t(5) e' by (simp add: holds_def u'_def)
  moreover have "\<forall>j \<in> set (idxss (s_subs u)). es' ! j = es ! j"
    using u(2) e'(2) unfolding idxs_def' [of u] distinct.simps by metis
  then have "siblings es' (s_subs u)" "\<forall>c \<in> set (s_subs u). in_store es' c"
    using forest_frame [of es "s_subs u" es'] u(1) by (auto simp: in_store_def' [of es u] es'_def)
  ultimately have st: "in_store es' u'" using il by (simp add: u'_def es'_def)
  have "forest es' (put p (\<lambda>_. u') t) fl"
  proof (rule forest_put [OF t(1,3) u'(1,2) st u'(4)])
    show "p \<noteq> [] \<longrightarrow> e_next (es' ! ?i) = e_next (es ! ?i) \<and> (\<exists>nx. es' ! 0 = (es ! 0)\<lparr>e_next := nx\<rparr>)"
      using root_not_below(2) [OF t(1,3)] e'(2) nx by (auto intro!: exI [of _ "e_next (es ! 0)"])
    show "\<forall>j \<in> set (idxs t) - set (idxs u). j \<noteq> 0 \<longrightarrow> es' ! j = es ! j" using e'(2) by (metis DiffE s_idx_idxs)
    show "chain es' (e_next (es' ! 0)) fl" using t(1) nx by (auto simp: forest_def es'_def intro!: chain_frame [of es])
  qed (use u u' t(1) sub_idxs [OF t(3)] in \<open>auto simp: forest_def es'_def\<close>)
  then have "tracks es' (m(p \<mapsto> (i, nfo')))"
  proof (rule tracks_put [OF t(1,3) _ u'(1,2)])
    fix q
    have "infos u' r = (if r = [] then Some (i, nfo') else infos u r)" for r
      by (cases r) (simp_all add: infos_def info_def u'_def t(4) n)
    then show "(m(p \<mapsto> (i, nfo'))) q = (if \<exists>r. q = p @ r then infos u' (drop (length p) q) else infos t q)"
      using t(2) infos_append [OF t(3)] by auto
  qed
  then show ?thesis using il t(4) by (auto simp: es'_def)
qed

text \<open>The place of a new entry, and the free entries that remain.\<close>

lemma create_place:
  assumes b: "s_idx t = 0" "in_store es t" "distinct (idxs t @ fl)" "chain es (e_next (es ! 0)) fl" and i: "i \<in> set (idxs t)"
    and e_def: "e = \<lparr>e_child = -1, e_next = e_child (es ! i), e_name = key, e_kind = kd, explicit = ex, kv = v\<rparr>"
  obtains j fl' es1 where "j \<notin> set (idxs t)" "j \<notin> set fl'" "distinct fl'" "set fl' \<inter> set (idxs t) = {}" "j < length es1" "length es \<le> length es1"
    "es1 ! j = e" "\<And>l. l < length es \<Longrightarrow> l \<noteq> 0 \<Longrightarrow> l \<noteq> j \<Longrightarrow> es1 ! l = es ! l"
    "\<exists>nx. es1 ! 0 = (es ! 0)\<lparr>e_next := nx\<rparr>" "chain es1 (e_next (es1 ! 0)) fl'"
    "create es (int i) key kd ex v = (Ok (es1[i := (es1 ! i)\<lparr>e_child := int j\<rparr>], int j) :: ('e, _) outcome)"
proof -
  have il: "i < length es" and zl: "0 < length es"
    using in_store_bound [OF b(2)] i b(1) s_idx_idxs [of t] by auto
  show thesis
  proof (cases fl)
    case Nil
    then have n: "\<not> 0 \<le> e_next (es ! 0)" using b(4) by simp
    show thesis
    proof (rule that [of "length es" "[]" "es @ [e]"])
      show "length es \<notin> set (idxs t)" using in_store_bound [OF b(2)] by blast
      show "\<exists>nx. (es @ [e]) ! 0 = (es ! 0)\<lparr>e_next := nx\<rparr>" using zl by (auto simp: nth_append intro!: exI [of _ "e_next (es ! 0)"])
      show "create es (int i) key kd ex v = (Ok ((es @ [e])[i := ((es @ [e]) ! i)\<lparr>e_child := int (length es)\<rparr>], int (length es)) :: ('e, _) outcome)"
        using n il zl by (auto simp: create_def Let_def e_def)
    qed (use Nil b(4) zl in \<open>auto simp: nth_append\<close>)
  next
    case (Cons j fl')
    then have c: "e_next (es ! 0) = int j" "j < length es" "chain es (e_next (es ! j)) fl'" using b(4) by auto
    have d: "j \<noteq> 0" "j \<noteq> i" using b(1,3) Cons i s_idx_idxs [of t] by auto
    let ?es1 = "es[0 := (es ! 0)\<lparr>e_next := e_next (es ! j)\<rparr>, j := e]"
    show thesis
    proof (rule that [of j fl' ?es1])
      show "chain ?es1 (e_next (?es1 ! 0)) fl'"
      proof -
        have "0 \<notin> set fl'" "j \<notin> set fl'" using b(1,3) Cons s_idx_idxs [of t] by auto
        then have "\<forall>l \<in> set fl'. ?es1 ! l = es ! l" by (metis nth_list_update_neq)
        then have "chain ?es1 (e_next (es ! j)) fl'" by (intro chain_frame [OF c(3)]) auto
        then show ?thesis using d(1) zl by simp
      qed
      show "create es (int i) key kd ex v = (Ok (?es1[i := (?es1 ! i)\<lparr>e_child := int j\<rparr>], int j) :: ('e, _) outcome)"
        using c il zl d by (simp add: create_def Let_def e_def)
    qed (use b(3) Cons c d zl in auto)
  qed
qed

lemma tracks_create:
  assumes "tracks es m" "m p = Some (i, nfo)" "m (p @ [key]) = None"
  shows "\<exists>es' j. create es i key kd ex v = (Ok (es', j) :: ('e, _) outcome) \<and> tracks es' (m(p @ [key] \<mapsto> (j, kd, ex, v)))"
proof -
  obtain t fl u where t: "forest es t fl" "m = infos t" "sub t p = Some u" "i = int (s_idx u)" by (rule tracksE [OF assms(1,2)])
  let ?i = "s_idx u"
  have b: "s_idx t = 0" "in_store es t" "names_ok t" "distinct (idxs t @ fl)" "chain es (e_next (es ! 0)) fl"
    using t(1) by (auto simp: forest_def)
  have u: "in_store es u" "distinct (idxs u)" "names_ok u"
    using sub_in_store [OF t(3)] sub_distinct [OF t(3)] sub_names_ok [OF t(3)] b by auto
  then have il: "?i < length es" and h: "holds (es ! ?i) u" by (simp_all add: in_store_def' [of es u])
  have zl: "0 < length es" using b(1,2) by (simp add: in_store_def' [of es t])
  let ?e = "\<lparr>e_child = -1, e_next = e_child (es ! ?i), e_name = key, e_kind = kd, explicit = ex, kv = v\<rparr>"
  have "?i \<in> set (idxs t)" using sub_idxs [OF t(3)] s_idx_idxs [of u] by blast
  from create_place [OF b(1,2,4,5) this refl, where 'e = 'e] obtain j fl' es1 where
    j: "j \<notin> set (idxs t)" "j \<notin> set fl'" "distinct fl'" "set fl' \<inter> set (idxs t) = {}" "j < length es1" "length es \<le> length es1"
    "es1 ! j = ?e" "\<And>l. l < length es \<Longrightarrow> l \<noteq> 0 \<Longrightarrow> l \<noteq> j \<Longrightarrow> es1 ! l = es ! l"
    "\<exists>nx. es1 ! 0 = (es ! 0)\<lparr>e_next := nx\<rparr>" "chain es1 (e_next (es1 ! 0)) fl'"
    "create es i key kd ex v = (Ok (es1[?i := (es1 ! ?i)\<lparr>e_child := int j\<rparr>], int j) :: ('e, _) outcome)"
    unfolding t(4) by blast
  have ji: "j \<noteq> ?i" using j(1) sub_idxs [OF t(3)] s_idx_idxs [of u] by blast
  have jz: "j \<noteq> 0" using j(1) b(1) s_idx_idxs [of t] by metis
  define es' where "es' = es1[?i := (es1 ! ?i)\<lparr>e_child := int j\<rparr>]"
  define c where "c = Seen j key kd ex v []"
  define u' where "u' = Seen ?i (s_name u) (s_kind u) (s_explicit u) (s_kv u) (c # s_subs u)"
  have u': "s_idx u' = ?i" "s_name u' = s_name u" "set (idxs u') = insert j (set (idxs u))"
    by (auto simp: u'_def c_def idxs_def' [of u])
  have ne: "s_name x \<noteq> key" if "x \<in> set (s_subs u)" for x
  proof -
    have "sub u [key] = None" using assms(3) unfolding t(2) infos_append [OF t(3)] by (simp add: infos_def)
    then show ?thesis using that by (auto simp: find_None_iff split: option.splits)
  qed
  have "key \<notin> s_name ` set (s_subs u)" using ne by auto
  then have nu': "names_ok u'" using u(3) by (cases u) (simp add: u'_def c_def)
  have du': "distinct (idxs u')" using u(2) ji j(1) sub_idxs [OF t(3)] by (auto simp: u'_def c_def idxs_def' [of u])
  have sl: "l < length es \<and> l \<noteq> 0 \<and> l \<noteq> j \<and> l \<noteq> ?i" if "l \<in> set (idxss (s_subs u))" for l
  proof -
    have "l \<in> set (idxs u)" "?i \<notin> set (idxss (s_subs u))" using that u(2) by (simp_all add: idxs_def' [of u])
    then show ?thesis using that in_store_bound [OF u(1)] root_not_below(1) [OF t(1,3)] j(1) sub_idxs [OF t(3)] by (metis subsetD)
  qed
  have e': "es' ! l = es ! l" if "l < length es" "l \<noteq> 0" "l \<noteq> j" "l \<noteq> ?i" for l using that j(8) by (simp add: es'_def)
  have ei: "\<exists>nx. es' ! ?i = (es ! ?i)\<lparr>e_next := nx, e_child := int j\<rparr> \<and> (?i \<noteq> 0 \<longrightarrow> nx = e_next (es ! ?i))"
  proof (cases "?i = 0")
    case True
    moreover have "es1 \<noteq> []" using j(5) by auto
    ultimately show ?thesis using j(9) by (auto simp: es'_def)
  next
    case False
    then show ?thesis using j(8) [OF il False] ji il j(6) by (auto simp: es'_def intro!: exI [of _ "e_next (es ! ?i)"])
  qed
  have st: "in_store es' u'"
  proof -
    have "\<forall>l \<in> set (idxss (s_subs u)). es' ! l = es ! l" using sl e' by blast
    moreover have "length es \<le> length es'" using j(6) by (simp add: es'_def)
    ultimately have f: "siblings es' (s_subs u)" "\<forall>x \<in> set (s_subs u). in_store es' x"
      using forest_frame [of es "s_subs u" es'] u(1) by (simp_all add: in_store_def' [of es u])
    moreover have "es' ! j = ?e" using ji j(7) by (simp add: es'_def)
    then have "in_store es' c" "e_next (es' ! j) = head_idx (s_subs u)"
      using j(5) h by (simp_all add: c_def holds_def es'_def)
    moreover have "holds (es' ! ?i) u'" using ei h by (auto simp: holds_def u'_def c_def)
    ultimately show ?thesis using il j(6) by (simp add: u'_def c_def es'_def)
  qed
  have fo: "forest es' (put p (\<lambda>_. u') t) fl'"
  proof (rule forest_put [OF t(1,3) u'(1,2) st nu' du'])
    show "p \<noteq> [] \<longrightarrow> e_next (es' ! ?i) = e_next (es ! ?i) \<and> (\<exists>nx. es' ! 0 = (es ! 0)\<lparr>e_next := nx\<rparr>)"
      using root_not_below(2) [OF t(1,3)] ei j(9) by (auto simp: es'_def)
    show "\<forall>l \<in> set (idxs t) - set (idxs u). l \<noteq> 0 \<longrightarrow> es' ! l = es ! l"
      using e' in_store_bound [OF b(2)] j(1) by (metis DiffE s_idx_idxs)
    have "e_next (es' ! l) = e_next (es1 ! l)" for l using il j(6) by (cases "l = ?i") (auto simp: es'_def)
    then show "chain es' (e_next (es' ! 0)) fl'" using j(10) by (auto simp: es'_def intro!: chain_frame [of es1])
  qed (use u' j b(4) sub_idxs [OF t(3)] in \<open>auto simp: es'_def\<close>)
  have "tracks es' (m(p @ [key] \<mapsto> (int j, kd, ex, v)))"
  proof (rule tracks_put [OF t(1,3) fo u'(1,2)])
    fix q
    have "infos u' r = (if r = [key] then Some (int j, kd, ex, v) else infos u r)" for r
    proof (cases r)
      case (Cons a r')
      have "List.find (\<lambda>u. s_name u = key) (s_subs u) = None" using ne by (auto simp: find_None_iff)
      then show ?thesis using Cons by (cases r') (auto simp: infos_def info_def u'_def c_def)
    qed (simp add: infos_def info_def u'_def)
    then show "(m(p @ [key] \<mapsto> (int j, kd, ex, v))) q = (if \<exists>r. q = p @ r then infos u' (drop (length p) q) else infos t q)"
      using t(2) infos_append [OF t(3)] by auto
  qed
  with j(11) show ?thesis by (auto simp: es'_def)
qed

abbreviation below :: "byte list list \<Rightarrow> byte list list \<Rightarrow> bool" where
  "below p q \<equiv> \<exists>r. r \<noteq> [] \<and> q = p @ r"

lemma tracks_clear:
  assumes "tracks es m" "m p = Some (i, nfo)"
  shows "\<exists>es'. clear (walk_fuel es) es i = (Ok es' :: ('e, _) outcome) \<and> tracks es' (\<lambda>q. if below p q then None else m q)"
proof -
  obtain t fl u where t: "forest es t fl" "m = infos t" "sub t p = Some u" "i = int (s_idx u)" by (rule tracksE [OF assms])
  let ?i = "s_idx u" and ?S = "set (idxss (s_subs u))"
  have b: "s_idx t = 0" "in_store es t" "names_ok t" "distinct (idxs t)" "distinct fl" "set (idxs t) \<inter> set fl = {}" "chain es (e_next (es ! 0)) fl"
    using t(1) by (auto simp: forest_def)
  have u: "in_store es u" "distinct (idxs u)" "names_ok u"
    using sub_in_store [OF t(3)] sub_distinct [OF t(3)] sub_names_ok [OF t(3)] b by auto
  have il: "?i < length es" and h: "holds (es ! ?i) u" and sb: "siblings es (s_subs u)" "\<forall>x \<in> set (s_subs u). in_store es x"
    using u(1) by (simp_all add: in_store_def' [of es u])
  have iu: "set (idxs u) = insert ?i ?S" "?i \<notin> ?S" using u(2) by (simp_all add: idxs_def' [of u])
  have ut: "set (idxs u) \<subseteq> set (idxs t)" by (rule sub_idxs [OF t(3)])
  have z: "0 \<notin> ?S" by (rule root_not_below(1) [OF t(1,3)])
  have len: "2 * length (idxss (s_subs u)) + 1 \<le> 2 * length es + 1"
    using length_idxs [OF u(2), of "length es"] in_store_bound [OF u(1)] by (auto simp: idxs_def' [of u])
  have "distinct (0 # idxss (s_subs u) @ fl)"
    using u(2) z b(1,5,6) ut s_idx_idxs [of t] iu(1) by (auto simp: idxs_def' [of u])
  moreover have "es \<noteq> []" using il by auto
  ultimately obtain es1 fl' where c: "clear_loop (2 * length es + 1) es (head_idx (s_subs u)) = (Ok es1 :: ('e, _) outcome)"
    "cleared es ?S fl es1 fl'" using clear_loop_ok [OF sb _ b(7) _ len] by blast
  define es' where "es' = es1[?i := (es1 ! ?i)\<lparr>e_child := -1\<rparr>]"
  have l: "length es1 = length es" "length es' = length es" using c(2) by (simp_all add: cleared_def es'_def)
  have e1: "es1 ! j = es ! j" if "j \<noteq> 0" "j \<notin> ?S" for j using c(2) that by (simp add: cleared_def)
  obtain nx where z1: "es1 ! 0 = (es ! 0)\<lparr>e_next := nx\<rparr>" using c(2) by (auto simp: cleared_def)
  have nxt: "e_next (es' ! j) = e_next (es1 ! j)" for j using il l(1) by (cases "j = ?i") (simp_all add: es'_def)
  define u' where "u' = Seen ?i (s_name u) (s_kind u) (s_explicit u) (s_kv u) []"
  have u': "s_idx u' = ?i" "s_name u' = s_name u" "idxs u' = [?i]" "names_ok u'" by (simp_all add: u'_def)
  have "\<exists>y. es1 ! ?i = (es ! ?i)\<lparr>e_next := y\<rparr>"
  proof (cases "?i = 0")
    case False
    then show ?thesis using e1 [of ?i] iu(2) by (intro exI [of _ "e_next (es ! ?i)"]) simp
  qed (use z1 in auto)
  then have st: "in_store es' u'" using il l h by (auto simp: u'_def es'_def holds_def)
  have f2: "set fl' = ?S \<union> set fl" "distinct fl'" using c(2) by (auto simp: cleared_def)
  have fo: "forest es' (put p (\<lambda>_. u') t) fl'"
  proof (rule forest_put [OF t(1,3) u'(1,2) st u'(4)])
    show "p \<noteq> [] \<longrightarrow> e_next (es' ! ?i) = e_next (es ! ?i) \<and> (\<exists>nx. es' ! 0 = (es ! 0)\<lparr>e_next := nx\<rparr>)"
      using root_not_below(2) [OF t(1,3)] z1 e1 [of ?i] iu(2) nxt by (auto simp: es'_def)
    show "\<forall>j \<in> set (idxs t) - set (idxs u). j \<noteq> 0 \<longrightarrow> es' ! j = es ! j" using e1 iu by (auto simp: es'_def)
    have "chain es1 (e_next (es1 ! 0)) fl'" using c(2) by (simp add: cleared_def)
    then show "chain es' (e_next (es' ! 0)) fl'" using nxt l by (auto intro!: chain_frame [of es1])
    show "set fl' \<inter> (set (idxs t) - set (idxs u) \<union> set (idxs u')) = {}"
      using f2(1) b(6) ut iu unfolding u'(3) by auto
  qed (use f2 iu l u' in auto)
  have "tracks es' (\<lambda>q. if below p q then None else m q)"
  proof (rule tracks_put [OF t(1,3) fo u'(1,2)])
    fix q
    have "infos u' r = (if r = [] then infos u r else None)" for r
      by (cases r) (simp_all add: infos_def info_def u'_def)
    then show "(if below p q then None else m q) = (if \<exists>r. q = p @ r then infos u' (drop (length p) q) else infos t q)"
      using t(2) infos_append [OF t(3)] infos_append [OF t(3), of "[]"] by auto
  qed
  moreover have "clear (walk_fuel es) es i = (Ok es' :: ('e, _) outcome)"
    using c(1) il l(1) h unfolding walk_fuel_def t(4) by (simp add: holds_def es'_def del: clear_loop.simps)
  ultimately show ?thesis by blast
qed

section \<open>Closing a table\<close>

fun flag :: "seen \<Rightarrow> seen" where
  "flag (Seen i n kd e v ts) = Seen i n kd (e \<or> v) False (map flag ts)"

lemma flag_sel [simp]: "s_idx (flag t) = s_idx t" "s_name (flag t) = s_name t" "s_subs (flag t) = map flag (s_subs t)"
  by (cases t; simp)+

lemma idxs_flag [simp]: "idxs (flag t) = idxs t"
  by (induction t) (auto cong: map_cong simp: comp_def)

lemma names_flag: "names_ok t \<Longrightarrow> names_ok (flag t)"
  by (induction t) (auto simp: comp_def)

lemma map_idx_flag [simp]: "map s_idx (map flag ts) = map s_idx ts"
  by simp

lemma head_flag [simp]: "head_idx (map flag ts) = head_idx ts"
  by (cases ts) auto

lemma siblings_flag [simp]: "siblings es (map flag ts) = siblings es ts"
  by (rule siblings_map) simp

lemma find_flag: "List.find (\<lambda>u. s_name u = key) (map flag ts) = map_option flag (List.find (\<lambda>u. s_name u = key) ts)"
  by (induction ts) auto

lemma sub_flag: "sub (flag t) p = map_option flag (sub t p)"
proof (induction p arbitrary: t)
  case (Cons key p)
  then show ?case by (cases "List.find (\<lambda>u. s_name u = key) (s_subs t)") (simp_all add: find_flag)
qed simp

text \<open>The loop over the children of an entry; no sibling link changes.\<close>

lemma flag_loop_ok:
  assumes "siblings es ts" "\<forall>t \<in> set ts. in_store es t" "distinct (idxss ts)" "2 * length (idxss ts) + 1 \<le> n"
  shows "\<exists>es'. flag_loop n es (head_idx ts) = (Ok es' :: ('e, _) outcome) \<and> length es' = length es \<and>
    (\<forall>i. e_next (es' ! i) = e_next (es ! i)) \<and> (\<forall>i. i \<notin> set (idxss ts) \<longrightarrow> es' ! i = es ! i) \<and> (\<forall>t \<in> set ts. in_store es' (flag t))"
  using assms
proof (induction "length (idxss ts)" arbitrary: ts es n rule: less_induct)
  case less
  show ?case
  proof (cases ts)
    case Nil
    then show ?thesis using less.prems by (cases n) auto
  next
    case (Cons t us)
    obtain m where m: "n = Suc (Suc m)" using less.prems(4) Cons by (cases n; cases "n - 1") (auto simp: idxs_def' [of t])
    let ?i = "s_idx t" and ?S = "idxss (s_subs t)"
    have I: "idxss ts = ?i # ?S @ idxss us" by (simp add: Cons idxs_def' [of t])
    have t: "in_store es t" and sib: "e_next (es ! ?i) = head_idx us" "siblings es us" "\<forall>t \<in> set us. in_store es t"
      using less.prems(1,2) Cons by auto
    have il: "?i < length es" and hi: "holds (es ! ?i) t" and sub: "siblings es (s_subs t)" "\<forall>u \<in> set (s_subs t). in_store es u"
      using t by (simp_all add: in_store_def' [of es t])
    have d: "?i \<notin> set ?S" "distinct ?S" "?i \<notin> set (idxss us)" "distinct (idxss us)" "set ?S \<inter> set (idxss us) = {}"
      using less.prems(3) unfolding I by auto
    define es1 where "es1 = (if kv (es ! ?i) then es[?i := (es ! ?i)\<lparr>explicit := True, kv := False\<rparr>] else es)"
    have e1: "length es1 = length es" "\<And>j. j \<noteq> ?i \<Longrightarrow> es1 ! j = es ! j" by (simp_all add: es1_def)
    have e1i: "e_next (es1 ! ?i) = e_next (es ! ?i)" "holds (es1 ! ?i) (flag t)"
      using il hi by (cases t, auto simp: es1_def holds_def)+
    have "\<forall>j \<in> set ?S. es1 ! j = es ! j" using e1(2) d(1) by metis
    note sub1 = forest_frame [OF sub _ this, simplified e1(1), simplified]
    from less.hyps [OF _ sub1 d(2), of m] obtain es2 where
      c2: "flag_loop m es1 (head_idx (s_subs t)) = (Ok es2 :: ('e, _) outcome)" "length es2 = length es1"
      "\<And>j. e_next (es2 ! j) = e_next (es1 ! j)" "\<And>j. j \<notin> set ?S \<Longrightarrow> es2 ! j = es1 ! j" "\<forall>u \<in> set (s_subs t). in_store es2 (flag u)"
      using less.prems(4) by (force simp: I m)
    have e2i: "es2 ! ?i = es1 ! ?i" using c2(4) d(1) by blast
    have ft: "in_store es2 (flag t)"
    proof -
      have "siblings es2 (s_subs t)" by (rule siblings_frame [OF sub1(1)]) (use c2(3) in simp)
      then show ?thesis using e2i e1i(2) c2(2,5) e1(1) il unfolding in_store_def' [of es2 "flag t"] by simp
    qed
    have same: "es2 ! j = es ! j" if "j \<noteq> ?i" "j \<notin> set ?S" for j using that c2(4) e1(2) by simp
    have "\<forall>j \<in> set (idxss us). es2 ! j = es ! j" using same d(3,5) by (metis IntI empty_iff)
    note us2 = forest_frame [OF sib(2,3) _ this, simplified c2(2) e1(1), simplified]
    from less.hyps [OF _ us2 d(4), of "Suc m"] obtain es' where
      c4: "flag_loop (Suc m) es2 (head_idx us) = (Ok es' :: ('e, _) outcome)" "length es' = length es2"
      "\<And>j. e_next (es' ! j) = e_next (es2 ! j)" "\<And>j. j \<notin> set (idxss us) \<Longrightarrow> es' ! j = es2 ! j" "\<forall>u \<in> set us. in_store es' (flag u)"
      using less.prems(4) by (force simp: I m)
    have "set (idxs t) \<inter> set (idxss us) = {}" using d(3,5) by (auto simp: idxs_def' [of t])
    then have "\<forall>j \<in> set (idxs t). es' ! j = es2 ! j" using c4(4) by (metis IntI empty_iff)
    then have "in_store es' (flag t)" by (intro in_store_frame' [OF ft]) (simp_all add: c4(2))
    moreover have "flag_loop n es (head_idx ts) = (Ok es' :: ('e, _) outcome)"
    proof -
      have "e_next (es2 ! ?i) = head_idx us" using c2(3) e1i(1) sib(1) by simp
      moreover have "setExplicitFlag (Suc m) es1 (int ?i) = (Ok es2 :: ('e, _) outcome)"
        using c2(1) il e1(1) e1i(2) by (simp add: holds_def)
      moreover have "(if kv (es ! ?i) then set_ent (\<lambda>e. e\<lparr>explicit := True, kv := False\<rparr>) (int ?i) es else Ok es) = (Ok es1 :: ('e, _) outcome)"
        using il by (simp add: es1_def)
      ultimately show ?thesis using il c2(2) e1(1) c4(1)
        unfolding m Cons head_idx_simps flag_loop.simps(2) [of "Suc m" es] by (simp del: flag_loop.simps setExplicitFlag.simps)
    qed
    moreover have "\<forall>j. e_next (es' ! j) = e_next (es ! j)" using c4(3) c2(3) e1(2) e1i(1) by (metis)
    moreover have "\<forall>j. j \<notin> set (idxss ts) \<longrightarrow> es' ! j = es ! j" using c4(4) same unfolding I by auto
    ultimately show ?thesis using c4(2,5) c2(2) e1(1) by (auto simp: Cons)
  qed
qed

definition flag_info :: "int \<times> key_info \<Rightarrow> int \<times> key_info" where
  "flag_info = (\<lambda>(i, kd, e, v). (i, kd, e \<or> v, False))"

lemma info_flag: "info (flag t) = flag_info (info t)"
  by (cases t) (simp add: info_def flag_info_def)

lemma tracks_flag:
  assumes "tracks es m" "m p = Some (i, nfo)"
  shows "\<exists>es'. setExplicitFlag (walk_fuel es) es i = (Ok es' :: ('e, _) outcome) \<and>
    tracks es' (\<lambda>q. if below p q then map_option flag_info (m q) else m q)"
proof -
  obtain t fl u where t: "forest es t fl" "m = infos t" "sub t p = Some u" "i = int (s_idx u)" by (rule tracksE [OF assms])
  let ?i = "s_idx u" and ?S = "set (idxss (s_subs u))"
  have b: "s_idx t = 0" "names_ok t" "distinct (idxs t)" "distinct fl" "set (idxs t) \<inter> set fl = {}" "chain es (e_next (es ! 0)) fl"
    using t(1) by (auto simp: forest_def)
  have u: "in_store es u" "distinct (idxs u)" "names_ok u"
    using sub_in_store [OF t(3)] sub_distinct [OF t(3)] sub_names_ok [OF t(3)] t(1) by (auto simp: forest_def)
  have il: "?i < length es" and h: "holds (es ! ?i) u" and sb: "siblings es (s_subs u)" "\<forall>x \<in> set (s_subs u). in_store es x"
    using u(1) by (simp_all add: in_store_def' [of es u])
  have iu: "set (idxs u) = insert ?i ?S" "?i \<notin> ?S" "distinct (idxss (s_subs u))" using u(2) by (simp_all add: idxs_def' [of u])
  have z: "0 \<notin> ?S" by (rule root_not_below(1) [OF t(1,3)])
  have len: "2 * length (idxss (s_subs u)) + 1 \<le> 2 * length es + 1"
    using length_idxs [OF u(2), of "length es"] in_store_bound [OF u(1)] by (auto simp: idxs_def' [of u])
  obtain es' where c: "flag_loop (2 * length es + 1) es (head_idx (s_subs u)) = (Ok es' :: ('e, _) outcome)" "length es' = length es"
    "\<And>j. e_next (es' ! j) = e_next (es ! j)" "\<And>j. j \<notin> ?S \<Longrightarrow> es' ! j = es ! j" "\<forall>x \<in> set (s_subs u). in_store es' (flag x)"
    using flag_loop_ok [OF sb iu(3) len] by blast
  define u' where "u' = Seen ?i (s_name u) (s_kind u) (s_explicit u) (s_kv u) (map flag (s_subs u))"
  have nm: "distinct (map s_name (s_subs u))" "\<forall>x \<in> set (s_subs u). names_ok x" using u(3) by (cases u, simp)+
  have u': "s_idx u' = ?i" "s_name u' = s_name u" "idxs u' = idxs u" "names_ok u'"
    using nm names_flag by (auto simp: u'_def comp_def idxs_def' [of u])
  have "siblings es' (s_subs u)" by (rule siblings_frame [OF sb(1)]) (use c(3) in simp)
  then have st: "in_store es' u'" using c(2,4,5) h il iu(2) by (simp add: u'_def holds_def)
  have fo: "forest es' (put p (\<lambda>_. u') t) fl"
  proof (rule forest_put [OF t(1,3) u'(1,2) st u'(4)])
    show "p \<noteq> [] \<longrightarrow> e_next (es' ! ?i) = e_next (es ! ?i) \<and> (\<exists>nx. es' ! 0 = (es ! 0)\<lparr>e_next := nx\<rparr>)"
      using c(3) c(4) [OF z] by (auto intro!: exI [of _ "e_next (es ! 0)"])
    show "\<forall>j \<in> set (idxs t) - set (idxs u). j \<noteq> 0 \<longrightarrow> es' ! j = es ! j" using c(4) iu(1) by (metis DiffE insertCI)
    show "chain es' (e_next (es' ! 0)) fl" using b(6) c(2,3) by (auto intro!: chain_frame [of es])
  qed (use b u(2) u' c(2) sub_idxs [OF t(3)] in auto)
  have "tracks es' (\<lambda>q. if below p q then map_option flag_info (m q) else m q)"
  proof (rule tracks_put [OF t(1,3) fo u'(1,2)])
    fix q
    have "infos u' r = (if r = [] then infos u r else map_option flag_info (infos u r))" for r
    proof (cases r)
      case (Cons key r')
      then show ?thesis by (cases "List.find (\<lambda>u. s_name u = key) (s_subs u)")
        (auto simp: infos_def u'_def find_flag sub_flag info_flag option.map_comp comp_def)
    qed (simp add: infos_def info_def u'_def)
    then show "(if below p q then map_option flag_info (m q) else m q) = (if \<exists>r. q = p @ r then infos u' (drop (length p) q) else infos t q)"
      using t(2) infos_append [OF t(3)] infos_append [OF t(3), of "[]"] by auto
  qed
  moreover have "setExplicitFlag (walk_fuel es) es i = (Ok es' :: ('e, _) outcome)"
    using c(1) il h unfolding walk_fuel_def t(4) by (simp add: holds_def del: flag_loop.simps)
  ultimately show ?thesis by blast
qed

section \<open>The specification: a map from paths\<close>

text \<open>
  A document up to some point has used some paths of keys, each as a value, a table or an array
  table; \<open>explicit\<close> means that the table has a header of its own or was made by dotted keys under
  a header that has ended, and \<open>kv\<close> that it was made by a dotted key. The second component is the
  path of the current header.
\<close>

type_synonym keys = "byte list list \<Rightarrow> key_info option"
type_synonym seen_spec = "keys \<times> byte list list"

definition spec_new :: seen_spec where
  "spec_new = ([[] \<mapsto> (invalidKind, False, False)], [])"

definition spec_close :: "seen_spec \<Rightarrow> keys" where
  "spec_close st = (let (m, cur) = st in (\<lambda>q. if below cur q then map_option (\<lambda>(kd, e, v). (kd, e \<or> v, False)) (m q) else m q))"

fun spec_parents :: "keys \<Rightarrow> byte list list \<Rightarrow> byte list list \<Rightarrow> (seen_error, keys \<times> byte list list) outcome" where
  "spec_parents m p [] = Panic"
| "spec_parents m p [key] = Ok (m, p @ [key])"
| "spec_parents m p (key # ks) =
     (case m (p @ [key]) of
        None \<Rightarrow> spec_parents (m(p @ [key] \<mapsto> (tableKind, False, False))) (p @ [key]) ks
      | Some (kd, _) \<Rightarrow>
          if kd = valueKind then Err (Errorf ''toml: expected %s to be a table, not a %s'' [key, keyKind_String kd])
          else spec_parents m (p @ [key]) ks)"

definition spec_last_table :: "keys \<Rightarrow> byte list list \<Rightarrow> (seen_error, bool \<times> seen_spec) outcome" where
  "spec_last_table m q = (case m q of
      None \<Rightarrow> Ok (True, m(q \<mapsto> (tableKind, True, False)), q)
    | Some (kd, ex, v) \<Rightarrow>
        if kd \<noteq> tableKind then Err (Errorf ''toml: key %s should be a table, not a %s'' [last q, keyKind_String kd])
        else if ex then Err (Errorf ''toml: table %s already exists'' [last q])
        else Ok (False, m(q \<mapsto> (kd, True, v)), q))"

definition spec_table :: "seen_spec \<Rightarrow> byte list list \<Rightarrow> (seen_error, bool \<times> seen_spec) outcome" where
  "spec_table st ks = bind_outcome (spec_parents (spec_close st) [] ks) (\<lambda>(m, q). spec_last_table m q)"

definition spec_last_array :: "keys \<Rightarrow> byte list list \<Rightarrow> (seen_error, bool \<times> seen_spec) outcome" where
  "spec_last_array m q = (case m q of
      None \<Rightarrow> Ok (True, m(q \<mapsto> (arrayTableKind, True, False)), q)
    | Some (kd, ex, v) \<Rightarrow>
        if kd \<noteq> arrayTableKind then
          Err (Errorf ''toml: key %s already exists as a %s,  but should be an array table'' [keyKind_String kd, last q])
        else Ok (False, (\<lambda>r. if below q r then None else m r), q))"

definition spec_array :: "seen_spec \<Rightarrow> byte list list \<Rightarrow> (seen_error, bool \<times> seen_spec) outcome" where
  "spec_array st ks = bind_outcome (spec_parents (spec_close st) [] ks) (\<lambda>(m, q). spec_last_array m q)"

fun spec_dotted :: "keys \<Rightarrow> byte list list \<Rightarrow> byte list list \<Rightarrow> (seen_error, keys \<times> byte list list) outcome" where
  "spec_dotted m p [] = Ok (m, p)"
| "spec_dotted m p (key # ks) =
     (case m (p @ [key]) of
        None \<Rightarrow> spec_dotted (m(p @ [key] \<mapsto> (tableKind, False, True))) (p @ [key]) ks
      | Some (kd, ex, v) \<Rightarrow>
          if ks = [] then Err (Errorf ''toml: key %s is already defined'' [key])
          else if kd \<noteq> tableKind then Err (Errorf ''toml: expected %s to be a table, not a %s'' [key, keyKind_String kd])
          else if ex then Err (Errorf ''toml: cannot redefine table %s that has already been explicitly defined'' [key])
          else spec_dotted m (p @ [key]) ks)"

definition spec_define :: "seen_spec \<Rightarrow> byte list list \<Rightarrow> (seen_error, seen_spec) outcome" where
  "spec_define st ks = (let (m, cur) = st in
     bind_outcome (spec_dotted m cur ks) (\<lambda>(m, q).
       case m q of None \<Rightarrow> Panic | Some (kd, rest) \<Rightarrow> Ok (m(q \<mapsto> (valueKind, rest)), cur)))"

function (sequential) spec_keyvalue :: "seen_spec \<Rightarrow> toml \<Rightarrow> (seen_error, bool \<times> seen_spec) outcome"
and spec_values :: "bool \<Rightarrow> toml list \<Rightarrow> (seen_error, bool) outcome"
and spec_inline :: "seen_spec \<Rightarrow> bool \<Rightarrow> toml list \<Rightarrow> (seen_error, bool) outcome" where
  "spec_keyvalue st (TNode kd d []) = Panic"
| "spec_keyvalue st (TNode kd d (TNode vk vd vs # ks)) =
     bind_outcome (key_parts (TNode kd d (TNode vk vd vs # ks))) (\<lambda>ks.
     bind_outcome (spec_define st ks) (\<lambda>st.
       if vk = InlineTable then bind_outcome (spec_inline spec_new False vs) (\<lambda>b. Ok (b, st))
       else if vk = Array then bind_outcome (spec_values False vs) (\<lambda>b. Ok (b, st))
       else Ok (False, st)))"
| "spec_values b [] = Ok b"
| "spec_values b (TNode nk nd vs # ns) =
     (if nk = InlineTable then bind_outcome (spec_inline spec_new False vs) (\<lambda>b. spec_values b ns)
      else if nk = Array then bind_outcome (spec_values False vs) (\<lambda>b. spec_values b ns)
      else spec_values b ns)"
| "spec_inline st b [] = Ok b"
| "spec_inline st b (n # ns) = bind_outcome (spec_keyvalue st n) (\<lambda>(b, st). spec_inline st b ns)"
  by pat_completeness auto
termination
  by (relation "measure (case_sum (\<lambda>(s, t). size t) (case_sum (\<lambda>(b, ts). size_list size ts + 1) (\<lambda>(s, b, ts). size_list size ts + 1)))")
    auto

definition spec_expression :: "seen_spec \<Rightarrow> toml \<Rightarrow> (seen_error, bool \<times> seen_spec) outcome" where
  "spec_expression st node = (case t_kind node of
      KeyValue \<Rightarrow> spec_keyvalue st node
    | Table \<Rightarrow> bind_outcome (key_parts node) (spec_table st)
    | ArrayTable \<Rightarrow> bind_outcome (key_parts node) (spec_array st)
    | _ \<Rightarrow> Panic)"

section \<open>The array implements the map\<close>

definition refines :: "('a \<Rightarrow> 'b \<Rightarrow> bool) \<Rightarrow> ('e, 'a) outcome \<Rightarrow> ('e, 'b) outcome \<Rightarrow> bool" where
  "refines R x y \<longleftrightarrow> (\<exists>a b. x = Ok a \<and> y = Ok b \<and> R a b) \<or> (\<exists>e. x = Err e \<and> y = Err e)"

lemma refines_Ok [simp]: "refines R (Ok a) (Ok b) \<longleftrightarrow> R a b"
  by (simp add: refines_def)

lemma refines_Err [simp]: "refines R (Err e) (Err e') \<longleftrightarrow> e = e'"
  by (auto simp: refines_def)

lemma refines_bind:
  "refines R x y \<Longrightarrow> (\<And>a b. R a b \<Longrightarrow> refines Q (f a) (g b)) \<Longrightarrow> refines Q (bind_outcome x f) (bind_outcome y g)"
  unfolding refines_def [of R] by (elim disjE exE conjE) simp_all

lemma refines_bind_Ok:
  "refines R x y \<Longrightarrow> (\<And>a b. x = Ok a \<Longrightarrow> y = Ok b \<Longrightarrow> R a b \<Longrightarrow> refines Q (f a) (g b)) \<Longrightarrow> refines Q (bind_outcome x f) (bind_outcome y g)"
  unfolding refines_def [of R] by (elim disjE exE conjE) simp_all

lemma refines_mono: "refines R x y \<Longrightarrow> (\<And>a b. R a b \<Longrightarrow> Q a b) \<Longrightarrow> refines Q x y"
  unfolding refines_def by blast

definition abs_keys :: "(byte list list \<Rightarrow> (int \<times> key_info) option) \<Rightarrow> keys" where
  "abs_keys m q = map_option snd (m q)"

lemma abs_keys_upd [simp]: "abs_keys (m(q \<mapsto> (i, x))) = (abs_keys m)(q \<mapsto> x)"
  by (rule ext) (simp add: abs_keys_def)

lemma abs_keys_flag:
  "abs_keys (\<lambda>q. if below p q then map_option flag_info (m q) else m q) = spec_close (abs_keys m, p)"
  by (rule ext) (auto simp: abs_keys_def spec_close_def flag_info_def option.map_comp comp_def split_beta)

lemma abs_keys_clear: "abs_keys (\<lambda>q. if below p q then None else m q) = (\<lambda>q. if below p q then None else abs_keys m q)"
  by (rule ext) (auto simp: abs_keys_def)

lemma parents_loop_refines:
  "tracks es m \<Longrightarrow> m p = Some (i, nfo) \<Longrightarrow> ks \<noteq> [] \<Longrightarrow>
   refines (\<lambda>(es', j, key) (m', q). \<exists>m1 p1 nf. tracks es' m1 \<and> m' = abs_keys m1 \<and> q = p1 @ [key] \<and> m1 p1 = Some (j, nf))
     (parents_loop es i ks) (spec_parents (abs_keys m) p ks)"
proof (induction es i ks arbitrary: m p nfo rule: parents_loop.induct)
  case (3 es i key k2 ks)
  have f: "find_key es i key = (Ok (case m (p @ [key]) of None \<Rightarrow> -1 | Some (j, _) \<Rightarrow> j) :: (seen_error, _) outcome)"
    by (rule tracks_find [OF "3.prems"(1,2)])
  show ?case
  proof (cases "m (p @ [key])")
    case None
    obtain es' j where c: "create es i key tableKind False False = (Ok (es', j) :: (seen_error, _) outcome)"
      "tracks es' (m(p @ [key] \<mapsto> (j, tableKind, False, False)))"
      using tracks_create [OF "3.prems"(1,2) None, where 'e = seen_error] by blast
    have "refines (\<lambda>(es', j, key) (m', q). \<exists>m1 p1 nf. tracks es' m1 \<and> m' = abs_keys m1 \<and> q = p1 @ [key] \<and> m1 p1 = Some (j, nf))
       (parents_loop es' j (k2 # ks)) (spec_parents (abs_keys (m(p @ [key] \<mapsto> (j, tableKind, False, False)))) (p @ [key]) (k2 # ks))"
      by (rule "3.IH"(1) [OF f _ c(1) refl c(2)]) (auto simp: None)
    then show ?thesis using f c(1) None by (simp add: abs_keys_def [of m "p @ [key]"])
  next
    case (Some x)
    obtain j kd ex v where x: "x = (j, kd, ex, v)" by (cases x)
    note Some = Some [unfolded x]
    have f: "find_key es i key = (Ok j :: (seen_error, _) outcome)" using f Some by simp
    obtain e where e: "ent es j = (Ok e :: (seen_error, _) outcome)" "e_kind e = kd" using tracks_ent [OF "3.prems"(1) Some] by blast
    have j: "\<not> j < 0" using tracks_pos [OF "3.prems"(1) Some] by simp
    have "refines (\<lambda>(es', j, key) (m', q). \<exists>m1 p1 nf. tracks es' m1 \<and> m' = abs_keys m1 \<and> q = p1 @ [key] \<and> m1 p1 = Some (j, nf))
       (parents_loop es j (k2 # ks)) (spec_parents (abs_keys m) (p @ [key]) (k2 # ks))" if "kd \<noteq> valueKind"
      by (rule "3.IH"(2) [OF f _ e(1) _ "3.prems"(1) Some]) (use that e j Some in auto)
    then show ?thesis using f e j Some by (simp add: abs_keys_def [of m "p @ [key]"])
  qed
qed auto

lemma keyvalue_loop_refines:
  "tracks es m \<Longrightarrow> m p = Some (i, nfo) \<Longrightarrow>
   refines (\<lambda>(es', l) (m', q). \<exists>m1 nf. tracks es' m1 \<and> m' = abs_keys m1 \<and> m1 q = Some (l, nf) \<and> (\<forall>r x. m r = Some x \<longrightarrow> m1 r = Some x) \<and> q = p @ ks)
     (keyvalue_loop es i ks) (spec_dotted (abs_keys m) p ks)"
proof (induction es i ks arbitrary: m p nfo rule: keyvalue_loop.induct)
  case (2 es i key ks)
  have f: "find_key es i key = (Ok (case m (p @ [key]) of None \<Rightarrow> -1 | Some (j, _) \<Rightarrow> j) :: (seen_error, _) outcome)"
    by (rule tracks_find [OF "2.prems"(1,2)])
  show ?case
  proof (cases "m (p @ [key])")
    case None
    obtain es' j where c: "create es i key tableKind False True = (Ok (es', j) :: (seen_error, _) outcome)"
      "tracks es' (m(p @ [key] \<mapsto> (j, tableKind, False, True)))"
      using tracks_create [OF "2.prems"(1,2) None, where 'e = seen_error] by blast
    have "refines (\<lambda>(es', l) (m', q). \<exists>m1 nf. tracks es' m1 \<and> m' = abs_keys m1 \<and> m1 q = Some (l, nf) \<and>
         (\<forall>r x. (m(p @ [key] \<mapsto> (j, tableKind, False, True))) r = Some x \<longrightarrow> m1 r = Some x) \<and> q = (p @ [key]) @ ks)
       (keyvalue_loop es' j ks) (spec_dotted (abs_keys (m(p @ [key] \<mapsto> (j, tableKind, False, True)))) (p @ [key]) ks)"
      by (rule "2.IH"(1) [OF f _ c(1) refl c(2)]) (auto simp: None)
    then have "refines (\<lambda>(es', l) (m', q). \<exists>m1 nf. tracks es' m1 \<and> m' = abs_keys m1 \<and> m1 q = Some (l, nf) \<and> (\<forall>r x. m r = Some x \<longrightarrow> m1 r = Some x) \<and> q = p @ key # ks)
       (keyvalue_loop es' j ks) (spec_dotted (abs_keys (m(p @ [key] \<mapsto> (j, tableKind, False, True)))) (p @ [key]) ks)"
    proof (rule refines_mono, clarify)
      fix es1 l m1 nf
      assume a: "tracks es1 m1" "m1 ((p @ [key]) @ ks) = Some (l, nf)" "\<forall>r x. (m(p @ [key] \<mapsto> (j, tableKind, False, True))) r = Some x \<longrightarrow> m1 r = Some x"
      have "\<forall>r x. m r = Some x \<longrightarrow> m1 r = Some x" using a(3) None by (metis fun_upd_other option.distinct(1))
      with a(1,2) show "\<exists>m1' nf. tracks es1 m1' \<and> abs_keys m1 = abs_keys m1' \<and> m1' ((p @ [key]) @ ks) = Some (l, nf) \<and>
          (\<forall>r x. m r = Some x \<longrightarrow> m1' r = Some x) \<and> (p @ [key]) @ ks = p @ key # ks"
        by (intro exI [of _ m1] exI [of _ nf] conjI) simp_all
    qed
    then show ?thesis using f c(1) None by (simp add: abs_keys_def [of m "p @ [key]"])
  next
    case (Some x)
    obtain j kd ex v where x: "x = (j, kd, ex, v)" by (cases x)
    note Some = Some [unfolded x]
    have f: "find_key es i key = (Ok j :: (seen_error, _) outcome)" using f Some by simp
    obtain e where e: "ent es j = (Ok e :: (seen_error, _) outcome)" "e_kind e = kd" "explicit e = ex" using tracks_ent [OF "2.prems"(1) Some] by blast
    have j: "\<not> j < 0" using tracks_pos [OF "2.prems"(1) Some] by simp
    have "refines (\<lambda>(es', l) (m', q). \<exists>m1 nf. tracks es' m1 \<and> m' = abs_keys m1 \<and> m1 q = Some (l, nf) \<and> (\<forall>r x. m r = Some x \<longrightarrow> m1 r = Some x) \<and> q = (p @ [key]) @ ks)
       (keyvalue_loop es j ks) (spec_dotted (abs_keys m) (p @ [key]) ks)" if "ks \<noteq> []" "kd = tableKind" "\<not> ex"
      by (rule "2.IH"(2) [OF f _ e(1) _ _ _ "2.prems"(1) Some]) (use that e j Some in auto)
    then show ?thesis using f e j Some by (simp add: abs_keys_def [of m "p @ [key]"])
  qed
qed auto

text \<open>The tracker stands for the map and the current path of the specification.\<close>

definition seen_state :: "SeenTracker \<Rightarrow> seen_spec \<Rightarrow> bool" where
  "seen_state s st \<longleftrightarrow> (\<exists>m nfo. tracks (entries s) m \<and> fst st = abs_keys m \<and> m (snd st) = Some (currentIdx s, nfo))"

lemma seen_state_new:
  assumes "entries s = []"
  shows "seen_state (SeenTracker_reset s) spec_new"
proof -
  let ?t = "Seen 0 [] invalidKind False False []"
  have "forest (entries (SeenTracker_reset s)) ?t []"
    using assms by (simp add: SeenTracker_reset_def forest_def holds_def zero_entry_def)
  moreover have "infos ?t q = [[] \<mapsto> (0, invalidKind, False, False)] q" for q
    by (cases q) (simp_all add: infos_def info_def)
  ultimately have t: "tracks (entries (SeenTracker_reset s)) [[] \<mapsto> (0, invalidKind, False, False)]"
    unfolding tracks_def by (intro exI [of _ ?t] exI [of _ "[]"]) auto
  have a: "abs_keys [[] \<mapsto> (0, invalidKind, False, False)] = fst spec_new"
    by (rule ext) (simp add: abs_keys_def spec_new_def)
  show ?thesis unfolding seen_state_def
    by (rule exI, rule exI, intro conjI, rule t, rule a [symmetric]) (simp_all add: spec_new_def SeenTracker_reset_def)
qed

lemma new_tracker_state: "seen_state new_tracker spec_new"
  unfolding new_tracker_def by (rule seen_state_new) simp

lemma define_key_refines:
  assumes "seen_state s st"
  shows "refines seen_state (define_key s ks) (spec_define st ks)"
proof -
  obtain m cur where st: "st = (m, cur)" by (cases st)
  from assms obtain m0 nfo where t: "tracks (entries s) m0" "m = abs_keys m0" "m0 cur = Some (currentIdx s, nfo)"
    by (auto simp: seen_state_def st)
  show ?thesis unfolding define_key_def spec_define_def st Let_def prod.case t(2)
  proof (rule refines_bind [OF keyvalue_loop_refines [OF t(1,3)]], clarify)
    fix es' j m1 kd ex v
    assume a: "tracks es' m1" "m1 (cur @ ks) = Some (j, kd, ex, v)" "\<forall>r x. m0 r = Some x \<longrightarrow> m1 r = Some x"
    obtain es2 where e: "set_ent (\<lambda>e. e\<lparr>e_kind := valueKind\<rparr>) j es' = (Ok es2 :: (seen_error, _) outcome)"
      "tracks es2 (m1(cur @ ks \<mapsto> (j, valueKind, ex, v)))"
      using tracks_set [OF a(1,2), of "\<lambda>e. e\<lparr>e_kind := valueKind\<rparr>" "(valueKind, ex, v)"] by auto
    have c: "m1 cur = Some (currentIdx s, nfo)" using a(3) t(3) by blast
    then have "\<exists>nf. (m1(cur @ ks \<mapsto> (j, valueKind, ex, v))) cur = Some (currentIdx s, nf)" using a(2) by (cases "ks = []") (auto simp del: split_paired_Ex)
    then have "seen_state (s\<lparr>entries := es2\<rparr>) ((abs_keys m1)(cur @ ks \<mapsto> (valueKind, ex, v)), cur)"
      unfolding seen_state_def using e(2) by (fastforce simp flip: abs_keys_upd)
    then show "refines seen_state (bind_outcome (set_ent (\<lambda>e. e\<lparr>e_kind := valueKind\<rparr>) j es' :: (seen_error, _) outcome) (\<lambda>es. Ok (s\<lparr>entries := es\<rparr>)))
        (case abs_keys m1 (cur @ ks) of None \<Rightarrow> Panic | Some (kd, rest) \<Rightarrow> Ok ((abs_keys m1)(cur @ ks \<mapsto> (valueKind, rest)), cur))"
      using e(1) a(2) by (simp add: abs_keys_def [of m1 "cur @ ks"])
  qed
qed

definition result_rel :: "bool \<times> SeenTracker \<Rightarrow> bool \<times> seen_spec \<Rightarrow> bool" where
  "result_rel = (\<lambda>(b, s) (b', st). b = b' \<and> seen_state s st)"

lemma key_parts_keyval:
  "keyval_tree (TNode kd d (v # ks)) \<Longrightarrow> key_parts (TNode kd d (v # ks)) = Ok (map t_data ks)"
  by (simp add: key_parts_def)

lemma keyvalue_refines:
  "seen_state s st \<Longrightarrow> keyval_tree t \<Longrightarrow> refines result_rel (checkKeyValue s t) (spec_keyvalue st t)"
  "\<forall>t \<in> set ts. val_tree t \<or> comment_tree t \<Longrightarrow> refines (=) (checkArray b ts) (spec_values b ts)"
  "seen_state s st \<Longrightarrow> \<forall>t \<in> set us. keyval_tree t \<Longrightarrow> refines (=) (checkInlineTable s c us) (spec_inline st c us)"
proof (induction s t and b ts and s c us arbitrary: st and and st rule: checkKeyValue_checkArray_checkInlineTable.induct)
  case (1 s kd d)
  then show ?case by simp
next
  case (2 s kd d vk vd vs ks)
  have k: "key_parts (TNode kd d (TNode vk vd vs # ks)) = (Ok (map t_data ks) :: (seen_error, _) outcome)"
    using key_parts_keyval "2.prems"(2) by blast
  have v: "val_tree (TNode vk vd vs)" using "2.prems"(2) by simp
  show ?case unfolding checkKeyValue.simps spec_keyvalue.simps k bind_outcome.simps
  proof (rule refines_bind_Ok [OF define_key_refines [OF "2.prems"(1)]])
    fix s' st' assume ok: "define_key s (map t_data ks) = Ok s'" and st': "seen_state s' st'"
    have "refines result_rel (bind_outcome (checkInlineTable new_tracker False vs) (\<lambda>b. Ok (b, s'))) (bind_outcome (spec_inline spec_new False vs) (\<lambda>b. Ok (b, st')))"
      if i: "vk = InlineTable"
      by (rule refines_bind [OF "2.IH"(1) [OF k ok i new_tracker_state]]) (use v i st' in \<open>auto simp: result_rel_def\<close>)
    moreover have "refines result_rel (bind_outcome (checkArray False vs) (\<lambda>b. Ok (b, s'))) (bind_outcome (spec_values False vs) (\<lambda>b. Ok (b, st')))"
      if i: "vk = Array"
      by (rule refines_bind [OF "2.IH"(2) [OF k ok _ i]]) (use v i st' in \<open>auto simp: result_rel_def\<close>)
    ultimately show "refines result_rel
        (if vk = InlineTable then bind_outcome (checkInlineTable new_tracker False vs) (\<lambda>b. Ok (b, s'))
         else if vk = Array then bind_outcome (checkArray False vs) (\<lambda>b. Ok (b, s')) else Ok (False, s'))
        (if vk = InlineTable then bind_outcome (spec_inline spec_new False vs) (\<lambda>b. Ok (b, st'))
         else if vk = Array then bind_outcome (spec_values False vs) (\<lambda>b. Ok (b, st')) else Ok (False, st'))"
      using st' by (simp add: result_rel_def)
  qed
next
  case (4 b nk nd vs ns)
  have tl: "\<forall>t \<in> set ns. val_tree t \<or> comment_tree t" using "4.prems" by simp
  have nc: "\<not> comment_tree (TNode nk nd vs)" if "nk \<noteq> Comment" using that by (simp add: comment_tree_def)
  show ?case
  proof (cases "nk = InlineTable")
    case True
    then have "val_tree (TNode nk nd vs)" using "4.prems" nc by simp
    then have "\<forall>t \<in> set vs. keyval_tree t" using True by simp
    from refines_bind_Ok [OF "4.IH"(1) [OF True new_tracker_state this], of "(=)" "\<lambda>b. checkArray b ns" "\<lambda>b. spec_values b ns"]
    show ?thesis using True "4.IH"(2) tl by auto
  next
    case False
    show ?thesis
    proof (cases "nk = Array")
      case True
      then have "val_tree (TNode nk nd vs)" using "4.prems" nc by simp
      then have "\<forall>t \<in> set vs. val_tree t \<or> comment_tree t" using True by simp
      from refines_bind_Ok [OF "4.IH"(3) [OF False True this], of "(=)" "\<lambda>b. checkArray b ns" "\<lambda>b. spec_values b ns"]
      show ?thesis using False True "4.IH"(4) tl by auto
    next
      case False2: False
      then show ?thesis using False "4.IH"(5) tl by simp
    qed
  qed
next
  case (6 s b n ns)
  show ?case unfolding checkInlineTable.simps spec_inline.simps
  proof (rule refines_bind_Ok [OF "6.IH"(1) [OF "6.prems"(1)]])
    show "keyval_tree n" using "6.prems"(2) by simp
    fix a b' assume "checkKeyValue s n = Ok a" "result_rel a b'"
    then show "refines (=) (case a of (b, s) \<Rightarrow> checkInlineTable s b ns) (case b' of (b, st) \<Rightarrow> spec_inline st b ns)"
      using "6.IH"(2) "6.prems"(2) by (cases a; cases b') (auto simp: result_rel_def)
  qed
qed simp_all

text \<open>Closing the current table and walking to the parent of the new one.\<close>

lemma header_refines:
  assumes "seen_state s st" "ks \<noteq> []"
  shows "refines (\<lambda>(es', j, key) (m', q). \<exists>m1 p1 nf. tracks es' m1 \<and> m' = abs_keys m1 \<and> q = p1 @ [key] \<and> m1 p1 = Some (j, nf))
    (bind_outcome (close_table s) (\<lambda>es. parents_loop es 0 ks)) (spec_parents (spec_close st) [] ks)"
proof -
  obtain m cur where st: "st = (m, cur)" by (cases st)
  from assms obtain m0 nfo where t: "tracks (entries s) m0" "m = abs_keys m0" "m0 cur = Some (currentIdx s, nfo)"
    by (auto simp: seen_state_def st)
  let ?m1 = "\<lambda>q. if below cur q then map_option flag_info (m0 q) else m0 q"
  obtain es1 where e: "setExplicitFlag (walk_fuel (entries s)) (entries s) (currentIdx s) = (Ok es1 :: (seen_error, _) outcome)" "tracks es1 ?m1"
    using tracks_flag [OF t(1,3)] by blast
  have c: "close_table s = Ok es1" using e(1) tracks_pos [OF t(1,3)] by (simp add: close_table_def)
  obtain nf where r: "?m1 [] = Some (0, nf)" using tracks_root [OF e(2)] by blast
  show ?thesis using parents_loop_refines [OF e(2) r assms(2)] unfolding c st abs_keys_flag t(2) by simp
qed

lemma seen_stateI: "tracks es m \<Longrightarrow> m q = Some (i, nf) \<Longrightarrow> seen_state (s\<lparr>entries := es, currentIdx := i\<rparr>) (abs_keys m, q)"
  unfolding seen_state_def by (intro exI [of _ m] exI [of _ nf]) simp

lemma last_table_refines:
  assumes t: "tracks es m" "m p = Some (j, nf)"
  shows "refines result_rel (last_table s es j key) (spec_last_table (abs_keys m) (p @ [key]))"
proof (cases "m (p @ [key])")
  case None
  obtain es' i where c: "create es j key tableKind True False = (Ok (es', i) :: (seen_error, _) outcome)"
    "tracks es' (m(p @ [key] \<mapsto> (i, tableKind, True, False)))"
    using tracks_create [OF t None, where 'e = seen_error] by blast
  from seen_stateI [OF c(2), of "p @ [key]" i "(tableKind, True, False)" s]
  show ?thesis using c(1) None
    by (simp add: last_table_def tracks_find [OF t] spec_last_table_def abs_keys_def [of m "p @ [key]"] result_rel_def)
next
  case (Some x)
  obtain i kd ex v where x: "x = (i, kd, ex, v)" by (cases x)
  note Some = Some [unfolded x]
  obtain e where e: "ent es i = (Ok e :: (seen_error, _) outcome)" "e_kind e = kd" "explicit e = ex" using tracks_ent [OF t(1) Some] by blast
  obtain es' where c: "set_ent (\<lambda>e. e\<lparr>explicit := True\<rparr>) i es = (Ok es' :: (seen_error, _) outcome)" "tracks es' (m(p @ [key] \<mapsto> (i, kd, True, v)))"
    using tracks_set [OF t(1) Some, of "\<lambda>e. e\<lparr>explicit := True\<rparr>" "(kd, True, v)"] by auto
  from seen_stateI [OF c(2), of "p @ [key]" i "(kd, True, v)" s] tracks_pos [OF t(1) Some]
  show ?thesis using e c(1) Some
    by (auto simp: last_table_def tracks_find [OF t] spec_last_table_def abs_keys_def [of m "p @ [key]"] result_rel_def)
qed

lemma last_arrayTable_refines:
  assumes t: "tracks es m" "m p = Some (j, nf)"
  shows "refines result_rel (last_arrayTable s es j key) (spec_last_array (abs_keys m) (p @ [key]))"
proof (cases "m (p @ [key])")
  case None
  obtain es' i where c: "create es j key arrayTableKind True False = (Ok (es', i) :: (seen_error, _) outcome)"
    "tracks es' (m(p @ [key] \<mapsto> (i, arrayTableKind, True, False)))"
    using tracks_create [OF t None, where 'e = seen_error] by blast
  from seen_stateI [OF c(2), of "p @ [key]" i "(arrayTableKind, True, False)" s]
  show ?thesis using c(1) None
    by (simp add: last_arrayTable_def tracks_find [OF t] spec_last_array_def abs_keys_def [of m "p @ [key]"] result_rel_def)
next
  case (Some x)
  obtain i kd ex v where x: "x = (i, kd, ex, v)" by (cases x)
  note Some = Some [unfolded x]
  let ?m = "\<lambda>r. if below (p @ [key]) r then None else m r"
  obtain e where e: "ent es i = (Ok e :: (seen_error, _) outcome)" "e_kind e = kd" using tracks_ent [OF t(1) Some] by blast
  obtain es' where c: "clear (walk_fuel es) es i = (Ok es' :: (seen_error, _) outcome)" "tracks es' ?m"
    using tracks_clear [OF t(1) Some] by blast
  have "?m (p @ [key]) = Some (i, kd, ex, v)" using Some by simp
  from seen_stateI [OF c(2) this, of s] tracks_pos [OF t(1) Some]
  show ?thesis using e c(1) Some unfolding abs_keys_clear
    by (simp add: last_arrayTable_def tracks_find [OF t] spec_last_array_def abs_keys_def [of m "p @ [key]"] result_rel_def)
qed

lemma checkTable_refines:
  assumes "seen_state s st" "key_parts node = (Ok ks :: (seen_error, _) outcome)" "ks \<noteq> []"
  shows "refines result_rel (checkTable s node) (spec_table st ks)"
proof -
  have "checkTable s node = bind_outcome (bind_outcome (close_table s) (\<lambda>es. parents_loop es 0 ks)) (\<lambda>(es, parentIdx, key). last_table s es parentIdx key)"
    by (cases "close_table s") (simp_all add: checkTable_def assms(2))
  then show ?thesis unfolding spec_table_def
    by (auto intro!: refines_bind [OF header_refines [OF assms(1,3)]] last_table_refines)
qed

lemma checkArrayTable_refines:
  assumes "seen_state s st" "key_parts node = (Ok ks :: (seen_error, _) outcome)" "ks \<noteq> []"
  shows "refines result_rel (checkArrayTable s node) (spec_array st ks)"
proof -
  have "checkArrayTable s node = bind_outcome (bind_outcome (close_table s) (\<lambda>es. parents_loop es 0 ks)) (\<lambda>(es, parentIdx, key). last_arrayTable s es parentIdx key)"
    by (cases "close_table s") (simp_all add: checkArrayTable_def assms(2))
  then show ?thesis unfolding spec_array_def
    by (auto intro!: refines_bind [OF header_refines [OF assms(1,3)]] last_arrayTable_refines)
qed

lemma tracks_nonempty: "tracks es m \<Longrightarrow> es \<noteq> []"
  by (auto simp: tracks_def forest_def dest: in_store_bound [OF _ s_idx_idxs])

text \<open>The expressions that the decoder hands to the tracker: all but comments.\<close>

definition checkable :: "toml \<Rightarrow> bool" where
  "checkable t \<longleftrightarrow> expr_tree t \<and> t_kind t \<noteq> Comment"

lemma CheckExpression_ok:
  assumes "seen_state s st" "checkable node"
  shows "refines result_rel (CheckExpression s node) (spec_expression st node)"
proof -
  obtain kd d ts where n: "node = TNode kd d ts" by (cases node)
  have ne: "entries s \<noteq> []" using assms(1) tracks_nonempty by (auto simp: seen_state_def)
  consider "kd = Table" "ts \<noteq> []" | "kd = ArrayTable" "ts \<noteq> []" | "kd = KeyValue" "keyval_tree node"
    using assms(2) by (auto simp: checkable_def n split: if_splits)
  then show ?thesis
  proof cases
    case 1
    then have k: "key_parts node = (Ok (map t_data ts) :: (seen_error, _) outcome)" by (simp add: key_parts_def n)
    then show ?thesis using checkTable_refines [OF assms(1) k] 1 ne by (simp add: CheckExpression_def spec_expression_def n)
  next
    case 2
    then have k: "key_parts node = (Ok (map t_data ts) :: (seen_error, _) outcome)" by (simp add: key_parts_def n)
    then show ?thesis using checkArrayTable_refines [OF assms(1) k] 2 ne by (simp add: CheckExpression_def spec_expression_def n)
  next
    case 3
    then show ?thesis using keyvalue_refines(1) [OF assms(1) 3(2)] ne by (simp add: CheckExpression_def spec_expression_def n)
  qed
qed

section \<open>Documents\<close>

fun check_all :: "SeenTracker \<Rightarrow> toml list \<Rightarrow> (seen_error, SeenTracker) outcome" where
  "check_all s [] = Ok s"
| "check_all s (n # ns) = bind_outcome (CheckExpression s n) (\<lambda>(b, s). check_all s ns)"

fun spec_all :: "seen_spec \<Rightarrow> toml list \<Rightarrow> (seen_error, seen_spec) outcome" where
  "spec_all st [] = Ok st"
| "spec_all st (n # ns) = bind_outcome (spec_expression st n) (\<lambda>(b, st). spec_all st ns)"

lemma check_all_refines:
  "seen_state s st \<Longrightarrow> \<forall>n \<in> set ns. checkable n \<Longrightarrow> refines seen_state (check_all s ns) (spec_all st ns)"
proof (induction ns arbitrary: s st)
  case (Cons n ns)
  show ?case unfolding check_all.simps spec_all.simps
  proof (rule refines_bind [OF CheckExpression_ok])
    fix a b assume "result_rel a b"
    then show "refines seen_state (case a of (b, s) \<Rightarrow> check_all s ns) (case b of (b, st) \<Rightarrow> spec_all st ns)"
      using Cons by (cases a; cases b) (auto simp: result_rel_def)
  qed (use Cons.prems in auto)
qed simp

lemma check_all_reset:
  assumes "entries s = []" "ns \<noteq> []"
  shows "check_all s ns = check_all (SeenTracker_reset s) ns"
proof -
  have "entries (SeenTracker_reset s) \<noteq> []" by (simp add: SeenTracker_reset_def Let_def)
  then have "CheckExpression s n = CheckExpression (SeenTracker_reset s) n" for n
    using assms(1) by (simp add: CheckExpression_def)
  then show ?thesis using assms(2) by (cases ns) simp_all
qed

text \<open>
  C14. The tracker is correct: from the zero \<open>SeenTracker\<close> on, checking the expressions of a
  document one by one neither panics nor runs on, accepts or rejects each expression, with the
  same message, just as the specification on maps of paths does, and ends in a state that stands
  for the one of the specification. Behind this is an array of linked entries with a free list,
  where entries are reused after an array table has been cleared.
\<close>

theorem SeenTracker_refines:
  assumes "\<forall>n \<in> set (n0 # ns). checkable n"
  shows "refines seen_state (check_all \<lparr>entries = [], currentIdx = i\<rparr> (n0 # ns)) (spec_all spec_new (n0 # ns))"
proof -
  let ?s = "\<lparr>entries = [], currentIdx = i\<rparr>"
  have r: "check_all ?s (n0 # ns) = check_all (SeenTracker_reset ?s) (n0 # ns)" by (rule check_all_reset) simp_all
  show ?thesis unfolding r by (rule check_all_refines [OF seen_state_new assms]) simp
qed

abbreviation (input) kv_node :: "string \<Rightarrow> string \<Rightarrow> toml" where
  "kv_node key val \<equiv> TNode KeyValue [] [TNode Integer val [], TNode Key key []]"

lemma utf8_a: "utf8_text ''a''"
  by (rule utf8_text_ascii_list) simp

theorem SeenTracker_refines_witness:
  "refines seen_state (check_all \<lparr>entries = [], currentIdx = 0\<rparr> [kv_node ''a'' ''1'', kv_node ''a'' ''2''])
     (spec_all spec_new [kv_node ''a'' ''1'', kv_node ''a'' ''2''])"
  by (rule SeenTracker_refines) (simp add: checkable_def int_token_def key_tree_def utf8_a)

section \<open>Duplicate keys are rejected\<close>

definition value_paths :: "keys \<Rightarrow> byte list list set" where
  "value_paths m = {q. \<exists>x. m q = Some (valueKind, x)}"

lemma upd_keeps:
  "m q = None \<Longrightarrow> \<forall>r. (m(q \<mapsto> y)) r \<noteq> None \<longrightarrow> m' r = (m(q \<mapsto> y)) r \<Longrightarrow> \<forall>r. m r \<noteq> None \<longrightarrow> m' r = m r"
  by (metis fun_upd_other)

lemma spec_dotted_new:
  "spec_dotted m p ks = Ok (m', q) \<Longrightarrow> ks \<noteq> [] \<Longrightarrow>
   q = p @ ks \<and> m q = None \<and> (\<forall>r. m r \<noteq> None \<longrightarrow> m' r = m r)"
proof (induction m p ks rule: spec_dotted.induct)
  case (2 m p key ks)
  show ?case
  proof (cases "m (p @ [key])")
    case None
    show ?thesis
    proof (cases "ks = []")
      case True
      then show ?thesis using "2.prems" None by auto
    next
      case False
      have "spec_dotted (m(p @ [key] \<mapsto> (tableKind, False, True))) (p @ [key]) ks = Ok (m', q)"
        using "2.prems"(1) None by simp
      from "2.IH"(1) [OF None this False] have q: "q = p @ key # ks" "(m(p @ [key] \<mapsto> (tableKind, False, True))) q = None"
        "\<forall>r. (m(p @ [key] \<mapsto> (tableKind, False, True))) r \<noteq> None \<longrightarrow> m' r = (m(p @ [key] \<mapsto> (tableKind, False, True))) r" by auto
      with upd_keeps [OF None q(3)] show ?thesis by (simp split: if_splits)
    qed
  next
    case (Some x)
    obtain kd ex v where x: "x = (kd, ex, v)" by (cases x)
    have c: "ks \<noteq> []" "kd = tableKind" "\<not> ex" "spec_dotted m (p @ [key]) ks = Ok (m', q)"
      using "2.prems"(1) Some x by (simp_all split: if_splits)
    then show ?thesis using "2.IH"(2) [OF Some x [symmetric] refl] by auto
  qed
qed simp

lemma spec_keyvalue_new:
  assumes "spec_keyvalue (m, cur) t = Ok (b, m', cur')" "keyval_tree t" "key_parts t = (Ok ks :: (seen_error, _) outcome)"
  shows "cur' = cur \<and> cur @ ks \<notin> value_paths m \<and> insert (cur @ ks) (value_paths m) \<subseteq> value_paths m'"
proof -
  obtain d vk vd vs us where t: "t = TNode KeyValue d (TNode vk vd vs # us)" "ks = map t_data us" "ks \<noteq> []"
  proof -
    obtain kd d ts where t: "t = TNode kd d ts" by (cases t)
    with assms(2) obtain v us where ts: "kd = KeyValue" "ts = v # us" "us \<noteq> []" by (cases ts) auto
    obtain vk vd vs where "v = TNode vk vd vs" by (cases v)
    with t ts assms(3) that [of d vk vd vs us] show thesis by (auto simp: key_parts_def)
  qed
  obtain st' where d: "spec_define (m, cur) ks = Ok st'" and r: "(if vk = InlineTable then bind_outcome (spec_inline spec_new False vs) (\<lambda>b. Ok (b, st'))
       else if vk = Array then bind_outcome (spec_values False vs) (\<lambda>b. Ok (b, st')) else Ok (False, st')) = Ok (b, m', cur')"
    using assms(1) unfolding t(1) spec_keyvalue.simps assms(3) [unfolded t(1)] bind_outcome.simps bind_eq_Ok by (elim exE conjE) (rule that)
  have "st' = (m', cur')"
  proof (cases "vk = InlineTable")
    case True
    then show ?thesis using r by (cases "spec_inline spec_new False vs") simp_all
  next
    case False
    then show ?thesis using r by (cases "vk = Array"; cases "spec_values False vs") simp_all
  qed
  with d have d': "bind_outcome (spec_dotted m cur ks) (\<lambda>(m, q). case m q of None \<Rightarrow> Panic | Some (kd, rest) \<Rightarrow> Ok (m(q \<mapsto> (valueKind, rest)), cur)) = Ok (m', cur')"
    by (simp add: spec_define_def)
  then obtain m1 q where sd: "spec_dotted m cur ks = Ok (m1, q)" by (cases "spec_dotted m cur ks") auto
  obtain x where x: "m' = m1(q \<mapsto> (valueKind, x))" "cur' = cur" using d' unfolding sd by (cases "m1 q") auto
  have q: "q = cur @ ks" "m q = None" "\<forall>r. m r \<noteq> None \<longrightarrow> m1 r = m r" using spec_dotted_new [OF sd t(3)] by blast+
  have "r \<in> value_paths m'" if "r \<in> value_paths m" for r
    using that q(2,3) unfolding x(1) by (cases "r = q") (auto simp: value_paths_def)
  moreover have "q \<in> value_paths m'" "q \<notin> value_paths m" unfolding x(1) using q(2) by (simp_all add: value_paths_def)
  ultimately show ?thesis using q(1) x(2) by blast
qed

lemma spec_parents_keeps:
  "spec_parents m p ks = Ok (m', q) \<Longrightarrow> q = p @ ks \<and> (\<forall>r. m r \<noteq> None \<longrightarrow> m' r = m r)"
proof (induction m p ks rule: spec_parents.induct)
  case (3 m p key k2 ks)
  show ?case
  proof (cases "m (p @ [key])")
    case None
    have "spec_parents (m(p @ [key] \<mapsto> (tableKind, False, False))) (p @ [key]) (k2 # ks) = Ok (m', q)"
      using "3.prems" None by simp
    from "3.IH"(1) [OF None this] have "q = p @ key # k2 # ks" "\<forall>r. (m(p @ [key] \<mapsto> (tableKind, False, False))) r \<noteq> None \<longrightarrow>
        m' r = (m(p @ [key] \<mapsto> (tableKind, False, False))) r" by simp_all
    with upd_keeps [of m "p @ [key]"] None show ?thesis by blast
  next
    case (Some x)
    obtain kd y where x: "x = (kd, y)" by (cases x)
    have c: "kd \<noteq> valueKind" "spec_parents m (p @ [key]) (k2 # ks) = Ok (m', q)"
      using "3.prems"(1) Some x by (simp_all split: if_splits)
    then show ?thesis using "3.IH"(2) [OF Some x [symmetric]] by auto
  qed
qed auto

lemma spec_table_keeps:
  assumes "spec_table (m, cur) ks = Ok (b, m', cur')"
  shows "cur' = ks \<and> value_paths m \<subseteq> value_paths m'"
proof -
  from assms obtain m1 q where q: "spec_parents (spec_close (m, cur)) [] ks = Ok (m1, q)" "spec_last_table m1 q = Ok (b, m', cur')"
    by (auto simp: spec_table_def bind_eq_Ok)
  have k: "q = ks" "\<forall>r. spec_close (m, cur) r \<noteq> None \<longrightarrow> m1 r = spec_close (m, cur) r"
    using spec_parents_keeps [OF q(1)] by simp_all
  have "value_paths m \<subseteq> value_paths (spec_close (m, cur))"
    by (auto simp: value_paths_def spec_close_def)
  also have "\<dots> \<subseteq> value_paths m1" using k(2) by (fastforce simp: value_paths_def)
  also have "value_paths m1 \<subseteq> value_paths m'" using q(2)
    by (auto simp: spec_last_table_def value_paths_def split: option.splits if_splits)
  finally have "value_paths m \<subseteq> value_paths m'" .
  moreover have "cur' = q" using q(2) by (auto simp: spec_last_table_def split: option.splits if_splits)
  ultimately show ?thesis using k(1) by simp
qed

text \<open>The full path of every key that the expressions of a document define.\<close>

fun defined :: "byte list list \<Rightarrow> toml list \<Rightarrow> byte list list list" where
  "defined cur [] = []"
| "defined cur (n # ns) = (if t_kind n = KeyValue then (cur @ map t_data (tl (t_subs n))) # defined cur ns
     else defined (map t_data (t_subs n)) ns)"

lemma spec_all_defined:
  "spec_all (m, cur) ns = Ok st \<Longrightarrow> \<forall>n \<in> set ns. checkable n \<and> t_kind n \<noteq> ArrayTable \<Longrightarrow>
   distinct (defined cur ns) \<and> set (defined cur ns) \<inter> value_paths m = {}"
proof (induction ns arbitrary: m cur)
  case (Cons n ns)
  obtain kd d ts where n: "n = TNode kd d ts" by (cases n)
  obtain b m' cur' where s: "spec_expression (m, cur) n = Ok (b, m', cur')" "spec_all (m', cur') ns = Ok st"
    using Cons.prems(1) by (auto simp: bind_eq_Ok)
  note IH = Cons.IH [OF s(2)]
  have "kd = KeyValue \<and> keyval_tree n \<or> kd = Table \<and> ts \<noteq> []"
    using Cons.prems(2) by (auto simp: checkable_def n split: if_splits)
  then show ?case
  proof
    assume k: "kd = KeyValue \<and> keyval_tree n"
    then have kp: "key_parts n = (Ok (map t_data (tl ts)) :: (seen_error, _) outcome)"
      by (cases ts) (simp_all add: n key_parts_def)
    have "spec_keyvalue (m, cur) n = Ok (b, m', cur')" using s(1) k by (simp add: spec_expression_def n)
    from spec_keyvalue_new [OF this _ kp] k
    have "cur' = cur" "cur @ map t_data (tl ts) \<notin> value_paths m" "insert (cur @ map t_data (tl ts)) (value_paths m) \<subseteq> value_paths m'"
      by simp_all
    then show ?thesis using IH Cons.prems(2) k by (auto simp: n)
  next
    assume k: "kd = Table \<and> ts \<noteq> []"
    then have "spec_table (m, cur) (map t_data ts) = Ok (b, m', cur')" using s(1) by (simp add: spec_expression_def n key_parts_def)
    from spec_table_keeps [OF this] show ?thesis using IH Cons.prems(2) k by (auto simp: n)
  qed
qed simp

text \<open>
  C15. No duplicate key gets past the tracker: in a document without array tables that is accepted
  to the end, the full paths of all the keys that are defined, that is the path of the table
  header that is in force followed by the parts of the key, are different from each other.
\<close>

theorem duplicates_rejected:
  assumes "\<forall>n \<in> set (n0 # ns). checkable n \<and> t_kind n \<noteq> ArrayTable"
    "check_all \<lparr>entries = [], currentIdx = i\<rparr> (n0 # ns) = Ok s"
  shows "distinct (defined [] (n0 # ns))"
proof -
  let ?s = "\<lparr>entries = [], currentIdx = i\<rparr>"
  have r: "check_all ?s (n0 # ns) = check_all (SeenTracker_reset ?s) (n0 # ns)" by (rule check_all_reset) simp_all
  have "refines seen_state (check_all (SeenTracker_reset ?s) (n0 # ns)) (spec_all spec_new (n0 # ns))"
    by (rule check_all_refines [OF seen_state_new]) (use assms(1) in simp_all)
  with assms(2) obtain st where "spec_all spec_new (n0 # ns) = Ok st"
    unfolding r by (auto simp: refines_def simp del: spec_all.simps check_all.simps)
  then show ?thesis using spec_all_defined [OF _ assms(1)] unfolding spec_new_def by blast
qed

theorem duplicates_rejected_witness:
  "\<exists>s. check_all \<lparr>entries = [], currentIdx = 0\<rparr> [kv_node ''a'' ''1'', kv_node ''ab'' ''2''] = Ok s \<and>
     distinct (defined [] [kv_node ''a'' ''1'', kv_node ''ab'' ''2''])"
proof -
  have c: "\<forall>n \<in> set [kv_node ''a'' ''1'', kv_node ''ab'' ''2'']. checkable n \<and> t_kind n \<noteq> ArrayTable"
    using utf8_text_ascii_list [of "''ab''"] by (simp add: checkable_def int_token_def key_tree_def utf8_a)
  obtain s where s: "check_all \<lparr>entries = [], currentIdx = 0\<rparr> [kv_node ''a'' ''1'', kv_node ''ab'' ''2''] = Ok s"
    by (simp add: CheckExpression_def SeenTracker_reset_def zero_entry_def key_parts_def define_key_def find_key_def create_def
        ent_def set_ent_def Let_def)
  from duplicates_rejected [OF c s] s show ?thesis by blast
qed

section \<open>The key stack\<close>

lemma pop_loop_append: "pop_loop ks (xs @ ks') = Ok xs" if "length ks = length ks'"
  using that
proof (induction ks arbitrary: ks')
  case (Cons key ks)
  then obtain ys y where "ks' = ys @ [y]" by (cases ks' rule: rev_cases) auto
  then show ?case using Cons by (simp add: butlast_append)
qed simp

text \<open>
  \<open>KeyTracker.Pop\<close> undoes \<open>Push\<close> of the same key-value or header, so that the tracker is back
  at the key of the enclosing table; neither can panic on an expression that the parser delivers.
\<close>

theorem KeyTracker_Push_Pop:
  assumes "checkable node"
  shows "bind_outcome (KeyTracker_Push t node) (\<lambda>t. KeyTracker_Pop t node) = (Ok t :: ('e, KeyTracker) outcome)"
proof -
  obtain kd d ts where n: "node = TNode kd d ts" by (cases node)
  obtain ks where "key_parts node = (Ok ks :: ('e, _) outcome)"
  proof (cases "kd = KeyValue")
    case True
    then obtain v us where "ts = v # us" using assms by (cases ts) (auto simp: checkable_def n)
    with True that show thesis by (simp add: n key_parts_def)
  next
    case False
    then have "kd = Table \<or> kd = ArrayTable" using assms by (auto simp: checkable_def n split: if_splits)
    with that show thesis by (auto simp: n key_parts_def)
  qed
  then show ?thesis by (simp add: KeyTracker_Push_def KeyTracker_Pop_def pop_loop_append)
qed

theorem KeyTracker_Push_Pop_witness:
  "bind_outcome (KeyTracker_Push \<lparr>kt_k = [''t'']\<rparr> (kv_node ''a'' ''1'')) (\<lambda>t. KeyTracker_Pop t (kv_node ''a'' ''1'')) =
     (Ok \<lparr>kt_k = [''t'']\<rparr> :: (unit, KeyTracker) outcome)"
  by (rule KeyTracker_Push_Pop) (simp add: checkable_def int_token_def key_tree_def utf8_a)

end
