(* ===== verification/Utree.thy ===== *)
theory Utree
  imports Uw_Prelude
begin

text \<open>
  \<open>src/utree/tree.go\<close>: the routing tree. A node has one child per byte, a value and the route it
  was registered under; the type's zero value is an argument, and a \<open>nil\<close> route is
  \<^const>\<open>None\<close>. The methods change the tree in place, so \<open>Set\<close> and \<open>Delete\<close> return the changed
  tree; \<open>Move\<close> returns the subtree. The lemmas relate the tree to a map from patterns, that is
  routes with their parameters and wildcards made out, to values: what \<open>Set\<close> changes, which
  pattern \<open>get\<close> picks for a request, and what \<open>Dump\<close> lists.
\<close>

section \<open>Model\<close>

abbreviation (input) asterisk :: byte where "asterisk \<equiv> CHR ''*''"
abbreviation (input) colon :: byte where "colon \<equiv> CHR '':''"
abbreviation (input) slash :: byte where "slash \<equiv> CHR ''/''"

datatype 'v Tree = Tree (children: "byte \<Rightarrow> 'v Tree option") (tvalue: 'v) (vpath: "byte list option")

definition New :: "'v \<Rightarrow> 'v Tree" where
  "New zero = Tree (\<lambda>_. None) zero None"

function slashReader :: "byte list \<Rightarrow> nat \<Rightarrow> nat" where
  "slashReader a i = (if i < length a \<and> a ! i \<noteq> slash then slashReader a (i + 1) else i)"
  by pat_completeness auto
termination by (relation "measure (\<lambda>(a, i). length a - i)") auto

declare slashReader.simps [simp del]

lemma slashReader_ge: "i \<le> slashReader a i"
proof (induction a i rule: slashReader.induct)
  case (1 a i)
  then show ?case by (subst slashReader.simps) auto
qed

text \<open>The loop of \<open>Set\<close>; the node that \<open>t\<close> points to is changed on the way back.\<close>

function set_loop :: "'v \<Rightarrow> byte list \<Rightarrow> 'v \<Rightarrow> nat \<Rightarrow> 'v Tree \<Rightarrow> 'v Tree" where
  "set_loop zero a v i t =
     (if i < length a then
        let c = a ! i;
            u = (case children t c of None \<Rightarrow> New zero | Some u \<Rightarrow> u);
            u' = (if c = colon then set_loop zero a v (slashReader a i + 1) u
                  else if c = asterisk then Tree (children u) v (Some a)
                  else set_loop zero a v (i + 1) u) in
        Tree ((children t)(c := Some u')) (tvalue t) (vpath t)
      else Tree (children t) v (Some a))"
  by pat_completeness auto
termination
  using slashReader_ge by (relation "measure (\<lambda>(z, a, v, i, t). length a - i)") (auto simp: le_imp_less_Suc intro: diff_less_mono2 less_le_trans)

definition Set :: "'v \<Rightarrow> 'v Tree \<Rightarrow> byte list \<Rightarrow> 'v \<Rightarrow> 'v Tree" where
  "Set zero t route v = set_loop zero route v 0 t"

text \<open>The loop of \<open>get\<close>.\<close>

function get_loop :: "byte list \<Rightarrow> nat \<Rightarrow> 'v Tree \<Rightarrow> 'v Tree option" where
  "get_loop a i t =
     (if i < length a then
        case children t asterisk of
          Some u \<Rightarrow> Some u
        | None \<Rightarrow>
            (case children t colon of
               Some u \<Rightarrow> get_loop a (slashReader a i + 1) u
             | None \<Rightarrow>
                 (case children t (a ! i) of
                    None \<Rightarrow> None
                  | Some u \<Rightarrow> get_loop a (i + 1) u))
      else Some t)"
  by pat_completeness auto
termination
  using slashReader_ge by (relation "measure (\<lambda>(a, i, t). length a - i)") (auto simp: le_imp_less_Suc intro: diff_less_mono2 less_le_trans)

declare set_loop.simps [simp del] get_loop.simps [simp del]

definition get_node :: "'v Tree \<Rightarrow> byte list \<Rightarrow> 'v Tree option" where
  "get_node t route = get_loop route 0 t"

definition Get :: "'v \<Rightarrow> 'v Tree \<Rightarrow> byte list \<Rightarrow> 'v \<times> byte list option" where
  "Get zero t route = (case get_node t route of Some u \<Rightarrow> (tvalue u, vpath u) | None \<Rightarrow> (zero, None))"

text \<open>
  \<open>Delete\<close> clears the node that \<open>get\<close> returns; the same walk, changing that node on the way back.
\<close>

function delete_loop :: "'v \<Rightarrow> byte list \<Rightarrow> nat \<Rightarrow> 'v Tree \<Rightarrow> 'v Tree" where
  "delete_loop zero a i t =
     (if i < length a then
        case children t asterisk of
          Some u \<Rightarrow> Tree ((children t)(asterisk := Some (Tree (children u) zero None))) (tvalue t) (vpath t)
        | None \<Rightarrow>
            (case children t colon of
               Some u \<Rightarrow> Tree ((children t)(colon := Some (delete_loop zero a (slashReader a i + 1) u))) (tvalue t) (vpath t)
             | None \<Rightarrow>
                 (case children t (a ! i) of
                    None \<Rightarrow> t
                  | Some u \<Rightarrow> Tree ((children t)(a ! i := Some (delete_loop zero a (i + 1) u))) (tvalue t) (vpath t)))
      else Tree (children t) zero None)"
  by pat_completeness auto
termination
  using slashReader_ge by (relation "measure (\<lambda>(z, a, i, t). length a - i)") (auto simp: le_imp_less_Suc intro: diff_less_mono2 less_le_trans)

declare delete_loop.simps [simp del]

definition Delete :: "'v \<Rightarrow> 'v Tree \<Rightarrow> byte list \<Rightarrow> 'v Tree" where
  "Delete zero t route = delete_loop zero route 0 t"

definition Move :: "'v Tree \<Rightarrow> byte list \<Rightarrow> 'v Tree option" where
  "Move t route = get_node t route"

text \<open>\<open>Dump\<close> goes through the 256 children in the order of their bytes.\<close>

definition all_bytes :: "byte list" where
  "all_bytes = map char_of [0..<256]"

definition own_entry :: "'v Tree \<Rightarrow> (byte list \<times> 'v) list" where
  "own_entry u = (case vpath u of None \<Rightarrow> [] | Some p \<Rightarrow> [(p, tvalue u)])"

primrec Dump :: "'v Tree \<Rightarrow> (byte list \<times> 'v) list" where
  "Dump (Tree ch v p) = concat (map (\<lambda>c.
     case map_option (\<lambda>u. (own_entry u, Dump u)) (ch c) of None \<Rightarrow> [] | Some (own, ds) \<Rightarrow> own @ ds) all_bytes)"

section \<open>The tree as a map from patterns\<close>

text \<open>What is left of a route or a request behind the next slash.\<close>

definition skip :: "byte list \<Rightarrow> byte list" where
  "skip r = drop 1 (dropWhile (\<lambda>c. c \<noteq> slash) r)"

lemma skip_length: "length (skip r) \<le> length r - 1"
  using length_dropWhile_le [of "\<lambda>c. c \<noteq> slash" r] by (simp add: skip_def)

lemma drop_slashReader: "drop (slashReader a i + 1) a = skip (drop i a)"
proof (induction a i rule: slashReader.induct)
  case (1 a i)
  show ?case
  proof (cases "i < length a")
    case True
    then have "drop i a = a ! i # drop (i + 1) a" by (simp add: Cons_nth_drop_Suc)
    then show ?thesis using True 1 by (subst slashReader.simps) (auto simp: skip_def)
  qed (subst slashReader.simps, simp add: skip_def)
qed

text \<open>
  The bytes of the edges that \<open>Set\<close> follows for a route: a parameter is one edge, whatever its
  name, and takes the slash behind it along; a wildcard ends the walk.
\<close>

function pattern :: "byte list \<Rightarrow> byte list" where
  "pattern [] = []"
| "pattern (c # cs) =
     (if c = colon then colon # pattern (skip cs)
      else if c = asterisk then [asterisk]
      else c # pattern cs)"
  by pat_completeness auto
termination
  by (relation "measure length") (auto intro: le_less_trans [OF skip_length])

fun node :: "'v Tree \<Rightarrow> byte list \<Rightarrow> 'v Tree option" where
  "node t [] = Some t"
| "node t (c # ks) = (case children t c of None \<Rightarrow> None | Some u \<Rightarrow> node u ks)"

definition registration_of :: "'v Tree \<Rightarrow> (byte list \<times> 'v) option" where
  "registration_of u = (case vpath u of None \<Rightarrow> None | Some p \<Rightarrow> Some (p, tvalue u))"

definition registration :: "'v Tree \<Rightarrow> byte list \<Rightarrow> (byte list \<times> 'v) option" where
  "registration t ks = Option.bind (node t ks) registration_of"

text \<open>A pattern matches a request.\<close>

fun matches :: "byte list \<Rightarrow> byte list \<Rightarrow> bool" where
  "matches [] r \<longleftrightarrow> r = []"
| "matches (c # ks) r \<longleftrightarrow> r \<noteq> [] \<and>
     (if c = asterisk then ks = []
      else if c = colon then matches ks (skip r)
      else hd r = c \<and> matches ks (tl r))"

text \<open>
  A wildcard child of a node is taken before a parameter child, and both before the literal ones.
\<close>

fun preferred :: "'v Tree \<Rightarrow> byte list \<Rightarrow> bool" where
  "preferred t [] \<longleftrightarrow> True"
| "preferred t (c # ks) \<longleftrightarrow>
     (c \<noteq> asterisk \<longrightarrow> children t asterisk = None) \<and>
     (c \<noteq> asterisk \<and> c \<noteq> colon \<longrightarrow> children t colon = None) \<and>
     (case children t c of None \<Rightarrow> False | Some u \<Rightarrow> preferred u ks)"

lemma entry_of_Tree [simp]: "registration_of (Tree ch v p) = map_option (\<lambda>q. (q, v)) p"
  by (simp add: registration_of_def split: option.splits)

lemma entry_of_fold [simp]: "map_option (\<lambda>q. (q, tvalue t)) (vpath t) = registration_of t"
  by (simp add: registration_of_def split: option.splits)

lemma entry_Nil [simp]: "registration t [] = registration_of t"
  by (simp add: registration_def)

lemma entry_Cons [simp]:
  "registration t (c # ks) = (case children t c of None \<Rightarrow> None | Some u \<Rightarrow> registration u ks)"
  by (simp add: registration_def split: option.splits)

lemma entry_New [simp]: "registration (New zero) ks = None"
  by (cases ks) (auto simp: New_def registration_of_def)

lemma entry_Tree: "registration (Tree (children u) v p) ks
    = (if ks = [] then map_option (\<lambda>q. (q, v)) p else registration u ks)"
  by (cases ks) (auto simp: registration_of_def split: option.splits)

lemma entry_upd: "registration (Tree ((children t)(c := Some u)) (tvalue t) (vpath t)) ks
    = (case ks of c' # ks' \<Rightarrow> if c' = c then registration u ks' else registration t ks | [] \<Rightarrow> registration t ks)"
  by (cases ks) (auto simp: registration_of_def split: option.splits)

lemma set_loop_step:
  "\<lbrakk>i < length a; u = (case children t (a ! i) of None \<Rightarrow> New zero | Some u \<Rightarrow> u)\<rbrakk> \<Longrightarrow>
   set_loop zero a v i t = Tree ((children t)(a ! i := Some
     (if a ! i = colon then set_loop zero a v (slashReader a i + 1) u
      else if a ! i = asterisk then Tree (children u) v (Some a)
      else set_loop zero a v (i + 1) u))) (tvalue t) (vpath t)"
  by (simp add: set_loop.simps [of zero a v i t] Let_def)

lemma set_loop_end: "\<not> i < length a \<Longrightarrow> set_loop zero a v i t = Tree (children t) v (Some a)"
  by (simp add: set_loop.simps [of zero a v i t])

lemma set_loop_entry:
  "registration (set_loop zero a v i t) = (registration t)(pattern (drop i a) \<mapsto> (a, v))"
proof (induction zero a v i t rule: set_loop.induct)
  case (1 zero a v i t)
  show ?case
  proof (cases "i < length a")
    case False
    then show ?thesis by (auto simp: set_loop.simps [of zero a v i t] entry_Tree fun_eq_iff)
  next
    case True
    define u where "u = (case children t (a ! i) of None \<Rightarrow> New zero | Some u \<Rightarrow> u)"
    define u' where "u' = (if a ! i = colon then set_loop zero a v (slashReader a i + 1) u
                  else if a ! i = asterisk then Tree (children u) v (Some a)
                  else set_loop zero a v (i + 1) u)"
    define es where "es = tl (pattern (drop i a))"
    have d: "drop i a = a ! i # drop (i + 1) a" using True by (simp add: Cons_nth_drop_Suc)
    have e: "pattern (drop i a) = a ! i # es" unfolding es_def d by simp
    have sk: "a ! i = colon \<Longrightarrow> drop (slashReader a i + 1) a = skip (drop (i + 1) a)"
      unfolding drop_slashReader d by (simp add: skip_def)
    have "registration u' = (registration u)(es \<mapsto> (a, v))"
      using "1.IH"(1) [OF True refl u_def] "1.IH"(2) [OF True refl u_def] sk
      unfolding es_def d u'_def by (auto simp: entry_Tree fun_eq_iff)
    moreover have "(case children t (a ! i) of None \<Rightarrow> None | Some u \<Rightarrow> registration u ks) = registration u ks" for ks
      by (auto simp: u_def split: option.splits)
    moreover have "set_loop zero a v i t = Tree ((children t)(a ! i := Some u')) (tvalue t) (vpath t)"
      using True by (simp add: set_loop_step [OF _ u_def] u'_def)
    ultimately show ?thesis unfolding e by (auto simp: entry_upd fun_eq_iff split: list.splits)
  qed
qed

lemma get_loop_iff:
  "get_loop a i t = Some u \<longleftrightarrow> (\<exists>ks. node t ks = Some u \<and> matches ks (drop i a) \<and> preferred t ks)"
proof (induction a i t rule: get_loop.induct)
  case (1 a i t)
  show ?case
  proof (cases "i < length a")
    case False
    then show ?thesis
      by (auto simp: get_loop.simps [of a i t] intro!: exI [of _ "[]"] elim: matches.elims)
  next
    case True
    have d: "drop i a = a ! i # drop (i + 1) a" using True by (simp add: Cons_nth_drop_Suc)
    have ex: "(\<exists>ks. node t ks = Some u \<and> matches ks (drop i a) \<and> preferred t ks)
      \<longleftrightarrow> (\<exists>c ks. node t (c # ks) = Some u \<and> matches (c # ks) (drop i a) \<and> preferred t (c # ks))"
      unfolding d by (metis list.distinct(1) matches.simps(1) neq_Nil_conv)
    consider (star) w where "children t asterisk = Some w"
      | (col) w where "children t asterisk = None" "children t colon = Some w"
      | (none) "children t asterisk = None" "children t colon = None" "children t (a ! i) = None"
      | (lit) w where "children t asterisk = None" "children t colon = None" "children t (a ! i) = Some w"
      by (meson not_Some_eq)
    then show ?thesis
    proof cases
      case star
      then show ?thesis unfolding ex using True
        by (auto simp: get_loop.simps [of a i t] split: if_splits intro!: exI [of _ asterisk] exI [of _ "[]"])
    next
      case col
      then show ?thesis unfolding ex using True "1.IH"(2) [OF True col]
        by (auto simp: get_loop.simps [of a i t] drop_slashReader [simplified] split: if_splits option.splits
          intro!: exI [of _ colon])
    next
      case none
      then show ?thesis unfolding ex unfolding d using True
        by (auto simp: get_loop.simps [of a i t] split: if_splits option.splits)
    next
      case lit
      then have "a ! i \<noteq> asterisk" "a ! i \<noteq> colon" by auto
      then show ?thesis unfolding ex unfolding d using True lit "1.IH"(1) [OF True lit]
        by (auto simp: get_loop.simps [of a i t] split: if_splits option.splits intro!: exI [of _ "a ! i"])
    qed
  qed
qed

lemma preferred_unique:
  "\<lbrakk>preferred t ks; preferred t ks'; matches ks r; matches ks' r\<rbrakk> \<Longrightarrow> ks = ks'"
proof (induction ks arbitrary: t ks' r)
  case Nil
  then show ?case by (cases ks') auto
next
  case (Cons c ks)
  then obtain c' ks'' where k: "ks' = c' # ks''" by (cases ks') auto
  have "c = c'" using Cons.prems unfolding k
    by (auto split: if_splits option.splits)
  then show ?case using Cons.prems Cons.IH unfolding k by (auto split: if_splits option.splits)
qed

lemma delete_loop_entry:
  "registration (delete_loop zero a i t) ks =
     (if matches ks (drop i a) \<and> preferred t ks then None else registration t ks)"
proof (induction zero a i t arbitrary: ks rule: delete_loop.induct)
  case (1 zero a i t)
  show ?case
  proof (cases "i < length a")
    case False
    then show ?thesis
      by (cases ks) (auto simp: delete_loop.simps [of zero a i t] registration_of_def)
  next
    case True
    have d: "drop i a = a ! i # drop (i + 1) a" using True by (simp add: Cons_nth_drop_Suc)
    consider (star) w where "children t asterisk = Some w"
      | (col) w where "children t asterisk = None" "children t colon = Some w"
      | (none) "children t asterisk = None" "children t colon = None" "children t (a ! i) = None"
      | (lit) w where "children t asterisk = None" "children t colon = None" "children t (a ! i) = Some w"
      by (meson not_Some_eq)
    then show ?thesis
    proof cases
      case star
      then show ?thesis using True
        by (cases ks) (auto simp: delete_loop.simps [of zero a i t] entry_Tree entry_upd)
    next
      case col
      then show ?thesis using True "1.IH"(2) [OF True col]
        by (cases ks) (auto simp: delete_loop.simps [of zero a i t] drop_slashReader [simplified] entry_upd)
    next
      case none
      then show ?thesis unfolding d using True
        by (cases ks) (auto simp: delete_loop.simps [of zero a i t] split: option.splits)
    next
      case lit
      then have "a ! i \<noteq> asterisk" "a ! i \<noteq> colon" by auto
      then show ?thesis unfolding d using True lit "1.IH"(1) [OF True lit]
        by (cases ks) (auto simp: delete_loop.simps [of zero a i t] entry_upd)
    qed
  qed
qed

section \<open>The trees that the operations build\<close>

inductive routed :: "'v \<Rightarrow> 'v Tree \<Rightarrow> bool" for zero where
  routed_New: "routed zero (New zero)"
| routed_Set: "routed zero t \<Longrightarrow> routed zero (Set zero t r v)"
| routed_Delete: "routed zero t \<Longrightarrow> routed zero (Delete zero t r)"

lemma Set_entry: "registration (Set zero t r v) = (registration t)(pattern r \<mapsto> (r, v))"
  by (simp add: Set_def set_loop_entry)

lemma Delete_entry:
  "registration (Delete zero t r) ks = (if matches ks r \<and> preferred t ks then None else registration t ks)"
  by (simp add: Delete_def delete_loop_entry)

lemma get_node_iff:
  "get_node t r = Some u \<longleftrightarrow> (\<exists>ks. node t ks = Some u \<and> matches ks r \<and> preferred t ks)"
  by (simp add: get_node_def get_loop_iff)

lemma preferred_node: "preferred t ks \<Longrightarrow> \<exists>u. node t ks = Some u"
  by (induction t ks rule: preferred.induct) (auto split: option.splits)

lemma Get_entry:
  "Get zero t r = (v, Some p) \<longleftrightarrow> (\<exists>ks. matches ks r \<and> preferred t ks \<and> registration t ks = Some (p, v))"
proof
  assume "Get zero t r = (v, Some p)"
  then obtain u where "get_node t r = Some u" "tvalue u = v" "vpath u = Some p"
    by (auto simp: Get_def split: option.splits)
  then show "\<exists>ks. matches ks r \<and> preferred t ks \<and> registration t ks = Some (p, v)"
    by (auto simp: get_node_iff registration_def registration_of_def)
next
  assume "\<exists>ks. matches ks r \<and> preferred t ks \<and> registration t ks = Some (p, v)"
  then obtain ks u where ks: "matches ks r" "preferred t ks" "node t ks = Some u" "registration_of u = Some (p, v)"
    by (auto simp: registration_def Option.bind_eq_Some_conv)
  then have "get_node t r = Some u" by (auto simp: get_node_iff)
  then show "Get zero t r = (v, Some p)" using ks(4)
    by (auto simp: Get_def registration_of_def split: option.splits)
qed

lemma routed_pattern: "routed zero t \<Longrightarrow> registration t ks = Some (p, v) \<Longrightarrow> pattern p = ks"
  by (induction arbitrary: ks p v rule: routed.induct) (auto simp: Set_entry Delete_entry split: if_splits)

subsection \<open>Values of nodes without a route\<close>

definition clear :: "'v \<Rightarrow> 'v Tree \<Rightarrow> bool" where
  "clear zero t \<longleftrightarrow> (\<forall>ks u. node t ks = Some u \<longrightarrow> vpath u = None \<longrightarrow> tvalue u = zero)"

lemma clear_unfold:
  "clear zero t \<longleftrightarrow> (vpath t = None \<longrightarrow> tvalue t = zero) \<and> (\<forall>c u. children t c = Some u \<longrightarrow> clear zero u)"
  (is "?l \<longleftrightarrow> ?r")
proof
  assume l: ?l
  then have "vpath t = None \<longrightarrow> tvalue t = zero" using node.simps(1) unfolding clear_def by blast
  moreover have "clear zero u" if "children t c = Some u" for c u
    using l that unfolding clear_def by (metis node.simps(2) option.simps(5))
  ultimately show ?r by blast
next
  assume r: ?r
  show ?l unfolding clear_def
  proof (intro allI impI)
    fix ks u assume "node t ks = Some u" "vpath u = None"
    then show "tvalue u = zero" using r by (cases ks) (auto simp: clear_def split: option.splits)
  qed
qed

lemma clear_New [simp]: "clear zero (New zero)"
  by (simp add: clear_unfold [of zero "New zero"]) (simp add: New_def)

lemma clear_child: "clear zero t \<Longrightarrow> children t c = Some u \<Longrightarrow> clear zero u"
  using clear_unfold [of zero t] by blast

lemma clear_upd:
  "clear zero t \<Longrightarrow> clear zero u \<Longrightarrow> clear zero (Tree ((children t)(c := Some u)) (tvalue t) (vpath t))"
  using clear_unfold [of zero t]
  by (subst clear_unfold) auto

lemma clear_Tree: "clear zero t \<Longrightarrow> p = None \<longrightarrow> v = zero \<Longrightarrow> clear zero (Tree (children t) v p)"
  using clear_unfold [of zero t] by (subst clear_unfold) auto

lemma clear_set_loop: "clear zero t \<Longrightarrow> clear zero (set_loop zero a v i t)"
proof (induction zero a v i t rule: set_loop.induct)
  case (1 zero a v i t)
  define u where "u = (case children t (a ! i) of None \<Rightarrow> New zero | Some u \<Rightarrow> u)"
  have "clear zero u" using "1.prems" by (auto simp: u_def intro: clear_child split: option.splits)
  then show ?case
    using "1.IH"(1) [OF _ refl u_def] "1.IH"(2) [OF _ refl u_def] "1.prems"
    by (cases "i < length a")
      (auto simp: set_loop_step [OF _ u_def] set_loop_end intro!: clear_upd clear_Tree)
qed

lemma clear_delete_loop: "clear zero t \<Longrightarrow> clear zero (delete_loop zero a i t)"
proof (induction zero a i t rule: delete_loop.induct)
  case (1 zero a i t)
  then show ?case
    by (subst delete_loop.simps) (auto intro!: clear_upd clear_Tree intro: clear_child split: option.splits)
qed

lemma routed_clear: "routed zero t \<Longrightarrow> clear zero t"
  by (induction rule: routed.induct) (auto simp: Set_def Delete_def clear_set_loop clear_delete_loop)

lemma Get_none:
  assumes "clear zero t" "\<And>ks. matches ks r \<Longrightarrow> preferred t ks \<Longrightarrow> registration t ks = None"
  shows "Get zero t r = (zero, None)"
proof (cases "get_node t r")
  case None
  then show ?thesis by (simp add: Get_def)
next
  case (Some u)
  then obtain ks where ks: "node t ks = Some u" "matches ks r" "preferred t ks" by (auto simp: get_node_iff)
  then have "vpath u = None" using assms(2) [OF ks(2,3)]
    by (auto simp: registration_def registration_of_def split: option.splits)
  then show ?thesis using Some ks(1) assms(1) by (auto simp: Get_def clear_def)
qed

subsection \<open>Routes without parameters\<close>

definition static :: "byte list \<Rightarrow> bool" where
  "static r \<longleftrightarrow> asterisk \<notin> set r \<and> colon \<notin> set r"

lemma pattern_static: "static r \<Longrightarrow> pattern r = r"
  by (induction r rule: pattern.induct) (auto simp: static_def)

lemma matches_static: "static ks \<Longrightarrow> matches ks r \<longleftrightarrow> r = ks"
  by (induction ks r rule: matches.induct) (auto simp: static_def neq_Nil_conv)

text \<open>Only literal edges in the tree.\<close>

definition literal :: "'v Tree \<Rightarrow> bool" where
  "literal t \<longleftrightarrow> (\<forall>ks. node t ks \<noteq> None \<longrightarrow> static ks)"

lemma literal_unfold:
  "literal t \<longleftrightarrow> children t asterisk = None \<and> children t colon = None \<and>
     (\<forall>c u. children t c = Some u \<longrightarrow> literal u)"
  (is "?l \<longleftrightarrow> ?r")
proof
  assume l: ?l
  have no: "children t c = None" if "c = asterisk \<or> c = colon" for c
  proof (rule ccontr)
    assume "children t c \<noteq> None"
    then have "node t [c] \<noteq> None" by auto
    then have "static [c]" using l unfolding literal_def by blast
    then show False using that by (auto simp: static_def)
  qed
  moreover have "literal u" if "children t c = Some u" for c u
    unfolding literal_def
  proof (intro allI impI)
    fix ks assume "node u ks \<noteq> None"
    then have "node t (c # ks) \<noteq> None" using that by simp
    then have "static (c # ks)" using l unfolding literal_def by blast
    then show "static ks" by (simp add: static_def)
  qed
  ultimately show ?r by blast
next
  assume r: ?r
  show ?l unfolding literal_def
  proof (intro allI impI)
    fix ks assume n: "node t ks \<noteq> None"
    show "static ks"
    proof (cases ks)
      case (Cons c ks')
      then obtain u where "children t c = Some u" "node u ks' \<noteq> None" using n by (auto split: option.splits)
      then have "c \<noteq> asterisk" "c \<noteq> colon" "static ks'" using r by (auto simp: literal_def)
      then show ?thesis using Cons by (auto simp: static_def)
    qed (simp add: static_def)
  qed
qed

lemma literal_New [simp]: "literal (New zero)"
  by (simp add: literal_unfold [of "New zero"]) (simp add: New_def)

lemma literal_child: "literal t \<Longrightarrow> children t c = Some u \<Longrightarrow> literal u"
  using literal_unfold [of t] by blast

lemma literal_set_loop: "literal t \<Longrightarrow> static (drop i a) \<Longrightarrow> literal (set_loop zero a v i t)"
proof (induction zero a v i t rule: set_loop.induct)
  case (1 zero a v i t)
  show ?case
  proof (cases "i < length a")
    case False
    then show ?thesis using "1.prems" literal_unfold [of t]
      by (subst set_loop.simps) (auto simp: literal_unfold [of "Tree _ _ _"])
  next
    case True
    define u where "u = (case children t (a ! i) of None \<Rightarrow> New zero | Some u \<Rightarrow> u)"
    have d: "drop i a = a ! i # drop (i + 1) a" using True by (simp add: Cons_nth_drop_Suc)
    then have c: "a ! i \<noteq> asterisk" "a ! i \<noteq> colon" "static (drop (i + 1) a)"
      using "1.prems" by (auto simp: static_def)
    have "literal u" using "1.prems" by (auto simp: u_def intro: literal_child split: option.splits)
    then have "literal (set_loop zero a v (i + 1) u)"
      using "1.IH"(2) [OF True refl u_def c(2,1) _ c(3)] by blast
    moreover have "set_loop zero a v i t =
        Tree ((children t)(a ! i := Some (set_loop zero a v (i + 1) u))) (tvalue t) (vpath t)"
      using True c by (simp add: set_loop_step [OF _ u_def])
    ultimately show ?thesis using "1.prems"(1) literal_unfold [of t] c
      by (simp add: literal_unfold [of "Tree _ _ _"])
  qed
qed

lemma literal_delete_loop: "literal t \<Longrightarrow> literal (delete_loop zero a i t)"
proof (induction zero a i t rule: delete_loop.induct)
  case (1 zero a i t)
  have no: "children t asterisk = None" "children t colon = None" using "1.prems" literal_unfold [of t] by auto
  consider "\<not> i < length a" | "i < length a" "children t (a ! i) = None"
    | u where "i < length a" "children t (a ! i) = Some u" by fastforce
  then show ?case
  proof cases
    case 1
    then show ?thesis using "1.prems" literal_unfold [of t]
      by (subst delete_loop.simps) (auto simp: literal_unfold [of "Tree _ _ _"])
  next
    case 2
    then show ?thesis using "1.prems" no by (subst delete_loop.simps) auto
  next
    case (3 u)
    then have "literal u" using "1.prems" literal_child by blast
    then have "literal (delete_loop zero a (i + 1) u)"
      using "1.IH"(1) [OF 3(1) no 3(2)] by blast
    moreover have "delete_loop zero a i t =
        Tree ((children t)(a ! i := Some (delete_loop zero a (i + 1) u))) (tvalue t) (vpath t)"
      using 3 no by (subst delete_loop.simps) simp
    ultimately show ?thesis using "1.prems"(1) literal_unfold [of t] 3 no
      by (simp add: literal_unfold [of "Tree _ _ _"]) auto
  qed
qed

lemma literal_preferred: "literal t \<Longrightarrow> preferred t ks \<longleftrightarrow> node t ks \<noteq> None"
proof (induction t ks rule: preferred.induct)
  case (2 t c ks)
  then show ?case using literal_unfold [of t] by (auto split: option.splits)
qed simp

text \<open>A sequence of changes, on the tree and on a map.\<close>

datatype 'v change = Register "byte list" 'v | Remove "byte list"

fun change_route :: "'v change \<Rightarrow> byte list" where
  "change_route (Register r v) = r"
| "change_route (Remove r) = r"

fun apply_tree :: "'v \<Rightarrow> 'v change \<Rightarrow> 'v Tree \<Rightarrow> 'v Tree" where
  "apply_tree zero (Register r v) t = Set zero t r v"
| "apply_tree zero (Remove r) t = Delete zero t r"

fun apply_map :: "'v change \<Rightarrow> (byte list \<Rightarrow> 'v option) \<Rightarrow> byte list \<Rightarrow> 'v option" where
  "apply_map (Register r v) m = m(r \<mapsto> v)"
| "apply_map (Remove r) m = m(r := None)"

definition table_rel :: "'v \<Rightarrow> 'v Tree \<Rightarrow> (byte list \<Rightarrow> 'v option) \<Rightarrow> bool" where
  "table_rel zero t m \<longleftrightarrow> literal t \<and> clear zero t \<and> (\<forall>r. registration t r = map_option (Pair r) (m r))"

lemma table_rel_apply:
  assumes "table_rel zero t m" "static (change_route x)"
  shows "table_rel zero (apply_tree zero x t) (apply_map x m)"
proof (cases x)
  case (Register r v)
  then show ?thesis using assms
    by (auto simp: table_rel_def set_loop_entry pattern_static Set_def literal_set_loop clear_set_loop)
next
  case (Remove r)
  have t: "literal t" "clear zero t" "\<And>r. registration t r = map_option (Pair r) (m r)"
    using assms(1) by (auto simp: table_rel_def)
  have "registration (Delete zero t r) ks = (if ks = r then None else registration t ks)" for ks
  proof (cases "node t ks")
    case None
    then have "registration t ks = None" by (simp add: registration_def)
    then show ?thesis by (auto simp: Delete_entry)
  next
    case (Some u)
    then have "static ks" using t(1) by (auto simp: literal_def)
    then show ?thesis using Some t(1) by (auto simp: Delete_entry literal_preferred matches_static)
  qed
  then show ?thesis using t Remove
    by (auto simp: table_rel_def Delete_def literal_delete_loop clear_delete_loop)
qed

lemma table_rel_fold:
  "\<lbrakk>table_rel zero t m; \<forall>x\<in>set xs. static (change_route x)\<rbrakk>
   \<Longrightarrow> table_rel zero (fold (apply_tree zero) xs t) (fold apply_map xs m)"
  by (induction xs arbitrary: t m) (auto simp: table_rel_apply)

lemma table_rel_Get:
  assumes "table_rel zero t m"
  shows "Get zero t r = (case m r of None \<Rightarrow> (zero, None) | Some v \<Rightarrow> (v, Some r))"
proof -
  have t: "literal t" "clear zero t" "\<And>r. registration t r = map_option (Pair r) (m r)"
    using assms by (auto simp: table_rel_def)
  have *: "ks = r" if "matches ks r" "preferred t ks" for ks
  proof -
    have "static ks" using that t(1) preferred_node unfolding literal_def by blast
    then show ?thesis using that(1) by (simp add: matches_static)
  qed
  show ?thesis
  proof (cases "m r")
    case None
    then show ?thesis using Get_none [OF t(2), of r] * t(3) by auto
  next
    case (Some v)
    then have e: "registration t r = Some (r, v)" using t(3) by simp
    then have "node t r \<noteq> None" by (auto simp: registration_def Option.bind_eq_Some_conv)
    then have "static r" "preferred t r" using t(1) literal_preferred by (auto simp: literal_def)
    then have "Get zero t r = (v, Some r)" using e unfolding Get_entry by (metis matches_static)
    then show ?thesis using Some by simp
  qed
qed

section \<open>Dump\<close>

lemma set_all_bytes [simp]: "set all_bytes = UNIV"
  by (simp add: all_bytes_def UNIV_char_of_nat atLeast_upt)

lemma distinct_all_bytes [simp]: "distinct all_bytes"
  by (simp add: all_bytes_def distinct_map inj_on_char_of_nat atLeast_upt)

lemma Dump_unfold:
  "Dump t = concat (map (\<lambda>c. case children t c of None \<Rightarrow> [] | Some u \<Rightarrow> own_entry u @ Dump u) all_bytes)"
  by (cases t) (auto intro!: arg_cong [of _ _ concat] split: option.splits)

lemma set_own_entry: "e \<in> set (own_entry u) \<longleftrightarrow> registration_of u = Some e"
  by (auto simp: own_entry_def registration_of_def split: option.splits)

lemma set_Dump_step:
  "e \<in> set (Dump t) \<longleftrightarrow> (\<exists>c u. children t c = Some u \<and> (registration_of u = Some e \<or> e \<in> set (Dump u)))"
proof -
  have "e \<in> set (case x of None \<Rightarrow> [] | Some u \<Rightarrow> own_entry u @ Dump u) \<longleftrightarrow>
      (\<exists>u. x = Some u \<and> (registration_of u = Some e \<or> e \<in> set (Dump u)))" for x
    by (cases x) (auto simp: set_own_entry)
  then show ?thesis unfolding Dump_unfold [of t] by simp
qed

lemma set_Dump: "e \<in> set (Dump t) \<longleftrightarrow> (\<exists>ks. ks \<noteq> [] \<and> registration t ks = Some e)"
proof (induction t)
  case (Tree ch v p)
  have IH: "e \<in> set (Dump u) \<longleftrightarrow> (\<exists>ks. ks \<noteq> [] \<and> registration u ks = Some e)" if "ch c = Some u" for c u
    using Tree that by (metis option.set_intros rangeI)
  have "(\<exists>ks. registration u ks = Some e) \<longleftrightarrow> registration_of u = Some e \<or> (\<exists>ks. ks \<noteq> [] \<and> registration u ks = Some e)" for u
    by (metis entry_Nil)
  then have "e \<in> set (Dump (Tree ch v p)) \<longleftrightarrow> (\<exists>c u. ch c = Some u \<and> (\<exists>ks. registration u ks = Some e))"
    using set_Dump_step [of e "Tree ch v p"] IH by (metis Tree.sel(1))
  also have "\<dots> \<longleftrightarrow> (\<exists>c ks. registration (Tree ch v p) (c # ks) = Some e)"
    by (simp add: Option.bind_eq_Some_conv split: option.split) (metis option.exhaust option.inject option.distinct(1))
  finally show ?case by (metis list.distinct(1) neq_Nil_conv)
qed

lemma distinct_concat_map:
  "\<lbrakk>distinct xs; \<And>x. x \<in> set xs \<Longrightarrow> distinct (f x);
    \<And>x y. \<lbrakk>x \<in> set xs; y \<in> set xs; x \<noteq> y\<rbrakk> \<Longrightarrow> set (f x) \<inter> set (f y) = {}\<rbrakk>
   \<Longrightarrow> distinct (concat (map f xs))"
  by (induction xs) (fastforce+)

lemma distinct_Dump:
  assumes "\<And>ks ks' q v v'. registration t ks = Some (q, v) \<Longrightarrow> registration t ks' = Some (q, v') \<Longrightarrow> ks = ks'"
  shows "distinct (map fst (Dump t))"
  using assms
proof (induction t)
  case (Tree ch w p)
  define f where "f c = map fst (case ch c of None \<Rightarrow> [] | Some u \<Rightarrow> own_entry u @ Dump u)" for c
  have inj: "c = c' \<and> ks = ks'"
    if "ch c = Some u" "ch c' = Some u'" "registration u ks = Some (q, v)" "registration u' ks' = Some (q, v')" for c c' u u' ks ks' q v v'
    using Tree.prems [of "c # ks" q v "c' # ks'" v'] that by auto
  have mem: "\<exists>u ks v. ch c = Some u \<and> registration u ks = Some (q, v)" if "q \<in> set (f c)" for q c
  proof -
    have "\<exists>u. ch c = Some u \<and> q \<in> fst ` set (own_entry u @ Dump u)"
      using that unfolding f_def by (cases "ch c") auto
    then obtain u where u: "ch c = Some u" "q \<in> fst ` set (own_entry u @ Dump u)" by blast
    then obtain v where "(q, v) \<in> set (own_entry u) \<or> (q, v) \<in> set (Dump u)" by fastforce
    then show ?thesis using u(1) unfolding set_own_entry set_Dump by (metis entry_Nil)
  qed
  have "distinct (f c)" for c
  proof (cases "ch c")
    case (Some u)
    have "distinct (map fst (Dump u))" using Tree.IH [of "Some u" u] inj [OF Some Some] Some by (metis option.set_intros rangeI)
    moreover have "q \<notin> fst ` set (Dump u)" if "registration_of u = Some (q, v)" for q v
    proof
      assume "q \<in> fst ` set (Dump u)"
      then obtain v' ks where "ks \<noteq> []" "registration u ks = Some (q, v')" by (auto simp: set_Dump)
      then show False using that inj [OF Some Some, of "[]" q v ks v'] by simp
    qed
    ultimately show ?thesis using Some
      by (cases "vpath u") (simp_all add: f_def own_entry_def registration_of_def)
  qed (simp add: f_def)
  moreover have "set (f c) \<inter> set (f c') = {}" if "c \<noteq> c'" for c c'
    using that mem inj by (metis disjoint_iff)
  ultimately have "distinct (concat (map f all_bytes))" by (intro distinct_concat_map) auto
  moreover have "map fst (Dump (Tree ch w p)) = concat (map f all_bytes)"
    unfolding Dump_unfold [of "Tree ch w p"] by (simp add: map_concat f_def [abs_def] comp_def)
  ultimately show ?case by simp
qed

section \<open>Properties\<close>

text \<open>
  C20. \<open>Set\<close> changes the registration of exactly one pattern, the one of the registered route, whatever the
  tree holds: the tree refines a map from patterns to registered routes and values.
\<close>

theorem Set_refines: "registration (Set zero t route v) = (registration t)(pattern route \<mapsto> (route, v))"
  by (rule Set_entry)

text \<open>
  C21. On every tree, \<open>Get\<close> returns a route and its value exactly when that registration sits at a pattern
  that matches the request and that is preferred at every node: wildcard edges before parameter
  edges before literal ones, without backtracking.
\<close>

theorem Get_matches:
  "Get zero t request = (v, Some route) \<longleftrightarrow>
   (\<exists>ks. matches ks request \<and> preferred t ks \<and> registration t ks = Some (route, v))"
  by (rule Get_entry)

text \<open>
  C22. In a tree built by \<open>Set\<close> and \<open>Delete\<close>, what \<open>Get\<close> returns is a live registration, and the
  pattern of the returned route matches the request.
\<close>

theorem Get_registered:
  assumes "routed zero t" "Get zero t request = (v, Some route)"
  shows "matches (pattern route) request \<and> registration t (pattern route) = Some (route, v)"
  using assms(2) routed_pattern [OF assms(1)] unfolding Get_entry by blast

theorem Get_registered_witness:
  "matches (pattern ''/u/:id/x'') ''/u/42/x'' \<and>
   registration (Set 0 (New (0::nat)) ''/u/:id/x'' 7) (pattern ''/u/:id/x'') = Some (''/u/:id/x'', 7)"
proof -
  have "Get 0 (Set 0 (New (0::nat)) ''/u/:id/x'' 7) ''/u/42/x'' = (7, Some ''/u/:id/x'')" by code_simp
  then show ?thesis
    using Get_registered [OF routed_Set [OF routed_New], of 0 "''/u/:id/x''" 7 "''/u/42/x''" 7 "''/u/:id/x''"] by simp
qed

text \<open>
  C23. For routes without parameters and wildcards, any sequence of \<open>Set\<close> and \<open>Delete\<close> makes the tree
  behave as the map from routes to values: \<open>Get\<close> of any request answers what the map holds, with the
  request itself as the route, and the zero value with no route otherwise.
\<close>

theorem static_routes_table:
  assumes "\<forall>x\<in>set xs. static (change_route x)"
  shows "Get zero (fold (apply_tree zero) xs (New zero)) request =
    (case fold apply_map xs Map.empty request of None \<Rightarrow> (zero, None) | Some v \<Rightarrow> (v, Some request))"
proof -
  have "table_rel zero (New zero) Map.empty" by (simp add: table_rel_def)
  then show ?thesis using table_rel_Get [OF table_rel_fold [OF _ assms]] by blast
qed

theorem static_routes_table_witness:
  "Get 0 (fold (apply_tree 0) [Register ''/a'' 1, Register ''/ab'' 2, Remove ''/a''] (New (0::nat))) ''/ab'' = (2, Some ''/ab'')"
  using static_routes_table [of "[Register ''/a'' 1, Register ''/ab'' 2, Remove ''/a'']" "0::nat" "''/ab''"]
  by (simp add: static_def)

text \<open>
  C24. \<open>Dump\<close> of a tree built by \<open>Set\<close> and \<open>Delete\<close> lists every live registration but the one of the
  empty route, with its value, and no route twice.
\<close>

theorem Dump_routes:
  assumes "routed zero t"
  shows "distinct (map fst (Dump t)) \<and>
    set (Dump t) = {(route, v). route \<noteq> [] \<and> registration t (pattern route) = Some (route, v)}"
proof
  show "distinct (map fst (Dump t))" using routed_pattern [OF assms] by (intro distinct_Dump) blast
  have "pattern r = [] \<longleftrightarrow> r = []" for r by (cases r) auto
  then show "set (Dump t) = {(route, v). route \<noteq> [] \<and> registration t (pattern route) = Some (route, v)}"
    using routed_pattern [OF assms] by (auto simp: set_Dump) (metis)+
qed

theorem Dump_routes_witness:
  "(''/a/:x'', 2) \<in> set (Dump (Set 0 (Set 0 (New (0::nat)) ''/b'' 1) ''/a/:x'' 2))"
proof -
  have "routed 0 (Set 0 (Set 0 (New (0::nat)) ''/b'' 1) ''/a/:x'' 2)" by (intro routed.intros)
  then show ?thesis
    using Dump_routes [of 0 "Set 0 (Set 0 (New (0::nat)) ''/b'' 1) ''/a/:x'' 2"] by (simp add: Set_entry)
qed

end
