(* ===== verification/Hashmap.thy ===== *)
theory Hashmap
  imports Uw_Prelude "HOL-Library.Word" "HOL-Library.Signed_Division"
begin

unbundle bit_operations_syntax

text \<open>
  \<open>src/pkg/hashmap\<close>: the hash map behind \<open>umap.Hmap\<close>. All elements sit in one linked list that is
  sorted by the hash of their keys; an index maps the upper bits of a hash to the first element
  with these bits. Deleted elements are only marked, and unlinked by \<open>Next\<close> when it meets them.

  Elements live in a memory, a list of \<open>ListElement\<close>s whose positions are the pointers; the head of
  the list is the element at position 0. An operation runs to its end before the next one
  starts; the compare-and-swap instructions are written out with their comparison, and the loops
  that retry them with fuel, but the store cannot be replaced while an operation holds it. \<open>go
  m.grow(0, true)\<close> leaves the flag \<open>resizing\<close> set, and \<open>grow_task\<close> is what that goroutine does,
  at any later point. Access to the index through unsafe pointers panics here when it is out of
  range. The hash function is an argument.
\<close>

type_synonym uintptr = "64 word"
type_synonym ptr = "nat option"
type_synonym 'a result = "(unit, 'a) outcome"

section \<open>Arithmetic\<close>

text \<open>\<open>util.go\<close>\<close>

definition roundUpPower2 :: "uintptr \<Rightarrow> uintptr" where
  "roundUpPower2 i =
     (let i = i - 1;
          i = i OR drop_bit 1 i;
          i = i OR drop_bit 2 i;
          i = i OR drop_bit 4 i;
          i = i OR drop_bit 8 i;
          i = i OR drop_bit 16 i;
          i = i OR drop_bit 32 i
      in i + 1)"

fun log2_loop :: "nat \<Rightarrow> uintptr \<Rightarrow> uintptr \<Rightarrow> uintptr \<Rightarrow> uintptr result" where
  "log2_loop 0 i n p = Fuel"
| "log2_loop (Suc f) i n p = (if p < i then log2_loop f i (n + 1) (p + p) else Ok n)"

definition log2 :: "uintptr \<Rightarrow> uintptr result" where
  "log2 i = log2_loop 65 i 0 1"

section \<open>Elements\<close>

text \<open>\<open>list_element.go\<close>\<close>

record ('k, 'v) ListElement =
  keyHash :: uintptr
  deleted :: bool
  lnext :: ptr
  lvalue :: "'v option"
  lkey :: 'k

type_synonym ('k, 'v) memory = "('k, 'v) ListElement list"

definition Value :: "('k, 'v) memory \<Rightarrow> nat \<Rightarrow> 'v result" where
  "Value es e = or_panic (lvalue (es ! e))"

definition set_next :: "nat \<Rightarrow> ptr \<Rightarrow> ('k, 'v) memory \<Rightarrow> ('k, 'v) memory" where
  "set_next e n es = es[e := (es ! e)\<lparr>lnext := n\<rparr>]"

fun Next_loop :: "nat \<Rightarrow> ('k, 'v) memory \<Rightarrow> nat \<Rightarrow> ptr \<Rightarrow> (('k, 'v) memory \<times> ptr) result" where
  "Next_loop 0 es e nx = Fuel"
| "Next_loop (Suc f) es e nx =
     (case nx of
        None \<Rightarrow> Ok (es, None)
      | Some n \<Rightarrow>
          if \<not> deleted (es ! n) then Ok (es, Some n)
          else bind_outcome (Next_loop f es n (lnext (es ! n))) (\<lambda>(es, following).
            if lnext (es ! e) = Some n then Next_loop f (set_next e following es) e following
            else bind_outcome (Next_loop f es n (lnext (es ! n))) (\<lambda>(es, nx). Next_loop f es e nx)))"

definition Next :: "('k, 'v) memory \<Rightarrow> nat \<Rightarrow> (('k, 'v) memory \<times> ptr) result" where
  "Next es e = Next_loop (length es + 1) es e (lnext (es ! e))"

section \<open>The sorted list\<close>

text \<open>\<open>list.go\<close>\<close>

record ('k, 'v) List =
  count :: uintptr
  mem :: "('k, 'v) memory"

definition head :: nat where
  "head = 0"

definition NewList :: "'k \<Rightarrow> ('k, 'v) List" where
  "NewList zero = \<lparr>count = 0, mem = [\<lparr>keyHash = 0, deleted = False, lnext = None, lvalue = None, lkey = zero\<rparr>]\<rparr>"

definition List_Len :: "('k, 'v) List \<Rightarrow> int" where
  "List_Len l = sint (count l)"

definition First :: "('k, 'v) memory \<Rightarrow> (('k, 'v) memory \<times> ptr) result" where
  "First es = Next es head"

fun search_loop :: "nat \<Rightarrow> ('k, 'v) memory \<Rightarrow> uintptr \<Rightarrow> 'k \<Rightarrow> ptr \<Rightarrow> nat
    \<Rightarrow> (('k, 'v) memory \<times> ptr \<times> ptr \<times> ptr) result" where
  "search_loop 0 es hash k left found = Fuel"
| "search_loop (Suc f) es hash k left found =
     (if hash = keyHash (es ! found) \<and> k = lkey (es ! found) then Ok (es, None, Some found, None)
      else if hash < keyHash (es ! found) then
        if left = Some head then Ok (es, None, None, Some found)
        else Ok (es, left, None, Some found)
      else bind_outcome (Next es found) (\<lambda>(es, nx).
        case nx of
          None \<Rightarrow> Ok (es, Some found, None, None)
        | Some n \<Rightarrow> search_loop f es hash k (Some found) n))"

definition search :: "('k, 'v) memory \<Rightarrow> ptr \<Rightarrow> uintptr \<Rightarrow> 'k
    \<Rightarrow> (('k, 'v) memory \<times> ptr \<times> ptr \<times> ptr) result" where
  "search es searchStart hash k =
     (let searchStart = (case searchStart of
            Some s \<Rightarrow> if hash < keyHash (es ! s) then None else Some s
          | None \<Rightarrow> None) in
      case searchStart of
        None \<Rightarrow> bind_outcome (Next es head) (\<lambda>(es, found).
          case found of
            None \<Rightarrow> Ok (es, None, None, None)
          | Some n \<Rightarrow> search_loop (length es) es hash k (Some head) n)
      | Some s \<Rightarrow> search_loop (length es) es hash k None s)"

definition insertAt :: "('k, 'v) List \<Rightarrow> nat \<Rightarrow> ptr \<Rightarrow> ptr \<Rightarrow> ('k, 'v) List \<times> bool" where
  "insertAt l element left right =
     (let left = (case left of None \<Rightarrow> head | Some a \<Rightarrow> a);
          es = set_next element right (mem l) in
      if lnext (es ! left) = right
      then (l\<lparr>mem := set_next left (Some element) es, count := count l + 1\<rparr>, True)
      else (l\<lparr>mem := es\<rparr>, False))"

definition new_element :: "uintptr \<Rightarrow> 'k \<Rightarrow> 'v \<Rightarrow> ('k, 'v) ListElement" where
  "new_element hash k v = \<lparr>keyHash = hash, deleted = False, lnext = None, lvalue = Some v, lkey = k\<rparr>"

definition Add :: "('k, 'v) List \<Rightarrow> ptr \<Rightarrow> uintptr \<Rightarrow> 'k \<Rightarrow> 'v
    \<Rightarrow> (('k, 'v) List \<times> nat \<times> bool \<times> bool) result" where
  "Add l searchStart hash k v =
     bind_outcome (search (mem l) searchStart hash k) (\<lambda>(es, left, found, right).
       case found of
         Some e \<Rightarrow> Ok (l\<lparr>mem := es\<rparr>, e, True, False)
       | None \<Rightarrow>
           (let element = length es;
                (l, inserted) = insertAt (l\<lparr>mem := es @ [new_element hash k v]\<rparr>) element left right in
            Ok (l, element, False, inserted)))"

definition AddOrUpdate :: "('k, 'v) List \<Rightarrow> ptr \<Rightarrow> uintptr \<Rightarrow> 'k \<Rightarrow> 'v
    \<Rightarrow> (('k, 'v) List \<times> nat \<times> bool) result" where
  "AddOrUpdate l searchStart hash k v =
     bind_outcome (search (mem l) searchStart hash k) (\<lambda>(es, left, found, right).
       case found of
         Some e \<Rightarrow> Ok (l\<lparr>mem := es[e := (es ! e)\<lparr>lvalue := Some v\<rparr>]\<rparr>, e, True)
       | None \<Rightarrow>
           (let element = length es;
                (l, added) = insertAt (l\<lparr>mem := es @ [new_element hash k v]\<rparr>) element left right in
            Ok (l, element, added)))"

definition List_Delete :: "('k, 'v) List \<Rightarrow> nat \<Rightarrow> ('k, 'v) List result" where
  "List_Delete l element =
     (if deleted (mem l ! element) then Ok l
      else bind_outcome (Next ((mem l)[element := (mem l ! element)\<lparr>deleted := True\<rparr>]) element) (\<lambda>(es, right).
        let es = (if lnext (es ! head) = Some element then set_next head right es else es) in
        Ok (l\<lparr>mem := es, count := count l - 1\<rparr>)))"

section \<open>The index\<close>

text \<open>\<open>store.go\<close>\<close>

record store =
  keyShifts :: uintptr
  filled :: uintptr
  index :: "ptr list"

definition slot :: "store \<Rightarrow> uintptr \<Rightarrow> nat" where
  "slot s hash = unat (drop_bit (unat (keyShifts s)) hash)"

definition item :: "store \<Rightarrow> uintptr \<Rightarrow> ptr result" where
  "item s hashedKey = idx (index s) (slot s hashedKey)"

definition addItem :: "('k, 'v) memory \<Rightarrow> store \<Rightarrow> nat \<Rightarrow> (store \<times> uintptr) result" where
  "addItem es s e =
     bind_outcome (item s (keyHash (es ! e))) (\<lambda>element.
       case element of
         None \<Rightarrow> Ok (s\<lparr>index := (index s)[slot s (keyHash (es ! e)) := Some e], filled := filled s + 1\<rparr>, filled s + 1)
       | Some e' \<Rightarrow>
           if keyHash (es ! e) < keyHash (es ! e')
           then Ok (s\<lparr>index := (index s)[slot s (keyHash (es ! e)) := Some e]\<rparr>, 0)
           else Ok (s, 0))"

section \<open>The map\<close>

text \<open>\<open>hashmap.go\<close>, with the constants of \<open>defines.go\<close>\<close>

definition defaultSize :: uintptr where
  "defaultSize = 8"

definition maxFillRate :: uintptr where
  "maxFillRate = 50"

record ('k, 'v) Map =
  hasher :: "'k \<Rightarrow> uintptr"
  mstore :: "store option"
  linkedList :: "('k, 'v) List"
  resizing :: bool

abbreviation upd_mem :: "('k, 'v) memory \<Rightarrow> ('k, 'v) Map \<Rightarrow> ('k, 'v) Map" where
  "upd_mem es m \<equiv> m\<lparr>linkedList := (linkedList m)\<lparr>mem := es\<rparr>\<rparr>"

definition Len :: "('k, 'v) Map \<Rightarrow> int" where
  "Len m = List_Len (linkedList m)"

fun Get_loop :: "nat \<Rightarrow> ('k, 'v) memory \<Rightarrow> uintptr \<Rightarrow> 'k \<Rightarrow> ptr \<Rightarrow> (('k, 'v) memory \<times> 'v option) result" where
  "Get_loop 0 es hash k element = Fuel"
| "Get_loop (Suc f) es hash k element =
     (case element of
        None \<Rightarrow> Ok (es, None)
      | Some e \<Rightarrow>
          if keyHash (es ! e) = hash \<and> lkey (es ! e) = k
          then bind_outcome (Value es e) (\<lambda>v. Ok (es, Some v))
          else if hash < keyHash (es ! e) then Ok (es, None)
          else bind_outcome (Next es e) (\<lambda>(es, nx). Get_loop f es hash k nx))"

definition Get :: "('k, 'v) Map \<Rightarrow> 'k \<Rightarrow> (('k, 'v) Map \<times> 'v option) result" where
  "Get m k =
     (let hash = hasher m k; es = mem (linkedList m) in
      bind_outcome (or_panic (mstore m)) (\<lambda>s.
      bind_outcome (item s hash) (\<lambda>e.
      bind_outcome (Get_loop (length es + 1) es hash k e) (\<lambda>(es, v).
      Ok (upd_mem es m, v)))))"

definition isResizeNeeded :: "store \<Rightarrow> uintptr \<Rightarrow> bool result" where
  "isResizeNeeded s c = (let l = of_nat (length (index s)) in
     if l = 0 then Panic else Ok (maxFillRate < (c * 100) div l))"

definition FillRate :: "('k, 'v) Map \<Rightarrow> int result" where
  "FillRate m =
     bind_outcome (or_panic (mstore m)) (\<lambda>s.
     if index s = [] then Panic else Ok (sint (filled s * 100) sdiv int (length (index s))))"

text \<open>The part of \<open>Set\<close>, \<open>Insert\<close> and \<open>GetOrInsert\<close> behind the list operation.\<close>

definition index_element :: "('k, 'v) Map \<Rightarrow> store \<Rightarrow> nat \<Rightarrow> ('k, 'v) Map result" where
  "index_element m s element =
     bind_outcome (addItem (mem (linkedList m)) s element) (\<lambda>(s, c).
     let m = m\<lparr>mstore := Some s\<rparr> in
     bind_outcome (isResizeNeeded s c) (\<lambda>needed.
     Ok (if needed \<and> \<not> resizing m then m\<lparr>resizing := True\<rparr> else m)))"

fun GetOrInsert_loop :: "nat \<Rightarrow> ('k, 'v) Map \<Rightarrow> 'k \<Rightarrow> 'v \<Rightarrow> (('k, 'v) Map \<times> 'v \<times> bool) result" where
  "GetOrInsert_loop 0 m k v = Fuel"
| "GetOrInsert_loop (Suc f) m k v =
     bind_outcome (or_panic (mstore m)) (\<lambda>s.
     bind_outcome (item s (hasher m k)) (\<lambda>searchStart.
     bind_outcome (Add (linkedList m) searchStart (hasher m k) k v) (\<lambda>(l, element, existed, inserted).
     let m = m\<lparr>linkedList := l\<rparr> in
     if existed then bind_outcome (Value (mem l) element) (\<lambda>old. Ok (m, old, True))
     else if \<not> inserted then GetOrInsert_loop f m k v
     else bind_outcome (index_element m s element) (\<lambda>m. Ok (m, v, False)))))"

definition GetOrInsert :: "('k, 'v) Map \<Rightarrow> 'k \<Rightarrow> 'v \<Rightarrow> (('k, 'v) Map \<times> 'v \<times> bool) result" where
  "GetOrInsert m k v = GetOrInsert_loop 2 m k v"

fun Insert_loop :: "nat \<Rightarrow> ('k, 'v) Map \<Rightarrow> 'k \<Rightarrow> 'v \<Rightarrow> (('k, 'v) Map \<times> bool) result" where
  "Insert_loop 0 m k v = Fuel"
| "Insert_loop (Suc f) m k v =
     bind_outcome (or_panic (mstore m)) (\<lambda>s.
     bind_outcome (item s (hasher m k)) (\<lambda>searchStart.
     bind_outcome (Add (linkedList m) searchStart (hasher m k) k v) (\<lambda>(l, element, existed, inserted).
     let m = m\<lparr>linkedList := l\<rparr> in
     if existed then Ok (m, False)
     else if \<not> inserted then Insert_loop f m k v
     else bind_outcome (index_element m s element) (\<lambda>m. Ok (m, True)))))"

definition Insert :: "('k, 'v) Map \<Rightarrow> 'k \<Rightarrow> 'v \<Rightarrow> (('k, 'v) Map \<times> bool) result" where
  "Insert m k v = Insert_loop 2 m k v"

fun Set_loop :: "nat \<Rightarrow> ('k, 'v) Map \<Rightarrow> 'k \<Rightarrow> 'v \<Rightarrow> ('k, 'v) Map result" where
  "Set_loop 0 m k v = Fuel"
| "Set_loop (Suc f) m k v =
     bind_outcome (or_panic (mstore m)) (\<lambda>s.
     bind_outcome (item s (hasher m k)) (\<lambda>searchStart.
     bind_outcome (AddOrUpdate (linkedList m) searchStart (hasher m k) k v) (\<lambda>(l, element, added).
     let m = m\<lparr>linkedList := l\<rparr> in
     if \<not> added then Set_loop f m k v else index_element m s element)))"

definition Set :: "('k, 'v) Map \<Rightarrow> 'k \<Rightarrow> 'v \<Rightarrow> ('k, 'v) Map result" where
  "Set m k v = Set_loop 2 m k v"

text \<open>
  \<open>deleteElement\<close>. The test \<open>element.keyHash>>store.keyShifts != index\<close> of the source looks at the
  element itself instead of its successor, so that it never holds.
\<close>

definition deleteElement :: "('k, 'v) Map \<Rightarrow> nat \<Rightarrow> ('k, 'v) Map result" where
  "deleteElement m element =
     bind_outcome (or_panic (mstore m)) (\<lambda>s.
     let i = slot s (keyHash (mem (linkedList m) ! element)) in
     bind_outcome (Next (mem (linkedList m)) element) (\<lambda>(es, nx).
     let nx = (if nx \<noteq> None \<and> slot s (keyHash (es ! element)) \<noteq> i then None else nx) in
     bind_outcome (idx (index s) i) (\<lambda>p.
     let s = (if p = Some element then s\<lparr>index := (index s)[i := nx]\<rparr> else s) in
     Ok ((upd_mem es m)\<lparr>mstore := Some s\<rparr>))))"

fun Del_loop :: "nat \<Rightarrow> ('k, 'v) Map \<Rightarrow> uintptr \<Rightarrow> 'k \<Rightarrow> ptr \<Rightarrow> (('k, 'v) Map \<times> bool) result" where
  "Del_loop 0 m hash k element = Fuel"
| "Del_loop (Suc f) m hash k element =
     (case element of
        None \<Rightarrow> Ok (m, False)
      | Some e \<Rightarrow>
          let es = mem (linkedList m) in
          if keyHash (es ! e) = hash \<and> lkey (es ! e) = k
          then bind_outcome (deleteElement m e) (\<lambda>m.
               bind_outcome (List_Delete (linkedList m) e) (\<lambda>l. Ok (m\<lparr>linkedList := l\<rparr>, True)))
          else if hash < keyHash (es ! e) then Ok (m, False)
          else bind_outcome (Next es e) (\<lambda>(es, nx). Del_loop f (upd_mem es m) hash k nx))"

definition Del :: "('k, 'v) Map \<Rightarrow> 'k \<Rightarrow> (('k, 'v) Map \<times> bool) result" where
  "Del m k =
     bind_outcome (or_panic (mstore m)) (\<lambda>s.
     bind_outcome (item s (hasher m k)) (\<lambda>e.
     Del_loop (length (mem (linkedList m)) + 1) m (hasher m k) k e))"

text \<open>
  \<open>Range\<close>: the callback gets the key, the value, the caller's state and the map, which it may
  change. Fuel bounds the number of elements visited.
\<close>

fun Range_loop :: "nat \<Rightarrow> ('k \<Rightarrow> 'v \<Rightarrow> 's \<times> ('k, 'v) Map \<Rightarrow> (('s \<times> ('k, 'v) Map) \<times> bool) result)
    \<Rightarrow> 's \<times> ('k, 'v) Map \<Rightarrow> ptr \<Rightarrow> ('s \<times> ('k, 'v) Map) result" where
  "Range_loop 0 f sm itm = Fuel"
| "Range_loop (Suc n) f sm itm =
     (case itm of
        None \<Rightarrow> Ok sm
      | Some e \<Rightarrow>
          bind_outcome (Value (mem (linkedList (snd sm))) e) (\<lambda>v.
          bind_outcome (f (lkey (mem (linkedList (snd sm)) ! e)) v sm) (\<lambda>((s, m), goon).
          if \<not> goon then Ok (s, m)
          else bind_outcome (Next (mem (linkedList m)) e) (\<lambda>(es, nx).
            Range_loop n f (s, upd_mem es m) nx))))"

definition Range :: "nat \<Rightarrow> ('k \<Rightarrow> 'v \<Rightarrow> 's \<times> ('k, 'v) Map \<Rightarrow> (('s \<times> ('k, 'v) Map) \<times> bool) result)
    \<Rightarrow> 's \<times> ('k, 'v) Map \<Rightarrow> ('s \<times> ('k, 'v) Map) result" where
  "Range n f sm =
     bind_outcome (First (mem (linkedList (snd sm)))) (\<lambda>(es, itm).
       Range_loop n f (fst sm, upd_mem es (snd sm)) itm)"

fun fillIndexItems_loop :: "nat \<Rightarrow> ('k, 'v) memory \<Rightarrow> store \<Rightarrow> ptr \<Rightarrow> nat \<Rightarrow> ptr
    \<Rightarrow> (('k, 'v) memory \<times> store) result" where
  "fillIndexItems_loop 0 es s first lastIndex itm = Fuel"
| "fillIndexItems_loop (Suc f) es s first lastIndex itm =
     (case itm of
        None \<Rightarrow> Ok (es, s)
      | Some e \<Rightarrow>
          let i = slot s (keyHash (es ! e)) in
          bind_outcome
            (if itm = first \<or> i \<noteq> lastIndex
             then bind_outcome (addItem es s e) (\<lambda>(s, c). Ok (s, i))
             else Ok (s, lastIndex)) (\<lambda>(s, lastIndex).
          bind_outcome (Next es e) (\<lambda>(es, nx).
          fillIndexItems_loop f es s first lastIndex nx)))"

definition fillIndexItems :: "('k, 'v) memory \<Rightarrow> store \<Rightarrow> (('k, 'v) memory \<times> store) result" where
  "fillIndexItems es s =
     bind_outcome (First es) (\<lambda>(es, first). fillIndexItems_loop (length es + 1) es s first 0 first)"

text \<open>\<open>make\<close> panics for a slice larger than what the runtime can allocate (2 to the 48 bytes,
  that is 2 to the 45 pointers).\<close>

definition make_index :: "uintptr \<Rightarrow> ptr list result" where
  "make_index n = (if n \<le> 0x200000000000 then Ok (replicate (unat n) None) else Panic)"

fun grow_loop :: "nat \<Rightarrow> ('k, 'v) Map \<Rightarrow> uintptr \<Rightarrow> bool \<Rightarrow> ('k, 'v) Map result" where
  "grow_loop 0 m newSize again = Fuel"
| "grow_loop (Suc f) m newSize again =
     bind_outcome
       (if newSize = 0
        then bind_outcome (or_panic (mstore m)) (\<lambda>s. Ok (push_bit 1 (of_nat (length (index s)))))
        else Ok (roundUpPower2 newSize)) (\<lambda>newSize.
     bind_outcome (make_index newSize) (\<lambda>ix.
     bind_outcome (log2 newSize) (\<lambda>n.
     bind_outcome (fillIndexItems (mem (linkedList m)) \<lparr>keyShifts = 64 - n, filled = 0, index = ix\<rparr>) (\<lambda>(es, s).
     bind_outcome (fillIndexItems es s) (\<lambda>(es, s).
     let m = (upd_mem es m)\<lparr>mstore := Some s\<rparr> in
     if \<not> again then Ok m
     else bind_outcome (isResizeNeeded s (of_int (Len m))) (\<lambda>needed.
       if \<not> needed then Ok m else grow_loop f m 0 again))))))"

definition grow :: "('k, 'v) Map \<Rightarrow> uintptr \<Rightarrow> bool \<Rightarrow> ('k, 'v) Map result" where
  "grow m newSize again = bind_outcome (grow_loop 64 m newSize again) (\<lambda>m. Ok (m\<lparr>resizing := False\<rparr>))"

definition grow_task :: "('k, 'v) Map \<Rightarrow> uintptr \<Rightarrow> ('k, 'v) Map result" where
  "grow_task m newSize = (if resizing m then grow m newSize True else Ok m)"

definition Grow :: "('k, 'v) Map \<Rightarrow> ('k, 'v) Map" where
  "Grow m = (if \<not> resizing m then m\<lparr>resizing := True\<rparr> else m)"

definition allocate :: "'k \<Rightarrow> ('k, 'v) Map \<Rightarrow> uintptr \<Rightarrow> ('k, 'v) Map result" where
  "allocate zero m newSize =
     (let m = m\<lparr>linkedList := NewList zero\<rparr> in
      if \<not> resizing m then grow (m\<lparr>resizing := True\<rparr>) newSize False else Ok m)"

definition NewSized :: "'k \<Rightarrow> ('k \<Rightarrow> uintptr) \<Rightarrow> uintptr \<Rightarrow> ('k, 'v) Map result" where
  "NewSized zero h sz =
     allocate zero \<lparr>hasher = h, mstore = None, linkedList = \<lparr>count = 0, mem = []\<rparr>, resizing = False\<rparr> sz"

definition New :: "'k \<Rightarrow> ('k \<Rightarrow> uintptr) \<Rightarrow> ('k, 'v) Map result" where
  "New zero h = NewSized zero h defaultSize"

definition SetHasher :: "('k \<Rightarrow> uintptr) \<Rightarrow> ('k, 'v) Map \<Rightarrow> ('k, 'v) Map" where
  "SetHasher h m = m\<lparr>hasher := h\<rparr>"

end
