(* ===== verification/Hashmap_Links.thy ===== *)
theory Hashmap_Links
  imports Hashmap
begin

text \<open>
  The links of the hash map's list: \<open>Next\<close> finds the next element that is not deleted, unlinks the
  deleted ones it passes, and keeps the order of the elements.
\<close>

section \<open>Links\<close>

text \<open>What stays of an element when only links change.\<close>

definition core :: "('k, 'v) memory \<Rightarrow> ('k, 'v) memory" where
  "core es = map (\<lambda>e. e\<lparr>lnext := None\<rparr>) es"

lemma core_length: "core es' = core es \<Longrightarrow> length es' = length es"
  unfolding core_def by (metis length_map)

lemma core_nth:
  assumes "core es' = core es" "a < length es"
  shows "keyHash (es' ! a) = keyHash (es ! a)" "deleted (es' ! a) = deleted (es ! a)"
    "lvalue (es' ! a) = lvalue (es ! a)" "lkey (es' ! a) = lkey (es ! a)"
proof -
  have "(es' ! a)\<lparr>lnext := None\<rparr> = (es ! a)\<lparr>lnext := None\<rparr>"
    using assms core_length [OF assms(1)] unfolding core_def by (metis nth_map)
  then show "keyHash (es' ! a) = keyHash (es ! a)" "deleted (es' ! a) = deleted (es ! a)"
    "lvalue (es' ! a) = lvalue (es ! a)" "lkey (es' ! a) = lkey (es ! a)"
    by (cases "es' ! a", cases "es ! a", simp)+
qed

lemma core_set_next [simp]: "core (set_next a n es) = core es"
  by (cases "a < length es") (auto simp: core_def set_next_def nth_list_update intro!: nth_equalityI)

lemma set_next_nth [simp]:
  "length (set_next a n es) = length es"
  "b \<noteq> a \<Longrightarrow> set_next a n es ! b = es ! b"
  "a < length es \<Longrightarrow> lnext (set_next a n es ! a) = n"
  by (auto simp: set_next_def)

definition hd_opt :: "'a list \<Rightarrow> 'a option" where
  "hd_opt xs = (case xs of [] \<Rightarrow> None | x # _ \<Rightarrow> Some x)"

lemma hd_opt_simps [simp]: "hd_opt [] = None" "hd_opt (x # xs) = Some x"
  by (simp_all add: hd_opt_def)

lemma hd_opt_append: "hd_opt (xs @ ys) = (case xs of [] \<Rightarrow> hd_opt ys | x # _ \<Rightarrow> Some x)"
  by (cases xs) auto

text \<open>
  All elements ever made, in the order of the list. The link of an element leads to a later one,
  past deleted elements only.
\<close>

fun linked :: "('k, 'v) memory \<Rightarrow> nat list \<Rightarrow> bool" where
  "linked es [] \<longleftrightarrow> True"
| "linked es (a # ys) \<longleftrightarrow>
     (\<exists>ds rest. ys = ds @ rest \<and> (\<forall>d \<in> set ds. deleted (es ! d)) \<and> lnext (es ! a) = hd_opt rest) \<and> linked es ys"

definition first_live :: "('k, 'v) memory \<Rightarrow> nat list \<Rightarrow> ptr" where
  "first_live es ys = find (\<lambda>a. \<not> deleted (es ! a)) ys"

lemma first_live_dead: "\<forall>d \<in> set ds. deleted (es ! d) \<Longrightarrow> first_live es (ds @ ys) = first_live es ys"
  by (induction ds) (auto simp: first_live_def)

lemma first_live_Cons: "first_live es (a # ys) = (if deleted (es ! a) then first_live es ys else Some a)"
  by (simp add: first_live_def)

lemma first_live_Nil [simp]: "first_live es [] = None"
  by (simp add: first_live_def)

lemma first_live_Some:
  assumes "first_live es ys = Some n"
  obtains ds rest where "ys = ds @ n # rest" "\<forall>d \<in> set ds. deleted (es ! d)" "\<not> deleted (es ! n)"
  using assms
proof (induction ys arbitrary: thesis)
  case (Cons a ys)
  show ?case
  proof (cases "deleted (es ! a)")
    case True
    then obtain ds rest where "ys = ds @ n # rest" "\<forall>d \<in> set ds. deleted (es ! d)" "\<not> deleted (es ! n)"
      using Cons.IH Cons.prems(2) by (auto simp: first_live_Cons)
    then show ?thesis using True Cons.prems(1) [of "a # ds" rest] by auto
  next
    case False
    then show ?thesis using Cons.prems Cons.prems(1) [of "[]" ys] by (auto simp: first_live_Cons)
  qed
qed simp

lemma first_live_None: "first_live es ys = None \<longleftrightarrow> (\<forall>a \<in> set ys. deleted (es ! a))"
  by (auto simp: first_live_def find_None_iff)

lemma first_live_core:
  assumes "core es' = core es" "set ys \<subseteq> {..<length es}"
  shows "first_live es' ys = first_live es ys"
  using assms(2) by (induction ys) (auto simp: first_live_Cons core_nth [OF assms(1)])

lemma linked_append: "linked es (xs @ ys) \<Longrightarrow> linked es ys"
  by (induction xs) simp_all

lemma linked_prefix:
  assumes "linked es (xs @ ys)" "core es' = core es" "set (xs @ ys) \<subseteq> {..<length es}"
    "\<forall>x \<in> set xs. lnext (es' ! x) = lnext (es ! x)" "linked es' ys"
  shows "linked es' (xs @ ys)"
  using assms
proof (induction xs)
  case (Cons a xs)
  then obtain ds rest where r: "xs @ ys = ds @ rest" "\<forall>d \<in> set ds. deleted (es ! d)" "lnext (es ! a) = hd_opt rest"
    by auto
  have "set ds \<subseteq> {..<length es}" using Cons.prems(3) r(1) by (metis append_Cons le_supE set_append set_subset_Cons subset_trans)
  then have "\<forall>d \<in> set ds. deleted (es' ! d)" using r(2) core_nth(2) [OF Cons.prems(2)] by (metis lessThan_iff subsetD)
  moreover have "lnext (es' ! a) = hd_opt rest" using Cons.prems(4) r(3) by simp
  ultimately show ?case using Cons r(1) by auto
qed simp

lemma first_live_split:
  "\<exists>ds rest. ys = ds @ rest \<and> (\<forall>d \<in> set ds. deleted (es ! d)) \<and> first_live es ys = hd_opt rest"
proof (cases "first_live es ys")
  case None
  then show ?thesis by (intro exI [of _ ys] exI [of _ "[]"]) (auto simp: first_live_None)
next
  case (Some n)
  then obtain ds rest where "ys = ds @ n # rest" "\<forall>d \<in> set ds. deleted (es ! d)" by (rule first_live_Some)
  then show ?thesis using Some by (intro exI [of _ ds] exI [of _ "n # rest"]) auto
qed

lemma Next_loop_ok:
  assumes "linked es (a # ys)" "distinct (a # ys)" "set (a # ys) \<subseteq> {..<length es}"
    "ys = ds @ rest" "\<forall>d \<in> set ds. deleted (es ! d)" "lnext (es ! a) = hd_opt rest" "length rest < f"
  shows "\<exists>es'. Next_loop f es a (hd_opt rest) = Ok (es', first_live es ys) \<and> core es' = core es \<and>
    linked es' (a # ys) \<and> (\<forall>b. b \<notin> set (a # rest) \<longrightarrow> es' ! b = es ! b) \<and> lnext (es' ! a) = first_live es ys"
  using assms
proof (induction f arbitrary: es a ys ds rest)
  case (Suc f)
  have fl: "first_live es ys = first_live es rest" using Suc.prems(4,5) by (simp add: first_live_dead)
  show ?case
  proof (cases rest)
    case Nil
    then show ?thesis using Suc.prems fl by auto
  next
    case (Cons n rest')
    show ?thesis
    proof (cases "deleted (es ! n)")
      case False
      then show ?thesis using Suc.prems Cons fl by (auto simp: first_live_Cons)
    next
      case True
      have ys: "ys = (ds @ [n]) @ rest'" using Suc.prems(4) Cons by simp
      have ln: "linked es (n # rest')" 
      proof -
        have "a # ys = (a # ds) @ n # rest'" using ys by simp
        then show ?thesis using Suc.prems(1) linked_append by metis
      qed
      obtain ds' rest'' where r: "rest' = ds' @ rest''" "\<forall>d \<in> set ds'. deleted (es ! d)" "lnext (es ! n) = hd_opt rest''"
        using ln by auto
      have f: "length rest'' < f" using Suc.prems(7) Cons r(1) by simp
      obtain es1 where es1: "Next_loop f es n (hd_opt rest'') = Ok (es1, first_live es rest')" "core es1 = core es"
        "linked es1 (n # rest')" "\<forall>b. b \<notin> set (n # rest'') \<longrightarrow> es1 ! b = es ! b"
        using Suc.IH [OF ln _ _ r f] Suc.prems(2,3) ys by auto
      define fo where "fo = first_live es rest'"
      have fo: "first_live es ys = fo" using fl Cons True by (simp add: fo_def first_live_Cons)
      have a: "a \<notin> set (n # rest'')" using Suc.prems(2) ys r(1) by auto
      have al: "a < length es1" using Suc.prems(3) core_length [OF es1(2)] by auto
      define es2 where "es2 = set_next a fo es1"
      have c2: "core es2 = core es" using es1(2) by (simp add: es2_def)
      have sub: "set ys \<subseteq> {..<length es}" using Suc.prems(3) by simp
      have stop: "Next_loop f es2 a fo = Ok (es2, fo)"
      proof (cases fo)
        case None
        then show ?thesis using f by (cases f) auto
      next
        case (Some b)
        then have "\<not> deleted (es ! b)" "b \<in> set ys" using fo first_live_Some by (metis, metis in_set_conv_decomp)
        then have "\<not> deleted (es2 ! b)" using core_nth(2) [OF c2] sub by blast
        then show ?thesis using Some f by (cases f) auto
      qed
      have run: "Next_loop (Suc f) es a (hd_opt rest) = Ok (es2, fo)"
        using True Cons es1 a Suc.prems(6) r(3) stop by (simp add: es2_def fo_def)
      have kd: "\<forall>x \<in> set ds. lnext (es1 ! x) = lnext (es ! x)"
        using es1(4) Suc.prems(2) ys r(1) by auto
      have ys': "ys = ds @ n # rest'" using ys by simp
      have "linked es ys" using Suc.prems(1) by simp
      then have "linked es1 ys" using linked_prefix [OF _ es1(2) _ kd es1(3)] sub unfolding ys' by blast
      then have l2: "linked es2 ys"
      proof -
        have "\<forall>x \<in> set ys. lnext (es2 ! x) = lnext (es1 ! x)" 
          using Suc.prems(2) unfolding es2_def by (metis distinct.simps(2) set_next_nth(2))
        then show ?thesis using linked_prefix [of es1 ys "[]" es2] \<open>linked es1 ys\<close> sub core_length [OF es1(2)]
          by (simp add: es2_def)
      qed
      have "first_live es2 ys = fo" using first_live_core [OF c2 sub] fo by simp
      then have "linked es2 (a # ys)" using first_live_split [of ys es2] l2 al by (auto simp: es2_def)
      moreover have "\<forall>b. b \<notin> set (a # rest) \<longrightarrow> es2 ! b = es ! b"
        using es1(4) Cons r(1) by (auto simp: es2_def)
      ultimately show ?thesis using run c2 fo al by (auto simp: es2_def)
    qed
  qed
qed simp

text \<open>The order \<open>ord\<close> of all elements, with the head in front.\<close>

definition chain :: "('k, 'v) memory \<Rightarrow> nat list \<Rightarrow> bool" where
  "chain es ord \<longleftrightarrow> distinct ord \<and> set ord = {..<length es} \<and> linked es ord"

lemma chain_length: "chain es ord \<Longrightarrow> length ord = length es"
  unfolding chain_def by (metis card_lessThan distinct_card)

lemma Next_ok:
  assumes "chain es ord" "ord = xs @ a # ys"
  shows "\<exists>es'. Next es a = Ok (es', first_live es ys) \<and> core es' = core es \<and> chain es' ord \<and>
    lnext (es' ! a) = first_live es ys \<and> (\<forall>b \<in> set xs. es' ! b = es ! b)"
proof -
  have l: "linked es (a # ys)" using assms linked_append unfolding chain_def by blast
  then obtain ds rest where r: "ys = ds @ rest" "\<forall>d \<in> set ds. deleted (es ! d)" "lnext (es ! a) = hd_opt rest" by auto
  have s: "set ord = {..<length es}" "distinct ord" "linked es ord" using assms(1) by (auto simp: chain_def)
  have d: "distinct (a # ys)" "set (a # ys) \<subseteq> {..<length es}" "set xs \<inter> set (a # ys) = {}"
    using s(1,2) unfolding assms(2) by auto
  have "length rest < length es + 1" using chain_length [OF assms(1)] assms(2) r(1) by simp
  from Next_loop_ok [OF l d(1,2) r this]
  obtain es' where e: "Next es a = Ok (es', first_live es ys)" "core es' = core es" "linked es' (a # ys)"
      "\<forall>b. b \<notin> set (a # rest) \<longrightarrow> es' ! b = es ! b" "lnext (es' ! a) = first_live es ys"
    unfolding Next_def r(3) by blast
  have keep: "\<forall>b \<in> set xs. es' ! b = es ! b" using e(4) d(3) r(1) by auto
  then have "\<forall>x \<in> set xs. lnext (es' ! x) = lnext (es ! x)" by simp
  from linked_prefix [OF _ e(2) _ this e(3)] have "linked es' ord" using s(1,3) unfolding assms(2) by blast
  then have "chain es' ord" using s core_length [OF e(2)] by (simp add: chain_def)
  then show ?thesis using e keep by blast
qed

declare linked.simps [simp del]

end
