(* ===== verification/Hashmap_List.thy ===== *)
theory Hashmap_List
  imports Hashmap_Links
begin

text \<open>
  The sorted list of the hash map: its invariant, where \<open>search\<close> ends, and what adding, updating and
  deleting an element do to the contents.
\<close>

section \<open>The sorted list\<close>

abbreviation live :: "('k, 'v) memory \<Rightarrow> nat \<Rightarrow> bool" where
  "live es a \<equiv> \<not> deleted (es ! a)"

definition lives :: "('k, 'v) memory \<Rightarrow> nat list \<Rightarrow> nat list" where
  "lives es ord = filter (live es) ord"

definition list_ok :: "('k \<Rightarrow> uintptr) \<Rightarrow> ('k, 'v) memory \<Rightarrow> nat list \<Rightarrow> bool" where
  "list_ok h es ord \<longleftrightarrow> chain es (0 # ord) \<and> live es 0 \<and>
     sorted (map (\<lambda>a. keyHash (es ! a)) (lives es ord)) \<and>
     distinct (map (\<lambda>a. lkey (es ! a)) (lives es ord)) \<and>
     (\<forall>a \<in> set ord. lvalue (es ! a) \<noteq> None \<and> keyHash (es ! a) = h (lkey (es ! a)))"

lemma set_lives: "a \<in> set (lives es ord) \<longleftrightarrow> a \<in> set ord \<and> live es a"
  by (simp add: lives_def)

lemma lives_append: "lives es (xs @ ys) = lives es xs @ lives es ys"
  by (simp add: lives_def)

lemma lives_Cons: "lives es (a # ys) = (if live es a then a # lives es ys else lives es ys)"
  by (simp add: lives_def)

lemma list_ok_bound:
  assumes "list_ok h es ord"
  shows "a \<in> set ord \<Longrightarrow> a < length es" "0 < length es" "0 \<notin> set ord" "distinct ord"
    "set ord = {0<..<length es}"
proof -
  have c: "distinct (0 # ord)" "set (0 # ord) = {..<length es}" using assms unfolding list_ok_def chain_def by blast+
  have 0: "{..<n} - {0} = {0<..<n}" for n :: nat by auto
  have "set ord = set (0 # ord) - {0}" using c(1) by simp
  also have "\<dots> = {0<..<length es}" by (simp only: c(2) 0)
  finally show s: "set ord = {0<..<length es}" .
  show "a \<in> set ord \<Longrightarrow> a < length es" "0 \<notin> set ord" using s by simp_all
  show "distinct ord" using c(1) by simp
  have "0 \<in> set (0 # ord)" by simp
  then show "0 < length es" unfolding c(2) by simp
qed

lemma lives_core:
  assumes "core es' = core es" "set xs \<subseteq> {..<length es}"
  shows "lives es' xs = lives es xs"
  using assms(2) by (auto simp: lives_def core_nth [OF assms(1)] intro!: filter_cong)

lemma list_ok_core:
  assumes "list_ok h es ord" "core es' = core es" "chain es' (0 # ord)"
  shows "list_ok h es' ord" "lives es' ord = lives es ord"
proof -
  note b = list_ok_bound [OF assms(1)]
  show l: "lives es' ord = lives es ord" using b(1) by (intro lives_core [OF assms(2)]) auto
  have f: "keyHash (es' ! a) = keyHash (es ! a)" "lkey (es' ! a) = lkey (es ! a)"
      "lvalue (es' ! a) = lvalue (es ! a)" if "a \<in> set ord" for a
    using core_nth [OF assms(2) b(1) [OF that]] by auto
  have m: "map (\<lambda>a. keyHash (es' ! a)) (lives es ord) = map (\<lambda>a. keyHash (es ! a)) (lives es ord)"
      "map (\<lambda>a. lkey (es' ! a)) (lives es ord) = map (\<lambda>a. lkey (es ! a)) (lives es ord)"
    using f by (auto simp: set_lives)
  have "live es' 0" using assms(1) core_nth(2) [OF assms(2) b(2)] by (simp add: list_ok_def)
  then show "list_ok h es' ord" using assms(1,3) f unfolding list_ok_def l m by auto
qed

lemma list_ok_sorted:
  assumes "list_ok h es ord" "0 # ord = xs @ x # ys" "xs \<noteq> []" "live es x"
  shows "z \<in> set ys \<Longrightarrow> live es z \<Longrightarrow> keyHash (es ! x) \<le> keyHash (es ! z)"
    "z \<in> set xs \<Longrightarrow> z \<noteq> 0 \<Longrightarrow> live es z \<Longrightarrow> keyHash (es ! z) \<le> keyHash (es ! x)"
proof -
  obtain xs' where xs: "xs = 0 # xs'" using assms(2,3) by (cases xs) auto
  have "sorted (map (\<lambda>a. keyHash (es ! a)) (lives es (xs' @ x # ys)))"
    using assms(1,2) xs by (simp add: list_ok_def)
  then show "z \<in> set ys \<Longrightarrow> live es z \<Longrightarrow> keyHash (es ! x) \<le> keyHash (es ! z)"
    "z \<in> set xs \<Longrightarrow> z \<noteq> 0 \<Longrightarrow> live es z \<Longrightarrow> keyHash (es ! z) \<le> keyHash (es ! x)"
    using assms(4) xs by (auto simp: lives_append lives_Cons sorted_append set_lives)
qed

subsection \<open>Search\<close>

text \<open>The place of a hash: behind \<open>l\<close>, in front of \<open>r\<close>.\<close>

definition place :: "('k, 'v) memory \<Rightarrow> nat list \<Rightarrow> uintptr \<Rightarrow> nat \<Rightarrow> ptr \<Rightarrow> bool" where
  "place es ord hash l r \<longleftrightarrow> (\<exists>xs ys. 0 # ord = xs @ l # ys \<and> live es l \<and>
     (\<forall>z \<in> set (xs @ [l]). z \<noteq> 0 \<longrightarrow> live es z \<longrightarrow> keyHash (es ! z) \<le> hash) \<and>
     (\<forall>z \<in> set ys. live es z \<longrightarrow> hash < keyHash (es ! z)) \<and>
     r = first_live es ys \<and> lnext (es ! l) = r)"

lemma placeI:
  "\<lbrakk>0 # ord = xs @ l # ys; live es l;
    \<And>z. \<lbrakk>z \<in> set (xs @ [l]); z \<noteq> 0; live es z\<rbrakk> \<Longrightarrow> keyHash (es ! z) \<le> hash;
    \<And>z. \<lbrakk>z \<in> set ys; live es z\<rbrakk> \<Longrightarrow> hash < keyHash (es ! z);
    r = first_live es ys; lnext (es ! l) = r\<rbrakk> \<Longrightarrow> place es ord hash l r"
  unfolding place_def by blast

definition holds :: "('k, 'v) memory \<Rightarrow> uintptr \<Rightarrow> 'k \<Rightarrow> nat \<Rightarrow> bool" where
  "holds es hash k z \<longleftrightarrow> live es z \<and> keyHash (es ! z) = hash \<and> lkey (es ! z) = k"

definition search_result :: "('k, 'v) memory \<Rightarrow> nat list \<Rightarrow> uintptr \<Rightarrow> 'k \<Rightarrow> ptr \<times> ptr \<times> ptr \<Rightarrow> bool" where
  "search_result es ord hash k res = (case res of (left, found, right) \<Rightarrow>
     (case found of
        Some y \<Rightarrow> y \<in> set ord \<and> holds es hash k y
      | None \<Rightarrow> (\<forall>z \<in> set ord. \<not> holds es hash k z) \<and>
          place es ord hash (case left of None \<Rightarrow> 0 | Some a \<Rightarrow> a) right))"

lemma search_loop_ok:
  assumes "list_ok h es ord" "0 # ord = xs @ x # ys" "xs \<noteq> []" "live es x"
    "\<forall>z \<in> set xs. z \<noteq> 0 \<longrightarrow> live es z \<longrightarrow> keyHash (es ! z) \<le> hash \<and> \<not> holds es hash k z"
    "case left of None \<Rightarrow> keyHash (es ! x) \<le> hash
       | Some p \<Rightarrow> \<exists>ps ds. xs = ps @ p # ds \<and> (\<forall>d \<in> set ds. deleted (es ! d)) \<and> live es p \<and> lnext (es ! p) = Some x"
    "length ys < f"
  shows "\<exists>es' res. search_loop f es hash k left x = Ok (es', res) \<and> core es' = core es \<and>
    chain es' (0 # ord) \<and> search_result es' ord hash k res"
  using assms
proof (induction f arbitrary: es xs x ys left)
  case (Suc f)
  note pr = Suc.prems
  have ord: "set ord = set (xs @ x # ys) - {0}" "x \<in> set ord"
  proof -
    have "0 \<notin> set ord" using list_ok_bound(3) [OF pr(1)] .
    then show "set ord = set (xs @ x # ys) - {0}" by (metis Diff_insert_absorb list.simps(15) pr(2))
    show "x \<in> set ord" using pr(2,3) by (cases xs) auto
  qed
  have ch: "chain es (0 # ord)" using pr(1) by (simp add: list_ok_def)
  have x0: "x \<noteq> 0" using ord(2) list_ok_bound(3) [OF pr(1)] by metis
  consider (match) "hash = keyHash (es ! x) \<and> k = lkey (es ! x)"
    | (less) "\<not> (hash = keyHash (es ! x) \<and> k = lkey (es ! x))" "hash < keyHash (es ! x)"
    | (more) "\<not> (hash = keyHash (es ! x) \<and> k = lkey (es ! x))" "keyHash (es ! x) \<le> hash" by fastforce
  then show ?case
  proof cases
    case match
    then show ?thesis using ch pr(4) ord(2) by (simp add: search_result_def holds_def)
  next
    case less
    then obtain p ps ds where p: "left = Some p" "xs = ps @ p # ds" "\<forall>d \<in> set ds. deleted (es ! d)" "live es p"
        "lnext (es ! p) = Some x"
      using pr(6) by (auto split: option.splits)
    have after: "hash < keyHash (es ! z)" if "z \<in> set (x # ys)" "live es z" for z
      using that less(2) list_ok_sorted(1) [OF pr(1-4)] by fastforce
    have "place es ord hash p (Some x)"
    proof (rule placeI)
      show "0 # ord = ps @ p # ds @ x # ys" using pr(2) p(2) by simp
      show "keyHash (es ! z) \<le> hash" if "z \<in> set (ps @ [p])" "z \<noteq> 0" "live es z" for z using that pr(5) p(2) by auto
      show "hash < keyHash (es ! z)" if "z \<in> set (ds @ x # ys)" "live es z" for z using that after p(3) by auto
      show "Some x = first_live es (ds @ x # ys)" using p(3) pr(4) by (simp add: first_live_dead first_live_Cons)
    qed (use p in auto)
    moreover have "\<forall>z \<in> set ord. \<not> holds es hash k z"
      using pr(5) after unfolding ord(1) by (fastforce simp: holds_def)
    ultimately have "search_result es ord hash k (if p = 0 then None else Some p, None, Some x)"
      by (auto simp: search_result_def)
    then show ?thesis using less p(1) ch by (auto simp: head_def)
  next
    case more
    obtain es' where es': "Next es x = Ok (es', first_live es ys)" "core es' = core es" "chain es' (0 # ord)"
        "lnext (es' ! x) = first_live es ys"
      using Next_ok [OF ch pr(2)] by blast
    note ok' = list_ok_core [OF pr(1) es'(2,3)]
    have sub: "set (0 # ord) \<subseteq> {..<length es}" using ch by (simp add: chain_def)
    have eq: "keyHash (es' ! z) = keyHash (es ! z)" "deleted (es' ! z) = deleted (es ! z)" "lkey (es' ! z) = lkey (es ! z)"
      if "z \<in> set (xs @ x # ys)" for z
      using core_nth [OF es'(2)] that sub unfolding pr(2) by auto
    have before: "\<forall>z \<in> set (xs @ [x]). z \<noteq> 0 \<longrightarrow> live es' z \<longrightarrow> keyHash (es' ! z) \<le> hash \<and> \<not> holds es' hash k z"
      using pr(5) more eq by (auto simp: holds_def)
    show ?thesis
    proof (cases "first_live es ys")
      case None
      have dead: "\<forall>z \<in> set ys. deleted (es' ! z)" using None eq by (auto simp: first_live_None)
      have "place es' ord hash x None"
      proof (rule placeI [OF pr(2)])
        show "live es' x" using pr(4) eq by simp
        show "keyHash (es' ! z) \<le> hash" if "z \<in> set (xs @ [x])" "z \<noteq> 0" "live es' z" for z
          using before that by blast
        show "None = first_live es' ys" using dead first_live_None by metis
      qed (use dead es'(4) None in auto)
      moreover have "\<forall>z \<in> set ord. \<not> holds es' hash k z"
        using before dead unfolding ord(1) by (auto simp: holds_def)
      ultimately have "search_result es' ord hash k (Some x, None, None)" by (simp add: search_result_def)
      then show ?thesis using more es' None by (auto simp: not_less)
    next
      case (Some n)
      then obtain ds rest where r: "ys = ds @ n # rest" "\<forall>d \<in> set ds. deleted (es ! d)" "live es n"
        by (rule first_live_Some)
      have dd: "deleted (es' ! z)" if "z \<in> set ds" for z using that r(1,2) eq(2) [of z] by simp
      have lx: "live es' x" using pr(4) eq(2) [of x] by simp
      have "\<exists>es'' res. search_loop f es' hash k (Some x) n = Ok (es'', res) \<and> core es'' = core es' \<and>
          chain es'' (0 # ord) \<and> search_result es'' ord hash k res"
      proof (rule Suc.IH [OF ok'(1)])
        show "0 # ord = (xs @ x # ds) @ n # rest" using pr(2) r(1) by simp
        show "live es' n" using r eq(2) [of n] by simp
        show "\<forall>z \<in> set (xs @ x # ds). z \<noteq> 0 \<longrightarrow> live es' z \<longrightarrow> keyHash (es' ! z) \<le> hash \<and> \<not> holds es' hash k z"
          using before dd by auto
        show "case Some x of None \<Rightarrow> keyHash (es' ! n) \<le> hash
          | Some p \<Rightarrow> \<exists>ps ds'. xs @ x # ds = ps @ p # ds' \<and> (\<forall>d \<in> set ds'. deleted (es' ! d)) \<and> live es' p \<and> lnext (es' ! p) = Some n"
          using es'(4) Some lx dd by auto
        show "length rest < f" using pr(7) r(1) by simp
      qed simp
      then show ?thesis using more es' Some by (auto simp: not_less)
    qed
  qed
qed simp

lemma search_ok:
  assumes "list_ok h es ord"
    "case s of None \<Rightarrow> True | Some x \<Rightarrow> x \<in> set ord \<and> (keyHash (es ! x) \<le> hash \<longrightarrow> live es x \<and>
       (\<exists>xs ys. ord = xs @ x # ys \<and> (\<forall>z \<in> set xs. \<not> holds es hash k z)))"
  shows "\<exists>es' res. search es s hash k = Ok (es', res) \<and> core es' = core es \<and> chain es' (0 # ord) \<and>
    search_result es' ord hash k res"
proof -
  have ch: "chain es (0 # ord)" and l0: "live es 0" using assms(1) by (auto simp: list_ok_def)
  have len: "length (0 # ord) = length es" using chain_length [OF ch] .
  show ?thesis
  proof (cases "\<exists>x. s = Some x \<and> keyHash (es ! x) \<le> hash")
    case True
    then obtain x where x: "s = Some x" "keyHash (es ! x) \<le> hash" by blast
    then obtain xs ys where xs: "ord = xs @ x # ys" "\<forall>z \<in> set xs. \<not> holds es hash k z" "live es x"
      using assms(2) by auto
    have "keyHash (es ! z) \<le> hash" if "z \<in> set (0 # xs)" "z \<noteq> 0" "live es z" for z
      using list_ok_sorted(2) [OF assms(1), of "0 # xs" x ys z] that xs x(2) by force
    then have "\<exists>es' res. search_loop (length es) es hash k None x = Ok (es', res) \<and> core es' = core es \<and>
      chain es' (0 # ord) \<and> search_result es' ord hash k res"
      using xs x(2) len by (intro search_loop_ok [OF assms(1), of "0 # xs" x ys]) auto
    then show ?thesis using x(1) leD [OF x(2)] by (simp add: search_def)
  next
    case False
    then have start: "(case s of Some s \<Rightarrow> if hash < keyHash (es ! s) then None else Some s | None \<Rightarrow> None) = None"
      by (auto split: option.splits)
    obtain es' where es': "Next es 0 = Ok (es', first_live es ord)" "core es' = core es" "chain es' (0 # ord)"
        "lnext (es' ! 0) = first_live es ord"
      using Next_ok [OF ch, of "[]" 0 ord] by auto
    note ok' = list_ok_core [OF assms(1) es'(2,3)]
    note b = list_ok_bound [OF assms(1)]
    have d: "deleted (es' ! z) = deleted (es ! z)" if "z \<in> set (0 # ord)" for z
      using core_nth(2) [OF es'(2)] that b(1,2) by auto
    have fl: "first_live es' ord = first_live es ord" using b(1) by (intro first_live_core [OF es'(2)]) auto
    show ?thesis
    proof (cases "first_live es ord")
      case None
      then have dead: "\<forall>z \<in> set ord. deleted (es' ! z)" using d by (simp add: first_live_None)
      have "place es' ord hash 0 None"
        by (rule placeI [of ord "[]" 0 ord]) (use l0 d dead es'(4) None fl in auto)
      then have "search_result es' ord hash k (None, None, None)"
        using dead by (auto simp: search_result_def holds_def)
      then show ?thesis using start es' None by (simp add: search_def head_def)
    next
      case (Some n)
      then obtain ds rest where r: "ord = ds @ n # rest" "\<forall>x \<in> set ds. deleted (es ! x)" "live es n"
        by (rule first_live_Some)
      have "\<exists>es'' res. search_loop (length es') es' hash k (Some 0) n = Ok (es'', res) \<and> core es'' = core es' \<and>
          chain es'' (0 # ord) \<and> search_result es'' ord hash k res"
      proof (rule search_loop_ok [OF ok'(1)])
        show "0 # ord = (0 # ds) @ n # rest" using r(1) by simp
        show "live es' n" using r d by simp
        show "\<forall>z \<in> set (0 # ds). z \<noteq> 0 \<longrightarrow> live es' z \<longrightarrow> keyHash (es' ! z) \<le> hash \<and> \<not> holds es' hash k z"
          using r d by auto
        show "case Some 0 of None \<Rightarrow> keyHash (es' ! n) \<le> hash
          | Some p \<Rightarrow> \<exists>ps ds'. 0 # ds = ps @ p # ds' \<and> (\<forall>x \<in> set ds'. deleted (es' ! x)) \<and> live es' p \<and> lnext (es' ! p) = Some n"
          using es'(4) Some l0 d r(1,2) by simp (rule exI [of _ "[]"], rule exI [of _ ds], simp)
        show "length rest < length es'" using len r(1) core_length [OF es'(2)] by simp
      qed simp
      then show ?thesis using start es' Some by (auto simp: search_def head_def)
    qed
  qed
qed

lemma lives_Nil [simp]: "lives es [] = []"
  by (simp add: lives_def)

subsection \<open>Contents\<close>

definition contents :: "('k, 'v) memory \<Rightarrow> 'k \<Rightarrow> 'v option" where
  "contents es k = (case find (\<lambda>e. \<not> deleted e \<and> lkey e = k) (tl es) of None \<Rightarrow> None | Some e \<Rightarrow> lvalue e)"

lemma list_ok_tl:
  assumes "list_ok h es ord"
  shows "set (tl es) = (!) es ` set ord"
proof -
  have "es \<noteq> []" using list_ok_bound(2) [OF assms] by auto
  then have "set (tl es) = (\<lambda>i. es ! Suc i) ` {..<length es - 1}"
    by (cases es) (auto simp: set_conv_nth)
  also have "\<dots> = (!) es ` (Suc ` {..<length es - 1})" by (simp add: image_image)
  also have "Suc ` {..<length es - 1} = {0<..<length es}"
    unfolding image_Suc_lessThan by auto
  finally show ?thesis using list_ok_bound(5) [OF assms] by simp
qed

lemma lives_key_unique:
  assumes "list_ok h es ord" "a \<in> set (lives es ord)" "b \<in> set (lives es ord)" "lkey (es ! a) = lkey (es ! b)"
  shows "a = b"
  using assms by (auto simp: list_ok_def distinct_map dest: inj_onD)

lemma contents_Some:
  assumes "list_ok h es ord" "a \<in> set (lives es ord)"
  shows "contents es (lkey (es ! a)) = lvalue (es ! a)"
proof (cases "find (\<lambda>e. \<not> deleted e \<and> lkey e = lkey (es ! a)) (tl es)")
  case None
  then have "\<forall>b \<in> set ord. \<not> (live es b \<and> lkey (es ! b) = lkey (es ! a))"
    using list_ok_tl [OF assms(1)] by (auto simp: find_None_iff)
  then show ?thesis using assms(2) by (auto simp: set_lives)
next
  case (Some e)
  then have e: "e \<in> set (tl es)" "\<not> deleted e" "lkey e = lkey (es ! a)"
    by (auto simp: find_Some_iff)
  then obtain b where "b \<in> set ord" "e = es ! b" using list_ok_tl [OF assms(1)] by auto
  then have "b = a" using lives_key_unique [OF assms(1) _ assms(2), of b] e by (simp add: set_lives)
  then show ?thesis using Some \<open>e = es ! b\<close> by (simp add: contents_def)
qed

lemma contents_None:
  assumes "list_ok h es ord" "\<forall>a \<in> set (lives es ord). lkey (es ! a) \<noteq> k"
  shows "contents es k = None"
proof -
  have "find (\<lambda>e. \<not> deleted e \<and> lkey e = k) (tl es) = None"
    using assms(2) list_ok_tl [OF assms(1)] by (auto simp: find_None_iff set_lives)
  then show ?thesis by (simp add: contents_def)
qed

lemma contents_holds:
  assumes "list_ok h es ord" "a \<in> set ord" "holds es hash k a"
  shows "contents es k = lvalue (es ! a)"
  using contents_Some [OF assms(1), of a] assms(2,3) by (auto simp: holds_def set_lives)

lemma contents_no_holds:
  assumes "list_ok h es ord" "\<forall>z \<in> set ord. \<not> holds es (h k) k z"
  shows "contents es k = None"
proof (rule contents_None [OF assms(1)], rule ballI, rule notI)
  fix a assume a: "a \<in> set (lives es ord)" "lkey (es ! a) = k"
  then have "keyHash (es ! a) = h k" using assms(1) by (auto simp: list_ok_def set_lives)
  then show False using a assms(2) by (auto simp: holds_def set_lives)
qed

text \<open>The contents of two lists are compared through their live elements.\<close>

lemma contents_eqI:
  assumes "list_ok h es ord" "list_ok h es' ord'"
    "\<And>a. a \<in> set (lives es ord) \<Longrightarrow> lkey (es ! a) \<noteq> k \<Longrightarrow>
      \<exists>b \<in> set (lives es' ord'). lkey (es' ! b) = lkey (es ! a) \<and> lvalue (es' ! b) = lvalue (es ! a)"
    "\<And>b. b \<in> set (lives es' ord') \<Longrightarrow> lkey (es' ! b) \<noteq> k \<Longrightarrow>
      \<exists>a \<in> set (lives es ord). lkey (es ! a) = lkey (es' ! b)"
    "contents es' k = v"
  shows "contents es' = (contents es)(k := v)"
proof
  fix k'
  show "contents es' k' = ((contents es)(k := v)) k'"
  proof (cases "k' = k")
    case False
    show ?thesis
    proof (cases "\<exists>a \<in> set (lives es ord). lkey (es ! a) = k'")
      case True
      then obtain a where a: "a \<in> set (lives es ord)" "lkey (es ! a) = k'" by blast
      then obtain b where "b \<in> set (lives es' ord')" "lkey (es' ! b) = k'" "lvalue (es' ! b) = lvalue (es ! a)"
        using assms(3) False by blast
      then show ?thesis
        using False a contents_Some [OF assms(1), of a] contents_Some [OF assms(2), of b] by simp
    next
      case no: False
      then have "\<forall>b \<in> set (lives es' ord'). lkey (es' ! b) \<noteq> k'" using assms(4) False by metis
      then show ?thesis using False no contents_None [OF assms(1), of k'] contents_None [OF assms(2), of k'] by simp
    qed
  qed (use assms(5) in simp)
qed

lemma contents_core:
  assumes "core es' = core es"
  shows "contents es' = contents es"
proof
  fix k
  have f: "find P (map f xs) = map_option f (find (P \<circ> f) xs)" for P and f :: "('a, 'b) ListElement \<Rightarrow> ('a, 'b) ListElement" and xs
    by (induction xs) auto
  have c: "contents (core es) k = contents es k" for es :: "('a, 'b) memory"
    by (simp add: contents_def core_def map_tl [symmetric] f comp_def option.case_eq_if option.map_sel)
  show "contents es' k = contents es k" using c assms by metis
qed

subsection \<open>Insertion\<close>

lemma linked_cong:
  "\<forall>a \<in> set ys. deleted (es' ! a) = deleted (es ! a) \<and> lnext (es' ! a) = lnext (es ! a) \<Longrightarrow>
   linked es' ys = linked es ys"
proof (induction ys)
  case (Cons a ys)
  have "(\<exists>ds rest. ys = ds @ rest \<and> (\<forall>d \<in> set ds. deleted (es' ! d)) \<and> lnext (es' ! a) = hd_opt rest) =
    (\<exists>ds rest. ys = ds @ rest \<and> (\<forall>d \<in> set ds. deleted (es ! d)) \<and> lnext (es ! a) = hd_opt rest)"
    using Cons.prems by (intro ex_cong1 conj_cong refl) auto
  then show ?case using Cons by (simp add: linked.simps)
qed (simp add: linked.simps)

lemma first_live_cong:
  "\<forall>a \<in> set ys. deleted (es' ! a) = deleted (es ! a) \<Longrightarrow> first_live es' ys = first_live es ys"
  by (induction ys) (auto simp: first_live_Cons)

lemma linked_insert:
  assumes "linked es (xs @ l # ys)" "live es l" "lnext (es' ! l) = Some e" "lnext (es' ! e) = first_live es ys"
    "\<forall>a \<in> set (xs @ l # ys). deleted (es' ! a) = deleted (es ! a)"
    "\<forall>a \<in> set (xs @ ys). lnext (es' ! a) = lnext (es ! a)"
  shows "linked es' (xs @ l # e # ys)"
  using assms
proof (induction xs)
  case Nil
  have "linked es ys" using Nil.prems(1) by (simp add: linked.simps)
  then have "linked es' ys" using linked_cong [of ys es' es] Nil.prems(5,6) by simp
  moreover have "first_live es' ys = first_live es ys" using Nil.prems(5) by (intro first_live_cong) simp
  ultimately have "linked es' (e # ys)" using first_live_split [of ys es'] Nil.prems(4) by (simp add: linked.simps)
  then show ?case using Nil.prems(3) by (simp add: linked.simps(2) [of es' l]) (rule exI [of _ "[]"], simp)
next
  case (Cons a xs)
  then have IH: "linked es' (xs @ l # e # ys)" by (simp add: linked.simps)
  obtain ds rest where r: "xs @ l # ys = ds @ rest" "\<forall>d \<in> set ds. deleted (es ! d)" "lnext (es ! a) = hd_opt rest"
    using Cons.prems(1) by (auto simp: linked.simps)
  have "l \<notin> set ds" using r(2) Cons.prems(2) by auto
  then obtain us where us: "xs = ds @ us" "rest = us @ l # ys"
    using r(1) by (auto simp: append_eq_append_conv2 Cons_eq_append_conv)
  have "xs @ l # e # ys = ds @ us @ l # e # ys" using us by simp
  moreover have "\<forall>d \<in> set ds. deleted (es' ! d)" using r(2) us(1) Cons.prems(5) by auto
  moreover have "lnext (es' ! a) = hd_opt (us @ l # e # ys)"
    using Cons.prems(6) r(3) us(2) by (cases us) auto
  ultimately show ?case using IH by (auto simp: linked.simps(2) [of es' a])
qed

definition inserted_at :: "('k, 'v) memory \<Rightarrow> nat \<Rightarrow> ptr \<Rightarrow> ('k, 'v) ListElement \<Rightarrow> ('k, 'v) memory" where
  "inserted_at es l r x = set_next l (Some (length es)) (set_next (length es) r (es @ [x]))"

lemma inserted_at_nth:
  assumes "l < length es"
  shows "length (inserted_at es l r x) = Suc (length es)"
    "a < length es \<Longrightarrow> inserted_at es l r x ! a = (if a = l then (es ! a)\<lparr>lnext := Some (length es)\<rparr> else es ! a)"
    "inserted_at es l r x ! length es = x\<lparr>lnext := r\<rparr>"
  using assms by (auto simp: inserted_at_def set_next_def nth_append nth_list_update)

lemma list_ok_insert:
  fixes es :: "('k, 'v) memory" and v :: 'v
  assumes ok: "list_ok h es ord" and pl: "place es ord (h k) l r" and no: "\<forall>z \<in> set ord. \<not> holds es (h k) k z"
  defines "e \<equiv> length es" and "es' \<equiv> inserted_at es l r (new_element (h k) k v)"
  shows "\<exists>ord' L1 L2. list_ok h es' ord' \<and> lives es ord = L1 @ L2 \<and> lives es' ord' = L1 @ e # L2 \<and>
    (\<forall>z \<in> set L1. keyHash (es ! z) \<le> h k) \<and> (\<forall>z \<in> set L2. h k < keyHash (es ! z)) \<and>
    contents es' = (contents es)(k \<mapsto> v)"
proof -
  obtain xs ys where p: "0 # ord = xs @ l # ys" "live es l"
      "\<forall>z \<in> set (xs @ [l]). z \<noteq> 0 \<longrightarrow> live es z \<longrightarrow> keyHash (es ! z) \<le> h k"
      "\<forall>z \<in> set ys. live es z \<longrightarrow> h k < keyHash (es ! z)" "r = first_live es ys"
    using pl by (auto simp: place_def)
  note b = list_ok_bound [OF ok]
  have ch: "distinct (0 # ord)" "set (0 # ord) = {..<length es}" "linked es (0 # ord)"
    using ok unfolding list_ok_def chain_def by blast+
  have mem: "a < length es" if "a \<in> set (xs @ l # ys)" for a using that ch(2) p(1) by auto
  have l: "l < length es" using mem by simp
  note nth = inserted_at_nth [OF l, where r = r and x = "new_element (h k) k v", folded es'_def]
  have old: "deleted (es' ! a) = deleted (es ! a)" "keyHash (es' ! a) = keyHash (es ! a)"
      "lkey (es' ! a) = lkey (es ! a)" "lvalue (es' ! a) = lvalue (es ! a)" if "a < length es" for a
    using nth(2) that by auto
  have new: "\<not> deleted (es' ! e)" "keyHash (es' ! e) = h k" "lkey (es' ! e) = k" "lvalue (es' ! e) = Some v" "lnext (es' ! e) = r"
    using nth(3) by (auto simp: new_element_def e_def)
  define ord' where "ord' = tl (xs @ l # e # ys)"
  have o': "0 # ord' = xs @ l # e # ys" using p(1) by (cases xs) (auto simp: ord'_def)
  have "linked es' (0 # ord')" unfolding o'
  proof (rule linked_insert)
    show "linked es (xs @ l # ys)" using ch(3) p(1) by simp
    show "lnext (es' ! l) = Some e" using nth(2) [of l] l by (simp add: e_def)
    show "lnext (es' ! e) = first_live es ys" using new(5) p(5) by simp
    show "\<forall>a \<in> set (xs @ l # ys). deleted (es' ! a) = deleted (es ! a)" using old(1) mem by blast
    have "l \<notin> set (xs @ ys)" using ch(1) p(1) by auto
    then show "\<forall>a \<in> set (xs @ ys). lnext (es' ! a) = lnext (es ! a)" using nth(2) mem by auto
  qed (rule p(2))
  moreover have "distinct (0 # ord')"
  proof -
    have "distinct (xs @ l # ys)" using ch(1) p(1) by simp
    moreover have "e \<notin> set (xs @ l # ys)" using mem [of e] by (auto simp: e_def)
    ultimately show ?thesis unfolding o' by auto
  qed
  moreover have so: "set (0 # ord') = insert e (set (0 # ord))" unfolding o' p(1) by (simp only: set_append list.set) blast
  moreover have "set (0 # ord') = {..<length es'}" using so unfolding ch(2) nth(1) e_def by (simp only: lessThan_Suc)
  ultimately have chain': "chain es' (0 # ord')" unfolding chain_def by blast
  define L1 L2 where "L1 = filter (\<lambda>z. z \<noteq> 0) (lives es (xs @ [l]))" and "L2 = lives es ys"
  have z: "filter (\<lambda>z. z \<noteq> 0) (lives es ord) = lives es ord" "filter (\<lambda>z. z \<noteq> 0) (lives es ys) = lives es ys"
    "filter (\<lambda>z. z \<noteq> 0) (lives es' ord') = lives es' ord'"
  proof -
    have n0: "filter (\<lambda>z. z \<noteq> 0) (lives es zs) = lives es zs" if "0 \<notin> set zs" for es :: "('k, 'v) memory" and zs
      using that by (intro filter_True) (metis set_lives)
    have "0 \<notin> set ys" using p(1) ch(1) by (cases xs) auto
    moreover have "0 \<notin> set ord'" using \<open>distinct (0 # ord')\<close> by simp
    ultimately show "filter (\<lambda>z. z \<noteq> 0) (lives es ord) = lives es ord" "filter (\<lambda>z. z \<noteq> 0) (lives es ys) = lives es ys"
      "filter (\<lambda>z. z \<noteq> 0) (lives es' ord') = lives es' ord'"
      using n0 b(3) by blast+
  qed
  have l0: "live es 0" "live es' 0" using ok old(1) b(2) by (auto simp: list_ok_def)
  have L: "lives es ord = L1 @ L2"
  proof -
    have "filter (\<lambda>z. z \<noteq> 0) (lives es (0 # ord)) = L1 @ L2"
      unfolding p(1) L1_def L2_def using z(2) by (simp add: lives_append lives_Cons)
    then show ?thesis using l0(1) z(1) by (simp add: lives_Cons)
  qed
  have L': "lives es' ord' = L1 @ e # L2"
  proof -
    have e0: "e \<noteq> 0" using b(2) by (simp add: e_def)
    have same: "lives es' zs = lives es zs" if "set zs \<subseteq> set (xs @ l # ys)" for zs
      using that old(1) mem unfolding lives_def by (intro filter_cong) auto
    have "xs @ l # e # ys = (xs @ [l]) @ e # ys" by simp
    then have "lives es' (0 # ord') = lives es (xs @ [l]) @ e # lives es ys"
    proof -
      have "lives es' ys = lives es ys" "lives es' (xs @ [l]) = lives es (xs @ [l])" by (rule same; auto)+
      moreover have "lives es' ((xs @ [l]) @ e # ys) = lives es' (xs @ [l]) @ e # lives es' ys"
        using new(1) by (subst lives_append) (simp add: lives_Cons [of es' e])
      ultimately show ?thesis unfolding o' by simp
    qed
    then have "filter (\<lambda>z. z \<noteq> 0) (lives es' (0 # ord')) = L1 @ e # L2"
      unfolding L1_def L2_def using z(2) e0 by simp
    then show ?thesis using l0(2) z(3) by (simp add: lives_Cons)
  qed
  have le: "\<forall>z \<in> set L1. keyHash (es ! z) \<le> h k" using p(3) by (auto simp: L1_def set_lives)
  have gt: "\<forall>z \<in> set L2. h k < keyHash (es ! z)" using p(4) by (auto simp: L2_def set_lives)
  have Lb: "z < length es" "z \<in> set ord" if "z \<in> set (L1 @ L2)" for z
    using that b(1) [of z] set_lives [of z es ord] unfolding L by blast+
  have keys: "lkey (es ! z) \<noteq> k" if "z \<in> set (L1 @ L2)" for z
  proof -
    have "live es z" using that by (metis L set_lives)
    then show ?thesis using that no Lb(2) [OF that] ok by (auto simp: holds_def list_ok_def)
  qed
  have "sorted (map (\<lambda>a. keyHash (es' ! a)) (L1 @ e # L2))"
  proof -
    have "sorted (map (\<lambda>a. keyHash (es ! a)) (L1 @ L2))" using ok L by (simp add: list_ok_def)
    moreover have m: "map (\<lambda>a. keyHash (es' ! a)) L1 = map (\<lambda>a. keyHash (es ! a)) L1"
        "map (\<lambda>a. keyHash (es' ! a)) L2 = map (\<lambda>a. keyHash (es ! a)) L2"
      using old(2) Lb(1) by auto
    ultimately show ?thesis using le gt unfolding map_append list.map(2) m new(2)
      by (auto simp: sorted_append less_imp_le)
  qed
  moreover have "distinct (map (\<lambda>a. lkey (es' ! a)) (L1 @ e # L2))"
  proof -
    have "distinct (map (\<lambda>a. lkey (es ! a)) (L1 @ L2))" using ok L by (simp add: list_ok_def)
    moreover have m: "map (\<lambda>a. lkey (es' ! a)) L1 = map (\<lambda>a. lkey (es ! a)) L1"
        "map (\<lambda>a. lkey (es' ! a)) L2 = map (\<lambda>a. lkey (es ! a)) L2"
      using old(3) Lb(1) by auto
    ultimately show ?thesis using keys unfolding map_append list.map(2) m new(3) by auto
  qed
  moreover have "\<forall>a \<in> set ord'. lvalue (es' ! a) \<noteq> None \<and> keyHash (es' ! a) = h (lkey (es' ! a))"
  proof
    fix a assume a: "a \<in> set ord'"
    then have "a \<noteq> 0" using \<open>distinct (0 # ord')\<close> by (metis distinct.simps(2))
    then have "a = e \<or> a \<in> set ord"
      using a so by (metis insert_iff list.simps(15))
    then show "lvalue (es' ! a) \<noteq> None \<and> keyHash (es' ! a) = h (lkey (es' ! a))"
      using new old b(1) ok by (auto simp: list_ok_def)
  qed
  ultimately have ok': "list_ok h es' ord'" using chain' l0(2) by (simp add: list_ok_def L')
  have "contents es' = (contents es)(k := Some v)"
  proof (rule contents_eqI [OF ok ok'])
    have "e \<in> set (lives es' ord')" using L' by simp
    then show "contents es' k = Some v" using contents_Some [OF ok', of e] new by simp
  qed (use L L' old Lb(1) new(3) in auto)
  then show ?thesis using ok' L L' le gt by blast
qed

subsection \<open>Update and deletion\<close>

lemma list_ok_update:
  fixes es :: "('k, 'v) memory" and v :: 'v
  assumes ok: "list_ok h es ord" and e: "e \<in> set ord" "holds es (h k) k e"
  defines "es' \<equiv> es[e := (es ! e)\<lparr>lvalue := Some v\<rparr>]"
  shows "list_ok h es' ord" "lives es' ord = lives es ord" "contents es' = (contents es)(k \<mapsto> v)"
    "keyHash (es' ! a) = keyHash (es ! a)"
proof -
  have el: "e < length es" using list_ok_bound(1) [OF ok] e(1) .
  have f: "keyHash (es' ! a) = keyHash (es ! a)" "deleted (es' ! a) = deleted (es ! a)" "lkey (es' ! a) = lkey (es ! a)"
      "lnext (es' ! a) = lnext (es ! a)" "lvalue (es' ! a) = (if a = e then Some v else lvalue (es ! a))" for a
    using el by (auto simp: es'_def nth_list_update)
  show "keyHash (es' ! a) = keyHash (es ! a)" by (rule f(1))
  show l: "lives es' ord = lives es ord" by (simp add: lives_def f)
  have "chain es' (0 # ord)"
    using ok linked_cong [of "0 # ord" es' es] f by (simp add: list_ok_def chain_def es'_def)
  then show ok': "list_ok h es' ord" using ok by (auto simp: list_ok_def l f)
  have el: "e \<in> set (lives es ord)" using e by (simp add: set_lives holds_def)
  show "contents es' = (contents es)(k \<mapsto> v)"
  proof (rule contents_eqI [OF ok ok'])
    show "contents es' k = Some v" using contents_Some [OF ok', of e] el e(2) l f by (simp add: holds_def)
    show "\<exists>b \<in> set (lives es' ord). lkey (es' ! b) = lkey (es ! a) \<and> lvalue (es' ! b) = lvalue (es ! a)"
      if "a \<in> set (lives es ord)" "lkey (es ! a) \<noteq> k" for a
      using that e(2) l f by (intro bexI [of _ a]) (auto simp: holds_def)
  qed (use l f in auto)
qed

lemma linked_mono:
  "\<lbrakk>linked es ys; \<And>a. a \<in> set ys \<Longrightarrow> deleted (es ! a) \<Longrightarrow> deleted (es' ! a);
    \<And>a. a \<in> set ys \<Longrightarrow> lnext (es' ! a) = lnext (es ! a)\<rbrakk> \<Longrightarrow> linked es' ys"
proof (induction ys)
  case (Cons a ys)
  then obtain ds rest where r: "ys = ds @ rest" "\<forall>d \<in> set ds. deleted (es ! d)" "lnext (es ! a) = hd_opt rest"
    by (auto simp: linked.simps)
  then have "\<forall>d \<in> set ds. deleted (es' ! d)" "lnext (es' ! a) = hd_opt rest" using Cons.prems by auto
  moreover have "linked es' ys" using Cons by (auto simp: linked.simps)
  ultimately show ?case using r(1) by (auto simp: linked.simps)
qed (simp add: linked.simps)

definition kept :: "('k, 'v) memory \<Rightarrow> ('k, 'v) memory \<Rightarrow> bool" where
  "kept es es' \<longleftrightarrow> length es' = length es \<and> (\<forall>a < length es. keyHash (es' ! a) = keyHash (es ! a) \<and>
     lkey (es' ! a) = lkey (es ! a) \<and> lvalue (es' ! a) = lvalue (es ! a))"

lemma kept_core: "core es' = core es \<Longrightarrow> kept es es'"
  using core_nth core_length unfolding kept_def by metis

lemma kept_trans: "kept es es1 \<Longrightarrow> kept es1 es2 \<Longrightarrow> kept es es2"
  by (simp add: kept_def)

lemma list_ok_mark:
  fixes es :: "('k, 'v) memory"
  assumes ok: "list_ok h es ord" and e: "e \<in> set ord" "holds es (h k) k e"
  defines "es' \<equiv> es[e := (es ! e)\<lparr>deleted := True\<rparr>]"
  shows "list_ok h es' ord" "lives es' ord = filter (\<lambda>a. a \<noteq> e) (lives es ord)" "contents es' = (contents es)(k := None)"
    "kept es es'"
proof -
  have el: "e < length es" using list_ok_bound(1) [OF ok] e(1) .
  have f: "keyHash (es' ! a) = keyHash (es ! a)" "deleted (es' ! a) = (a = e \<or> deleted (es ! a))" "lkey (es' ! a) = lkey (es ! a)"
      "lnext (es' ! a) = lnext (es ! a)" "lvalue (es' ! a) = lvalue (es ! a)" for a
    using el by (auto simp: es'_def nth_list_update)
  have len: "length es' = length es" by (simp add: es'_def)
  then show "kept es es'" by (simp add: kept_def f)
  show l: "lives es' ord = filter (\<lambda>a. a \<noteq> e) (lives es ord)"
    unfolding lives_def filter_filter by (intro filter_cong) (auto simp: f)
  have "linked es' (0 # ord)"
    by (rule linked_mono [of es]) (use ok f in \<open>auto simp: list_ok_def chain_def\<close>)
  then have "chain es' (0 # ord)" using ok len by (simp add: list_ok_def chain_def)
  moreover have "e \<noteq> 0" using e(1) list_ok_bound(3) [OF ok] by metis
  ultimately show ok': "list_ok h es' ord" using ok
    by (auto simp: list_ok_def l f distinct_map inj_on_def intro: sorted_filter)
  have el: "e \<in> set (lives es ord)" using e by (simp add: set_lives holds_def)
  show "contents es' = (contents es)(k := None)"
  proof (rule contents_eqI [OF ok ok'])
    have "lkey (es' ! a) \<noteq> k" if "a \<in> set (lives es' ord)" for a
      using that lives_key_unique [OF ok _ el, of a] e(2) l f by (auto simp: holds_def)
    then show "contents es' k = None" by (intro contents_None [OF ok']) blast
    show "\<exists>b \<in> set (lives es' ord). lkey (es' ! b) = lkey (es ! a) \<and> lvalue (es' ! b) = lvalue (es ! a)"
      if "a \<in> set (lives es ord)" "lkey (es ! a) \<noteq> k" for a
      using that e(2) l f by (intro bexI [of _ a]) (auto simp: holds_def)
  qed (use l f in auto)
qed

text \<open>\<open>Delete\<close> lets the head point past the deleted element.\<close>

lemma chain_unlink:
  assumes "chain es (0 # ord)" "0 # ord = xs @ e # ys" "xs \<noteq> []" "deleted (es ! e)" "lnext (es ! 0) = Some e"
  shows "chain (set_next 0 (first_live es ys) es) (0 # ord)"
proof -
  let ?es = "set_next 0 (first_live es ys) es"
  have c: "distinct (0 # ord)" "set (0 # ord) = {..<length es}" "linked es (0 # ord)"
    using assms(1) unfolding chain_def by blast+
  have z: "0 < length es" using c(2) by (metis lessThan_iff list.set_intros(1))
  have nz: "a \<noteq> 0" if "a \<in> set ord" for a using that c(1) by (metis distinct.simps(2))
  have "linked es ord" using c(3) by (simp add: linked.simps)
  then have l: "linked ?es ord" using linked_cong [of ord ?es es] nz core_nth(2) [OF core_set_next] by (simp add: set_next_def nth_list_update)
  obtain ds rest where r: "ord = ds @ rest" "\<forall>d \<in> set ds. deleted (es ! d)" "hd_opt rest = Some e"
    using c(3) assms(5) by (auto simp: linked.simps)
  then obtain rest' where r': "rest = e # rest'" by (cases rest) auto
  obtain xs' where xs: "xs = 0 # xs'" "ord = xs' @ e # ys" using assms(2,3) by (cases xs) auto
  have "rest' = ys"
  proof -
    have "ds @ e # rest' = xs' @ e # ys" using r(1) r' xs(2) by simp
    moreover have "distinct (ds @ e # rest')" using c(1) r(1) r' by simp
    ultimately show ?thesis
      by (metis append_Cons_eq_iff distinct_append disjoint_insert(2) distinct.simps(2) list.simps(15) not_distinct_conv_prefix)
  qed
  obtain ds2 rest2 where s: "ys = ds2 @ rest2" "\<forall>d \<in> set ds2. deleted (es ! d)" "first_live es ys = hd_opt rest2"
    using first_live_split by blast
  have "ord = (ds @ e # ds2) @ rest2" using r(1) r' \<open>rest' = ys\<close> s(1) by simp
  moreover have "\<forall>d \<in> set (ds @ e # ds2). deleted (?es ! d)"
  proof -
    have "deleted (?es ! d) = deleted (es ! d)" for d using z by (cases "d = 0") (auto simp: set_next_def)
    then show ?thesis using r(2) s(2) assms(4) by auto
  qed
  moreover have "lnext (?es ! 0) = hd_opt rest2" using z s(3) by simp
  ultimately have "linked ?es (0 # ord)" using l by (simp only: linked.simps) blast
  then show ?thesis using c by (simp add: chain_def)
qed

subsection \<open>Walking along the list\<close>

text \<open>\<open>itm\<close> points to the first of the live elements \<open>Q\<close>, which are all that follow.\<close>

definition cursor :: "('k, 'v) memory \<Rightarrow> nat list \<Rightarrow> ptr \<Rightarrow> nat list \<Rightarrow> bool" where
  "cursor es ord itm Q \<longleftrightarrow> (case itm of None \<Rightarrow> Q = []
     | Some x \<Rightarrow> \<exists>xs ys. ord = xs @ x # ys \<and> live es x \<and> Q = x # lives es ys)"

lemma cursorI: "ord = xs @ x # ys \<Longrightarrow> live es x \<Longrightarrow> cursor es ord (Some x) (x # lives es ys)"
  unfolding cursor_def by auto

lemma cursor_first_live: "ord = xs @ ys \<Longrightarrow> cursor es ord (first_live es ys) (lives es ys)"
proof (cases "first_live es ys")
  case None
  then have "lives es ys = []" unfolding first_live_None by (simp add: lives_def)
  then show ?thesis using None by (simp add: cursor_def)
next
  assume o: "ord = xs @ ys"
  case (Some n)
  then obtain ds rest where r: "ys = ds @ n # rest" "\<forall>d \<in> set ds. deleted (es ! d)" "live es n"
    by (rule first_live_Some)
  then have "lives es ys = n # lives es rest" by (auto simp: lives_def)
  moreover have "ord = (xs @ ds) @ n # rest" using o r(1) by simp
  ultimately show ?thesis using Some r(3) cursorI by metis
qed

lemma cursor_core:
  assumes "list_ok h es ord" "core es' = core es" "cursor es ord itm Q"
  shows "cursor es' ord itm Q"
proof (cases itm)
  case (Some x)
  then obtain xs ys where c: "ord = xs @ x # ys" "live es x" "Q = x # lives es ys"
    using assms(3) by (auto simp: cursor_def)
  have b: "set (x # ys) \<subseteq> {..<length es}" using list_ok_bound(1) [OF assms(1)] c(1) by auto
  then have "lives es' ys = lives es ys" "live es' x"
    using lives_core [OF assms(2), of ys] core_nth(2) [OF assms(2), of x] c(2) by auto
  then show ?thesis using Some c(1,3) cursorI by metis
qed (use assms(3) in \<open>simp add: cursor_def\<close>)

lemma cursor_Next:
  assumes "list_ok h es ord" "cursor es ord (Some x) (x # Q)"
  shows "\<exists>es' nx. Next es x = Ok (es', nx) \<and> core es' = core es \<and> chain es' (0 # ord) \<and> cursor es' ord nx Q"
proof -
  obtain xs ys where c: "ord = xs @ x # ys" "live es x" "Q = lives es ys" using assms(2) by (auto simp: cursor_def)
  have "chain es (0 # ord)" using assms(1) by (simp add: list_ok_def)
  then obtain es' where e: "Next es x = Ok (es', first_live es ys)" "core es' = core es" "chain es' (0 # ord)"
    using Next_ok [of es "0 # ord" "0 # xs" x ys] c(1) by auto
  have "cursor es ord (first_live es ys) Q" using cursor_first_live [of ord "xs @ [x]" ys es] c by simp
  then show ?thesis using e cursor_core [OF assms(1) e(2)] by blast
qed

lemma cursor_First:
  assumes "list_ok h es ord"
  shows "\<exists>es' nx. First es = Ok (es', nx) \<and> core es' = core es \<and> chain es' (0 # ord) \<and> cursor es' ord nx (lives es ord)"
proof -
  have "chain es (0 # ord)" using assms by (simp add: list_ok_def)
  then obtain es' where e: "First es = Ok (es', first_live es ord)" "core es' = core es" "chain es' (0 # ord)"
    using Next_ok [of es "0 # ord" "[]" 0 ord] by (auto simp: First_def head_def)
  then show ?thesis using cursor_core [OF assms e(2)] cursor_first_live [of ord "[]" ord es] by auto
qed

lemma lives_split:
  assumes "list_ok h es ord" "lives es ord = A @ x # B" "ord = xs @ x # ys"
  shows "lives es xs = A" "lives es ys = B" "live es x"
proof -
  have x: "x \<in> set (lives es ord)" using assms(2) by simp
  then show l: "live es x" by (simp add: set_lives)
  have "lives es xs @ x # lives es ys = A @ x # B" using assms(2,3) l by (simp add: lives_append lives_Cons)
  moreover have "distinct (lives es ord)" using list_ok_bound(4) [OF assms(1)] by (simp add: lives_def)
  ultimately have "lives es xs = A \<and> lives es ys = B"
    using assms(2) by (metis append_Cons_eq_iff distinct_append not_distinct_conv_prefix disjoint_insert(2) list.simps(15) distinct.simps(2))
  then show "lives es xs = A" "lives es ys = B" by auto
qed

lemma cursor_split:
  assumes "list_ok h es ord" "lives es ord = A @ x # B"
  shows "cursor es ord (Some x) (x # B)"
proof -
  have "x \<in> set ord" using assms(2) set_lives [of x es ord] by simp
  then obtain xs ys where o: "ord = xs @ x # ys" by (meson split_list)
  show ?thesis using lives_split [OF assms o] cursorI [OF o] by metis
qed

lemma lives_length: "list_ok h es ord \<Longrightarrow> length (lives es ord) < length es"
proof -
  assume "list_ok h es ord"
  then have "length (0 # ord) = length es" using chain_length unfolding list_ok_def by blast
  moreover have "length (lives es ord) \<le> length ord" by (simp add: lives_def)
  ultimately show ?thesis by simp
qed

subsection \<open>The operations of the list\<close>

definition lst_ok :: "('k \<Rightarrow> uintptr) \<Rightarrow> ('k, 'v) List \<Rightarrow> nat list \<Rightarrow> bool" where
  "lst_ok h l ord \<longleftrightarrow> list_ok h (mem l) ord \<and> count l = of_nat (length (lives (mem l) ord))"

definition start_ok :: "('k, 'v) memory \<Rightarrow> nat list \<Rightarrow> uintptr \<Rightarrow> 'k \<Rightarrow> ptr \<Rightarrow> bool" where
  "start_ok es ord hash k s \<longleftrightarrow> (case s of None \<Rightarrow> True | Some x \<Rightarrow> x \<in> set ord \<and> (keyHash (es ! x) \<le> hash \<longrightarrow> live es x \<and>
       (\<exists>xs ys. ord = xs @ x # ys \<and> (\<forall>z \<in> set xs. \<not> holds es hash k z))))"

text \<open>How the live elements change when \<open>e\<close> is added, or found.\<close>

definition extended :: "('k, 'v) memory \<Rightarrow> nat list \<Rightarrow> ('k, 'v) memory \<Rightarrow> nat list \<Rightarrow> nat \<Rightarrow> bool" where
  "extended es ord es' ord' e \<longleftrightarrow> (\<forall>a < length es. keyHash (es' ! a) = keyHash (es ! a)) \<and>
     (length es' = length es \<and> e \<in> set (lives es ord) \<and> lives es' ord' = lives es ord \<or>
      length es' = Suc (length es) \<and> e = length es \<and>
      (\<exists>L1 L2. lives es ord = L1 @ L2 \<and> lives es' ord' = L1 @ e # L2 \<and>
        (\<forall>z \<in> set L1. keyHash (es' ! z) \<le> keyHash (es' ! e)) \<and> (\<forall>z \<in> set L2. keyHash (es' ! e) < keyHash (es' ! z))))"

lemma place_bound:
  assumes "place es ord hash l r" "list_ok h es ord"
  shows "l < length es" "lnext (es ! l) = r"
proof -
  obtain xs ys where o: "0 # ord = xs @ l # ys" using assms(1) by (auto simp: place_def)
  have "l \<in> set (0 # ord)" unfolding o by simp
  then show "l < length es" using list_ok_bound(1,2) [OF assms(2)] by auto
  show "lnext (es ! l) = r" using assms(1) by (auto simp: place_def)
qed

lemma insertAt_place:
  assumes "place es ord hash (case left of None \<Rightarrow> 0 | Some a \<Rightarrow> a) right" "list_ok h es ord"
  shows "insertAt (l\<lparr>mem := es @ [x]\<rparr>) (length es) left right =
    (l\<lparr>mem := inserted_at es (case left of None \<Rightarrow> 0 | Some a \<Rightarrow> a) right x, count := count l + 1\<rparr>, True)"
proof -
  define a where "a = (case left of None \<Rightarrow> 0 | Some a \<Rightarrow> a)"
  have "lnext (set_next (length es) right (es @ [x]) ! a) = right"
    using place_bound [OF assms, folded a_def] by (simp add: nth_append)
  then show ?thesis unfolding insertAt_def head_def a_def [symmetric] inserted_at_def by (simp add: Let_def)
qed

lemma insert_ok:
  fixes v :: 'v
  assumes "lst_ok h l ord" "core es = core (mem l)" "chain es (0 # ord)" "search_result es ord (h k) k (left, None, right)"
  shows "\<exists>l' ord'. insertAt (l\<lparr>mem := es @ [new_element (h k) k v]\<rparr>) (length es) left right = (l', True) \<and>
    lst_ok h l' ord' \<and> contents (mem l') = (contents (mem l))(k \<mapsto> v) \<and> extended (mem l) ord (mem l') ord' (length es) \<and>
    contents (mem l) k = None \<and> keyHash (mem l' ! length es) = h k"
proof -
  have ok0: "list_ok h (mem l) ord" and cnt: "count l = of_nat (length (lives (mem l) ord))"
    using assms(1) by (auto simp: lst_ok_def)
  note ok = list_ok_core [OF ok0 assms(2,3)]
  define a where "a = (case left of None \<Rightarrow> 0 | Some a \<Rightarrow> a)"
  have no: "\<forall>z \<in> set ord. \<not> holds es (h k) k z" and pl: "place es ord (h k) a right"
    using assms(4) by (auto simp: search_result_def a_def)
  have al: "a < length es" using place_bound [OF pl ok(1)] by simp
  define es' where "es' = inserted_at es a right (new_element (h k) k v)"
  obtain ord' L1 L2 where i: "list_ok h es' ord'" "lives es ord = L1 @ L2" "lives es' ord' = L1 @ length es # L2"
    "\<forall>z \<in> set L1. keyHash (es ! z) \<le> h k" "\<forall>z \<in> set L2. h k < keyHash (es ! z)" "contents es' = (contents es)(k \<mapsto> v)"
    using list_ok_insert [OF ok(1) pl no, of v] unfolding es'_def by blast
  note nth = inserted_at_nth [OF al, where r = right and x = "new_element (h k) k v", folded es'_def]
  have kh: "keyHash (es' ! z) = keyHash (es ! z)" if "z < length es" for z using nth(2) [OF that] by auto
  have ke: "keyHash (es' ! length es) = h k" using nth(3) by (simp add: new_element_def)
  have len: "length es = length (mem l)" using core_length [OF assms(2)] .
  have Lb: "z < length es" if "z \<in> set (L1 @ L2)" for z
    using that i(2) list_ok_bound(1) [OF ok(1), of z] set_lives [of z es ord] by simp
  have "extended (mem l) ord es' ord' (length es)" unfolding extended_def
  proof (intro conjI disjI2 exI)
    show "\<forall>z < length (mem l). keyHash (es' ! z) = keyHash (mem l ! z)"
      using kh core_nth(1) [OF assms(2)] len by simp
    show "lives (mem l) ord = L1 @ L2" using i(2) ok(2) by simp
    show "\<forall>z \<in> set L1. keyHash (es' ! z) \<le> keyHash (es' ! length es)" using i(4) Lb kh ke by auto
    show "\<forall>z \<in> set L2. keyHash (es' ! length es) < keyHash (es' ! z)" using i(5) Lb kh ke by auto
  qed (use i(3) nth(1) len in auto)
  moreover have "lst_ok h (l\<lparr>mem := es', count := count l + 1\<rparr>) ord'"
    using i(1-3) cnt ok(2) by (simp add: lst_ok_def)
  moreover have "contents es' = (contents (mem l))(k \<mapsto> v)" using i(6) contents_core [OF assms(2)] by simp
  moreover have "contents (mem l) k = None" using contents_no_holds [OF ok(1) no] contents_core [OF assms(2)] by simp
  ultimately show ?thesis
    using insertAt_place [OF pl [unfolded a_def] ok(1), where l = l and x = "new_element (h k) k v"] ke
    unfolding es'_def a_def by (intro exI conjI) auto
qed

lemma AddOrUpdate_ok:
  assumes "lst_ok h l ord" "start_ok (mem l) ord (h k) k s"
  shows "\<exists>l' e ord'. AddOrUpdate l s (h k) k v = Ok (l', e, True) \<and> lst_ok h l' ord' \<and>
    contents (mem l') = (contents (mem l))(k \<mapsto> v) \<and> extended (mem l) ord (mem l') ord' e"
proof -
  have ok0: "list_ok h (mem l) ord" using assms(1) by (auto simp: lst_ok_def)
  obtain es left found right where s: "search (mem l) s (h k) k = Ok (es, left, found, right)" "core es = core (mem l)"
      "chain es (0 # ord)" "search_result es ord (h k) k (left, found, right)"
    using search_ok [OF ok0, where s = s and hash = "h k" and k = k] assms(2) unfolding start_ok_def by auto
  note ok = list_ok_core [OF ok0 s(2,3)]
  show ?thesis
  proof (cases found)
    case None
    then show ?thesis using insert_ok [OF assms(1) s(2,3), of k left right v] s(1,4) by (auto simp: AddOrUpdate_def)
  next
    case (Some e)
    then have e: "e \<in> set ord" "holds es (h k) k e" using s(4) by (auto simp: search_result_def)
    note u = list_ok_update [OF ok(1) e, of v]
    define es' where "es' = es[e := (es ! e)\<lparr>lvalue := Some v\<rparr>]"
    have "lst_ok h (l\<lparr>mem := es'\<rparr>) ord" using assms(1) u(1,2) ok(2) by (simp add: lst_ok_def es'_def)
    moreover have "contents es' = (contents (mem l))(k \<mapsto> v)" using u(3) contents_core [OF s(2)] by (simp add: es'_def)
    moreover have "e \<in> set (lives (mem l) ord)" using e ok(2) by (metis holds_def set_lives)
    then have "extended (mem l) ord es' ord e"
      using u(2,4) ok(2) core_nth(1) [OF s(2)] core_length [OF s(2)]
      by (simp add: extended_def es'_def)
    ultimately show ?thesis using Some s(1) by (auto simp: AddOrUpdate_def es'_def)
  qed
qed

lemma Add_ok:
  assumes "lst_ok h l ord" "start_ok (mem l) ord (h k) k s"
  shows "\<exists>l' e ord' existed. Add l s (h k) k v = Ok (l', e, existed, \<not> existed) \<and> lst_ok h l' ord' \<and>
    (if existed then contents (mem l') = contents (mem l) \<and> lvalue (mem l' ! e) = contents (mem l) k \<and> contents (mem l) k \<noteq> None \<and>
       core (mem l') = core (mem l) \<and> ord' = ord
     else contents (mem l) k = None \<and> contents (mem l') = (contents (mem l))(k \<mapsto> v) \<and> extended (mem l) ord (mem l') ord' e)"
proof -
  have ok0: "list_ok h (mem l) ord" using assms(1) by (auto simp: lst_ok_def)
  obtain es left found right where s: "search (mem l) s (h k) k = Ok (es, left, found, right)" "core es = core (mem l)"
      "chain es (0 # ord)" "search_result es ord (h k) k (left, found, right)"
    using search_ok [OF ok0, where s = s and hash = "h k" and k = k] assms(2) unfolding start_ok_def by auto
  note ok = list_ok_core [OF ok0 s(2,3)]
  show ?thesis
  proof (cases found)
    case None
    then obtain l' ord' where i: "insertAt (l\<lparr>mem := es @ [new_element (h k) k v]\<rparr>) (length es) left right = (l', True)"
        "lst_ok h l' ord'" "contents (mem l') = (contents (mem l))(k \<mapsto> v)" "extended (mem l) ord (mem l') ord' (length es)"
        "contents (mem l) k = None"
      using insert_ok [OF assms(1) s(2,3), of k left right v] s(4) by auto
    then show ?thesis using s(1) None
      by (intro exI [of _ l'] exI [of _ "length es"] exI [of _ ord'] exI [of _ False]) (simp add: Add_def)
  next
    case (Some e)
    then have e: "e \<in> set ord" "holds es (h k) k e" using s(4) by (auto simp: search_result_def)
    have "lst_ok h (l\<lparr>mem := es\<rparr>) ord" using assms(1) ok by (simp add: lst_ok_def)
    moreover have c: "contents es = contents (mem l)" using contents_core [OF s(2)] .
    moreover have "contents es k = lvalue (es ! e)" using contents_holds [OF ok(1) e] .
    moreover have "lvalue (es ! e) \<noteq> None" using ok(1) e(1) by (auto simp: list_ok_def)
    ultimately show ?thesis using Some s(1,2)
      by (intro exI [of _ "l\<lparr>mem := es\<rparr>"] exI [of _ e] exI [of _ ord] exI [of _ True]) (simp add: Add_def)
  qed
qed

lemma length_filter_neq: "distinct xs \<Longrightarrow> e \<in> set xs \<Longrightarrow> length xs = Suc (length (filter (\<lambda>a. a \<noteq> e) xs))"
proof (induction xs)
  case (Cons a xs)
  have "e \<notin> set xs \<Longrightarrow> filter (\<lambda>a. a \<noteq> e) xs = xs" by (intro filter_True) auto
  then show ?case using Cons by auto
qed simp

lemma List_Delete_ok:
  assumes "lst_ok h l ord" "e \<in> set ord" "holds (mem l) (h k) k e"
  shows "\<exists>l'. List_Delete l e = Ok l' \<and> lst_ok h l' ord \<and> contents (mem l') = (contents (mem l))(k := None) \<and>
    lives (mem l') ord = filter (\<lambda>a. a \<noteq> e) (lives (mem l) ord) \<and> kept (mem l) (mem l')"
proof -
  have ok0: "list_ok h (mem l) ord" and cnt: "count l = of_nat (length (lives (mem l) ord))"
    using assms(1) by (auto simp: lst_ok_def)
  define es1 where "es1 = (mem l)[e := (mem l ! e)\<lparr>deleted := True\<rparr>]"
  note m = list_ok_mark [OF ok0 assms(2,3), folded es1_def]
  have d1: "deleted (es1 ! e)" using list_ok_bound(1) [OF ok0 assms(2)] by (simp add: es1_def)
  obtain xs ys where o: "ord = xs @ e # ys" using assms(2) by (meson split_list)
  have "chain es1 (0 # ord)" using m(1) by (simp add: list_ok_def)
  then obtain es2 where n: "Next es1 e = Ok (es2, first_live es1 ys)" "core es2 = core es1" "chain es2 (0 # ord)"
    using Next_ok [of es1 "0 # ord" "0 # xs" e ys] o by auto
  have fl: "first_live es2 ys = first_live es1 ys"
    using list_ok_bound(1) [OF m(1)] o by (intro first_live_core [OF n(2)]) auto
  define es3 where "es3 = (if lnext (es2 ! head) = Some e then set_next head (first_live es1 ys) es2 else es2)"
  have "deleted (es2 ! e)" using d1 core_nth(2) [OF n(2)] list_ok_bound(1) [OF m(1) assms(2)] by simp
  then have ch: "chain es3 (0 # ord)" using chain_unlink [OF n(3), of "0 # xs" e ys] o n(3) fl
    by (auto simp: es3_def head_def)
  have c3: "core es3 = core es1" using n(2) by (simp add: es3_def)
  note ok3 = list_ok_core [OF m(1) c3 ch]
  have run: "List_Delete l e = Ok (l\<lparr>mem := es3, count := count l - 1\<rparr>)"
    using assms(3) n(1) by (simp add: List_Delete_def holds_def es1_def [symmetric] es3_def Let_def)
  have el: "e \<in> set (lives (mem l) ord)" using assms(2,3) by (simp add: set_lives holds_def)
  have "count l - 1 = of_nat (length (lives es3 ord))"
  proof -
    have dist: "distinct (lives (mem l) ord)" using list_ok_bound(4) [OF ok0] by (simp add: lives_def)
    have "length (lives (mem l) ord) = Suc (length (filter (\<lambda>a. a \<noteq> e) (lives (mem l) ord)))"
      by (rule length_filter_neq [OF dist el])
    then show ?thesis using ok3(2) m(2) cnt by simp
  qed
  moreover have "contents es3 = (contents (mem l))(k := None)" using contents_core [OF c3] m(3) by simp
  moreover have "kept (mem l) es3" using kept_trans [OF m(4) kept_core [OF c3]] .
  ultimately show ?thesis using run ok3 m(2) by (simp add: lst_ok_def)
qed

end
