(* ===== verification/Hashmap_Index.thy ===== *)
theory Hashmap_Index
  imports Hashmap_List
begin

unbundle bit_operations_syntax

text \<open>
  The index of the hash map and its growth: which element a slot holds, that adding and removing
  elements keeps this, and that \<open>grow\<close> builds such an index anew.
\<close>

section \<open>The index\<close>

definition shape :: "store \<Rightarrow> bool" where
  "shape s \<longleftrightarrow> (\<exists>n \<le> 45. length (index s) = 2 ^ n \<and> unat (keyShifts s) = 64 - n)"

lemma slot_div: "slot s a = unat a div 2 ^ unat (keyShifts s)"
  unfolding slot_def unat_drop_bit_eq by (rule drop_bit_eq_div)

lemma slot_mono: "a \<le> b \<Longrightarrow> slot s a \<le> slot s b"
  by (simp add: slot_div word_le_nat_alt div_le_mono)

lemma slot_less: "slot s a < slot s b \<Longrightarrow> a < b"
  using slot_mono [of b a s] by (metis linorder_not_le)

lemma slot_bound:
  assumes "shape s"
  shows "slot s a < length (index s)"
proof -
  obtain n where n: "n \<le> 45" "length (index s) = 2 ^ n" "unat (keyShifts s) = 64 - n" using assms by (auto simp: shape_def)
  have "unat a < 2 ^ n * 2 ^ (64 - n)"
    using unsigned_less [of a, where 'a = nat] n(1) by (simp flip: power_add)
  then show ?thesis using n by (simp add: slot_div less_mult_imp_div_less)
qed

text \<open>
  A slot holds the first live element with its bits of the hash. Without such an element it is
  empty or points to an element of a later slot, which may be deleted.
\<close>

definition bucket :: "(nat \<Rightarrow> uintptr) \<Rightarrow> nat list \<Rightarrow> store \<Rightarrow> nat \<Rightarrow> nat list" where
  "bucket kh L s i = filter (\<lambda>z. slot s (kh z) = i) L"

definition bucket_ok :: "(nat \<Rightarrow> uintptr) \<Rightarrow> nat list \<Rightarrow> store \<Rightarrow> nat \<Rightarrow> ptr \<Rightarrow> bool" where
  "bucket_ok kh L s i p \<longleftrightarrow> (case p of
     None \<Rightarrow> bucket kh L s i = []
   | Some x \<Rightarrow> hd_opt (bucket kh L s i) = Some x \<or> bucket kh L s i = [] \<and> i < slot s (kh x))"

definition index_ok :: "(nat \<Rightarrow> uintptr) \<Rightarrow> nat \<Rightarrow> nat list \<Rightarrow> store \<Rightarrow> bool" where
  "index_ok kh n L s \<longleftrightarrow> shape s \<and> (\<forall>i < length (index s). bucket_ok kh L s i (index s ! i) \<and>
     (\<forall>x. index s ! i = Some x \<longrightarrow> 0 < x \<and> x < n))"

lemma bucket_append: "bucket kh (L @ M) s i = bucket kh L s i @ bucket kh M s i"
  by (simp add: bucket_def)

lemma bucket_Cons: "bucket kh (x # L) s i = (if slot s (kh x) = i then x # bucket kh L s i else bucket kh L s i)"
  by (simp add: bucket_def)

lemma bucket_Nil [simp]: "bucket kh [] s i = []"
  by (simp add: bucket_def)

lemma bucket_cong: "(\<And>z. z \<in> set L \<Longrightarrow> kh' z = kh z) \<Longrightarrow> bucket kh' L s i = bucket kh L s i"
  unfolding bucket_def by (intro filter_cong) auto

lemma slot_upd [simp]: "slot (s\<lparr>index := ix\<rparr>) a = slot s a" "slot (s\<lparr>filled := c\<rparr>) a = slot s a"
  by (simp_all add: slot_def)

lemma bucket_upd [simp]:
  "bucket kh L (s\<lparr>index := ix\<rparr>) i = bucket kh L s i" "bucket kh L (s\<lparr>filled := c\<rparr>) i = bucket kh L s i"
  by (simp_all add: bucket_def)

lemma bucket_ok_upd [simp]:
  "bucket_ok kh L (s\<lparr>index := ix\<rparr>) i p = bucket_ok kh L s i p" "bucket_ok kh L (s\<lparr>filled := c\<rparr>) i p = bucket_ok kh L s i p"
  by (simp_all add: bucket_ok_def split: option.split)

lemma bucket_ok_cong: "bucket kh L' s j = bucket kh L s j \<Longrightarrow> bucket_ok kh L' s j p = bucket_ok kh L s j p"
  by (simp add: bucket_ok_def split: option.split)

lemma hd_opt_eq_Some: "hd_opt xs = Some x \<longleftrightarrow> (\<exists>ys. xs = x # ys)"
  by (cases xs) auto

lemma hd_bucket:
  assumes "hd_opt (bucket kh L s i) = Some x"
  shows "x \<in> set L" "slot s (kh x) = i"
proof -
  have "x \<in> set (bucket kh L s i)" using assms by (auto simp: hd_opt_eq_Some)
  then show "x \<in> set L" "slot s (kh x) = i" by (auto simp: bucket_def)
qed

lemma index_ok_cong:
  assumes "index_ok kh n L s" "\<And>z. 0 < z \<Longrightarrow> z < n \<Longrightarrow> kh' z = kh z" "n \<le> n'" "\<And>z. z \<in> set L \<Longrightarrow> 0 < z \<and> z < n"
  shows "index_ok kh' n' L s"
proof -
  have b: "bucket kh' L s i = bucket kh L s i" for i using assms(2,4) by (intro bucket_cong) auto
  show ?thesis using assms(1,2,3) unfolding index_ok_def bucket_ok_def b by (auto split: option.splits)
qed

lemma index_ok_set:
  assumes "index_ok kh n L s" "i < length (index s)" "bucket_ok kh L' s i p" "\<And>x. p = Some x \<Longrightarrow> 0 < x \<and> x < n"
    "\<And>j. j \<noteq> i \<Longrightarrow> bucket kh L' s j = bucket kh L s j"
  shows "index_ok kh n L' (s\<lparr>index := (index s)[i := p]\<rparr>)" "index_ok kh n L' (s\<lparr>index := (index s)[i := p], filled := c\<rparr>)"
proof -
  have "bucket_ok kh L' s j ((index s)[i := p] ! j) \<and> (\<forall>x. (index s)[i := p] ! j = Some x \<longrightarrow> 0 < x \<and> x < n)"
    if "j < length (index s)" for j
  proof (cases "j = i")
    case True
    then show ?thesis using assms(2-4) by simp
  next
    case False
    then show ?thesis using assms(1) that bucket_ok_cong [OF assms(5)] by (simp add: index_ok_def)
  qed
  then show "index_ok kh n L' (s\<lparr>index := (index s)[i := p]\<rparr>)" "index_ok kh n L' (s\<lparr>index := (index s)[i := p], filled := c\<rparr>)"
    using assms(1) unfolding index_ok_def shape_def by simp_all
qed

lemma index_ok_keep:
  assumes "index_ok kh n L s" "i < length (index s)" "bucket_ok kh L' s i (index s ! i)"
    "\<And>j. j \<noteq> i \<Longrightarrow> bucket kh L' s j = bucket kh L s j"
  shows "index_ok kh n L' s"
proof -
  have "0 < x \<and> x < n" if "index s ! i = Some x" for x using assms(1,2) that by (simp add: index_ok_def)
  from index_ok_set(1) [OF assms(1-3) this assms(4)] show ?thesis by simp
qed

lemma addItem_new:
  assumes "index_ok (\<lambda>z. keyHash (es ! z)) n (L1 @ L2) s" "0 < e" "e < n"
    "\<forall>z \<in> set L1. keyHash (es ! z) \<le> keyHash (es ! e)" "\<forall>z \<in> set L2. keyHash (es ! e) < keyHash (es ! z)"
  shows "\<exists>s' c. addItem es s e = Ok (s', c) \<and> index_ok (\<lambda>z. keyHash (es ! z)) n (L1 @ e # L2) s' \<and>
    length (index s') = length (index s) \<and> keyShifts s' = keyShifts s"
proof -
  let ?kh = "\<lambda>z. keyHash (es ! z)"
  define i where "i = slot s (?kh e)"
  have i: "i < length (index s)" using assms(1) slot_bound by (auto simp: index_ok_def i_def)
  have bo: "bucket_ok ?kh (L1 @ L2) s i (index s ! i)" using assms(1) i by (auto simp: index_ok_def)
  have other: "bucket ?kh (L1 @ e # L2) s j = bucket ?kh (L1 @ L2) s j" if "j \<noteq> i" for j
    using that by (simp add: bucket_append bucket_Cons i_def)
  have self: "bucket ?kh (L1 @ e # L2) s i = bucket ?kh L1 s i @ e # bucket ?kh L2 s i"
    by (simp add: bucket_append bucket_Cons i_def)
  have e: "\<And>x. Some e = Some x \<Longrightarrow> 0 < x \<and> x < n" using assms(2,3) by auto
  have it: "item s (?kh e) = Ok (index s ! i)" using i by (simp add: item_def i_def)
  show ?thesis
  proof (cases "index s ! i")
    case None
    then have "bucket_ok ?kh (L1 @ e # L2) s i (Some e)"
      using bo self by (auto simp: bucket_ok_def bucket_append)
    from index_ok_set(2) [OF assms(1) i this e other]
    show ?thesis using None it by (auto simp: addItem_def i_def [symmetric])
  next
    case (Some x)
    show ?thesis
    proof (cases "?kh e < ?kh x")
      case True
      have "bucket ?kh L1 s i = []"
      proof (rule ccontr)
        assume "bucket ?kh L1 s i \<noteq> []"
        then have "hd_opt (bucket ?kh L1 s i) = Some x"
          using bo Some by (auto simp: bucket_ok_def bucket_append hd_opt_append split: list.splits)
        then have "x \<in> set L1" by (rule hd_bucket)
        then show False using assms(4) True by auto
      qed
      then have "bucket_ok ?kh (L1 @ e # L2) s i (Some e)" using self by (simp add: bucket_ok_def)
      from index_ok_set(1) [OF assms(1) i this e other]
      show ?thesis using Some True it by (auto simp: addItem_def i_def [symmetric])
    next
      case False
      have "hd_opt (bucket ?kh (L1 @ L2) s i) = Some x"
        using bo Some False slot_less [of s "?kh e" "?kh x"] by (auto simp: bucket_ok_def i_def)
      moreover have "x \<notin> set L2" using False assms(5) by auto
      ultimately have "hd_opt (bucket ?kh L1 s i) = Some x"
        using hd_bucket(1) [of ?kh L2 s i x] by (auto simp: bucket_append hd_opt_append split: list.splits)
      then have "bucket_ok ?kh (L1 @ e # L2) s i (index s ! i)"
        using self Some by (auto simp: bucket_ok_def hd_opt_append split: list.splits)
      from index_ok_keep [OF assms(1) i this other]
      show ?thesis using Some False it by (auto simp: addItem_def i_def [symmetric])
    qed
  qed
qed

lemma addItem_old:
  assumes "index_ok (\<lambda>z. keyHash (es ! z)) n L s" "e \<in> set L" "sorted (map (\<lambda>z. keyHash (es ! z)) L)"
  shows "addItem es s e = Ok (s, 0)"
proof -
  let ?kh = "\<lambda>z. keyHash (es ! z)"
  define i where "i = slot s (?kh e)"
  have i: "i < length (index s)" using assms(1) slot_bound by (auto simp: index_ok_def i_def)
  have eb: "e \<in> set (bucket ?kh L s i)" using assms(2) by (simp add: bucket_def i_def)
  have "bucket_ok ?kh L s i (index s ! i)" using assms(1) i by (simp add: index_ok_def)
  then obtain x where x: "index s ! i = Some x" "hd_opt (bucket ?kh L s i) = Some x"
    using eb by (cases "index s ! i") (auto simp: bucket_ok_def)
  have "sorted (map ?kh (bucket ?kh L s i))" using assms(3) by (simp add: bucket_def sorted_filter)
  then have "?kh x \<le> ?kh e" using x(2) eb by (auto simp: hd_opt_eq_Some)
  then show ?thesis using x(1) i by (auto simp: addItem_def item_def i_def [symmetric])
qed

lemma index_ok_remove:
  assumes "index_ok kh n (A @ e # B) s" "sorted (map kh (A @ e # B))" "distinct (A @ e # B)"
    "\<And>z. z \<in> set B \<Longrightarrow> 0 < z \<and> z < n"
  defines "i \<equiv> slot s (kh e)"
  shows "index_ok kh n (A @ B) (if index s ! i = Some e then s\<lparr>index := (index s)[i := hd_opt B]\<rparr> else s)"
proof -
  have i: "i < length (index s)" using assms(1) slot_bound by (auto simp: index_ok_def i_def)
  have other: "bucket kh (A @ B) s j = bucket kh (A @ e # B) s j" if "j \<noteq> i" for j
    using that by (simp add: bucket_append bucket_Cons i_def)
  have bo: "bucket_ok kh (A @ e # B) s i (index s ! i)" using assms(1) i by (auto simp: index_ok_def)
  have self: "bucket kh (A @ e # B) s i = bucket kh A s i @ e # bucket kh B s i"
    by (simp add: bucket_append bucket_Cons i_def)
  show ?thesis
  proof (cases "index s ! i = Some e")
    case True
    have A: "bucket kh A s i = []"
    proof (rule ccontr)
      assume "bucket kh A s i \<noteq> []"
      then obtain y ys where y: "bucket kh A s i = y # ys" by (meson neq_Nil_conv)
      then have "y = e" using bo True self by (auto simp: bucket_ok_def)
      moreover have "y \<in> set A" using y hd_bucket(1) [of kh A s i y] by simp
      ultimately show False using assms(3) by auto
    qed
    have "bucket_ok kh (A @ B) s i (hd_opt B)"
    proof (cases B)
      case (Cons y B')
      have ge: "slot s (kh z) \<ge> slot s (kh y)" if "z \<in> set B'" for z
        using that assms(2) Cons by (intro slot_mono) (auto simp: sorted_append)
      have "i \<le> slot s (kh y)" unfolding i_def using assms(2) Cons by (intro slot_mono) (auto simp: sorted_append)
      then have "slot s (kh y) = i \<or> bucket kh B s i = [] \<and> i < slot s (kh y)"
        using ge Cons by (fastforce simp: bucket_def filter_empty_conv)
      then show ?thesis using A Cons by (auto simp: bucket_ok_def bucket_append bucket_Cons)
    qed (simp add: bucket_ok_def A bucket_append)
    from index_ok_set(1) [OF assms(1) i this _ other] show ?thesis
      using True assms(4) by (cases B) auto
  next
    case False
    have "bucket kh A s i \<noteq> []" using bo False self by (auto simp: bucket_ok_def split: option.splits)
    then have "bucket_ok kh (A @ B) s i (index s ! i)"
      using bo self by (auto simp: bucket_ok_def bucket_append hd_opt_append split: option.splits list.splits)
    from index_ok_keep [OF assms(1) i this other] show ?thesis using False by simp
  qed
qed

section \<open>Sizes\<close>

definition smeared :: "nat \<Rightarrow> uintptr \<Rightarrow> uintptr \<Rightarrow> bool" where
  "smeared t x y \<longleftrightarrow> (\<forall>j. bit y j \<longleftrightarrow> (\<exists>m < t. bit x (j + m)))"

lemma smeared_step: "smeared t x y \<Longrightarrow> t + t = u \<Longrightarrow> smeared u x (y OR drop_bit t y)"
proof (unfold smeared_def, rule allI)
  fix j assume u: "t + t = u" and y: "\<forall>j. bit y j \<longleftrightarrow> (\<exists>m < t. bit x (j + m))"
  have "bit (y OR drop_bit t y) j \<longleftrightarrow> (\<exists>m < t. bit x (j + m)) \<or> (\<exists>m < t. bit x (t + j + m))"
    using y by (simp add: bit_or_iff bit_drop_bit_eq)
  also have "\<dots> \<longleftrightarrow> (\<exists>m < t + t. bit x (j + m))" (is "?l \<longleftrightarrow> ?r")
  proof
    show "?l \<Longrightarrow> ?r" by (metis add.assoc add.commute add_less_cancel_left trans_less_add1)
    show "?r \<Longrightarrow> ?l"
    proof -
      assume ?r
      then obtain m where m: "m < t + t" "bit x (j + m)" by blast
      show ?l
      proof (cases "m < t")
        case False
        then have "m - t < t" "t + j + (m - t) = j + m" using m(1) by auto
        then show ?thesis using m(2) by metis
      qed (use m in blast)
    qed
  qed
  finally show "bit (y OR drop_bit t y) j \<longleftrightarrow> (\<exists>m < u. bit x (j + m))" unfolding u .
qed

lemma smear: "smeared 64 x (let i = x; i = i OR drop_bit 1 i; i = i OR drop_bit 2 i; i = i OR drop_bit 4 i;
    i = i OR drop_bit 8 i; i = i OR drop_bit 16 i; i = i OR drop_bit 32 i in i)"
  unfolding Let_def
  by (rule smeared_step [where t = 32], rule smeared_step [where t = 16], rule smeared_step [where t = 8],
    rule smeared_step [where t = 4], rule smeared_step [where t = 2], rule smeared_step [where t = 1])
    (simp_all add: smeared_def)

lemma bit_unat: "bit (x :: uintptr) j \<longleftrightarrow> odd (unat x div 2 ^ j)"
  by (metis bit_iff_odd bit_unsigned_iff bit_imp_le_length possible_bit_nat)

lemma unat_exp: "n < 64 \<Longrightarrow> unat (2 ^ n :: uintptr) = 2 ^ n"
proof -
  assume n: "n < 64"
  then have "(2 :: nat) ^ n < 2 ^ 64" by (intro power_strict_increasing) auto
  then have "unat (of_nat (2 ^ n) :: uintptr) = 2 ^ n" 
    using n unfolding unsigned_of_nat by (simp add: take_bit_nat_eq_self)
  then show ?thesis by simp
qed

lemma roundUpPower2_eq:
  assumes "i \<noteq> 0" "n < 64" "unat i \<le> 2 ^ n" "\<And>m. unat i \<le> 2 ^ m \<Longrightarrow> n \<le> m"
  shows "roundUpPower2 i = 2 ^ n"
proof -
  define x where "x = i - 1"
  have ux: "unat x = unat i - 1" using assms(1) by (simp add: x_def unat_minus_one)
  have i0: "0 < unat i" using assms(1) by (simp add: unat_gt_0)
  obtain y where y: "roundUpPower2 i = y + 1" "smeared 64 x y"
    using smear [of x] by (auto simp: roundUpPower2_def x_def Let_def)
  have "bit y j \<longleftrightarrow> j < n" for j
  proof
    assume "bit y j"
    then obtain m where "bit x (j + m)" using y(2) by (auto simp: smeared_def)
    then have "unat x div 2 ^ (j + m) \<noteq> 0" by (metis bit_unat even_zero)
    then have "2 ^ (j + m) \<le> unat x" by (metis div_less linorder_not_le)
    then have "(2 :: nat) ^ (j + m) < 2 ^ n" using ux i0 assms(3) by linarith
    then show "j < n" by (metis add_lessD1 nat_power_less_imp_less zero_less_numeral)
  next
    assume j: "j < n"
    have "\<not> unat i \<le> 2 ^ (n - 1)" using assms(4) [of "n - 1"] j by auto
    then have "2 ^ (n - 1) \<le> unat x" "unat x < 2 * 2 ^ (n - 1)"
      using ux assms(3) j i0 by (auto simp flip: power_Suc)
    then have "unat x div 2 ^ (n - 1) = 1" by (simp add: div_nat_eqI)
    then have "bit x (n - 1)" by (simp add: bit_unat)
    moreover have "n - 1 = j + (n - 1 - j)" "n - 1 - j < 64" using j assms(2) by auto
    ultimately show "bit y j" using y(2) unfolding smeared_def by metis
  qed
  then have "y = mask n" using assms(2) by (intro bit_eqI) (auto simp: bit_mask_iff)
  then show ?thesis using y(1) by (simp add: mask_eq_exp_minus_1)
qed

lemma log2_loop_eq:
  assumes "i \<noteq> 0" "n < 64" "unat i \<le> 2 ^ n" "\<And>m. unat i \<le> 2 ^ m \<Longrightarrow> n \<le> m" "j \<le> n" "n - j < f"
  shows "log2_loop f i (of_nat j) (2 ^ j) = Ok (of_nat n)"
  using assms(5,6)
proof (induction f arbitrary: j)
  case (Suc f)
  show ?case
  proof (cases "j = n")
    case True
    have "\<not> 2 ^ n < i" using assms(2,3) by (simp add: word_less_nat_alt unat_exp not_less)
    then show ?thesis using True by simp
  next
    case False
    then have "\<not> unat i \<le> 2 ^ j" using assms(4) [of j] Suc.prems by auto
    then have "2 ^ j < i" using assms(2) Suc.prems by (simp add: word_less_nat_alt unat_exp)
    moreover have "log2_loop f i (of_nat (Suc j)) (2 ^ Suc j) = Ok (of_nat n)" using Suc False by (intro Suc.IH) auto
    ultimately show ?thesis by (simp add: add.commute flip: mult_2)
  qed
qed simp

lemma log2_eq:
  assumes "i \<noteq> 0" "n < 64" "unat i \<le> 2 ^ n" "\<And>m. unat i \<le> 2 ^ m \<Longrightarrow> n \<le> m"
  shows "log2 i = Ok (of_nat n)"
  using log2_loop_eq [OF assms, of 0 65] assms(2) by (simp add: log2_def)

lemma log2_exp: "n < 64 \<Longrightarrow> log2 (2 ^ n) = Ok (of_nat n)"
proof -
  assume n: "n < 64"
  have "(2 :: uintptr) ^ n \<noteq> 0" using unat_exp [OF n] by (metis unat_0 power_not_zero zero_neq_numeral)
  then show ?thesis using n unat_exp [OF n] by (intro log2_eq) auto
qed

section \<open>Filling an index\<close>

abbreviation hashes :: "('k, 'v) memory \<Rightarrow> nat \<Rightarrow> uintptr" where
  "hashes es \<equiv> \<lambda>z. keyHash (es ! z)"

lemma lives_pos: "list_ok h es ord \<Longrightarrow> z \<in> set (lives es ord) \<Longrightarrow> 0 < z \<and> z < length es"
  using list_ok_bound(5) [of h es ord] by (auto simp: set_lives)

lemma index_ok_core:
  assumes "index_ok (hashes es) (length es) L s" "core es' = core es" "\<And>z. z \<in> set L \<Longrightarrow> 0 < z \<and> z < length es"
  shows "index_ok (hashes es') (length es') L s"
  by (rule index_ok_cong [OF assms(1) _ _ assms(3)]) (use core_nth(1) [OF assms(2)] core_length [OF assms(2)] in auto)

lemma fill_loop_new:
  assumes "list_ok h es ord" "cursor es ord itm Q" "lives es ord = P @ Q"
    "index_ok (hashes es) (length es) P s" "first = hd_opt (P @ Q)"
    "P \<noteq> [] \<Longrightarrow> lastIndex = slot s (keyHash (es ! last P))" "length Q < f"
  shows "\<exists>es' s'. fillIndexItems_loop f es s first lastIndex itm = Ok (es', s') \<and> core es' = core es \<and>
    chain es' (0 # ord) \<and> index_ok (hashes es) (length es) (P @ Q) s' \<and> length (index s') = length (index s)"
  using assms
proof (induction f arbitrary: es s lastIndex itm P Q)
  case (Suc f)
  note pr = Suc.prems
  show ?case
  proof (cases itm)
    case None
    then show ?thesis using pr by (auto simp: cursor_def list_ok_def)
  next
    case (Some x)
    then obtain Q' where Q: "Q = x # Q'" using pr(2) by (auto simp: cursor_def)
    have x: "0 < x" "x < length es" using lives_pos [OF pr(1), of x] pr(3) Q by auto
    have sorted: "sorted (map (hashes es) (P @ x # Q'))" using pr(1,3) Q by (simp add: list_ok_def)
    define i where "i = slot s (keyHash (es ! x))"
    define add where "add = (itm = first \<or> i \<noteq> lastIndex)"
    have "\<exists>s1 li. (if add then bind_outcome (addItem es s x) (\<lambda>(s, c). Ok (s, i)) else Ok (s, lastIndex)) = (Ok (s1, li) :: (store \<times> nat) result) \<and>
      index_ok (hashes es) (length es) (P @ [x]) s1 \<and> length (index s1) = length (index s) \<and> li = slot s1 (keyHash (es ! x))"
    proof (cases add)
      case True
      have "\<forall>z \<in> set P. keyHash (es ! z) \<le> keyHash (es ! x)" using sorted by (auto simp: sorted_append)
      then obtain s' c where "addItem es s x = Ok (s', c)" "index_ok (hashes es) (length es) (P @ [x]) s'"
          "length (index s') = length (index s)" "keyShifts s' = keyShifts s"
        using addItem_new [of es "length es" P "[]" s x] pr(4) x by auto
      then show ?thesis using True by (auto simp: slot_def i_def)
    next
      case False
      then have "P \<noteq> []" using Some pr(5) Q by (cases P) (auto simp: add_def)
      then have li: "lastIndex = slot s (keyHash (es ! last P))" "i = lastIndex" using pr(6) False by (auto simp: add_def)
      have i: "i < length (index s)" using pr(4) slot_bound by (auto simp: index_ok_def i_def)
      have "last P \<in> set (bucket (hashes es) P s i)" using \<open>P \<noteq> []\<close> li by (simp add: bucket_def)
      moreover have "bucket_ok (hashes es) P s i (index s ! i)" using pr(4) i by (simp add: index_ok_def)
      ultimately have "bucket_ok (hashes es) (P @ [x]) s i (index s ! i)"
        by (auto simp: bucket_ok_def bucket_append hd_opt_append split: option.splits list.splits)
      from index_ok_keep [OF pr(4) i this] have "index_ok (hashes es) (length es) (P @ [x]) s"
        by (simp add: bucket_append bucket_Cons i_def)
      then show ?thesis using False li by (simp add: i_def)
    qed
    then obtain s1 li where s1: "(if add then bind_outcome (addItem es s x) (\<lambda>(s, c). Ok (s, i)) else Ok (s, lastIndex)) = (Ok (s1, li) :: (store \<times> nat) result)"
      "index_ok (hashes es) (length es) (P @ [x]) s1" "length (index s1) = length (index s)" "li = slot s1 (keyHash (es ! x))"
      by blast
    obtain es1 nx where n: "Next es x = Ok (es1, nx)" "core es1 = core es" "chain es1 (0 # ord)" "cursor es1 ord nx Q'"
      using cursor_Next [OF pr(1), of x Q'] pr(2) Some Q by auto
    note ok1 = list_ok_core [OF pr(1) n(2,3)]
    have pos: "0 < z \<and> z < length es" if "z \<in> set (P @ [x])" for z using lives_pos [OF pr(1)] that pr(3) Q by auto
    have kh: "keyHash (es1 ! z) = keyHash (es ! z)" if "z < length es" for z using core_nth(1) [OF n(2) that] .
    have "\<exists>es' s'. fillIndexItems_loop f es1 s1 first li nx = Ok (es', s') \<and> core es' = core es1 \<and>
      chain es' (0 # ord) \<and> index_ok (hashes es1) (length es1) ((P @ [x]) @ Q') s' \<and> length (index s') = length (index s1)"
    proof (rule Suc.IH [OF ok1(1) n(4)])
      show "lives es1 ord = (P @ [x]) @ Q'" using ok1(2) pr(3) Q by simp
      show "index_ok (hashes es1) (length es1) (P @ [x]) s1" using index_ok_core [OF s1(2) n(2) pos] .
      show "first = hd_opt ((P @ [x]) @ Q')" using pr(5) Q by simp
      show "li = slot s1 (keyHash (es1 ! last (P @ [x])))" using s1(4) kh x by simp
      show "length Q' < f" using pr(7) Q by simp
    qed
    then obtain es' s' where r: "fillIndexItems_loop f es1 s1 first li nx = Ok (es', s')" "core es' = core es1"
      "chain es' (0 # ord)" "index_ok (hashes es1) (length es1) ((P @ [x]) @ Q') s'" "length (index s') = length (index s1)" by blast
    have "index_ok (hashes es) (length es) (P @ Q) s'"
      using index_ok_core [OF r(4), of es] n(2) lives_pos [OF ok1(1)] ok1(2) pr(3) Q by simp
    moreover have "fillIndexItems_loop (Suc f) es s first lastIndex itm = Ok (es', s')"
      using s1(1) n(1) r(1) Some by (simp add: Let_def i_def [symmetric] add_def)
    ultimately show ?thesis using r n(2) s1(3) by auto
  qed
qed simp

lemma fill_loop_old:
  assumes "list_ok h es ord" "cursor es ord itm Q" "lives es ord = P @ Q"
    "index_ok (hashes es) (length es) (P @ Q) s" "length Q < f"
  shows "\<exists>es'. fillIndexItems_loop f es s first lastIndex itm = Ok (es', s) \<and> core es' = core es \<and> chain es' (0 # ord)"
  using assms
proof (induction f arbitrary: es lastIndex itm P Q)
  case (Suc f)
  note pr = Suc.prems
  show ?case
  proof (cases itm)
    case None
    then show ?thesis using pr by (auto simp: cursor_def list_ok_def)
  next
    case (Some x)
    then obtain Q' where Q: "Q = x # Q'" using pr(2) by (auto simp: cursor_def)
    have "sorted (map (hashes es) (P @ x # Q'))" using pr(1,3) Q by (simp add: list_ok_def)
    then have a: "addItem es s x = Ok (s, 0)" using addItem_old [OF pr(4), of x] Q by simp
    obtain es1 nx where n: "Next es x = Ok (es1, nx)" "core es1 = core es" "chain es1 (0 # ord)" "cursor es1 ord nx Q'"
      using cursor_Next [OF pr(1), of x Q'] pr(2) Some Q by auto
    note ok1 = list_ok_core [OF pr(1) n(2,3)]
    have "\<exists>es'. fillIndexItems_loop f es1 s first li nx = Ok (es', s) \<and> core es' = core es1 \<and> chain es' (0 # ord)" for li
    proof (rule Suc.IH [OF ok1(1) n(4)])
      show "lives es1 ord = (P @ [x]) @ Q'" using ok1(2) pr(3) Q by simp
      show "index_ok (hashes es1) (length es1) ((P @ [x]) @ Q') s"
        using index_ok_core [OF pr(4) n(2)] lives_pos [OF pr(1)] pr(3) Q by simp
      show "length Q' < f" using pr(5) Q by simp
    qed
    then show ?thesis using a n(1,2) Some by (auto simp: Let_def)
  qed
qed simp

lemma index_ok_empty:
  assumes "shape s" "\<forall>i < length (index s). index s ! i = None"
  shows "index_ok kh n [] s"
  using assms by (simp add: index_ok_def bucket_ok_def)

lemma fill_twice:
  assumes "list_ok h es ord" "shape s" "\<forall>i < length (index s). index s ! i = None"
  shows "\<exists>es1 s1 es'. fillIndexItems es s = Ok (es1, s1) \<and> fillIndexItems es1 s1 = Ok (es', s1) \<and> core es' = core es \<and>
    chain es' (0 # ord) \<and> index_ok (hashes es') (length es') (lives es' ord) s1 \<and> length (index s1) = length (index s)"
proof -
  obtain es0 nx where f: "First es = Ok (es0, nx)" "core es0 = core es" "chain es0 (0 # ord)" "cursor es0 ord nx (lives es ord)"
    using cursor_First [OF assms(1)] by blast
  note ok0 = list_ok_core [OF assms(1) f(2,3)]
  have first: "nx = hd_opt (lives es0 ord)" using f(4) ok0(2) by (auto simp: cursor_def split: option.splits)
  obtain es1 s1 where g: "fillIndexItems_loop (length es0 + 1) es0 s nx 0 nx = Ok (es1, s1)" "core es1 = core es0" "chain es1 (0 # ord)"
      "index_ok (hashes es0) (length es0) ([] @ lives es0 ord) s1" "length (index s1) = length (index s)"
    using fill_loop_new [OF ok0(1), of nx "lives es0 ord" "[]" s nx 0 "length es0 + 1"] f(4) ok0(2) first
      index_ok_empty [OF assms(2,3)] lives_length [OF ok0(1)] by auto
  note ok1 = list_ok_core [OF ok0(1) g(2,3)]
  have i1: "index_ok (hashes es1) (length es1) (lives es1 ord) s1"
    using index_ok_core [OF g(4) g(2)] lives_pos [OF ok0(1)] ok1(2) by simp
  obtain es2 ny where f2: "First es1 = Ok (es2, ny)" "core es2 = core es1" "chain es2 (0 # ord)" "cursor es2 ord ny (lives es1 ord)"
    using cursor_First [OF ok1(1)] by blast
  note ok2 = list_ok_core [OF ok1(1) f2(2,3)]
  have i2: "index_ok (hashes es2) (length es2) (lives es2 ord) s1"
    using index_ok_core [OF i1 f2(2)] lives_pos [OF ok1(1)] ok2(2) by simp
  obtain es3 where g2: "fillIndexItems_loop (length es2 + 1) es2 s1 ny 0 ny = Ok (es3, s1)" "core es3 = core es2" "chain es3 (0 # ord)"
    using fill_loop_old [OF ok2(1), of ny "lives es2 ord" "[]" s1 "length es2 + 1" ny 0] f2(4) ok2(2) i2 lives_length [OF ok2(1)] by auto
  note ok3 = list_ok_core [OF ok2(1) g2(2,3)]
  have "index_ok (hashes es3) (length es3) (lives es3 ord) s1"
    using index_ok_core [OF i2 g2(2)] lives_pos [OF ok2(1)] ok3(2) by simp
  then show ?thesis using f g f2 g2 by (auto simp: fillIndexItems_def)
qed

section \<open>Growing\<close>

abbreviation elements :: "('k, 'v) Map \<Rightarrow> ('k, 'v) memory" where
  "elements m \<equiv> mem (linkedList m)"

text \<open>The map of keys to values that a hash map stands for.\<close>

abbreviation holding :: "('k, 'v) Map \<Rightarrow> 'k \<Rightarrow> 'v option" where
  "holding m \<equiv> contents (elements m)"

definition map_rep :: "('k, 'v) Map \<Rightarrow> nat list \<Rightarrow> store \<Rightarrow> bool" where
  "map_rep m ord s \<longleftrightarrow> mstore m = Some s \<and> lst_ok (hasher m) (linkedList m) ord \<and>
     index_ok (hashes (elements m)) (length (elements m)) (lives (elements m) ord) s"

definition map_ok :: "('k, 'v) Map \<Rightarrow> bool" where
  "map_ok m \<longleftrightarrow> (\<exists>ord s. map_rep m ord s)"

text \<open>How many keys are stored.\<close>

definition live_count :: "('k, 'v) memory \<Rightarrow> nat" where
  "live_count es = length (filter (\<lambda>e. \<not> deleted e) (tl es))"

lemma live_count_lives:
  assumes "list_ok h es ord"
  shows "live_count es = length (lives es ord)"
proof -
  have "filter (\<lambda>e. \<not> deleted e) (tl es) = map ((!) es) (filter (live es) [1..<length es])"
  proof -
    have "tl es = map ((!) es) [1..<length es]" by (rule nth_equalityI) (auto simp: nth_tl)
    then show ?thesis by (simp add: filter_map comp_def)
  qed
  then have "live_count es = card (set (filter (live es) [1..<length es]))"
    by (simp only: live_count_def length_map distinct_card distinct_filter distinct_upt)
  also have "set (filter (live es) [1..<length es]) = set (lives es ord)"
    using list_ok_bound(5) [OF assms] by (auto simp: set_lives)
  also have "card (set (lives es ord)) = length (lives es ord)"
    using list_ok_bound(4) [OF assms] by (intro distinct_card) (simp add: lives_def)
  finally show ?thesis .
qed

lemma unat_small: "x < 2 ^ 64 \<Longrightarrow> unat (of_nat x :: uintptr) = x"
  by (simp add: unsigned_of_nat take_bit_nat_eq_self)

lemma make_index_exp:
  "n \<le> 45 \<Longrightarrow> make_index (2 ^ n) = Ok (replicate (2 ^ n) None)"
proof -
  assume n: "n \<le> 45"
  have "(2 :: nat) ^ n \<le> 2 ^ 45" using n by (intro power_increasing) auto
  then have "(2 :: uintptr) ^ n \<le> 0x200000000000" using n by (simp add: word_le_nat_alt unat_exp)
  then show ?thesis using n by (simp add: make_index_def unat_exp)
qed

lemma shape_new: "n \<le> 45 \<Longrightarrow> shape \<lparr>keyShifts = 64 - of_nat n, filled = 0, index = replicate (2 ^ n) None\<rparr>"
proof -
  assume n: "n \<le> 45"
  have "unat (64 - of_nat n :: uintptr) = 64 - n"
  proof -
    have u: "unat (of_nat n :: uintptr) = n" using n by (intro unat_small) simp
    then have "(of_nat n :: uintptr) \<le> 64" using n by (simp add: word_le_nat_alt)
    then show ?thesis using u by (simp add: unat_sub)
  qed
  then show ?thesis using n unfolding shape_def by (intro exI [of _ n]) auto
qed

text \<open>One round of \<open>grow\<close>.\<close>

lemma rebuild_ok:
  assumes "lst_ok (hasher m) (linkedList m) ord" "n \<le> 45"
  shows "\<exists>es1 s1 es'. fillIndexItems (elements m) \<lparr>keyShifts = 64 - of_nat n, filled = 0, index = replicate (2 ^ n) None\<rparr> = Ok (es1, s1) \<and>
    fillIndexItems es1 s1 = Ok (es', s1) \<and> map_rep ((upd_mem es' m)\<lparr>mstore := Some s1\<rparr>) ord s1 \<and>
    contents es' = holding m \<and> length (index s1) = 2 ^ n \<and> lives es' ord = lives (elements m) ord"
proof -
  have ok: "list_ok (hasher m) (elements m) ord" using assms(1) by (simp add: lst_ok_def)
  obtain es1 s1 es' where r: "fillIndexItems (elements m) \<lparr>keyShifts = 64 - of_nat n, filled = 0, index = replicate (2 ^ n) None\<rparr> = Ok (es1, s1)"
      "fillIndexItems es1 s1 = Ok (es', s1)" "core es' = core (elements m)" "chain es' (0 # ord)"
      "index_ok (hashes es') (length es') (lives es' ord) s1" "length (index s1) = 2 ^ n"
    using fill_twice [OF ok shape_new [OF assms(2)]] by auto
  note ok' = list_ok_core [OF ok r(3,4)]
  have "map_rep ((upd_mem es' m)\<lparr>mstore := Some s1\<rparr>) ord s1"
    using assms(1) ok' r(5) by (simp add: map_rep_def lst_ok_def)
  then show ?thesis using r contents_core [OF r(3)] ok'(2) by blast
qed

lemma isResizeNeeded_shape:
  assumes "shape s"
  shows "isResizeNeeded s c = Ok (50 < (c * 100) div of_nat (length (index s)))"
proof -
  obtain n where n: "n \<le> 45" "length (index s) = 2 ^ n" using assms by (auto simp: shape_def)
  then have "unat ((2 :: uintptr) ^ n) = 2 ^ n" using unat_exp [of n] by simp
  then have "(2 :: uintptr) ^ n \<noteq> 0" by (metis unat_0 power_not_zero zero_neq_numeral)
  then show ?thesis using n by (simp add: isResizeNeeded_def maxFillRate_def Let_def)
qed

lemma isResizeNeeded_iff:
  assumes "shape s" "length (index s) = 2 ^ n" "n \<le> 45" "c \<le> 2 ^ 43"
  shows "isResizeNeeded s (of_nat c) = Ok (50 < (c * 100) div 2 ^ n)"
proof -
  have c: "c * 100 < 2 ^ 64" using assms(4) by simp
  have "unat (of_nat (c * 100) :: uintptr) = c * 100" using c by (rule unat_small)
  then have "unat (of_nat c * 100 :: uintptr) = c * 100" by simp
  then show ?thesis using assms(2,3)
    by (simp add: isResizeNeeded_shape [OF assms(1)] word_less_nat_alt unat_div unat_exp)
qed

lemma grow_loop_ok:
  assumes "map_rep m ord s" "length (index s) = 2 ^ n" "n \<le> 44" "length (lives (elements m) ord) \<le> 2 ^ 43" "45 < f + n"
  shows "\<exists>m' s' n'. grow_loop f m 0 True = Ok m' \<and> map_rep m' ord s' \<and> holding m' = holding m \<and> hasher m' = hasher m \<and>
    length (index s') = 2 ^ n' \<and> n < n' \<and> n' \<le> 45 \<and> (live_count (elements m') * 100) div 2 ^ n' \<le> 50"
  using assms
proof (induction f arbitrary: m s n)
  case 0
  then show ?case by simp
next
  case (Suc f)
  have lst: "lst_ok (hasher m) (linkedList m) ord" and st: "mstore m = Some s" using Suc.prems(1) by (auto simp: map_rep_def)
  have sz: "push_bit 1 (of_nat (length (index s))) = (2 ^ Suc n :: uintptr)"
    using Suc.prems(2) by (simp add: push_bit_eq_mult mult.commute)
  have n: "Suc n \<le> 45" "Suc n < 64" using Suc.prems(3) by auto
  obtain es1 s1 es' where r: "fillIndexItems (elements m) \<lparr>keyShifts = 64 - of_nat (Suc n), filled = 0, index = replicate (2 ^ Suc n) None\<rparr> = Ok (es1, s1)"
      "fillIndexItems es1 s1 = Ok (es', s1)" "map_rep ((upd_mem es' m)\<lparr>mstore := Some s1\<rparr>) ord s1" "contents es' = holding m"
      "length (index s1) = 2 ^ Suc n" "lives es' ord = lives (elements m) ord"
    using rebuild_ok [OF lst n(1)] by blast
  define m1 where "m1 = (upd_mem es' m)\<lparr>mstore := Some s1\<rparr>"
  have m1: "map_rep m1 ord s1" "holding m1 = holding m" "hasher m1 = hasher m" "lives (elements m1) ord = lives (elements m) ord"
    using r(3,4,6) by (simp_all add: m1_def)
  define c where "c = length (lives (elements m1) ord)"
  have c: "c \<le> 2 ^ 43" using Suc.prems(4) m1(4) by (simp add: c_def)
  have l1: "lst_ok (hasher m1) (linkedList m1) ord" using m1(1) by (simp add: map_rep_def)
  then have len: "of_int (Len m1) = (of_nat c :: uintptr)" and lc: "live_count (elements m1) = c"
    using live_count_lives by (auto simp: Len_def List_Len_def lst_ok_def c_def)
  have "shape s1" using m1(1) by (simp add: map_rep_def index_ok_def)
  note need = isResizeNeeded_iff [OF this r(5) n(1) c]
  have run: "grow_loop (Suc f) m 0 True = (if \<not> 50 < (c * 100) div 2 ^ Suc n then Ok m1 else grow_loop f m1 0 True)"
    using st sz log2_exp [OF n(2)] make_index_exp [OF n(1)] r(1,2) len need
    by (simp add: m1_def [symmetric] Let_def del: power_Suc of_nat_Suc)
  show ?case
  proof (cases "50 < (c * 100) div 2 ^ Suc n")
    case False
    then show ?thesis using run m1 r(5) n(1) lc
      by (intro exI [of _ m1] exI [of _ s1] exI [of _ "Suc n"]) (simp del: power_Suc)
  next
    case True
    have "Suc n \<noteq> 45"
    proof
      assume "Suc n = 45"
      moreover have "(c * 100) div 2 ^ 45 \<le> 50" using c by simp
      ultimately show False using True by simp
    qed
    then have "\<exists>m' s' n'. grow_loop f m1 0 True = Ok m' \<and> map_rep m' ord s' \<and> holding m' = holding m1 \<and> hasher m' = hasher m1 \<and>
      length (index s') = 2 ^ n' \<and> Suc n < n' \<and> n' \<le> 45 \<and> (live_count (elements m') * 100) div 2 ^ n' \<le> 50"
      using n(1) c Suc.prems(5) r(5) by (intro Suc.IH [OF m1(1)]) (auto simp: c_def)
    then show ?thesis using run True m1(2,3) by (auto simp del: power_Suc intro: Suc_lessD)
  qed
qed

end
