(* ===== verification/Hashmap_Correct.thy ===== *)
theory Hashmap_Correct
  imports Hashmap_Index
begin

text \<open>
  What the operations of \<open>src/pkg/hashmap\<close> do to the map of keys to values that the list holds.
\<close>

section \<open>Where a lookup starts\<close>

lemma map_repD:
  assumes "map_rep m ord s"
  shows "mstore m = Some s" "lst_ok (hasher m) (linkedList m) ord" "list_ok (hasher m) (elements m) ord"
    "index_ok (hashes (elements m)) (length (elements m)) (lives (elements m) ord) s"
  using assms by (auto simp: map_rep_def lst_ok_def)

lemma item_start:
  assumes "map_rep m ord s"
  shows "\<exists>p. item s (hasher m k) = Ok p \<and>
    ((\<exists>P Q. cursor (elements m) ord p Q \<and> lives (elements m) ord = P @ Q \<and> (\<forall>z \<in> set P. \<not> holds (elements m) (hasher m k) k z)) \<or>
     (\<exists>x. p = Some x \<and> x \<in> set ord \<and> hasher m k < keyHash (elements m ! x) \<and>
       (\<forall>z \<in> set (lives (elements m) ord). \<not> holds (elements m) (hasher m k) k z)))"
proof -
  let ?es = "elements m" and ?hk = "hasher m k"
  note r = map_repD [OF assms]
  define i where "i = slot s ?hk"
  have i: "i < length (index s)" using r(4) slot_bound by (auto simp: index_ok_def i_def)
  have b: "bucket_ok (hashes ?es) (lives ?es ord) s i (index s ! i)" "\<And>x. index s ! i = Some x \<Longrightarrow> 0 < x \<and> x < length ?es"
    using r(4) i by (auto simp: index_ok_def)
  have inb: "z \<in> set (bucket (hashes ?es) (lives ?es ord) s i)" if "z \<in> set (lives ?es ord)" "holds ?es ?hk k z" for z
    using that by (simp add: bucket_def holds_def i_def)
  have it: "item s ?hk = Ok (index s ! i)" using i by (simp add: item_def i_def)
  show ?thesis
  proof (cases "index s ! i")
    case None
    then have "\<forall>z \<in> set (lives ?es ord). \<not> holds ?es ?hk k z" using b(1) inb by (auto simp: bucket_ok_def)
    then show ?thesis using it None by (auto simp: cursor_def)
  next
    case (Some x)
    then consider "hd_opt (bucket (hashes ?es) (lives ?es ord) s i) = Some x"
      | "bucket (hashes ?es) (lives ?es ord) s i = []" "i < slot s (keyHash (?es ! x))"
      using b(1) by (auto simp: bucket_ok_def)
    then show ?thesis
    proof cases
      case 1
      then obtain F where F: "filter (\<lambda>z. slot s (keyHash (?es ! z)) = i) (lives ?es ord) = x # F"
        by (auto simp: hd_opt_eq_Some bucket_def)
      then obtain P Q where pq: "lives ?es ord = P @ x # Q" "\<forall>z \<in> set P. slot s (keyHash (?es ! z)) \<noteq> i"
        by (auto simp: filter_eq_Cons_iff)
      then have "\<forall>z \<in> set P. \<not> holds ?es ?hk k z" by (auto simp: holds_def i_def)
      then show ?thesis using it Some cursor_split [OF r(3) pq(1)] pq(1) by metis
    next
      case 2
      have "?hk < keyHash (?es ! x)" using 2(2) slot_less by (auto simp: i_def)
      moreover have "x \<in> set ord" using b(2) [OF Some] list_ok_bound(5) [OF r(3)] by simp
      moreover have "\<forall>z \<in> set (lives ?es ord). \<not> holds ?es ?hk k z" using 2(1) inb by auto
      ultimately show ?thesis using it Some by metis
    qed
  qed
qed

lemma cursor_lives:
  assumes "list_ok h es ord" "cursor es ord (Some x) Q" "lives es ord = P @ Q"
  obtains xs ys where "ord = xs @ x # ys" "live es x" "Q = x # lives es ys" "lives es xs = P"
proof -
  obtain xs ys where c: "ord = xs @ x # ys" "live es x" "Q = x # lives es ys" using assms(2) by (auto simp: cursor_def)
  then show ?thesis using that lives_split(1) [OF assms(1), of P x "lives es ys" xs ys] assms(3) by auto
qed

lemma start_ok_item:
  assumes "map_rep m ord s"
  shows "\<exists>p. item s (hasher m k) = Ok p \<and> start_ok (elements m) ord (hasher m k) k p"
proof -
  note ok = map_repD(3) [OF assms]
  obtain p where p: "item s (hasher m k) = Ok p"
    "(\<exists>P Q. cursor (elements m) ord p Q \<and> lives (elements m) ord = P @ Q \<and> (\<forall>z \<in> set P. \<not> holds (elements m) (hasher m k) k z)) \<or>
     (\<exists>x. p = Some x \<and> x \<in> set ord \<and> hasher m k < keyHash (elements m ! x))"
    using item_start [OF assms, of k] by blast
  have "start_ok (elements m) ord (hasher m k) k p"
  proof (cases p)
    case (Some x)
    from p(2) show ?thesis
    proof
      assume "\<exists>P Q. cursor (elements m) ord p Q \<and> lives (elements m) ord = P @ Q \<and> (\<forall>z \<in> set P. \<not> holds (elements m) (hasher m k) k z)"
      then obtain P Q where pq: "cursor (elements m) ord (Some x) Q" "lives (elements m) ord = P @ Q"
        "\<forall>z \<in> set P. \<not> holds (elements m) (hasher m k) k z" using Some by blast
      obtain xs ys where c: "ord = xs @ x # ys" "live (elements m) x" "lives (elements m) xs = P"
        using cursor_lives [OF ok pq(1,2)] by metis
      have "\<forall>z \<in> set xs. \<not> holds (elements m) (hasher m k) k z"
        using pq(3) c(3) by (metis holds_def set_lives)
      then show ?thesis using Some c unfolding start_ok_def by auto
    qed (use Some in \<open>auto simp: start_ok_def\<close>)
  qed (simp add: start_ok_def)
  then show ?thesis using p(1) by blast
qed

section \<open>Lookup\<close>

lemma no_holds_sorted:
  assumes "sorted (map (hashes es) (x # Q))" "hash < keyHash (es ! x)"
  shows "\<forall>z \<in> set (x # Q). \<not> holds es hash k z"
  using assms by (auto simp: holds_def)

lemma Get_loop_ok:
  assumes "list_ok h es ord" "cursor es ord e Q" "lives es ord = P @ Q" "\<forall>z \<in> set P. \<not> holds es (h k) k z" "length Q < f"
  shows "\<exists>es'. Get_loop f es (h k) k e = Ok (es', contents es k) \<and> core es' = core es \<and> chain es' (0 # ord)"
  using assms
proof (induction f arbitrary: es e P Q)
  case (Suc f)
  note pr = Suc.prems
  have ch: "chain es (0 # ord)" using pr(1) by (simp add: list_ok_def)
  have none: "contents es k = None" if "\<forall>z \<in> set (P @ Q). \<not> holds es (h k) k z"
    using that contents_no_holds [OF pr(1)] pr(3) by (metis holds_def set_lives)
  show ?case
  proof (cases e)
    case None
    then show ?thesis using pr(2,4) none ch by (auto simp: cursor_def)
  next
    case (Some x)
    then obtain Q' where Q: "Q = x # Q'" and l: "live es x" using pr(2) by (auto simp: cursor_def)
    have xo: "x \<in> set ord" using set_lives [of x es ord] pr(3) Q by simp
    consider (match) "keyHash (es ! x) = h k \<and> lkey (es ! x) = k"
      | (less) "\<not> (keyHash (es ! x) = h k \<and> lkey (es ! x) = k)" "h k < keyHash (es ! x)"
      | (more) "\<not> (keyHash (es ! x) = h k \<and> lkey (es ! x) = k)" "\<not> h k < keyHash (es ! x)" by blast
    then show ?thesis
    proof cases
      case match
      obtain v where "lvalue (es ! x) = Some v" using pr(1) xo by (auto simp: list_ok_def)
      moreover have "contents es k = lvalue (es ! x)" using contents_holds [OF pr(1) xo] match l by (simp add: holds_def)
      ultimately show ?thesis using match Some ch by (simp add: Value_def)
    next
      case less
      have "sorted (map (hashes es) (x # Q'))" using pr(1,3) Q by (auto simp: list_ok_def sorted_append)
      then have "contents es k = None" using none no_holds_sorted [OF _ less(2)] pr(4) Q by auto
      then show ?thesis using less Some ch by auto
    next
      case more
      obtain es1 nx where n: "Next es x = Ok (es1, nx)" "core es1 = core es" "chain es1 (0 # ord)" "cursor es1 ord nx Q'"
        using cursor_Next [OF pr(1), of x Q'] pr(2) Some Q by auto
      note ok1 = list_ok_core [OF pr(1) n(2,3)]
      have "z < length es" if "z \<in> set (P @ [x])" for z
        using lives_pos [OF pr(1), of z] that pr(3) Q by auto
      then have "\<forall>z \<in> set (P @ [x]). \<not> holds es1 (h k) k z"
        using pr(4) more core_nth [OF n(2)] by (auto simp: holds_def)
      then have "\<exists>es'. Get_loop f es1 (h k) k nx = Ok (es', contents es1 k) \<and> core es' = core es1 \<and> chain es' (0 # ord)"
        using ok1(2) pr(3,5) Q by (intro Suc.IH [OF ok1(1) n(4), of "P @ [x]"]) auto
      then show ?thesis using more Some n(1,2) contents_core [OF n(2)] by auto
    qed
  qed
qed simp

lemma map_rep_core:
  assumes "map_rep m ord s" "core es = core (elements m)" "chain es (0 # ord)"
  shows "map_rep (upd_mem es m) ord s"
proof -
  note r = map_repD [OF assms(1)]
  note ok = list_ok_core [OF r(3) assms(2,3)]
  have "index_ok (hashes es) (length es) (lives es ord) s"
    using index_ok_core [OF r(4) assms(2)] lives_pos [OF r(3)] ok(2) by simp
  then show ?thesis using r(1,2) ok by (simp add: map_rep_def lst_ok_def)
qed

lemma Get_rep:
  assumes "map_rep m ord s"
  shows "\<exists>es. Get m k = Ok (upd_mem es m, holding m k) \<and> core es = core (elements m) \<and> map_rep (upd_mem es m) ord s"
proof -
  note r = map_repD [OF assms]
  obtain p where p: "item s (hasher m k) = Ok p"
    "(\<exists>P Q. cursor (elements m) ord p Q \<and> lives (elements m) ord = P @ Q \<and> (\<forall>z \<in> set P. \<not> holds (elements m) (hasher m k) k z)) \<or>
     (\<exists>x. p = Some x \<and> x \<in> set ord \<and> hasher m k < keyHash (elements m ! x) \<and>
       (\<forall>z \<in> set (lives (elements m) ord). \<not> holds (elements m) (hasher m k) k z))"
    using item_start [OF assms, of k] by blast
  have "\<exists>es. Get_loop (length (elements m) + 1) (elements m) (hasher m k) k p = Ok (es, holding m k) \<and> core es = core (elements m) \<and> chain es (0 # ord)"
    using p(2)
  proof
    assume "\<exists>P Q. cursor (elements m) ord p Q \<and> lives (elements m) ord = P @ Q \<and> (\<forall>z \<in> set P. \<not> holds (elements m) (hasher m k) k z)"
    then obtain P Q where pq: "cursor (elements m) ord p Q" "lives (elements m) ord = P @ Q"
      "\<forall>z \<in> set P. \<not> holds (elements m) (hasher m k) k z" by blast
    then show ?thesis using lives_length [OF r(3)] by (intro Get_loop_ok [OF r(3)]) auto
  next
    assume "\<exists>x. p = Some x \<and> x \<in> set ord \<and> hasher m k < keyHash (elements m ! x) \<and>
       (\<forall>z \<in> set (lives (elements m) ord). \<not> holds (elements m) (hasher m k) k z)"
    then obtain x where x: "p = Some x" "hasher m k < keyHash (elements m ! x)" and
      no: "\<forall>z \<in> set (lives (elements m) ord). \<not> holds (elements m) (hasher m k) k z" by blast
    have "holding m k = None" using contents_no_holds [OF r(3)] no by (metis holds_def set_lives)
    moreover have "chain (elements m) (0 # ord)" using r(3) by (simp add: list_ok_def)
    ultimately show ?thesis using x by auto
  qed
  then show ?thesis using p(1) r(1) map_rep_core [OF assms] by (auto simp: Get_def)
qed

section \<open>Insertion\<close>

lemma index_element_ok:
  assumes "map_rep m ord s" "lst_ok (hasher m) l ord'" "extended (elements m) ord (mem l) ord' e"
  shows "\<exists>m' s'. index_element (m\<lparr>linkedList := l\<rparr>) s e = Ok m' \<and> map_rep m' ord' s' \<and> linkedList m' = l \<and> hasher m' = hasher m"
proof -
  note r = map_repD [OF assms(1)]
  let ?es = "elements m" and ?n = "length (mem l)"
  have ok': "list_ok (hasher m) (mem l) ord'" using assms(2) by (simp add: lst_ok_def)
  have kh: "keyHash (mem l ! z) = keyHash (?es ! z)" if "z < length ?es" for z using assms(3) that by (auto simp: extended_def)
  have len: "length ?es \<le> ?n" using assms(3) by (auto simp: extended_def)
  have ix: "index_ok (hashes (mem l)) ?n (lives ?es ord) s"
    by (rule index_ok_cong [OF r(4) _ len]) (use kh lives_pos [OF r(3)] in auto)
  have "\<exists>s' c. addItem (mem l) s e = Ok (s', c) \<and> index_ok (hashes (mem l)) ?n (lives (mem l) ord') s'"
    using assms(3) unfolding extended_def
  proof (elim conjE disjE exE)
    assume "e \<in> set (lives ?es ord)" "lives (mem l) ord' = lives ?es ord"
    moreover have "sorted (map (hashes (mem l)) (lives (mem l) ord'))" using ok' by (simp add: list_ok_def)
    ultimately show ?thesis using addItem_old [OF ix, of e] ix by auto
  next
    fix L1 L2
    assume e: "length (mem l) = Suc (length ?es)" "e = length ?es" and L: "lives ?es ord = L1 @ L2" "lives (mem l) ord' = L1 @ e # L2"
      "\<forall>z \<in> set L1. keyHash (mem l ! z) \<le> keyHash (mem l ! e)" "\<forall>z \<in> set L2. keyHash (mem l ! e) < keyHash (mem l ! z)"
    have "0 < e" "e < ?n" using e list_ok_bound(2) [OF r(3)] by auto
    then show ?thesis using addItem_new [OF ix [unfolded L(1)] _ _ L(3,4)] L(2) by auto
  qed
  then obtain s' c where a: "addItem (mem l) s e = Ok (s', c)" "index_ok (hashes (mem l)) ?n (lives (mem l) ord') s'" by blast
  moreover have "shape s'" using a(2) by (simp add: index_ok_def)
  ultimately show ?thesis using assms(2) isResizeNeeded_shape by (auto simp: index_element_def map_rep_def Let_def)
qed

lemma Set_rep:
  assumes "map_rep m ord s"
  shows "\<exists>m' ord' s'. Set m k v = Ok m' \<and> map_rep m' ord' s' \<and> holding m' = (holding m)(k \<mapsto> v) \<and> hasher m' = hasher m"
proof -
  note r = map_repD [OF assms]
  obtain p where p: "item s (hasher m k) = Ok p" "start_ok (elements m) ord (hasher m k) k p" using start_ok_item [OF assms] by blast
  obtain l e ord' where a: "AddOrUpdate (linkedList m) p (hasher m k) k v = Ok (l, e, True)" "lst_ok (hasher m) l ord'"
      "contents (mem l) = (holding m)(k \<mapsto> v)" "extended (elements m) ord (mem l) ord' e"
    using AddOrUpdate_ok [OF r(2) p(2)] by blast
  obtain m' s' where i: "index_element (m\<lparr>linkedList := l\<rparr>) s e = Ok m'" "map_rep m' ord' s'" "linkedList m' = l" "hasher m' = hasher m"
    using index_element_ok [OF assms a(2,4)] by blast
  show ?thesis using r(1) p(1) a i by (auto simp: Set_def numeral_2_eq_2 Let_def)
qed

lemma Insert_rep:
  assumes "map_rep m ord s"
  shows "\<exists>m' ord' s'. Insert m k v = Ok (m', holding m k = None) \<and> map_rep m' ord' s' \<and> hasher m' = hasher m \<and>
      holding m' = (if holding m k = None then (holding m)(k \<mapsto> v) else holding m)"
    "\<exists>m' ord' s'. GetOrInsert m k v = Ok (m', case holding m k of None \<Rightarrow> v | Some old \<Rightarrow> old, holding m k \<noteq> None) \<and>
      map_rep m' ord' s' \<and> hasher m' = hasher m \<and>
      holding m' = (if holding m k = None then (holding m)(k \<mapsto> v) else holding m)"
proof -
  note r = map_repD [OF assms]
  obtain p where p: "item s (hasher m k) = Ok p" "start_ok (elements m) ord (hasher m k) k p" using start_ok_item [OF assms] by blast
  obtain l e ord' existed where a: "Add (linkedList m) p (hasher m k) k v = Ok (l, e, existed, \<not> existed)" "lst_ok (hasher m) l ord'"
      "if existed then contents (mem l) = holding m \<and> lvalue (mem l ! e) = holding m k \<and> holding m k \<noteq> None \<and>
         core (mem l) = core (elements m) \<and> ord' = ord
       else holding m k = None \<and> contents (mem l) = (holding m)(k \<mapsto> v) \<and> extended (elements m) ord (mem l) ord' e"
    using Add_ok [OF r(2) p(2)] by blast
  show "\<exists>m' ord' s'. Insert m k v = Ok (m', holding m k = None) \<and> map_rep m' ord' s' \<and> hasher m' = hasher m \<and>
      holding m' = (if holding m k = None then (holding m)(k \<mapsto> v) else holding m)"
    "\<exists>m' ord' s'. GetOrInsert m k v = Ok (m', case holding m k of None \<Rightarrow> v | Some old \<Rightarrow> old, holding m k \<noteq> None) \<and>
      map_rep m' ord' s' \<and> hasher m' = hasher m \<and>
      holding m' = (if holding m k = None then (holding m)(k \<mapsto> v) else holding m)"
  proof (atomize (full), cases existed)
    case True
    then have e: "contents (mem l) = holding m" "lvalue (mem l ! e) = holding m k" "holding m k \<noteq> None"
        "core (mem l) = core (elements m)" "ord' = ord" using a(3) by auto
    have "chain (mem l) (0 # ord)" using a(2) e(5) by (simp add: lst_ok_def list_ok_def)
    from map_rep_core [OF assms e(4) this] have "map_rep (m\<lparr>linkedList := l\<rparr>) ord s"
      using a(2) e(5) by (simp add: map_rep_def)
    then show "(\<exists>m' ord' s'. Insert m k v = Ok (m', holding m k = None) \<and> map_rep m' ord' s' \<and> hasher m' = hasher m \<and>
        holding m' = (if holding m k = None then (holding m)(k \<mapsto> v) else holding m)) \<and>
      (\<exists>m' ord' s'. GetOrInsert m k v = Ok (m', case holding m k of None \<Rightarrow> v | Some old \<Rightarrow> old, holding m k \<noteq> None) \<and>
        map_rep m' ord' s' \<and> hasher m' = hasher m \<and>
        holding m' = (if holding m k = None then (holding m)(k \<mapsto> v) else holding m))"
      using r(1) p(1) a(1) True e
      by (auto simp: Insert_def GetOrInsert_def numeral_2_eq_2 Let_def Value_def split: option.splits intro!: exI [of _ "m\<lparr>linkedList := l\<rparr>"])
  next
    case False
    then have e: "holding m k = None" "contents (mem l) = (holding m)(k \<mapsto> v)" "extended (elements m) ord (mem l) ord' e" using a(3) by auto
    obtain m' s' where i: "index_element (m\<lparr>linkedList := l\<rparr>) s e = Ok m'" "map_rep m' ord' s'" "linkedList m' = l" "hasher m' = hasher m"
      using index_element_ok [OF assms a(2) e(3)] by blast
    then show "(\<exists>m' ord' s'. Insert m k v = Ok (m', holding m k = None) \<and> map_rep m' ord' s' \<and> hasher m' = hasher m \<and>
        holding m' = (if holding m k = None then (holding m)(k \<mapsto> v) else holding m)) \<and>
      (\<exists>m' ord' s'. GetOrInsert m k v = Ok (m', case holding m k of None \<Rightarrow> v | Some old \<Rightarrow> old, holding m k \<noteq> None) \<and>
        map_rep m' ord' s' \<and> hasher m' = hasher m \<and>
        holding m' = (if holding m k = None then (holding m)(k \<mapsto> v) else holding m))"
      using r(1) p(1) a(1) False e(1,2) by (auto simp: Insert_def GetOrInsert_def numeral_2_eq_2 Let_def)
  qed
qed

section \<open>Deletion\<close>

lemma deleteElement_ok:
  assumes "map_rep m ord s" "lives (elements m) ord = A @ e # B"
  shows "\<exists>es s'. deleteElement m e = Ok ((upd_mem es m)\<lparr>mstore := Some s'\<rparr>) \<and> core es = core (elements m) \<and> chain es (0 # ord) \<and>
    index_ok (hashes (elements m)) (length (elements m)) (A @ B) s'"
proof -
  note r = map_repD [OF assms(1)]
  obtain es nx where n: "Next (elements m) e = Ok (es, nx)" "core es = core (elements m)" "chain es (0 # ord)" "cursor es ord nx B"
    using cursor_Next [OF r(3) cursor_split [OF r(3) assms(2)]] by blast
  have nx: "nx = hd_opt B" using n(4) by (auto simp: cursor_def split: option.splits)
  define i where "i = slot s (keyHash (elements m ! e))"
  have i: "i < length (index s)" using r(4) slot_bound by (auto simp: index_ok_def i_def)
  have el: "e < length (elements m)" using lives_pos [OF r(3), of e] assms(2) by simp
  have so: "sorted (map (hashes (elements m)) (A @ e # B))" using r(3) assms(2) by (simp add: list_ok_def)
  have di: "distinct (A @ e # B)" using list_ok_bound(4) [OF r(3)] assms(2) by (metis distinct_filter lives_def)
  have "0 < z \<and> z < length (elements m)" if "z \<in> set B" for z using lives_pos [OF r(3), of z] assms(2) that by simp
  from index_ok_remove [OF r(4) [unfolded assms(2)] so di this, folded i_def]
  have "index_ok (hashes (elements m)) (length (elements m)) (A @ B)
      (if index s ! i = Some e then s\<lparr>index := (index s)[i := hd_opt B]\<rparr> else s)" .
  moreover have "deleteElement m e = Ok ((upd_mem es m)\<lparr>mstore := Some (if index s ! i = Some e then s\<lparr>index := (index s)[i := hd_opt B]\<rparr> else s)\<rparr>)"
    using r(1) n(1) i nx core_nth(1) [OF n(2) el] by (simp add: deleteElement_def Let_def i_def [symmetric])
  ultimately show ?thesis using n(2,3) by blast
qed

lemma Del_found:
  assumes "map_rep m ord s" "e \<in> set (lives (elements m) ord)" "holds (elements m) (hasher m k) k e"
  shows "\<exists>m1 m' s'. deleteElement m e = Ok m1 \<and> List_Delete (linkedList m1) e = Ok (linkedList m') \<and> m' = m1\<lparr>linkedList := linkedList m'\<rparr> \<and>
    map_rep m' ord s' \<and> holding m' = (holding m)(k := None) \<and> hasher m' = hasher m \<and>
    lives (elements m') ord = filter (\<lambda>a. a \<noteq> e) (lives (elements m) ord) \<and> kept (elements m) (elements m')"
proof -
  note r = map_repD [OF assms(1)]
  obtain A B where AB: "lives (elements m) ord = A @ e # B" using assms(2) by (meson split_list)
  have dist: "distinct (A @ e # B)" using list_ok_bound(4) [OF r(3)] AB by (metis distinct_filter lives_def)
  have fe: "filter (\<lambda>a. a \<noteq> e) xs = xs" if "e \<notin> set xs" for xs using that by (intro filter_True) auto
  have f: "filter (\<lambda>a. a \<noteq> e) (A @ e # B) = A @ B" using dist fe [of A] fe [of B] by simp
  obtain es s' where d: "deleteElement m e = Ok ((upd_mem es m)\<lparr>mstore := Some s'\<rparr>)" "core es = core (elements m)" "chain es (0 # ord)"
      "index_ok (hashes (elements m)) (length (elements m)) (A @ B) s'"
    using deleteElement_ok [OF assms(1) AB] by blast
  note ok1 = list_ok_core [OF r(3) d(2,3)]
  define l1 where "l1 = (linkedList m)\<lparr>mem := es\<rparr>"
  have l1: "lst_ok (hasher m) l1 ord" using r(2) ok1 by (simp add: lst_ok_def l1_def)
  have e: "e \<in> set ord" "e < length (elements m)" using assms(2) list_ok_bound(1) [OF r(3)] by (auto simp: set_lives)
  have "holds (mem l1) (hasher m k) k e" using assms(3) core_nth [OF d(2) e(2)] by (simp add: holds_def l1_def)
  then obtain l' where l': "List_Delete l1 e = Ok l'" "lst_ok (hasher m) l' ord" "contents (mem l') = (contents (mem l1))(k := None)"
      "lives (mem l') ord = filter (\<lambda>a. a \<noteq> e) (lives (mem l1) ord)" "kept (mem l1) (mem l')"
    using List_Delete_ok [OF l1 e(1)] by blast
  have kept: "kept (elements m) (mem l')" using kept_trans [OF kept_core [OF d(2)]] l'(5) by (simp add: l1_def)
  define m' where "m' = (upd_mem es m)\<lparr>mstore := Some s', linkedList := l'\<rparr>"
  have lv: "lives (mem l') ord = A @ B" using l'(4) ok1(2) AB f by (simp add: l1_def)
  have "index_ok (hashes (mem l')) (length (mem l')) (A @ B) s'"
    by (rule index_ok_cong [OF d(4)]) (use kept lives_pos [OF r(3)] AB in \<open>auto simp: kept_def\<close>)
  then have "map_rep m' ord s'" using l'(2) lv by (simp add: map_rep_def m'_def)
  moreover have "holding m' = (holding m)(k := None)" using l'(3) contents_core [OF d(2)] by (simp add: m'_def l1_def)
  moreover have "lives (elements m') ord = filter (\<lambda>a. a \<noteq> e) (lives (elements m) ord)" using lv f AB by (simp add: m'_def)
  ultimately show ?thesis using d(1) l'(1) kept
    by (intro exI [of _ "(upd_mem es m)\<lparr>mstore := Some s'\<rparr>"] exI [of _ m'] exI [of _ s']) (simp add: m'_def l1_def)
qed

definition del_result :: "('k, 'v) Map \<Rightarrow> nat list \<Rightarrow> 'k \<Rightarrow> ('k, 'v) Map \<Rightarrow> bool" where
  "del_result m ord k m' \<longleftrightarrow> (\<exists>s. map_rep m' ord s) \<and> holding m' = (holding m)(k := None) \<and> hasher m' = hasher m \<and>
     lives (elements m') ord = filter (\<lambda>a. lkey (elements m ! a) \<noteq> k) (lives (elements m) ord) \<and> kept (elements m) (elements m')"

lemma filter_key:
  assumes "list_ok h es ord" "e \<in> set (lives es ord)" "lkey (es ! e) = k"
  shows "filter (\<lambda>a. lkey (es ! a) \<noteq> k) (lives es ord) = filter (\<lambda>a. a \<noteq> e) (lives es ord)"
  by (rule filter_cong) (use assms lives_key_unique [OF assms(1)] in auto)

lemma del_result_none:
  assumes "map_rep m ord s" "\<forall>z \<in> set (lives (elements m) ord). \<not> holds (elements m) (hasher m k) k z"
  shows "holding m k = None" "del_result m ord k m"
proof -
  note r = map_repD [OF assms(1)]
  have nk: "lkey (elements m ! z) \<noteq> k" if "z \<in> set (lives (elements m) ord)" for z
    using that assms(2) r(3) by (auto simp: holds_def list_ok_def set_lives)
  then show n: "holding m k = None" using contents_None [OF r(3)] by blast
  then have "(holding m)(k := None) = holding m" by auto
  then show "del_result m ord k m" using assms(1) nk by (auto simp: del_result_def kept_def filter_id_conv)
qed

lemma del_result_core:
  assumes "map_rep m ord s" "core es = core (elements m)" "chain es (0 # ord)" "del_result (upd_mem es m) ord k m'"
  shows "del_result m ord k m'"
proof -
  note r = map_repD [OF assms(1)]
  note ok = list_ok_core [OF r(3) assms(2,3)]
  have "filter (\<lambda>a. lkey (es ! a) \<noteq> k) (lives es ord) = filter (\<lambda>a. lkey (elements m ! a) \<noteq> k) (lives (elements m) ord)"
    unfolding ok(2) by (rule filter_cong) (use lives_pos [OF r(3)] core_nth(4) [OF assms(2)] in auto)
  moreover have "kept (elements m) (elements m')" if "kept es (elements m')"
    using kept_trans [OF kept_core [OF assms(2)] that] .
  ultimately show ?thesis using assms(4) contents_core [OF assms(2)] by (auto simp: del_result_def)
qed

lemma Del_loop_ok:
  assumes "map_rep m ord s" "cursor (elements m) ord p Q" "lives (elements m) ord = P @ Q"
    "\<forall>z \<in> set P. \<not> holds (elements m) (hasher m k) k z" "length Q < f"
  shows "\<exists>m'. Del_loop f m (hasher m k) k p = Ok (m', holding m k \<noteq> None) \<and> del_result m ord k m'"
  using assms
proof (induction f arbitrary: m p P Q)
  case (Suc f)
  note pr = Suc.prems
  note r = map_repD [OF pr(1)]
  let ?hk = "hasher m k"
  show ?case
  proof (cases p)
    case None
    then show ?thesis using pr(2-4) del_result_none [OF pr(1), of k] by (auto simp: cursor_def)
  next
    case (Some x)
    then obtain Q' where Q: "Q = x # Q'" and l: "live (elements m) x" using pr(2) by (auto simp: cursor_def)
    have xl: "x \<in> set (lives (elements m) ord)" using pr(3) Q by simp
    consider (match) "keyHash (elements m ! x) = ?hk \<and> lkey (elements m ! x) = k"
      | (less) "\<not> (keyHash (elements m ! x) = ?hk \<and> lkey (elements m ! x) = k)" "?hk < keyHash (elements m ! x)"
      | (more) "\<not> (keyHash (elements m ! x) = ?hk \<and> lkey (elements m ! x) = k)" "\<not> ?hk < keyHash (elements m ! x)" by blast
    then show ?thesis
    proof cases
      case match
      then have h: "holds (elements m) ?hk k x" using l by (simp add: holds_def)
      then obtain m1 m' s' where d: "deleteElement m x = Ok m1" "List_Delete (linkedList m1) x = Ok (linkedList m')" "m' = m1\<lparr>linkedList := linkedList m'\<rparr>"
        "map_rep m' ord s'" "holding m' = (holding m)(k := None)" "hasher m' = hasher m"
        "lives (elements m') ord = filter (\<lambda>a. a \<noteq> x) (lives (elements m) ord)" "kept (elements m) (elements m')"
        using Del_found [OF pr(1) xl] by blast
      have "holding m k \<noteq> None"
        using contents_Some [OF r(3) xl] match r(3) xl by (auto simp: list_ok_def set_lives)
      moreover have "del_result m ord k m'" using d filter_key [OF r(3) xl] match by (auto simp: del_result_def)
      moreover have "Del_loop (Suc f) m ?hk k p = Ok (m', True)" using match Some d(1,2) d(3) [symmetric] by (simp add: Let_def)
      ultimately show ?thesis by auto
    next
      case less
      have "sorted (map (hashes (elements m)) (x # Q'))" using r(3) pr(3) Q by (auto simp: list_ok_def sorted_append)
      then have "\<forall>z \<in> set (lives (elements m) ord). \<not> holds (elements m) ?hk k z"
        using no_holds_sorted [OF _ less(2)] pr(3,4) Q by auto
      then show ?thesis using less Some del_result_none [OF pr(1)] by auto
    next
      case more
      obtain es1 nx where n: "Next (elements m) x = Ok (es1, nx)" "core es1 = core (elements m)" "chain es1 (0 # ord)" "cursor es1 ord nx Q'"
        using cursor_Next [OF r(3), of x Q'] pr(2) Some Q by auto
      note ok1 = list_ok_core [OF r(3) n(2,3)]
      have pos: "z < length (elements m)" if "z \<in> set (lives (elements m) ord)" for z using lives_pos [OF r(3) that] by simp
      then have "\<forall>z \<in> set (P @ [x]). \<not> holds es1 ?hk k z"
        using pr(3,4) Q more core_nth [OF n(2)] by (auto simp: holds_def)
      then have "\<exists>m'. Del_loop f (upd_mem es1 m) (hasher (upd_mem es1 m) k) k nx = Ok (m', holding (upd_mem es1 m) k \<noteq> None) \<and> del_result (upd_mem es1 m) ord k m'"
        using ok1(2) pr(3,5) Q n(4) by (intro Suc.IH [OF map_rep_core [OF pr(1) n(2,3)], of nx Q' "P @ [x]"]) auto
      then show ?thesis using more Some n(1) contents_core [OF n(2)] del_result_core [OF pr(1) n(2,3)] by auto
    qed
  qed
qed simp

lemma Del_rep:
  assumes "map_rep m ord s"
  shows "\<exists>m'. Del m k = Ok (m', holding m k \<noteq> None) \<and> del_result m ord k m'"
proof -
  note r = map_repD [OF assms]
  obtain p where p: "item s (hasher m k) = Ok p"
    "(\<exists>P Q. cursor (elements m) ord p Q \<and> lives (elements m) ord = P @ Q \<and> (\<forall>z \<in> set P. \<not> holds (elements m) (hasher m k) k z)) \<or>
     (\<exists>x. p = Some x \<and> x \<in> set ord \<and> hasher m k < keyHash (elements m ! x) \<and>
       (\<forall>z \<in> set (lives (elements m) ord). \<not> holds (elements m) (hasher m k) k z))"
    using item_start [OF assms, of k] by blast
  have "\<exists>m'. Del_loop (length (elements m) + 1) m (hasher m k) k p = Ok (m', holding m k \<noteq> None) \<and> del_result m ord k m'"
    using p(2)
  proof
    assume "\<exists>P Q. cursor (elements m) ord p Q \<and> lives (elements m) ord = P @ Q \<and> (\<forall>z \<in> set P. \<not> holds (elements m) (hasher m k) k z)"
    then obtain P Q where pq: "cursor (elements m) ord p Q" "lives (elements m) ord = P @ Q"
      "\<forall>z \<in> set P. \<not> holds (elements m) (hasher m k) k z" by blast
    then show ?thesis using lives_length [OF r(3)] by (intro Del_loop_ok [OF assms]) auto
  next
    assume "\<exists>x. p = Some x \<and> x \<in> set ord \<and> hasher m k < keyHash (elements m ! x) \<and>
       (\<forall>z \<in> set (lives (elements m) ord). \<not> holds (elements m) (hasher m k) k z)"
    then obtain x where x: "p = Some x" "hasher m k < keyHash (elements m ! x)" and
      no: "\<forall>z \<in> set (lives (elements m) ord). \<not> holds (elements m) (hasher m k) k z" by blast
    show ?thesis using x del_result_none [OF assms no] by (auto simp: Let_def)
  qed
  then show ?thesis using p(1) r(1) by (auto simp: Del_def simp del: Del_loop.simps)
qed

section \<open>Range\<close>

text \<open>
  A callback that looks at the entry, changes the caller's state, may delete the entry it is given
  (\<open>d\<close>) and may end the walk (\<open>c\<close>).
\<close>

definition visit :: "('k \<Rightarrow> 'v \<Rightarrow> 's \<Rightarrow> 's \<times> bool \<times> bool) \<Rightarrow> 'k \<Rightarrow> 'v \<Rightarrow> 's \<times> ('k, 'v) Map \<Rightarrow> (('s \<times> ('k, 'v) Map) \<times> bool) result" where
  "visit step k v sm = (case step k v (fst sm) of (s, d, c) \<Rightarrow>
     if d then bind_outcome (Del (snd sm) k) (\<lambda>(m, b). Ok ((s, m), c)) else Ok ((s, snd sm), c))"

text \<open>What it does to the state and to a map, along a list of entries.\<close>

fun walk :: "('k \<Rightarrow> 'v \<Rightarrow> 's \<Rightarrow> 's \<times> bool \<times> bool) \<Rightarrow> ('k \<times> 'v) list \<Rightarrow> 's \<Rightarrow> ('k \<Rightarrow> 'v option) \<Rightarrow> 's \<times> ('k \<Rightarrow> 'v option)" where
  "walk step [] s f = (s, f)"
| "walk step ((k, v) # xs) s f = (case step k v s of (s, d, c) \<Rightarrow>
     let f = (if d then f(k := None) else f) in if c then walk step xs s f else (s, f))"

definition entries :: "('k, 'v) memory \<Rightarrow> nat list \<Rightarrow> ('k \<times> 'v) list" where
  "entries es L = map (\<lambda>a. (lkey (es ! a), the (lvalue (es ! a)))) L"

lemma entries_kept: "kept es es' \<Longrightarrow> \<forall>z \<in> set L. z < length es \<Longrightarrow> entries es' L = entries es L"
  by (simp add: entries_def kept_def)

lemma entries_contents:
  assumes "list_ok h es ord"
  shows "map_of (entries es (lives es ord)) = contents es" "distinct (map fst (entries es (lives es ord)))"
proof -
  show d: "distinct (map fst (entries es (lives es ord)))"
    using assms by (simp add: entries_def list_ok_def comp_def)
  show "map_of (entries es (lives es ord)) = contents es"
  proof
    fix k
    show "map_of (entries es (lives es ord)) k = contents es k"
    proof (cases "\<exists>a \<in> set (lives es ord). lkey (es ! a) = k")
      case True
      then obtain a where a: "a \<in> set (lives es ord)" "lkey (es ! a) = k" by blast
      then have "(k, the (lvalue (es ! a))) \<in> set (entries es (lives es ord))" by (auto simp: entries_def)
      moreover have "lvalue (es ! a) \<noteq> None" using assms a(1) by (auto simp: list_ok_def set_lives)
      ultimately show ?thesis using d contents_Some [OF assms a(1)] a(2) by auto
    next
      case False
      then have "map_of (entries es (lives es ord)) k = None" by (auto simp: map_of_eq_None_iff entries_def)
      then show ?thesis using False contents_None [OF assms] by auto
    qed
  qed
qed

lemma Next_after:
  assumes "list_ok h es ord" "ord = xs @ x # ys"
  shows "\<exists>es' nx. Next es x = Ok (es', nx) \<and> core es' = core es \<and> chain es' (0 # ord) \<and> cursor es' ord nx (lives es ys)"
proof -
  have "chain es (0 # ord)" using assms(1) by (simp add: list_ok_def)
  then obtain es' where e: "Next es x = Ok (es', first_live es ys)" "core es' = core es" "chain es' (0 # ord)"
    using Next_ok [of es "0 # ord" "0 # xs" x ys] assms(2) by auto
  moreover have "cursor es ord (first_live es ys) (lives es ys)" using cursor_first_live [of ord "xs @ [x]" ys es] assms(2) by simp
  ultimately show ?thesis using cursor_core [OF assms(1)] by blast
qed

lemma lives_after_del:
  assumes "map_rep m ord s" "ord = xs @ x # ys" "live (elements m) x" "del_result m ord (lkey (elements m ! x)) m'"
  shows "lives (elements m') ys = lives (elements m) ys"
  unfolding lives_def
proof (rule filter_cong [OF refl])
  note r = map_repD [OF assms(1)]
  fix z assume z: "z \<in> set ys"
  have zo: "z \<in> set ord" "x \<in> set ord" "z \<noteq> x" using z assms(2) list_ok_bound(4) [OF r(3)] by auto
  have "z \<in> set (lives (elements m') ord) \<longleftrightarrow> z \<in> set (lives (elements m) ord) \<and> lkey (elements m ! z) \<noteq> lkey (elements m ! x)"
    using assms(4) by (simp add: del_result_def)
  then show "live (elements m') z = live (elements m) z"
    using zo lives_key_unique [OF r(3), of z x] assms(3) by (auto simp: set_lives)
qed

lemma visit_ok:
  assumes "map_rep m ord st" "ord = xs @ x # ys" "live (elements m) x" "step (lkey (elements m ! x)) v s = (s', d, c)"
  shows "\<exists>m' st'. visit step (lkey (elements m ! x)) v (s, m) = Ok ((s', m'), c) \<and> map_rep m' ord st' \<and> hasher m' = hasher m \<and>
    holding m' = (if d then (holding m)(lkey (elements m ! x) := None) else holding m) \<and>
    lives (elements m') ys = lives (elements m) ys \<and> kept (elements m) (elements m')"
proof (cases d)
  case True
  obtain m' where "Del m (lkey (elements m ! x)) = Ok (m', holding m (lkey (elements m ! x)) \<noteq> None)" "del_result m ord (lkey (elements m ! x)) m'"
    using Del_rep [OF assms(1)] by blast
  then show ?thesis using True assms(4) lives_after_del [OF assms(1-3)] by (auto simp: visit_def del_result_def)
next
  case False
  then show ?thesis using assms by (auto simp: visit_def kept_def)
qed

lemma Range_loop_ok:
  assumes "map_rep m ord st" "cursor (elements m) ord itm Q" "length Q < n" "set Q \<subseteq> set (lives (elements m) ord)"
  shows "\<exists>s' m' st'. Range_loop n (visit step) (s, m) itm = Ok (s', m') \<and> map_rep m' ord st' \<and> hasher m' = hasher m \<and>
    (s', holding m') = walk step (entries (elements m) Q) s (holding m)"
  using assms
proof (induction n arbitrary: s m st itm Q)
  case (Suc n)
  note pr = Suc.prems
  note r = map_repD [OF pr(1)]
  show ?case
  proof (cases itm)
    case None
    then show ?thesis using pr(1,2) by (auto simp: cursor_def entries_def)
  next
    case (Some x)
    then obtain xs ys where x: "ord = xs @ x # ys" "live (elements m) x" "Q = x # lives (elements m) ys"
      using pr(2) by (auto simp: cursor_def)
    define k where "k = lkey (elements m ! x)"
    obtain v where v: "lvalue (elements m ! x) = Some v" using r(3) x(1) by (auto simp: list_ok_def)
    obtain s1 d c where st: "step k v s = (s1, d, c)" by (metis prod_cases3)
    obtain m1 st1 where m1: "visit step k v (s, m) = Ok ((s1, m1), c)" "map_rep m1 ord st1" "hasher m1 = hasher m"
        "holding m1 = (if d then (holding m)(k := None) else holding m)" "lives (elements m1) ys = lives (elements m) ys"
        "kept (elements m) (elements m1)"
      using visit_ok [OF pr(1) x(1,2), of step v s s1 d c] st unfolding k_def by blast
    note r1 = map_repD [OF m1(2)]
    have ent: "entries (elements m) Q = (k, v) # entries (elements m) (lives (elements m) ys)"
      using x(3) v by (simp add: entries_def k_def)
    have pos: "\<forall>z \<in> set (lives (elements m) ys). z < length (elements m)"
      using list_ok_bound(1) [OF r(3)] x(1) by (auto simp: set_lives)
    have val: "Value (elements m) x = Ok v" using v by (simp add: Value_def)
    show ?thesis
    proof (cases c)
      case False
      then show ?thesis using Some val m1 ent st by (auto simp: k_def [symmetric] Let_def)
    next
      case True
      obtain es nx where n: "Next (elements m1) x = Ok (es, nx)" "core es = core (elements m1)" "chain es (0 # ord)" "cursor es ord nx (lives (elements m1) ys)"
        using Next_after [OF r1(3) x(1)] by blast
      note rep2 = map_rep_core [OF m1(2) n(2,3)]
      have kept2: "kept (elements m) es" using kept_trans [OF m1(6) kept_core [OF n(2)]] .
      have "set ys \<subseteq> {..<length (elements m1)}" using list_ok_bound(1) [OF r1(3)] x(1) by auto
      then have le: "lives es ys = lives (elements m) ys" using lives_core [OF n(2)] m1(5) by simp
      have sub: "set (lives (elements m) ys) \<subseteq> set (lives es ord)"
        unfolding le [symmetric] x(1) by (auto simp: set_lives)
      have "\<exists>s' m' st'. Range_loop n (visit step) (s1, upd_mem es m1) nx = Ok (s', m') \<and> map_rep m' ord st' \<and> hasher m' = hasher (upd_mem es m1) \<and>
        (s', holding m') = walk step (entries (elements (upd_mem es m1)) (lives (elements m) ys)) s1 (holding (upd_mem es m1))"
        using n(4) m1(5) pr(3) x(3) sub by (intro Suc.IH [OF rep2]) auto
      then show ?thesis
        using True Some val m1(1,3,4) ent st n(1) contents_core [OF n(2)] entries_kept [OF kept2 pos]
        by (auto simp: k_def [symmetric] Let_def)
    qed
  qed
qed simp

lemma Range_rep:
  assumes "map_rep m ord st" "live_count (elements m) < n"
  shows "\<exists>s' m' st'. Range n (visit step) (s, m) = Ok (s', m') \<and> map_rep m' ord st' \<and> hasher m' = hasher m \<and>
    (s', holding m') = walk step (entries (elements m) (lives (elements m) ord)) s (holding m)"
proof -
  note r = map_repD [OF assms(1)]
  obtain es nx where f: "First (elements m) = Ok (es, nx)" "core es = core (elements m)" "chain es (0 # ord)" "cursor es ord nx (lives (elements m) ord)"
    using cursor_First [OF r(3)] by blast
  note rep = map_rep_core [OF assms(1) f(2,3)]
  note ok = list_ok_core [OF r(3) f(2,3)]
  have ent: "entries es (lives (elements m) ord) = entries (elements m) (lives (elements m) ord)"
    using entries_kept [OF kept_core [OF f(2)]] lives_pos [OF r(3)] by auto
  have "\<exists>s' m' st'. Range_loop n (visit step) (s, upd_mem es m) nx = Ok (s', m') \<and> map_rep m' ord st' \<and> hasher m' = hasher (upd_mem es m) \<and>
    (s', holding m') = walk step (entries (elements (upd_mem es m)) (lives (elements m) ord)) s (holding (upd_mem es m))"
    using f(4) assms(2) live_count_lives [OF r(3)] ok(2) by (intro Range_loop_ok [OF rep]) auto
  then show ?thesis using f(1) ent contents_core [OF f(2)] by (auto simp: Range_def)
qed

section \<open>Construction and growth\<close>

lemma make_index_big: "45 < n \<Longrightarrow> n < 64 \<Longrightarrow> make_index (2 ^ n) = Panic"
proof -
  assume n: "45 < n" "n < 64"
  have "(2 :: nat) ^ 45 < 2 ^ n" using n by (intro power_strict_increasing) auto
  then have "\<not> (2 :: uintptr) ^ n \<le> 0x200000000000" using n by (simp add: word_le_nat_alt unat_exp)
  then show ?thesis by (simp add: make_index_def)
qed

lemma least_power:
  assumes "i \<noteq> 0" "i \<le> 2 ^ 63"
  obtains n where "n < 64" "roundUpPower2 i = 2 ^ n" "unat i \<le> 2 ^ n" "\<And>m. unat i \<le> 2 ^ m \<Longrightarrow> n \<le> m"
proof -
  define n where "n = (LEAST n. unat i \<le> 2 ^ n)"
  have "unat i \<le> 2 ^ 63" using assms(2) by (simp add: word_le_nat_alt unat_exp)
  then have n: "n \<le> 63" "unat i \<le> 2 ^ n" unfolding n_def by (rule Least_le, rule LeastI)
  have l: "n \<le> m" if "unat i \<le> 2 ^ m" for m using that unfolding n_def by (rule Least_le)
  then show ?thesis using that [of n] n roundUpPower2_eq [OF assms(1), of n] by auto
qed

lemma bind_assoc: "bind_outcome (bind_outcome m f) g = bind_outcome m (\<lambda>x. bind_outcome (f x) g)"
  by (cases m) simp_all

text \<open>One round of \<open>grow\<close> to a power of two.\<close>

definition grow_round :: "('k, 'v) Map \<Rightarrow> uintptr \<Rightarrow> ('k, 'v) Map result" where
  "grow_round m newSize = bind_outcome (make_index newSize) (\<lambda>ix. bind_outcome (log2 newSize) (\<lambda>n.
     bind_outcome (fillIndexItems (elements m) \<lparr>keyShifts = 64 - n, filled = 0, index = ix\<rparr>) (\<lambda>(es, s).
     bind_outcome (fillIndexItems es s) (\<lambda>(es, s). Ok ((upd_mem es m)\<lparr>mstore := Some s\<rparr>)))))"

lemma grow_round_ok:
  assumes "lst_ok (hasher m) (linkedList m) ord" "n < 64"
  shows "if n \<le> 45 then \<exists>m' s. grow_round m (2 ^ n) = Ok m' \<and> map_rep m' ord s \<and> holding m' = holding m \<and> hasher m' = hasher m \<and>
      resizing m' = resizing m \<and> length (index s) = 2 ^ n
    else grow_round m (2 ^ n) = Panic"
proof (cases "n \<le> 45")
  case True
  obtain es1 s1 es' where r: "fillIndexItems (elements m) \<lparr>keyShifts = 64 - of_nat n, filled = 0, index = replicate (2 ^ n) None\<rparr> = Ok (es1, s1)"
      "fillIndexItems es1 s1 = Ok (es', s1)" "map_rep ((upd_mem es' m)\<lparr>mstore := Some s1\<rparr>) ord s1" "contents es' = holding m"
      "length (index s1) = 2 ^ n"
    using rebuild_ok [OF assms(1) True] by blast
  then show ?thesis using True make_index_exp [OF True] log2_exp [OF assms(2)] by (auto simp: grow_round_def)
next
  case False
  then show ?thesis using make_index_big [of n] assms(2) by (simp add: grow_round_def)
qed

lemma grow_loop_rep:
  assumes "lst_ok (hasher m) (linkedList m) ord" "newSize = 0 \<Longrightarrow> \<exists>s. map_rep m ord s" "newSize \<le> 2 ^ 63" "grow_loop f m newSize again = Ok m'"
  shows "(\<exists>s. map_rep m' ord s) \<and> holding m' = holding m \<and> hasher m' = hasher m"
  using assms
proof (induction f arbitrary: m newSize)
  case (Suc f)
  note pr = Suc.prems
  obtain n where n: "n < 64" "(if newSize = 0 then bind_outcome (or_panic (mstore m)) (\<lambda>s. Ok (push_bit 1 (of_nat (length (index s)))))
      else Ok (roundUpPower2 newSize)) = (Ok (2 ^ n) :: uintptr result)"
  proof (cases "newSize = 0")
    case True
    then obtain s where s: "mstore m = Some s" "shape s" using pr(2) by (auto simp: map_rep_def index_ok_def)
    then obtain n where "n \<le> 45" "length (index s) = 2 ^ n" by (auto simp: shape_def)
    then show ?thesis using that [of "Suc n"] True s(1) by (simp add: push_bit_eq_mult mult.commute)
  next
    case False
    then show ?thesis using that least_power [OF False pr(3)] by auto
  qed
  have run: "grow_loop (Suc f) m newSize again = bind_outcome (grow_round m (2 ^ n)) (\<lambda>m1.
      if \<not> again then Ok m1 else bind_outcome (isResizeNeeded (the (mstore m1)) (of_int (Len m1))) (\<lambda>needed. if \<not> needed then Ok m1 else grow_loop f m1 0 again))"
    unfolding grow_loop.simps n(2) bind_outcome.simps grow_round_def bind_assoc
    by (intro bind_outcome_cong refl) (auto simp: bind_assoc Let_def split: prod.split intro!: bind_outcome_cong)
  obtain m1 s where m1: "grow_round m (2 ^ n) = Ok m1" "map_rep m1 ord s" "holding m1 = holding m" "hasher m1 = hasher m"
    using grow_round_ok [OF pr(1) n(1)] pr(4) unfolding run by (cases "n \<le> 45") auto
  have "m' = m1 \<or> grow_loop f m1 0 again = Ok m'" using pr(4) m1(1) unfolding run by (auto simp: outcome_simps split: if_splits)
  then show ?case
  proof
    assume "grow_loop f m1 0 again = Ok m'"
    then show ?thesis using Suc.IH [of m1 0] m1 map_repD(2) [OF m1(2)] by auto
  qed (use m1 in auto)
qed simp

unbundle bit_operations_syntax

lemma lst_ok_new: "lst_ok h (NewList zero) []"
  by (auto simp: lst_ok_def list_ok_def NewList_def lives_def chain_def linked.simps)

lemma contents_new: "contents (mem (NewList zero)) = Map.empty"
  by (rule ext) (simp add: contents_def NewList_def)

lemma roundUpPower2_wraps:
  assumes "2 ^ 63 < i"
  shows "roundUpPower2 i = 0"
proof -
  define x where "x = i - 1"
  obtain y where y: "roundUpPower2 i = y + 1" "smeared 64 x y"
    using smear [of x] by (auto simp: roundUpPower2_def x_def Let_def)
  have i: "2 ^ 63 < unat i" using assms by (simp add: word_less_nat_alt unat_exp)
  then have "i \<noteq> 0" by auto
  then have "unat x = unat i - 1" by (simp add: x_def unat_minus_one)
  then have "2 ^ 63 \<le> unat x" "unat x < 2 * 2 ^ 63" using i unsigned_less [of x, where ?'a = nat] by auto
  then have "unat x div 2 ^ 63 = 1" by (intro div_nat_eqI) auto
  then have "bit x 63" by (simp add: bit_unat)
  then have "bit y j" if "j < 64" for j
    using that y(2) unfolding smeared_def by (auto intro!: exI [of _ "63 - j"])
  then have "y = -1" by (intro bit_eqI) auto
  then show ?thesis using y(1) by simp
qed

lemma log2_zero: "log2 0 = Ok 0"
  using log2_loop.simps(2) [of 64 0 0 1] by (simp add: log2_def)

lemma grow_round_zero:
  assumes "elements m = mem (NewList zero)"
  shows "\<exists>m' s. grow_round m 0 = Ok m' \<and> mstore m' = Some s \<and> index s = []"
  using assms by (simp add: grow_round_def make_index_def log2_zero fillIndexItems_def First_def NewList_def Next_def head_def)

lemma NewSized_eq:
  "(NewSized zero h sz :: ('k, 'v) Map result) = (if sz = 0 then Panic else
     bind_outcome (grow_round \<lparr>hasher = h, mstore = None, linkedList = NewList zero, resizing = True\<rparr> (roundUpPower2 sz))
       (\<lambda>m. Ok (m\<lparr>resizing := False\<rparr>)))"
proof -
  have "grow_loop (Suc f) m sz False = (if sz = 0 then Panic else grow_round m (roundUpPower2 sz))"
    if "mstore m = None" for f and m :: "('k, 'v) Map"
    using that by (auto simp: grow_round_def Let_def intro!: bind_outcome_cong)
  from this [of _ 63] show ?thesis by (simp add: NewSized_def allocate_def grow_def Let_def del: grow_loop.simps)
qed

lemma NewSized_ok:
  assumes "sz \<noteq> 0" "sz \<le> 2 ^ 45"
  shows "\<exists>(m :: ('k, 'v) Map) s n. NewSized zero h sz = Ok m \<and> map_rep m [] s \<and> holding m = Map.empty \<and> hasher m = h \<and> \<not> resizing m \<and>
    length (index s) = 2 ^ n \<and> unat sz \<le> 2 ^ n \<and> (\<forall>j. unat sz \<le> 2 ^ j \<longrightarrow> n \<le> j)"
proof -
  let ?m = "\<lparr>hasher = h, mstore = None, linkedList = NewList zero, resizing = True\<rparr> :: ('k, 'v) Map"
  have u: "unat sz \<le> 2 ^ 45" using assms(2) by (simp add: word_le_nat_alt)
  then have "sz \<le> 2 ^ 63" by (simp add: word_le_nat_alt)
  then obtain n where n: "n < 64" "roundUpPower2 sz = 2 ^ n" "unat sz \<le> 2 ^ n" "\<And>m. unat sz \<le> 2 ^ m \<Longrightarrow> n \<le> m"
    using least_power [OF assms(1)] by blast
  have "n \<le> 45" using n(4) [OF u] .
  then obtain m' s where "grow_round ?m (2 ^ n) = Ok m'" "map_rep m' [] s" "holding m' = holding ?m" "hasher m' = h" "length (index s) = 2 ^ n"
    using grow_round_ok [of ?m "[]" n] lst_ok_new [of h zero] n(1) by auto
  then show ?thesis using assms(1) n contents_new [of zero]
    by (auto simp: NewSized_eq map_rep_def intro!: exI [of _ n])
qed

lemma grow_task_rep:
  assumes "map_rep m ord s" "sz \<le> 2 ^ 63" "grow_task m sz = Ok m'"
  shows "(\<exists>s. map_rep m' ord s) \<and> holding m' = holding m \<and> hasher m' = hasher m"
proof (cases "resizing m")
  case True
  then obtain m1 where "grow_loop 64 m sz True = Ok m1" "m' = m1\<lparr>resizing := False\<rparr>"
    using assms(3) by (auto simp: grow_task_def grow_def outcome_simps simp del: grow_loop.simps)
  then show ?thesis using grow_loop_rep [OF map_repD(2) [OF assms(1)] _ assms(2)] assms(1) by (fastforce simp: map_rep_def)
next
  case False
  then show ?thesis using assms by (auto simp: grow_task_def)
qed

lemma holding_card:
  assumes "map_rep m ord s"
  shows "finite (dom (holding m))" "card (dom (holding m)) = length (lives (elements m) ord)"
proof -
  note e = entries_contents [OF map_repD(3) [OF assms]]
  have d: "dom (holding m) = fst ` set (entries (elements m) (lives (elements m) ord))"
    unfolding e(1) [symmetric] by (rule dom_map_of_conv_image_fst)
  show "finite (dom (holding m))" unfolding d by simp
  have "card (dom (holding m)) = length (map fst (entries (elements m) (lives (elements m) ord)))"
    unfolding d set_map [symmetric] by (rule distinct_card [OF e(2)])
  then show "card (dom (holding m)) = length (lives (elements m) ord)" by (simp add: entries_def)
qed

lemma Len_rep:
  assumes "map_rep m ord s" "card (dom (holding m)) < 2 ^ 63"
  shows "Len m = int (card (dom (holding m)))"
proof -
  have "count (linkedList m) = of_nat (card (dom (holding m)))"
    using assms(1) holding_card(2) [OF assms(1)] by (simp add: map_rep_def lst_ok_def)
  then show ?thesis using assms(2) by (simp add: Len_def List_Len_def signed_of_nat signed_take_bit_int_eq_self)
qed

section \<open>Runs\<close>

text \<open>
  \<open>reaches zero h m f\<close>: a map made with the hasher \<open>h\<close> is in state \<open>m\<close> after operations that leave a
  map of keys to values at \<open>f\<close>. The goroutine of \<open>Grow\<close> runs between two operations.
\<close>

inductive reaches :: "'k \<Rightarrow> ('k \<Rightarrow> uintptr) \<Rightarrow> ('k, 'v) Map \<Rightarrow> ('k \<Rightarrow> 'v option) \<Rightarrow> bool"
  for zero :: 'k and h :: "'k \<Rightarrow> uintptr" where
  reaches_new: "NewSized zero h sz = Ok m \<Longrightarrow> sz \<le> 2 ^ 63 \<Longrightarrow> reaches zero h m Map.empty"
| reaches_get: "reaches zero h m f \<Longrightarrow> Get m k = Ok (m', r) \<Longrightarrow> reaches zero h m' f"
| reaches_set: "reaches zero h m f \<Longrightarrow> Hashmap.Set m k v = Ok m' \<Longrightarrow> reaches zero h m' (f(k \<mapsto> v))"
| reaches_insert: "reaches zero h m f \<Longrightarrow> Insert m k v = Ok (m', r) \<Longrightarrow>
    reaches zero h m' (if f k = None then f(k \<mapsto> v) else f)"
| reaches_getorinsert: "reaches zero h m f \<Longrightarrow> GetOrInsert m k v = Ok (m', r) \<Longrightarrow>
    reaches zero h m' (if f k = None then f(k \<mapsto> v) else f)"
| reaches_del: "reaches zero h m f \<Longrightarrow> Del m k = Ok (m', r) \<Longrightarrow> reaches zero h m' (f(k := None))"
| reaches_Grow: "reaches zero h m f \<Longrightarrow> reaches zero h (Grow m) f"
| reaches_grow: "reaches zero h m f \<Longrightarrow> grow_task m sz = Ok m' \<Longrightarrow> sz \<le> 2 ^ 63 \<Longrightarrow> reaches zero h m' f"

lemma NewSized_inv:
  fixes m :: "('k, 'v) Map"
  assumes "NewSized zero h sz = Ok m" "sz \<le> 2 ^ 63"
  shows "(\<exists>s. map_rep m [] s) \<and> holding m = Map.empty \<and> hasher m = h"
proof -
  let ?m = "\<lparr>hasher = h, mstore = None, linkedList = NewList zero, resizing = True\<rparr> :: ('k, 'v) Map"
  have nz: "sz \<noteq> 0" using assms(1) by (auto simp: NewSized_eq)
  then obtain n where n: "n < 64" "roundUpPower2 sz = 2 ^ n" "unat sz \<le> 2 ^ n" using least_power [OF _ assms(2)] by blast
  have "grow_round ?m (2 ^ n) \<noteq> Panic" using assms(1) nz n(2) by (auto simp: NewSized_eq)
  moreover have l: "lst_ok (hasher ?m) (linkedList ?m) []" by (simp add: lst_ok_new)
  ultimately have "n \<le> 45" using grow_round_ok [OF l n(1)] by (auto split: if_splits)
  then have "(2 :: nat) ^ n \<le> 2 ^ 45" by (rule power_increasing) simp
  then have "unat sz \<le> 2 ^ 45" using n(3) by linarith
  then have "sz \<le> 2 ^ 45" by (simp add: word_le_nat_alt)
  then show ?thesis using NewSized_ok [OF nz, where zero = zero and h = h and ?'v = 'v] assms(1) by auto
qed

lemma reaches_rep: "reaches zero h m f \<Longrightarrow> (\<exists>ord s. map_rep m ord s) \<and> holding m = f \<and> hasher m = h"
proof (induction rule: reaches.induct)
  case (reaches_new sz m)
  then show ?case using NewSized_inv [OF reaches_new] by auto
next
  case (reaches_get m f k m' r)
  then obtain ord s where "map_rep m ord s" by blast
  from Get_rep [OF this, of k] obtain es where "Get m k = Ok (upd_mem es m, holding m k)" "core es = core (elements m)" "map_rep (upd_mem es m) ord s"
    by blast
  then show ?case using reaches_get contents_core [of es "elements m"] by auto
next
  case (reaches_set m f k v m')
  then obtain ord s where "map_rep m ord s" by blast
  from Set_rep [OF this, of k v] show ?case using reaches_set by auto
next
  case (reaches_insert m f k v m' r)
  then obtain ord s where "map_rep m ord s" by blast
  from Insert_rep(1) [OF this, of k v] show ?case using reaches_insert by auto
next
  case (reaches_getorinsert m f k v m' r)
  then obtain ord s where "map_rep m ord s" by blast
  from Insert_rep(2) [OF this, of k v] show ?case using reaches_getorinsert by auto
next
  case (reaches_del m f k m' r)
  then obtain ord s where "map_rep m ord s" by blast
  from Del_rep [OF this, of k] show ?case using reaches_del by (auto simp: del_result_def)
next
  case (reaches_Grow m f)
  then show ?case by (auto simp: Grow_def map_rep_def)
next
  case (reaches_grow m f sz m')
  then show ?case using grow_task_rep by blast
qed

lemma item_first:
  assumes "map_rep m ord s" "holding m k \<noteq> None"
  shows "\<exists>x. item s (hasher m k) = Ok (Some x) \<and> live (elements m) x \<and> 0 < x \<and> x < length (elements m) \<and>
    slot s (keyHash (elements m ! x)) = slot s (hasher m k) \<and> keyHash (elements m ! x) \<le> hasher m k"
proof -
  note r = map_repD [OF assms(1)]
  let ?L = "lives (elements m) ord" and ?i = "slot s (hasher m k)"
  obtain a where a: "a \<in> set ?L" "lkey (elements m ! a) = k" using contents_None [OF r(3), of k] assms(2) by blast
  then have ka: "keyHash (elements m ! a) = hasher m k" using r(3) by (auto simp: list_ok_def set_lives)
  have i: "?i < length (index s)" using r(4) slot_bound by (simp add: index_ok_def)
  have ab: "a \<in> set (bucket (hashes (elements m)) ?L s ?i)" using a(1) ka by (simp add: bucket_def)
  then obtain x ys where b: "bucket (hashes (elements m)) ?L s ?i = x # ys" by (cases "bucket (hashes (elements m)) ?L s ?i") auto
  have "bucket_ok (hashes (elements m)) ?L s ?i (index s ! ?i)" using r(4) i by (simp add: index_ok_def)
  then have p: "index s ! ?i = Some x" using b by (auto simp: bucket_ok_def split: option.splits)
  have x: "x \<in> set ?L" "slot s (keyHash (elements m ! x)) = ?i" using b by (auto simp: bucket_def dest: filter_eq_ConsD)
  have "sorted (map (hashes (elements m)) (bucket (hashes (elements m)) ?L s ?i))"
    using r(3) unfolding bucket_def by (simp add: list_ok_def sorted_filter)
  then have "keyHash (elements m ! x) \<le> hasher m k" using ab b ka by auto
  then show ?thesis using p i x lives_pos [OF r(3) x(1)] by (auto simp: item_def idx_def set_lives)
qed

lemma New_reaches: "\<exists>m :: ('k, 'v) Map. New zero h = Ok m \<and> reaches zero h m Map.empty"
proof -
  have "(8 :: uintptr) \<noteq> 0" "(8 :: uintptr) \<le> 2 ^ 45" by simp_all
  from NewSized_ok [OF this, of zero h] obtain m :: "('k, 'v) Map" where "NewSized zero h 8 = Ok m" by blast
  then show ?thesis using reaches_new [of zero h 8 m] by (simp add: New_def defaultSize_def)
qed

lemma Set_reaches:
  assumes "reaches zero h m f"
  shows "\<exists>m'. Hashmap.Set m k v = Ok m' \<and> reaches zero h m' (f(k \<mapsto> v))"
proof -
  obtain ord s where "map_rep m ord s" using reaches_rep [OF assms] by blast
  from Set_rep [OF this, of k v] show ?thesis using reaches_set [OF assms] by blast
qed

section \<open>Properties\<close>

text \<open>
  C25. Whatever operations run on a hash map, in any order and with the resizing goroutine at any point
  between them, its answers are those of a map of keys to values: \<open>Get\<close> returns the value stored last
  and not deleted since, \<open>Set\<close> never fails, \<open>Insert\<close> and \<open>GetOrInsert\<close> store only where there is no
  value, \<open>Del\<close> tells whether there was one, and \<open>Len\<close> is the number of keys. All loops end.
\<close>

theorem hashmap_refines:
  assumes "reaches zero h m f"
  shows "(\<exists>m'. Get m k = Ok (m', f k)) \<and> (\<exists>m'. Hashmap.Set m k v = Ok m') \<and> (\<exists>m'. Insert m k v = Ok (m', f k = None)) \<and>
    (\<exists>m'. GetOrInsert m k v = Ok (m', case f k of None \<Rightarrow> v | Some old \<Rightarrow> old, f k \<noteq> None)) \<and>
    (\<exists>m'. Del m k = Ok (m', f k \<noteq> None)) \<and> finite (dom f) \<and> (card (dom f) < 2 ^ 63 \<longrightarrow> Len m = int (card (dom f)))"
proof -
  obtain ord s where m: "map_rep m ord s" and f: "f = holding m" using reaches_rep [OF assms] by blast
  have "\<exists>m'. Get m k = Ok (m', f k)" unfolding f using Get_rep [OF m, of k] by (elim exE conjE) (rule exI)
  moreover have "\<exists>m'. Hashmap.Set m k v = Ok m'" using Set_rep [OF m, of k v] by blast
  moreover have "\<exists>m'. Insert m k v = Ok (m', f k = None)" unfolding f using Insert_rep(1) [OF m, of k v] by (elim exE conjE) (rule exI)
  moreover have "\<exists>m'. GetOrInsert m k v = Ok (m', case f k of None \<Rightarrow> v | Some old \<Rightarrow> old, f k \<noteq> None)"
    unfolding f using Insert_rep(2) [OF m, of k v] by (elim exE conjE) (rule exI)
  moreover have "\<exists>m'. Del m k = Ok (m', f k \<noteq> None)" unfolding f using Del_rep [OF m, of k] by (elim exE conjE) (rule exI)
  ultimately show ?thesis using Len_rep [OF m] holding_card(1) [OF m] f by simp
qed

theorem hashmap_refines_witness:
  "\<exists>m. bind_outcome (New 0 of_nat) (\<lambda>m. bind_outcome (Hashmap.Set m (1 :: nat) ''a'') (\<lambda>m. Hashmap.Set m 2 ''b'')) = Ok m \<and>
     (\<exists>m'. Get m 2 = Ok (m', Some ''b'')) \<and> (\<exists>m'. Del m 3 = Ok (m', False)) \<and> Len m = 2"
proof -
  obtain m0 :: "(nat, string) Map" where m0: "New 0 of_nat = Ok m0" "reaches 0 of_nat m0 Map.empty"
    using New_reaches [of 0 of_nat] by blast
  obtain m1 where m1: "Hashmap.Set m0 1 ''a'' = Ok m1" using hashmap_refines [OF m0(2)] by blast
  note r1 = reaches_set [OF m0(2) m1]
  obtain m2 where m2: "Hashmap.Set m1 2 ''b'' = Ok m2" using hashmap_refines [OF r1] by blast
  note r2 = reaches_set [OF r1 m2]
  have "dom [1 \<mapsto> ''a'', 2 \<mapsto> ''b''] = {1, 2 :: nat}" by auto
  then have "Len m2 = 2" using hashmap_refines [OF r2] by simp
  moreover have "\<exists>m'. Get m2 2 = Ok (m', Some ''b'')" "\<exists>m'. Del m2 3 = Ok (m', False)"
    using hashmap_refines [OF r2, of 2] hashmap_refines [OF r2, of 3] by auto
  ultimately show ?thesis using m0(1) m1 m2 by auto
qed

text \<open>
  C26. The index is always in step with the list: its length is a power of two, no hash leads outside
  of it, its slots hold elements of the list, and the slot of every stored key points at a live
  element of the same slot that does not come behind the key, so that the walk from there meets it.
\<close>

theorem hashmap_index:
  assumes "reaches zero h m f"
  shows "\<exists>s n. mstore m = Some s \<and> n \<le> 45 \<and> length (index s) = 2 ^ n \<and> unat (keyShifts s) = 64 - n \<and>
    (\<forall>hash. \<exists>p. item s hash = Ok p \<and> (\<forall>x. p = Some x \<longrightarrow> 0 < x \<and> x < length (elements m))) \<and>
    (\<forall>k. f k \<noteq> None \<longrightarrow> (\<exists>x. item s (h k) = Ok (Some x) \<and> live (elements m) x \<and>
       slot s (keyHash (elements m ! x)) = slot s (h k) \<and> keyHash (elements m ! x) \<le> h k))"
proof -
  obtain ord s where m: "map_rep m ord s" and f: "f = holding m" "hasher m = h" using reaches_rep [OF assms] by blast
  note r = map_repD [OF m]
  have sh: "shape s" using r(4) by (simp add: index_ok_def)
  have "\<exists>p. item s hash = Ok p \<and> (\<forall>x. p = Some x \<longrightarrow> 0 < x \<and> x < length (elements m))" for hash
    using r(4) slot_bound [OF sh, of hash] by (simp add: item_def idx_def index_ok_def)
  then show ?thesis using sh r(1) item_first [OF m] f unfolding shape_def by blast
qed

theorem hashmap_index_witness:
  "\<exists>(m :: (nat, string) Map) s. bind_outcome (New 0 of_nat) (\<lambda>m. Hashmap.Set m (1 :: nat) ''a'') = Ok m \<and> mstore m = Some s \<and>
     (\<exists>x. item s 1 = Ok (Some x) \<and> live (elements m) x)"
proof -
  obtain m0 :: "(nat, string) Map" where m0: "New 0 of_nat = Ok m0" "reaches 0 of_nat m0 Map.empty"
    using New_reaches [of 0 of_nat] by blast
  from Set_reaches [OF this(2)] obtain m1 where m1: "Hashmap.Set m0 1 ''a'' = Ok m1" "reaches 0 of_nat m1 [1 \<mapsto> ''a'']" by blast
  from hashmap_index [OF m1(2)] show ?thesis using m0(1) m1(1) by fastforce
qed

text \<open>
  C27. The resizing goroutine ends: while the map has at most 2 to the 43 keys and the index can still
  be doubled, \<open>grow\<close> returns, keeps the contents and leaves a longer index that is filled at most to
  \<open>maxFillRate\<close> percent, with the flag \<open>resizing\<close> cleared so that a later \<open>Set\<close> may start it again.
\<close>

theorem grow_task_returns:
  assumes "reaches zero h m f" "card (dom f) \<le> 2 ^ 43" "mstore m = Some s" "length (index s) \<le> 2 ^ 44" "resizing m"
  shows "\<exists>m' s'. grow_task m 0 = Ok m' \<and> reaches zero h m' f \<and> \<not> resizing m' \<and> mstore m' = Some s' \<and>
    length (index s) < length (index s') \<and> isResizeNeeded s' (of_nat (card (dom f))) = Ok False"
proof -
  obtain ord where m: "map_rep m ord s" and f: "f = holding m" using reaches_rep [OF assms(1)] assms(3) by (auto simp: map_rep_def)
  note r = map_repD [OF m]
  obtain n where n: "length (index s) = 2 ^ n" using r(4) by (auto simp: index_ok_def shape_def)
  have "n \<le> 44" using assms(4) unfolding n by (rule power_le_imp_le_exp [rotated]) simp
  moreover have "length (lives (elements m) ord) \<le> 2 ^ 43" using assms(2) holding_card(2) [OF m] f by simp
  ultimately obtain m' s' n' where g: "grow_loop 64 m 0 True = Ok m'" "map_rep m' ord s'" "holding m' = holding m" "hasher m' = hasher m"
      "length (index s') = 2 ^ n'" "n < n'" "n' \<le> 45" "(live_count (elements m') * 100) div 2 ^ n' \<le> 50"
    using grow_loop_ok [OF m n, of 64] by auto
  have t: "grow_task m 0 = Ok (m'\<lparr>resizing := False\<rparr>)" using g(1) assms(5) by (simp add: grow_task_def grow_def del: grow_loop.simps)
  have "live_count (elements m') = card (dom f)"
    using live_count_lives [OF map_repD(3) [OF g(2)]] holding_card(2) [OF g(2)] g(3) f by simp
  then have "isResizeNeeded s' (of_nat (card (dom f))) = Ok False"
    using isResizeNeeded_iff [OF _ g(5,7) assms(2)] g(2,8) by (simp add: map_rep_def index_ok_def)
  moreover have "length (index s) < length (index s')" using n g(5,6) by simp
  ultimately show ?thesis using t reaches_grow [OF assms(1) t] map_repD(1) [OF g(2)] by auto
qed

theorem grow_task_returns_witness:
  "\<exists>(m :: (nat, string) Map) m'. New 0 of_nat = Ok m \<and> grow_task (Grow m) 0 = Ok m' \<and> \<not> resizing m'"
proof -
  have "(8 :: uintptr) \<noteq> 0" "(8 :: uintptr) \<le> 2 ^ 45" by simp_all
  from NewSized_ok [OF this, of 0 of_nat] obtain m :: "(nat, string) Map" and s n where
    m: "New 0 of_nat = Ok m" "map_rep m [] s" "\<not> resizing m" and n: "length (index s) = 2 ^ n" "\<forall>j. unat (8 :: uintptr) \<le> 2 ^ j \<longrightarrow> n \<le> j"
    by (auto simp: New_def defaultSize_def)
  have "n \<le> 44" using n(2) [rule_format, of 44] by simp
  then have "length (index s) \<le> 2 ^ 44" unfolding n(1) by (rule power_increasing) simp
  moreover have "reaches 0 of_nat (Grow m) Map.empty" using reaches_Grow reaches_new [of 0 of_nat 8 m] m(1) by (simp add: New_def defaultSize_def)
  moreover have "mstore (Grow m) = Some s" "resizing (Grow m)" using m(2,3) by (simp_all add: Grow_def map_rep_def)
  ultimately show ?thesis using grow_task_returns [of 0 of_nat "Grow m" Map.empty s] m(1) by auto
qed

text \<open>
  C29. What \<open>NewSized\<close> makes of a size: none for 0; for a size up to 2 to the 45 an empty map with the
  least power of two as the length of its index; a panic in \<open>make\<close> up to 2 to the 63; and above that,
  where \<open>roundUpPower2\<close> wraps around to 0, a map with an empty index, for which every lookup leaves
  the index.
\<close>

theorem NewSized_cases:
  fixes zero :: 'k and h :: "'k \<Rightarrow> uintptr"
  shows "(NewSized zero h sz :: ('k, 'v) Map result) = Panic \<and> (sz = 0 \<or> 2 ^ 45 < sz \<and> sz \<le> 2 ^ 63) \<or>
    (\<exists>(m :: ('k, 'v) Map) s. NewSized zero h sz = Ok m \<and> mstore m = Some s \<and>
      (0 < sz \<and> sz \<le> 2 ^ 45 \<and> reaches zero h m Map.empty \<and> (\<exists>n. length (index s) = 2 ^ n \<and> unat sz \<le> 2 ^ n \<and> 2 ^ n < 2 * unat sz) \<or>
       2 ^ 63 < sz \<and> index s = [] \<and> (\<forall>k. Get m k = Panic)))"
proof -
  let ?m = "\<lparr>hasher = h, mstore = None, linkedList = NewList zero, resizing = True\<rparr> :: ('k, 'v) Map"
  consider "sz = 0" | "sz \<noteq> 0" "sz \<le> 2 ^ 45" | "2 ^ 45 < sz" "sz \<le> 2 ^ 63" | "2 ^ 63 < sz" by fastforce
  then show ?thesis
  proof cases
    case 1
    then show ?thesis by (simp add: NewSized_eq)
  next
    case 2
    obtain m :: "('k, 'v) Map" and s n where m: "NewSized zero h sz = Ok m" "map_rep m [] s" "length (index s) = 2 ^ n" "unat sz \<le> 2 ^ n"
        "\<And>j. unat sz \<le> 2 ^ j \<Longrightarrow> n \<le> j"
      using NewSized_ok [OF 2, of zero h] by blast
    have "2 ^ n < 2 * unat sz"
    proof (cases n)
      case 0
      have "0 < unat sz" using 2(1) by (simp add: unat_gt_0)
      then show ?thesis using 0 by simp
    next
      case (Suc j)
      then have "\<not> unat sz \<le> 2 ^ j" using m(5) [of j] by auto
      then show ?thesis using Suc by simp
    qed
    moreover have "reaches zero h m Map.empty" using m(1) 2(2) by (intro reaches_new [of zero h sz]) (auto simp: word_le_nat_alt)
    ultimately show ?thesis using m 2 map_repD(1) [OF m(2)] by (auto simp: word_gt_0)
  next
    case 3
    then have nz: "sz \<noteq> 0" by auto
    obtain n where n: "n < 64" "roundUpPower2 sz = 2 ^ n" "unat sz \<le> 2 ^ n" using least_power [OF nz 3(2)] by blast
    have "\<not> n \<le> 45"
    proof
      assume "n \<le> 45"
      then have "(2 :: nat) ^ n \<le> 2 ^ 45" by (rule power_increasing) simp
      then show False using 3(1) n(3) by (simp add: word_less_nat_alt)
    qed
    moreover have l: "lst_ok (hasher ?m) (linkedList ?m) []" by (simp add: lst_ok_new)
    ultimately show ?thesis using 3 nz n(2) grow_round_ok [OF l n(1)] by (simp add: NewSized_eq)
  next
    case 4
    then have "sz \<noteq> 0" by auto
    then show ?thesis using 4 roundUpPower2_wraps [OF 4] grow_round_zero [of ?m zero]
      by (auto simp: NewSized_eq Get_def item_def idx_def)
  qed
qed

text \<open>
  C28. \<open>Range\<close> visits every key once, in the order of the hashes, also when the callback deletes the
  keys it is given, and stops when the callback says so: the state of the caller and the contents of
  the map afterwards are those of a walk over a list of the entries.
\<close>

theorem Range_visits:
  assumes "reaches zero h m f" "card (dom f) < n"
  shows "\<exists>xs s' m'. Range n (visit step) (s, m) = Ok (s', m') \<and> map_of xs = f \<and> distinct (map fst xs) \<and>
    sorted (map (\<lambda>x. h (fst x)) xs) \<and> (s', holding m') = walk step xs s f \<and> map_ok m'"
proof -
  obtain ord st where m: "map_rep m ord st" and f: "f = holding m" "hasher m = h" using reaches_rep [OF assms(1)] by blast
  note r = map_repD [OF m]
  let ?xs = "entries (elements m) (lives (elements m) ord)"
  have "map (\<lambda>x. h (fst x)) ?xs = map (hashes (elements m)) (lives (elements m) ord)"
    using r(3) f(2) by (auto simp: entries_def list_ok_def set_lives)
  then have "sorted (map (\<lambda>x. h (fst x)) ?xs)" using r(3) by (simp add: list_ok_def)
  moreover have "live_count (elements m) < n" using assms(2) live_count_lives [OF r(3)] holding_card(2) [OF m] f by simp
  ultimately show ?thesis using Range_rep [OF m, of n step s] entries_contents [OF r(3)] f(1) unfolding map_ok_def by metis
qed

theorem Range_visits_witness:
  "\<exists>(m :: (nat, string) Map) s' m'. bind_outcome (New 0 of_nat) (\<lambda>m. Hashmap.Set m 1 ''a'') = Ok m \<and>
     Range 2 (visit (\<lambda>k v s. (k # s, True, True))) ([], m) = Ok (s', m') \<and> s' = [1] \<and> holding m' = Map.empty"
proof -
  obtain m0 :: "(nat, string) Map" where m0: "New 0 of_nat = Ok m0" "reaches 0 of_nat m0 Map.empty"
    using New_reaches [of 0 of_nat] by blast
  from Set_reaches [OF this(2)] obtain m1 where m1: "Hashmap.Set m0 1 ''a'' = Ok m1" "reaches 0 of_nat m1 [1 \<mapsto> ''a'']" by blast
  obtain xs s' m' where x: "Range 2 (visit (\<lambda>k v s. (k # s, True, True))) ([], m1) = Ok (s', m')" "map_of xs = [1 \<mapsto> ''a'']" "distinct (map fst xs)"
      "(s', holding m') = walk (\<lambda>k v s. (k # s, True, True)) xs [] [1 \<mapsto> ''a'']"
    using Range_visits [OF m1(2), of 2 "\<lambda>k v s. (k # s, True, True)" "[]"] by auto
  have "fst ` set xs = {1}" using x(2) dom_map_of_conv_image_fst [of xs] by simp
  then have "length xs = 1" using distinct_card [OF x(3)] by simp
  then obtain k v where "xs = [(k, v)]" by (metis One_nat_def length_0_conv length_Suc_conv surj_pair)
  then show ?thesis using x \<open>fst ` set xs = {1}\<close> m0(1) m1(1) by (auto simp: fun_eq_iff)
qed

end
