(* ===== verification/Hashmap_Hash.thy ===== *)
theory Hashmap_Hash
  imports Hashmap
begin

text \<open>
  The hash functions of \<open>src/pkg/hashmap/util_hash.go\<close>: 64-bit arithmetic that wraps around, and a
  string as its bytes. \<open>setDefaultHasher\<close> picks one by the kind of the key type.
\<close>

unbundle bit_operations_syntax

section \<open>Constants and rotations\<close>

definition prime1 :: "64 word" where "prime1 = 11400714785074694791"
definition prime2 :: "64 word" where "prime2 = 14029467366897019727"
definition prime3 :: "64 word" where "prime3 = 1609587929392839161"
definition prime4 :: "64 word" where "prime4 = 9650029242287828579"
definition prime5 :: "64 word" where "prime5 = 2870177450012600261"

definition RotateLeft64 :: "64 word \<Rightarrow> nat \<Rightarrow> 64 word" where
  "RotateLeft64 x k = word_rotl k x"

definition rol1 :: "64 word \<Rightarrow> 64 word" where "rol1 x = RotateLeft64 x 1"
definition rol7 :: "64 word \<Rightarrow> 64 word" where "rol7 x = RotateLeft64 x 7"
definition rol11 :: "64 word \<Rightarrow> 64 word" where "rol11 x = RotateLeft64 x 11"
definition rol12 :: "64 word \<Rightarrow> 64 word" where "rol12 x = RotateLeft64 x 12"
definition rol18 :: "64 word \<Rightarrow> 64 word" where "rol18 x = RotateLeft64 x 18"
definition rol23 :: "64 word \<Rightarrow> 64 word" where "rol23 x = RotateLeft64 x 23"
definition rol27 :: "64 word \<Rightarrow> 64 word" where "rol27 x = RotateLeft64 x 27"
definition rol31 :: "64 word \<Rightarrow> 64 word" where "rol31 x = RotateLeft64 x 31"

lemmas hash_consts = prime1_def prime2_def prime3_def prime4_def prime5_def
lemmas hash_rotations = RotateLeft64_def rol1_def rol7_def rol11_def rol12_def rol18_def rol23_def rol27_def rol31_def

text \<open>The final mix that ends every hash function.\<close>

definition avalanche :: "64 word \<Rightarrow> uintptr" where
  "avalanche h =
     (let h = h XOR drop_bit 33 h;
          h = h * prime2;
          h = h XOR drop_bit 29 h;
          h = h * prime3
      in h XOR drop_bit 32 h)"

section \<open>Keys of a fixed width\<close>

definition xxHashByte :: "8 word \<Rightarrow> uintptr" where
  "xxHashByte key =
     (let h = prime5 + 1;
          h = h XOR (ucast key * prime5);
          h = RotateLeft64 h 11 * prime1
      in avalanche h)"

definition xxHashWord :: "16 word \<Rightarrow> uintptr" where
  "xxHashWord key =
     (let h = prime5 + 2;
          h = h XOR ((ucast key AND 0xff) * prime5);
          h = RotateLeft64 h 11 * prime1;
          h = h XOR ((drop_bit 8 (ucast key) AND 0xff) * prime5);
          h = RotateLeft64 h 11 * prime1
      in avalanche h)"

definition xxHashDword :: "32 word \<Rightarrow> uintptr" where
  "xxHashDword key =
     (let h = prime5 + 4;
          h = h XOR (ucast key * prime1);
          h = RotateLeft64 h 23 * prime2 + prime3
      in avalanche h)"

text \<open>
  The hash functions of floating-point keys convert the key to an integer first. The type of the keys
  and the conversion \<open>uint64(key)\<close> are arguments.
\<close>

definition xxHashFloat32 :: "('f \<Rightarrow> 64 word) \<Rightarrow> 'f \<Rightarrow> uintptr" where
  "xxHashFloat32 uint64 key =
     (let h = prime5 + 4;
          h = h XOR (uint64 key * prime1);
          h = RotateLeft64 h 23 * prime2 + prime3
      in avalanche h)"

definition xxHashFloat64 :: "('f \<Rightarrow> 64 word) \<Rightarrow> 'f \<Rightarrow> uintptr" where
  "xxHashFloat64 uint64 key =
     (let h = prime5 + 4;
          h = h XOR (uint64 key * prime1);
          h = RotateLeft64 h 23 * prime2 + prime3
      in avalanche h)"

definition xxHashQword :: "64 word \<Rightarrow> uintptr" where
  "xxHashQword key =
     (let k1 = key * prime2;
          k1 = RotateLeft64 k1 31;
          k1 = k1 * prime1;
          h = (prime5 + 8) XOR k1;
          h = RotateLeft64 h 27 * prime1 + prime4
      in avalanche h)"

section \<open>Strings\<close>

definition round_hash :: "64 word \<Rightarrow> 64 word \<Rightarrow> 64 word" where
  "round_hash acc input = rol31 (acc + input * prime2) * prime1"

definition mergeRound :: "64 word \<Rightarrow> 64 word \<Rightarrow> 64 word" where
  "mergeRound acc val = (acc XOR round_hash 0 val) * prime1 + prime4"

text \<open>\<open>binary.LittleEndian\<close>; a slice of fewer bytes panics in Go and never occurs below.\<close>

definition uint64_byte :: "byte \<Rightarrow> 64 word" where
  "uint64_byte c = of_nat (of_char c)"

definition Uint64 :: "byte list \<Rightarrow> 64 word" where
  "Uint64 b = uint64_byte (b ! 0) OR push_bit 8 (uint64_byte (b ! 1)) OR push_bit 16 (uint64_byte (b ! 2)) OR
     push_bit 24 (uint64_byte (b ! 3)) OR push_bit 32 (uint64_byte (b ! 4)) OR push_bit 40 (uint64_byte (b ! 5)) OR
     push_bit 48 (uint64_byte (b ! 6)) OR push_bit 56 (uint64_byte (b ! 7))"

definition Uint32 :: "byte list \<Rightarrow> 64 word" where
  "Uint32 b = uint64_byte (b ! 0) OR push_bit 8 (uint64_byte (b ! 1)) OR push_bit 16 (uint64_byte (b ! 2)) OR
     push_bit 24 (uint64_byte (b ! 3))"

fun stripes :: "64 word \<times> 64 word \<times> 64 word \<times> 64 word \<Rightarrow> byte list \<Rightarrow> (64 word \<times> 64 word \<times> 64 word \<times> 64 word) \<times> byte list" where
  "stripes (v1, v2, v3, v4) b =
     (if 32 \<le> length b
      then stripes (round_hash v1 (Uint64 b), round_hash v2 (Uint64 (drop 8 b)),
             round_hash v3 (Uint64 (drop 16 b)), round_hash v4 (Uint64 (drop 24 b))) (drop 32 b)
      else ((v1, v2, v3, v4), b))"

fun eights :: "64 word \<Rightarrow> byte list \<Rightarrow> 64 word \<times> byte list" where
  "eights h b =
     (if 8 \<le> length b
      then eights (rol27 (h XOR round_hash 0 (Uint64 b)) * prime1 + prime4) (drop 8 b)
      else (h, b))"

fun ones :: "64 word \<Rightarrow> byte list \<Rightarrow> 64 word" where
  "ones h [] = h"
| "ones h (c # b) = ones (rol11 (h XOR (uint64_byte c * prime5)) * prime1) b"

definition xxHashString :: "byte list \<Rightarrow> uintptr" where
  "xxHashString key =
     (let (h, b) =
        (if 32 \<le> length key
         then case stripes (prime1 + prime2, prime2, 0, - prime1) key of ((v1, v2, v3, v4), b) \<Rightarrow>
           (mergeRound (mergeRound (mergeRound (mergeRound (rol1 v1 + rol7 v2 + rol12 v3 + rol18 v4) v1) v2) v3) v4, b)
         else (prime5, key));
        h = h + of_nat (length key);
        (h, b) = eights h b;
        (h, b) =
        (if 4 \<le> length b then (rol23 (h XOR (Uint32 b * prime1)) * prime2 + prime3, drop 4 b) else (h, b));
        h = ones h b
      in avalanche h)"

section \<open>The choice of a hash function\<close>

datatype Kind = KInt | KUint | KUintptr | KInt8 | KUint8 | KInt16 | KUint16 | KInt32 | KUint32 | KInt64 | KUint64
  | KFloat32 | KFloat64 | KString | KOther

datatype hash_function = HashByte | HashWord | HashDword | HashQword | HashFloat32 | HashFloat64 | HashString

definition intSizeBytes :: nat where
  "intSizeBytes = drop_bit 3 64"

definition int_hasher :: "hash_function result" where
  "int_hasher =
     (if intSizeBytes = 2 then Ok HashWord
      else if intSizeBytes = 4 then Ok HashDword
      else if intSizeBytes = 8 then Ok HashQword
      else Panic)"

definition setDefaultHasher :: "Kind \<Rightarrow> hash_function result" where
  "setDefaultHasher kind =
     (case kind of
        KInt \<Rightarrow> int_hasher | KUint \<Rightarrow> int_hasher | KUintptr \<Rightarrow> int_hasher
      | KInt8 \<Rightarrow> Ok HashByte | KUint8 \<Rightarrow> Ok HashByte
      | KInt16 \<Rightarrow> Ok HashWord | KUint16 \<Rightarrow> Ok HashWord
      | KInt32 \<Rightarrow> Ok HashDword | KUint32 \<Rightarrow> Ok HashDword
      | KInt64 \<Rightarrow> Ok HashQword | KUint64 \<Rightarrow> Ok HashQword
      | KFloat32 \<Rightarrow> Ok HashFloat32
      | KFloat64 \<Rightarrow> Ok HashFloat64
      | KString \<Rightarrow> Ok HashString
      | KOther \<Rightarrow> Panic)"

text \<open>The values that the tests of the package expect.\<close>

lemma hash_tests:
  "xxHashQword 1 = 0x9f29cb17a2a49995" "xxHashQword 2 = 0xeac73e4044e82db0"
  "xxHashDword 1 = 0xf42f94001fcb5351" "xxHashDword 2 = 0x277af360cedcb29e"
  "xxHashWord 1 = 0xdd8f621dbf7f57f1" "xxHashWord 0x102 = 0xfc2f33e9edde6f4a"
  "xxHashByte 1 = 0x8a4127811b21e730" "xxHashByte 2 = 0x4b79b8c95732b0e7"
  by code_simp+

lemma hash_test_strings:
  "xxHashString ''properunittesting'' = 0x6a1faf26e7da4cb9"
  "xxHashString ''longstringlongstringlongstringlongstring'' = 0x2d4ff7e12135f1f3"
  by code_simp+

unbundle bit_operations_syntax

section \<open>Injectivity\<close>

lemma xorshift_inj:
  fixes x y :: "64 word"
  assumes "0 < n" "x XOR drop_bit n x = y XOR drop_bit n y"
  shows "x = y"
proof (rule bit_eqI)
  have step: "bit x j = bit y j" if "bit x (n + j) = bit y (n + j)" for j
    using arg_cong [OF assms(2), of "\<lambda>z. bit z j"] that by (auto simp: bit_xor_iff bit_drop_bit_eq)
  have "bit x j = bit y j" for j
  proof (induction "64 - j" arbitrary: j rule: less_induct)
    case less
    show ?case
    proof (cases "j < 64")
      case True
      then show ?thesis using step less assms(1) by simp
    next
      case False
      then show ?thesis using bit_imp_le_length [of x j] bit_imp_le_length [of y j] by auto
    qed
  qed
  then show "bit x j \<longleftrightarrow> bit y j" for j .
qed

lemma mult_inj:
  fixes p q x y :: "64 word"
  assumes "x * p = y * p" "p * q = 1"
  shows "x = y"
  using arg_cong [OF assms(1), of "\<lambda>z. z * q"] assms(2) by (simp add: mult.assoc)

lemma prime_inverses:
  "prime1 * 614540362697595703 = 1" "prime2 * 839798700976720815 = 1"
  "prime3 * 16855272203555305545 = 1" "prime5 * 14236653164957433613 = 1"
  by (simp_all add: hash_consts)

lemmas prime_inj = mult_inj [OF _ prime_inverses(1)] mult_inj [OF _ prime_inverses(2)] mult_inj [OF _ prime_inverses(3)] mult_inj [OF _ prime_inverses(4)]

lemma RotateLeft64_inj: "RotateLeft64 x k = RotateLeft64 y k \<Longrightarrow> x = y"
  unfolding RotateLeft64_def by (drule arg_cong [of _ _ "word_rotr k"]) simp

lemma xor_inj: "(c :: 64 word) XOR x = c XOR y \<Longrightarrow> x = y"
  by (auto simp: bit_eq_iff bit_xor_iff)

lemma avalanche_inj: "avalanche x = avalanche y \<Longrightarrow> x = y"
  unfolding avalanche_def Let_def
  by (drule xorshift_inj [rotated], simp, drule prime_inj(3), drule xorshift_inj [rotated], simp, drule prime_inj(2), drule xorshift_inj [rotated], simp_all)

section \<open>Bytes of a word\<close>

definition le_byte :: "64 word \<Rightarrow> nat \<Rightarrow> byte" where
  "le_byte w i = char_of (unat (drop_bit (8 * i) w))"

text \<open>The first \<open>n\<close> bytes of a word in little-endian order.\<close>

definition le_bytes :: "nat \<Rightarrow> 64 word \<Rightarrow> byte list" where
  "le_bytes n w = map (le_byte w) [0..<n]"

lemma uint64_le_byte: "uint64_byte (le_byte w i) = take_bit 8 (drop_bit (8 * i) w)"
proof -
  have "of_char (le_byte w i) = take_bit 8 (unat (drop_bit (8 * i) w))" by (simp add: le_byte_def take_bit_eq_mod)
  then show ?thesis by (simp add: uint64_byte_def flip: unsigned_take_bit_eq)
qed

lemma byte_bit: "n = 8 * i \<Longrightarrow> bit (push_bit n (uint64_byte (le_byte w i))) j \<longleftrightarrow> n \<le> j \<and> j < n + 8 \<and> j < 64 \<and> bit w j"
  by (auto simp: uint64_le_byte bit_push_bit_iff bit_take_bit_iff bit_drop_bit_eq dest: bit_imp_le_length)

lemma byte_bit0: "bit (uint64_byte (le_byte w 0)) j \<longleftrightarrow> j < 8 \<and> bit w j"
  by (simp add: uint64_le_byte bit_take_bit_iff)

lemma le_bytes_expand:
  "le_bytes 8 w = map (le_byte w) [0, 1, 2, 3, 4, 5, 6, 7]" "le_bytes 4 w = map (le_byte w) [0, 1, 2, 3]"
  "le_bytes 2 w = map (le_byte w) [0, 1]" "le_bytes (Suc 0) w = [le_byte w 0]"
  by (simp_all add: le_bytes_def upt_rec eval_nat_numeral)

lemma Uint64_le: "Uint64 (le_bytes 8 w) = w"
proof (rule bit_eqI)
  fix j
  have "bit (Uint64 (le_bytes 8 w)) j \<longleftrightarrow> j < 64 \<and> bit w j"
    unfolding Uint64_def le_bytes_expand by (auto simp: bit_or_iff byte_bit byte_bit0)
  then show "bit (Uint64 (le_bytes 8 w)) j = bit w j" using bit_imp_le_length [of w j] by auto
qed

lemma Uint32_le: "Uint32 (le_bytes 4 w) = take_bit 32 w"
proof (rule bit_eqI)
  fix j
  show "bit (Uint32 (le_bytes 4 w)) j = bit (take_bit 32 w) j"
    unfolding Uint32_def le_bytes_expand by (auto simp: bit_or_iff byte_bit byte_bit0 bit_take_bit_iff)
qed

lemma take_bit_ucast:
  "take_bit 32 (ucast (k4 :: 32 word) :: 64 word) = ucast k4" "take_bit 8 (ucast (k1 :: 8 word) :: 64 word) = ucast k1"
  by (rule bit_eqI, auto simp: bit_take_bit_iff bit_unsigned_iff dest: bit_imp_le_length)+

lemma ucast_inj: "(ucast (x :: 32 word) :: 64 word) = ucast y \<Longrightarrow> x = y"
  by (auto simp: bit_eq_iff bit_unsigned_iff)

lemma take_bit_and: "take_bit 8 (x :: 64 word) = x AND 0xff"
  by (simp add: take_bit_eq_mask mask_eq_exp_minus_1)

section \<open>Properties\<close>

text \<open>
  C30. The hash functions for keys of one, two, four and eight bytes are the string hash of the bytes of
  the key, in little-endian order.
\<close>

theorem specialised_hashes:
  "xxHashQword k8 = xxHashString (le_bytes 8 k8) \<and> xxHashDword k4 = xxHashString (le_bytes 4 (ucast k4)) \<and>
   xxHashWord k2 = xxHashString (le_bytes 2 (ucast k2)) \<and> xxHashByte k1 = xxHashString (le_bytes 1 (ucast k1))"
proof (intro conjI)
  have l: "length (le_bytes n w) = n" for n w by (simp add: le_bytes_def)
  show "xxHashQword k8 = xxHashString (le_bytes 8 k8)"
    by (simp add: xxHashString_def l Uint64_le xxHashQword_def round_hash_def rol31_def rol27_def)
  show "xxHashDword k4 = xxHashString (le_bytes 4 (ucast k4))"
    by (simp add: xxHashString_def l Uint32_le xxHashDword_def rol23_def take_bit_ucast)
  show "xxHashWord k2 = xxHashString (le_bytes 2 (ucast k2))"
    by (simp add: xxHashString_def l xxHashWord_def rol11_def le_bytes_expand uint64_le_byte take_bit_and)
  show "xxHashByte k1 = xxHashString (le_bytes 1 (ucast k1))"
    by (simp add: xxHashString_def l xxHashByte_def rol11_def le_bytes_expand uint64_le_byte take_bit_ucast)
qed

text \<open>
  C31. Keys of four and of eight bytes never collide: their hash functions are injective. Keys of a
  floating-point type collide exactly when the conversion to an integer maps them to the same one.
\<close>

theorem hash_collisions:
  "inj xxHashQword \<and> inj xxHashDword \<and> (xxHashFloat32 uint64 x = xxHashFloat32 uint64 y \<longleftrightarrow> uint64 x = uint64 y) \<and>
   (xxHashFloat64 uint64 x = xxHashFloat64 uint64 y \<longleftrightarrow> uint64 x = uint64 y)"
proof (intro conjI injI)
  note inj = prime_inj RotateLeft64_inj xor_inj ucast_inj
  show "k = l" if "xxHashQword k = xxHashQword l" for k l
    using avalanche_inj [OF that [unfolded xxHashQword_def Let_def]] by (auto dest!: inj)
  show "k = l" if "xxHashDword k = xxHashDword l" for k l
    using avalanche_inj [OF that [unfolded xxHashDword_def Let_def]] by (auto dest!: inj)
  show "xxHashFloat32 uint64 x = xxHashFloat32 uint64 y \<longleftrightarrow> uint64 x = uint64 y"
    unfolding xxHashFloat32_def Let_def by (auto dest!: avalanche_inj inj)
  show "xxHashFloat64 uint64 x = xxHashFloat64 uint64 y \<longleftrightarrow> uint64 x = uint64 y"
    unfolding xxHashFloat64_def Let_def by (auto dest!: avalanche_inj inj)
qed

end
