(* ===== verification/Umap_Mapper.thy ===== *)
theory Umap_Mapper
  imports Hashmap_Correct "HOL-Library.AList" "HOL-Library.Multiset"
begin

text \<open>
  The mappers of \<open>src/umap\<close>: the interface \<open>Mapper\<close> of \<open>common.go\<close> as a record of operations, its
  two implementations \<open>Mmap\<close> (\<open>mmap.go\<close>) and \<open>Hmap\<close> (\<open>hmap.go\<close>), and the contract on which the
  caches and locks rest, as two locales that the implementations interpret.
\<close>

section \<open>The interface\<close>

text \<open>
  \<open>common.go\<close>. \<open>'s\<close> is the state of the mapper and \<open>'t\<close> the state of the caller of \<open>Range\<close>, whose
  callback may use the mapper again.
\<close>

record ('s, 'k, 'v, 't) Mapper =
  m_Load :: "'s \<Rightarrow> 'k \<Rightarrow> ('s \<times> 'v option) result"
  m_Set :: "'s \<Rightarrow> 'k \<Rightarrow> 'v \<Rightarrow> ('s \<times> 'v) result"
  m_Range :: "('k \<Rightarrow> 'v \<Rightarrow> 't \<times> 's \<Rightarrow> (('t \<times> 's) \<times> bool) result) \<Rightarrow> 't \<times> 's \<Rightarrow> ('t \<times> 's) result"
  m_Delete :: "'s \<Rightarrow> 'k \<Rightarrow> 's result"
  m_Len :: "'s \<Rightarrow> ('s \<times> int) result"
  m_Clean :: "'s \<Rightarrow> 's result"

section \<open>Mmap\<close>

text \<open>
  A Go map behind a lock. Taking the lock while it is held blocks for good, since nothing else runs:
  the outcome is \<open>Fuel\<close>. \<open>iter\<close> is the order in which the runtime walks the map.
\<close>

record RWMutex =
  writer :: bool
  readers :: nat

record ('k, 'v) Mmap =
  mm :: "('k \<times> 'v) list"
  ml :: RWMutex
  iter :: "('k \<times> 'v) list \<Rightarrow> ('k \<times> 'v) list"

definition Lock :: "('k, 'v) Mmap \<Rightarrow> ('k, 'v) Mmap result" where
  "Lock s = (if writer (ml s) \<or> readers (ml s) \<noteq> 0 then Fuel else Ok (s\<lparr>ml := (ml s)\<lparr>writer := True\<rparr>\<rparr>))"

definition Unlock :: "('k, 'v) Mmap \<Rightarrow> ('k, 'v) Mmap" where
  "Unlock s = s\<lparr>ml := (ml s)\<lparr>writer := False\<rparr>\<rparr>"

definition RLock :: "('k, 'v) Mmap \<Rightarrow> ('k, 'v) Mmap result" where
  "RLock s = (if writer (ml s) then Fuel else Ok (s\<lparr>ml := (ml s)\<lparr>readers := readers (ml s) + 1\<rparr>\<rparr>))"

definition RUnlock :: "('k, 'v) Mmap \<Rightarrow> ('k, 'v) Mmap" where
  "RUnlock s = s\<lparr>ml := (ml s)\<lparr>readers := readers (ml s) - 1\<rparr>\<rparr>"

definition NewMmap :: "(('k \<times> 'v) list \<Rightarrow> ('k \<times> 'v) list) \<Rightarrow> ('k, 'v) Mmap" where
  "NewMmap order = \<lparr>mm = [], ml = \<lparr>writer = False, readers = 0\<rparr>, iter = order\<rparr>"

definition Mmap_Load :: "('k, 'v) Mmap \<Rightarrow> 'k \<Rightarrow> (('k, 'v) Mmap \<times> 'v option) result" where
  "Mmap_Load s key = bind_outcome (RLock s) (\<lambda>s. let v = map_of (mm s) key in Ok (RUnlock s, v))"

definition Mmap_Get :: "'v \<Rightarrow> ('k, 'v) Mmap \<Rightarrow> 'k \<Rightarrow> (('k, 'v) Mmap \<times> 'v) result" where
  "Mmap_Get zero s key = bind_outcome (Mmap_Load s key) (\<lambda>(s, v). Ok (s, case v of None \<Rightarrow> zero | Some v \<Rightarrow> v))"

definition Mmap_GetOrSet :: "('k, 'v) Mmap \<Rightarrow> 'k \<Rightarrow> 'v \<Rightarrow> (('k, 'v) Mmap \<times> 'v \<times> bool) result" where
  "Mmap_GetOrSet s key val =
     bind_outcome (Mmap_Load s key) (\<lambda>(s, v).
     case v of
       Some v \<Rightarrow> Ok (s, v, False)
     | None \<Rightarrow> bind_outcome (Lock s) (\<lambda>s. Ok (Unlock (s\<lparr>mm := AList.update key val (mm s)\<rparr>), val, True)))"

definition Mmap_Set :: "('k, 'v) Mmap \<Rightarrow> 'k \<Rightarrow> 'v \<Rightarrow> (('k, 'v) Mmap \<times> 'v) result" where
  "Mmap_Set s key val = bind_outcome (Lock s) (\<lambda>s. Ok (Unlock (s\<lparr>mm := AList.update key val (mm s)\<rparr>), val))"

fun range_map :: "('k \<Rightarrow> 'v \<Rightarrow> 'a \<Rightarrow> ('a \<times> bool) result) \<Rightarrow> ('k \<times> 'v) list \<Rightarrow> 'a \<Rightarrow> 'a result" where
  "range_map f [] a = Ok a"
| "range_map f ((k, v) # xs) a = bind_outcome (f k v a) (\<lambda>(a, c). if \<not> c then Ok a else range_map f xs a)"

definition Mmap_Range :: "('k \<Rightarrow> 'v \<Rightarrow> 't \<times> ('k, 'v) Mmap \<Rightarrow> (('t \<times> ('k, 'v) Mmap) \<times> bool) result)
    \<Rightarrow> 't \<times> ('k, 'v) Mmap \<Rightarrow> ('t \<times> ('k, 'v) Mmap) result" where
  "Mmap_Range f ts =
     bind_outcome (Lock (snd ts)) (\<lambda>s.
     bind_outcome (range_map f (iter s (mm s)) (fst ts, s)) (\<lambda>(t, s). Ok (t, Unlock s)))"

definition Mmap_Delete :: "('k, 'v) Mmap \<Rightarrow> 'k \<Rightarrow> ('k, 'v) Mmap result" where
  "Mmap_Delete s key = bind_outcome (Lock s) (\<lambda>s. Ok (Unlock (s\<lparr>mm := AList.delete key (mm s)\<rparr>)))"

definition Mmap_Len :: "('k, 'v) Mmap \<Rightarrow> (('k, 'v) Mmap \<times> int) result" where
  "Mmap_Len s = bind_outcome (RLock s) (\<lambda>s. let n = int (length (mm s)) in Ok (RUnlock s, n))"

definition Mmap_Clean :: "('k, 'v) Mmap \<Rightarrow> ('k, 'v) Mmap result" where
  "Mmap_Clean s = bind_outcome (Lock s) (\<lambda>s. Ok (Unlock (s\<lparr>mm := []\<rparr>)))"

definition MmapMapper :: "(('k, 'v) Mmap, 'k, 'v, 't) Mapper" where
  "MmapMapper = \<lparr>m_Load = Mmap_Load, m_Set = Mmap_Set, m_Range = Mmap_Range, m_Delete = Mmap_Delete,
     m_Len = Mmap_Len, m_Clean = Mmap_Clean\<rparr>"

section \<open>Hmap\<close>

text \<open>
  The lock-free hash map. The fuel of \<open>Range\<close> is enough for every callback that stores no new keys.
\<close>

definition NewHmap :: "'k \<Rightarrow> ('k \<Rightarrow> uintptr) \<Rightarrow> ('k, 'v) Map result" where
  "NewHmap zero h = Hashmap.New zero h"

definition Hmap_Load :: "('k, 'v) Map \<Rightarrow> 'k \<Rightarrow> (('k, 'v) Map \<times> 'v option) result" where
  "Hmap_Load m key = Hashmap.Get m key"

definition Hmap_Get :: "'v \<Rightarrow> ('k, 'v) Map \<Rightarrow> 'k \<Rightarrow> (('k, 'v) Map \<times> 'v) result" where
  "Hmap_Get zero m key = bind_outcome (Hmap_Load m key) (\<lambda>(m, v). Ok (m, case v of None \<Rightarrow> zero | Some v \<Rightarrow> v))"

definition Hmap_GetOrSet :: "('k, 'v) Map \<Rightarrow> 'k \<Rightarrow> 'v \<Rightarrow> (('k, 'v) Map \<times> 'v \<times> bool) result" where
  "Hmap_GetOrSet m key val = GetOrInsert m key val"

definition Hmap_Set :: "('k, 'v) Map \<Rightarrow> 'k \<Rightarrow> 'v \<Rightarrow> (('k, 'v) Map \<times> 'v) result" where
  "Hmap_Set m key val = bind_outcome (Hashmap.Set m key val) (\<lambda>m. Ok (m, val))"

definition Hmap_Range :: "('k \<Rightarrow> 'v \<Rightarrow> 't \<times> ('k, 'v) Map \<Rightarrow> (('t \<times> ('k, 'v) Map) \<times> bool) result)
    \<Rightarrow> 't \<times> ('k, 'v) Map \<Rightarrow> ('t \<times> ('k, 'v) Map) result" where
  "Hmap_Range f tm = Hashmap.Range (length (mem (linkedList (snd tm))) + 1) f tm"

definition Hmap_Delete :: "('k, 'v) Map \<Rightarrow> 'k \<Rightarrow> ('k, 'v) Map result" where
  "Hmap_Delete m key = bind_outcome (Del m key) (\<lambda>(m, b). Ok m)"

definition Hmap_Len :: "('k, 'v) Map \<Rightarrow> (('k, 'v) Map \<times> int) result" where
  "Hmap_Len m = Ok (m, Len m)"

definition Hmap_Clean :: "'k \<Rightarrow> ('k \<Rightarrow> uintptr) \<Rightarrow> ('k, 'v) Map \<Rightarrow> ('k, 'v) Map result" where
  "Hmap_Clean zero h m = Hashmap.New zero h"

definition HmapMapper :: "'k \<Rightarrow> ('k \<Rightarrow> uintptr) \<Rightarrow> (('k, 'v) Map, 'k, 'v, 't) Mapper" where
  "HmapMapper zero h = \<lparr>m_Load = Hmap_Load, m_Set = Hmap_Set, m_Range = Hmap_Range, m_Delete = Hmap_Delete,
     m_Len = Hmap_Len, m_Clean = Hmap_Clean zero h\<rparr>"

section \<open>The contract\<close>

text \<open>A callback that leaves the mapper alone, and what it does along the entries.\<close>

definition view :: "('k \<Rightarrow> 'v \<Rightarrow> 't \<Rightarrow> 't \<times> bool) \<Rightarrow> 'k \<Rightarrow> 'v \<Rightarrow> 't \<times> 's \<Rightarrow> (('t \<times> 's) \<times> bool) result" where
  "view step k v ts = (case step k v (fst ts) of (t, c) \<Rightarrow> Ok ((t, snd ts), c))"

fun glance :: "('k \<Rightarrow> 'v \<Rightarrow> 't \<Rightarrow> 't \<times> bool) \<Rightarrow> ('k \<times> 'v) list \<Rightarrow> 't \<Rightarrow> 't" where
  "glance step [] t = t"
| "glance step ((k, v) # xs) t = (case step k v t of (t, c) \<Rightarrow> if \<not> c then t else glance step xs t)"

text \<open>A callback that may delete the entry it is given.\<close>

definition prune :: "('s, 'k, 'v, 't) Mapper \<Rightarrow> ('k \<Rightarrow> 'v \<Rightarrow> 't \<Rightarrow> 't \<times> bool \<times> bool) \<Rightarrow> 'k \<Rightarrow> 'v \<Rightarrow> 't \<times> 's \<Rightarrow> (('t \<times> 's) \<times> bool) result" where
  "prune M step k v ts = (case step k v (fst ts) of (t, d, c) \<Rightarrow>
     if d then bind_outcome (m_Delete M (snd ts) k) (\<lambda>s. Ok ((t, s), c)) else Ok ((t, snd ts), c))"

text \<open>
  What the users of a mapper rely on: it stands for a map of keys to values, and a callback of \<open>Range\<close>
  that does not use the mapper sees every entry once.
\<close>

locale mapper =
  fixes M :: "('s, 'k, 'v, 't) Mapper" and ok :: "'s \<Rightarrow> bool" and val :: "'s \<Rightarrow> 'k \<Rightarrow> 'v option"
  assumes Load: "ok s \<Longrightarrow> \<exists>s'. m_Load M s k = Ok (s', val s k) \<and> ok s' \<and> val s' = val s"
    and Set: "ok s \<Longrightarrow> \<exists>s'. m_Set M s k v = Ok (s', v) \<and> ok s' \<and> val s' = (val s)(k \<mapsto> v)"
    and Delete: "ok s \<Longrightarrow> \<exists>s'. m_Delete M s k = Ok s' \<and> ok s' \<and> val s' = (val s)(k := None)"
    and Clean: "ok s \<Longrightarrow> \<exists>s'. m_Clean M s = Ok s' \<and> ok s' \<and> val s' = Map.empty"
    and Len: "ok s \<Longrightarrow> finite (dom (val s)) \<and>
      (card (dom (val s)) < 2 ^ 63 \<longrightarrow> (\<exists>s'. m_Len M s = Ok (s', int (card (dom (val s)))) \<and> ok s' \<and> val s' = val s))"
    and Range_view: "ok s \<Longrightarrow> \<exists>xs s'. m_Range M (view look) (t, s) = Ok (glance look xs t, s') \<and> ok s' \<and> val s' = val s \<and>
      map_of xs = val s \<and> distinct (map fst xs)"

text \<open>A mapper whose \<open>Range\<close> lets the callback delete the entry at hand.\<close>

locale mapper_reentrant = mapper +
  assumes Range_prune: "ok s \<Longrightarrow> \<exists>xs s' t'. m_Range M (prune M step) (t, s) = Ok (t', s') \<and> ok s' \<and>
    (t', val s') = walk step xs t (val s) \<and> map_of xs = val s \<and> distinct (map fst xs)"

section \<open>Walks that delete\<close>

definition pruned :: "('k \<Rightarrow> 'v \<Rightarrow> bool) \<Rightarrow> ('k \<Rightarrow> 'v option) \<Rightarrow> 'k \<Rightarrow> 'v option" where
  "pruned del f k = (case f k of None \<Rightarrow> None | Some v \<Rightarrow> if del k v then None else Some v)"

lemma pruned_all: "pruned (\<lambda>_ _. True) f = Map.empty"
  by (auto simp: pruned_def fun_eq_iff split: option.split)

definition sweeps :: "('k \<Rightarrow> 'v \<Rightarrow> 't \<Rightarrow> 't \<times> bool \<times> bool) \<Rightarrow> ('k \<Rightarrow> 'v \<Rightarrow> bool) \<Rightarrow> bool" where
  "sweeps step del \<longleftrightarrow> (\<forall>k v t. snd (step k v t) = (del k v, True))"

lemma walk_sweep:
  assumes "sweeps step del" "distinct (map fst xs)"
  shows "walk step xs t f = (fold (\<lambda>(k, v) t. fst (step k v t)) xs t,
    \<lambda>k. case map_of xs k of None \<Rightarrow> f k | Some v \<Rightarrow> if del k v then None else f k)"
  using assms(2)
proof (induction xs arbitrary: t f)
  case (Cons x xs)
  obtain k v where x: "x = (k, v)" by (cases x)
  have st: "step k v t = (fst (step k v t), del k v, True)" using assms(1) by (metis prod.collapse sweeps_def)
  have "map_of xs k = None" using Cons.prems x by (simp add: map_of_eq_None_iff)
  then show ?case using Cons x by (subst x, subst walk.simps, subst st) (auto simp: Let_def fun_eq_iff split: option.split)
qed simp

lemma walk_pruned:
  assumes "sweeps step del" "distinct (map fst xs)"
  shows "walk step xs t (map_of xs) = (fold (\<lambda>(k, v) t. fst (step k v t)) xs t, pruned del (map_of xs))"
  unfolding walk_sweep [OF assms] by (auto simp: pruned_def fun_eq_iff split: option.split)

context mapper_reentrant
begin

lemma Range_sweep:
  assumes "ok s" "sweeps step del"
  shows "\<exists>xs s'. m_Range M (prune M step) (t, s) = Ok (fold (\<lambda>(k, v) t. fst (step k v t)) xs t, s') \<and> ok s' \<and>
    val s' = pruned del (val s) \<and> map_of xs = val s \<and> distinct (map fst xs)"
proof -
  obtain xs s' t' where r: "m_Range M (prune M step) (t, s) = Ok (t', s')" "ok s'" "(t', val s') = walk step xs t (val s)"
      "map_of xs = val s" "distinct (map fst xs)"
    using Range_prune [OF assms(1)] by blast
  show ?thesis using r walk_pruned [OF assms(2) r(5), of t] by auto
qed

end

section \<open>Mmap keeps the contract\<close>

definition mmap_ok :: "('k, 'v) Mmap \<Rightarrow> bool" where
  "mmap_ok s \<longleftrightarrow> distinct (map fst (mm s)) \<and> \<not> writer (ml s) \<and> readers (ml s) = 0 \<and> (\<forall>xs. mset (iter s xs) = mset xs)"

lemma Mmap_locks:
  assumes "mmap_ok s"
  shows "Lock s = Ok (s\<lparr>ml := (ml s)\<lparr>writer := True\<rparr>\<rparr>)" "RLock s = Ok (s\<lparr>ml := (ml s)\<lparr>readers := Suc 0\<rparr>\<rparr>)"
  using assms by (auto simp: Lock_def RLock_def mmap_ok_def)

lemma mmap_ok_update [simp]:
  "mmap_ok s \<Longrightarrow> distinct (map fst xs) \<Longrightarrow> mmap_ok (Unlock (s\<lparr>ml := (ml s)\<lparr>writer := True\<rparr>, mm := xs\<rparr>))"
  "mmap_ok s \<Longrightarrow> mmap_ok (Unlock (s\<lparr>ml := (ml s)\<lparr>writer := True\<rparr>\<rparr>))"
  "mmap_ok s \<Longrightarrow> mmap_ok (RUnlock (s\<lparr>ml := (ml s)\<lparr>readers := Suc 0\<rparr>\<rparr>))"
  by (simp_all add: mmap_ok_def Unlock_def RUnlock_def)

lemma mm_unlock [simp]: "mm (Unlock s) = mm s" "mm (RUnlock s) = mm s"
  by (simp_all add: Unlock_def RUnlock_def)

lemma range_view: "range_map (view look) xs (t, s) = Ok (glance look xs t, s)"
  by (induction xs arbitrary: t) (auto simp: view_def split: prod.split)

lemma map_of_perm:
  assumes "mset ys = mset xs" "distinct (map fst xs)"
  shows "map_of ys = map_of xs" "distinct (map fst ys)"
proof -
  have "mset (map fst ys) = mset (map fst xs)" using assms(1) by (metis mset_map)
  then show d: "distinct (map fst ys)" using assms(2) mset_eq_imp_distinct_iff by blast
  show "map_of ys = map_of xs"
    using assms d mset_eq_setD [OF assms(1)] by (metis map_of_inject_set)
qed

interpretation mmap: mapper MmapMapper mmap_ok "\<lambda>s. map_of (mm s)"
proof
  fix s :: "('k, 'v) Mmap" and k v and look :: "'k \<Rightarrow> 'v \<Rightarrow> 't \<Rightarrow> 't \<times> bool" and t
  assume s: "mmap_ok s"
  note l = Mmap_locks [OF s]
  have d: "distinct (map fst (mm s))" using s by (simp add: mmap_ok_def)
  show "\<exists>s'. m_Load MmapMapper s k = Ok (s', map_of (mm s) k) \<and> mmap_ok s' \<and> map_of (mm s') = map_of (mm s)"
    using s l by (simp add: MmapMapper_def Mmap_Load_def)
  show "\<exists>s'. m_Set MmapMapper s k v = Ok (s', v) \<and> mmap_ok s' \<and> map_of (mm s') = (map_of (mm s))(k \<mapsto> v)"
    using s l d by (simp add: MmapMapper_def Mmap_Set_def update_conv' distinct_update)
  show "\<exists>s'. m_Delete MmapMapper s k = Ok s' \<and> mmap_ok s' \<and> map_of (mm s') = (map_of (mm s))(k := None)"
    using s l d by (simp add: MmapMapper_def Mmap_Delete_def delete_conv' distinct_delete)
  show "\<exists>s'. m_Clean MmapMapper s = Ok s' \<and> mmap_ok s' \<and> map_of (mm s') = Map.empty"
    using s l by (simp add: MmapMapper_def Mmap_Clean_def)
  have "card (dom (map_of (mm s))) = length (mm s)"
    using distinct_card [OF d] by (simp add: dom_map_of_conv_image_fst)
  then show "finite (dom (map_of (mm s))) \<and> (card (dom (map_of (mm s))) < 2 ^ 63 \<longrightarrow>
    (\<exists>s'. m_Len MmapMapper s = Ok (s', int (card (dom (map_of (mm s))))) \<and> mmap_ok s' \<and> map_of (mm s') = map_of (mm s)))"
    using s l by (simp add: MmapMapper_def Mmap_Len_def finite_dom_map_of)
  have p: "mset (iter s (mm s)) = mset (mm s)" using s by (simp add: mmap_ok_def)
  show "\<exists>xs s'. m_Range MmapMapper (view look) (t, s) = Ok (glance look xs t, s') \<and> mmap_ok s' \<and> map_of (mm s') = map_of (mm s) \<and>
      map_of xs = map_of (mm s) \<and> distinct (map fst xs)"
    using s l map_of_perm [OF p d]
    by (intro exI [of _ "iter s (mm s)"] exI [of _ "Unlock (s\<lparr>ml := (ml s)\<lparr>writer := True\<rparr>\<rparr>)"]) (simp add: MmapMapper_def Mmap_Range_def range_view)
qed

section \<open>Hmap keeps it also for callbacks that delete\<close>

definition hmap_ok :: "('k \<Rightarrow> uintptr) \<Rightarrow> ('k, 'v) Map \<Rightarrow> bool" where
  "hmap_ok h m \<longleftrightarrow> map_ok m \<and> hasher m = h"

lemma prune_visit: "prune (HmapMapper zero h) step = visit step"
  by (intro ext) (auto simp: prune_def visit_def HmapMapper_def Hmap_Delete_def bind_assoc split: prod.split intro!: bind_outcome_cong)

lemma view_visit: "view look = visit (\<lambda>k v t. case look k v t of (t, c) \<Rightarrow> (t, False, c))"
  by (intro ext) (auto simp: view_def visit_def split: prod.split)

lemma walk_view: "walk (\<lambda>k v t. case look k v t of (t, c) \<Rightarrow> (t, False, c)) xs t f = (glance look xs t, f)"
  by (induction xs arbitrary: t) (auto split: prod.split)

lemma Hmap_Range_visit:
  assumes "hmap_ok h s"
  shows "\<exists>xs s' t'. Hmap_Range (visit step) (t, s) = Ok (t', s') \<and> hmap_ok h s' \<and>
    (t', holding s') = walk step xs t (holding s) \<and> map_of xs = holding s \<and> distinct (map fst xs)"
proof -
  obtain ord st where m: "map_rep s ord st" and h: "hasher s = h" using assms by (auto simp: hmap_ok_def map_ok_def)
  note r = map_repD [OF m]
  have n: "live_count (elements s) < length (elements s) + 1"
    using live_count_lives [OF r(3)] lives_length [OF r(3)] by simp
  show ?thesis using Range_rep [OF m n, of step t] entries_contents [OF r(3)] h unfolding Hmap_Range_def hmap_ok_def map_ok_def by fastforce
qed

lemma hmap_okE:
  assumes "hmap_ok h s"
  obtains ord st where "map_rep s ord st" "hasher s = h"
  using assms by (auto simp: hmap_ok_def map_ok_def)

lemma hmap_okI: "map_rep s ord st \<Longrightarrow> hasher s = h \<Longrightarrow> hmap_ok h s"
  by (auto simp: hmap_ok_def map_ok_def)

lemma reaches_hmap: "reaches zero h m f \<Longrightarrow> hmap_ok h m \<and> holding m = f"
  using reaches_rep [of zero h m f] by (auto simp: hmap_ok_def map_ok_def)

lemma Hmap_laws:
  assumes "hmap_ok h s"
  shows "\<exists>s'. Hmap_Load s k = Ok (s', holding s k) \<and> hmap_ok h s' \<and> holding s' = holding s"
    "\<exists>s'. Hmap_Set s k v = Ok (s', v) \<and> hmap_ok h s' \<and> holding s' = (holding s)(k \<mapsto> v)"
    "\<exists>s'. Hmap_Delete s k = Ok s' \<and> hmap_ok h s' \<and> holding s' = (holding s)(k := None)"
proof -
  obtain ord st where m: "map_rep s ord st" "hasher s = h" using hmap_okE [OF assms] .
  show "\<exists>s'. Hmap_Load s k = Ok (s', holding s k) \<and> hmap_ok h s' \<and> holding s' = holding s"
  proof -
    obtain es where "Hashmap.Get s k = Ok (upd_mem es s, holding s k)" "core es = core (elements s)" "map_rep (upd_mem es s) ord st"
      using Get_rep [OF m(1), of k] by blast
    then show ?thesis using contents_core [of es "elements s"] m(2) by (auto simp: Hmap_Load_def intro: hmap_okI)
  qed
  show "\<exists>s'. Hmap_Set s k v = Ok (s', v) \<and> hmap_ok h s' \<and> holding s' = (holding s)(k \<mapsto> v)"
    using Set_rep [OF m(1), of k v] m(2) by (auto simp: Hmap_Set_def intro: hmap_okI)
  show "\<exists>s'. Hmap_Delete s k = Ok s' \<and> hmap_ok h s' \<and> holding s' = (holding s)(k := None)"
    using Del_rep [OF m(1), of k] m(2) by (auto simp: Hmap_Delete_def del_result_def intro: hmap_okI)
qed

interpretation hmap: mapper_reentrant "HmapMapper zero h :: (('k, 'v) Map, 'k, 'v, 't) Mapper" "hmap_ok h" "\<lambda>m. holding m"
  for zero :: 'k and h :: "'k \<Rightarrow> uintptr"
proof
  fix s :: "('k, 'v) Map" and k v and look :: "'k \<Rightarrow> 'v \<Rightarrow> 't \<Rightarrow> 't \<times> bool" and t and step :: "'k \<Rightarrow> 'v \<Rightarrow> 't \<Rightarrow> 't \<times> bool \<times> bool"
  assume s: "hmap_ok h s"
  note laws = Hmap_laws [OF s]
  show "\<exists>s'. m_Load (HmapMapper zero h) s k = Ok (s', holding s k) \<and> hmap_ok h s' \<and> holding s' = holding s"
    using laws(1) by (simp add: HmapMapper_def)
  show "\<exists>s'. m_Set (HmapMapper zero h) s k v = Ok (s', v) \<and> hmap_ok h s' \<and> holding s' = (holding s)(k \<mapsto> v)"
    using laws(2) by (simp add: HmapMapper_def)
  show "\<exists>s'. m_Delete (HmapMapper zero h) s k = Ok s' \<and> hmap_ok h s' \<and> holding s' = (holding s)(k := None)"
    using laws(3) by (simp add: HmapMapper_def)
  show "\<exists>s'. m_Clean (HmapMapper zero h) s = Ok s' \<and> hmap_ok h s' \<and> holding s' = Map.empty"
    using New_reaches [of zero h] reaches_hmap [of zero h] by (auto simp: HmapMapper_def Hmap_Clean_def)
  obtain ord st where m: "map_rep s ord st" using hmap_okE [OF s] .
  show "finite (dom (holding s)) \<and> (card (dom (holding s)) < 2 ^ 63 \<longrightarrow>
    (\<exists>s'. m_Len (HmapMapper zero h) s = Ok (s', int (card (dom (holding s)))) \<and> hmap_ok h s' \<and> holding s' = holding s))"
    using holding_card(1) [OF m] Len_rep [OF m] s by (simp add: HmapMapper_def Hmap_Len_def)
  show "\<exists>xs s'. m_Range (HmapMapper zero h) (view look) (t, s) = Ok (glance look xs t, s') \<and> hmap_ok h s' \<and> holding s' = holding s \<and>
      map_of xs = holding s \<and> distinct (map fst xs)"
    using Hmap_Range_visit [OF s, of "\<lambda>k v t. case look k v t of (t, c) \<Rightarrow> (t, False, c)" t] unfolding view_visit walk_view
    by (auto simp: HmapMapper_def)
  show "\<exists>xs s' t'. m_Range (HmapMapper zero h) (prune (HmapMapper zero h) step) (t, s) = Ok (t', s') \<and> hmap_ok h s' \<and>
    (t', holding s') = walk step xs t (holding s) \<and> map_of xs = holding s \<and> distinct (map fst xs)"
    unfolding prune_visit using Hmap_Range_visit [OF s] by (simp add: HmapMapper_def)
qed

text \<open>
  A callback that deletes from an \<open>Mmap\<close> under \<open>Range\<close> waits for a lock that \<open>Range\<close> itself holds.
\<close>

lemma prune_blocks:
  assumes "writer (ml s)" "\<forall>(k, v) \<in> set xs. \<forall>t. \<exists>t'. step k v t = (t', del k v, True)"
  shows "if \<exists>(k, v) \<in> set xs. del k v then range_map (prune MmapMapper step) xs (t, s) = Fuel
    else \<exists>t'. range_map (prune MmapMapper step) xs (t, s) = Ok (t', s)"
  using assms(2)
proof (induction xs arbitrary: t)
  case (Cons x xs)
  obtain k v where x: "x = (k, v)" by (cases x)
  have "\<exists>t'. step k v t = (t', del k v, True)" using Cons.prems x by simp
  then obtain t' where "step k v t = (t', del k v, True)" ..
  then have "prune MmapMapper step k v (t, s) = (if del k v then Fuel else Ok ((t', s), True))"
    using assms(1) by (simp add: prune_def MmapMapper_def Mmap_Delete_def Lock_def)
  then show ?case using Cons.IH [of t'] Cons.prems x by (auto split: if_splits)
qed simp

lemma Mmap_Range_prune_blocks:
  assumes "mmap_ok s" "\<And>k v t. \<exists>t'. step k v t = (t', del k v, True)" "map_of (mm s) k = Some v" "del k v"
  shows "Mmap_Range (prune MmapMapper step) (t, s) = Fuel"
proof -
  have "(k, v) \<in> set (iter s (mm s))"
    using map_of_SomeD [OF assms(3)] assms(1) mset_eq_setD [of "iter s (mm s)" "mm s"] by (simp add: mmap_ok_def)
  then show ?thesis
    using prune_blocks [of "s\<lparr>ml := (ml s)\<lparr>writer := True\<rparr>\<rparr>" "iter s (mm s)" step del t] assms(2,4) Mmap_locks [OF assms(1)]
    by (auto simp: Mmap_Range_def split: if_splits)
qed

end
