(* ===== verification/Umap_Cache.thy ===== *)
theory Umap_Cache
  imports Umap_Mapper
begin

text \<open>
  The users of the mappers in \<open>src/umap\<close>: a cache with times of expiry (\<open>cache.go\<close>), a cache that
  loads missing values (\<open>defx.go\<close>), both with their garbage collection, and loading sessions
  (\<open>defv.go\<close>). Every operation takes the mapper as an argument and the time as a number.
\<close>

section \<open>Time\<close>

text \<open>Times and durations are nanoseconds; \<open>Unix\<close> cuts to seconds.\<close>

definition Second :: int where
  "Second = 1000000000"

definition Unix :: "int \<Rightarrow> int" where
  "Unix t = t div Second"

lemma Unix_mono: "t \<le> u \<Longrightarrow> Unix t \<le> Unix u"
  by (simp add: Unix_def Second_def zdiv_mono1)

section \<open>Cache\<close>

text \<open>\<open>cache.go\<close>\<close>

definition defaultGcInterval :: int where
  "defaultGcInterval = 60 * Second"

record 'v Item =
  item_Value :: 'v
  item_Expire :: int

record 's Cache =
  c_h :: 's
  c_ticker :: "int option"

text \<open>\<open>NewCacheWithMapper\<close> does not use its mapper.\<close>

definition NewCacheWithMapper :: "'k \<Rightarrow> ('k \<Rightarrow> uintptr) \<Rightarrow> 's \<Rightarrow> int \<Rightarrow> ('k, 'v Item) Map Cache result" where
  "NewCacheWithMapper zero h mp gcInterval =
     bind_outcome (NewHmap zero h) (\<lambda>m.
     let gcInterval = (if gcInterval < 1 then defaultGcInterval else gcInterval)
     in Ok \<lparr>c_h = m, c_ticker = Some gcInterval\<rparr>)"

definition NewCache :: "'k \<Rightarrow> ('k \<Rightarrow> uintptr) \<Rightarrow> int \<Rightarrow> ('k, 'v Item) Map Cache result" where
  "NewCache zero h gcInterval =
     bind_outcome (NewHmap zero h) (\<lambda>m :: ('k, 'v Item) Map. NewCacheWithMapper zero h m gcInterval)"

text \<open>
  What \<open>gcRound\<close> does at a tick: the test of an entry, and the round when nothing else runs in between.
  Other goroutines can run between the test and \<open>Delete\<close>; \<open>Umap_Cache_Correct\<close> has these steps one by one.
\<close>

definition gc_test :: "int \<Rightarrow> 'v Item \<Rightarrow> bool" where
  "gc_test unixTimestamp v \<longleftrightarrow> item_Expire v > 0 \<and> item_Expire v \<le> unixTimestamp"

definition Cache_gcRound :: "('s, 'k, 'v Item, unit) Mapper \<Rightarrow> 's Cache \<Rightarrow> int \<Rightarrow> 's Cache result" where
  "Cache_gcRound M c now =
     (let unixTimestamp = Unix now in
      bind_outcome (m_Range M (\<lambda>k v (t, s).
        if gc_test unixTimestamp v then bind_outcome (m_Delete M s k) (\<lambda>s. Ok ((t, s), True)) else Ok ((t, s), True))
        ((), c_h c)) (\<lambda>(t, s). Ok (c\<lparr>c_h := s\<rparr>)))"

definition new_item :: "int \<Rightarrow> 'v \<Rightarrow> int \<Rightarrow> 'v Item" where
  "new_item now val expire = \<lparr>item_Value = val, item_Expire = (if expire > 0 then Unix (now + expire) else 0)\<rparr>"

definition Cache_Set :: "('s, 'k, 'v Item, 't) Mapper \<Rightarrow> 's Cache \<Rightarrow> int \<Rightarrow> 'k \<Rightarrow> 'v \<Rightarrow> int \<Rightarrow> ('s Cache \<times> 'v) result" where
  "Cache_Set M c now key val expire =
     bind_outcome (m_Set M (c_h c) key (new_item now val expire)) (\<lambda>(s, _). Ok (c\<lparr>c_h := s\<rparr>, val))"

definition getItem :: "('s, 'k, 'v Item, 't) Mapper \<Rightarrow> 's Cache \<Rightarrow> int \<Rightarrow> 'k \<Rightarrow> ('s Cache \<times> 'v Item option) result" where
  "getItem M c now key =
     bind_outcome (m_Load M (c_h c) key) (\<lambda>(s, v).
     Ok (c\<lparr>c_h := s\<rparr>, case v of None \<Rightarrow> None | Some v \<Rightarrow>
       if item_Expire v > 0 \<and> item_Expire v \<le> Unix now then None else Some v))"

definition Cache_Get :: "'v \<Rightarrow> ('s, 'k, 'v Item, 't) Mapper \<Rightarrow> 's Cache \<Rightarrow> int \<Rightarrow> 'k \<Rightarrow> ('s Cache \<times> 'v) result" where
  "Cache_Get defaultValue M c now key =
     bind_outcome (getItem M c now key) (\<lambda>(c, v). Ok (c, case v of None \<Rightarrow> defaultValue | Some v \<Rightarrow> item_Value v))"

definition Cache_Load :: "'v \<Rightarrow> ('s, 'k, 'v Item, 't) Mapper \<Rightarrow> 's Cache \<Rightarrow> int \<Rightarrow> 'k \<Rightarrow> ('s Cache \<times> 'v \<times> int \<times> bool) result" where
  "Cache_Load defaultValue M c now key =
     bind_outcome (getItem M c now key) (\<lambda>(c, v).
     Ok (c, case v of None \<Rightarrow> (defaultValue, 0, False) | Some v \<Rightarrow> (item_Value v, item_Expire v, True)))"

definition Cache_Delete :: "('s, 'k, 'v Item, 't) Mapper \<Rightarrow> 's Cache \<Rightarrow> 'k \<Rightarrow> 's Cache result" where
  "Cache_Delete M c key = bind_outcome (m_Delete M (c_h c) key) (\<lambda>s. Ok (c\<lparr>c_h := s\<rparr>))"

definition Cache_Range :: "('s, 'k, 'v Item, 't) Mapper \<Rightarrow> ('k \<Rightarrow> 'v \<Rightarrow> 't \<times> 's \<Rightarrow> (('t \<times> 's) \<times> bool) result)
    \<Rightarrow> 't \<Rightarrow> 's Cache \<Rightarrow> int \<Rightarrow> ('t \<times> 's Cache) result" where
  "Cache_Range M f t c now =
     (let unixTimestamp = Unix now in
      bind_outcome (m_Range M (\<lambda>k v ts.
        if item_Expire v > 0 \<and> item_Expire v \<le> unixTimestamp then Ok (ts, True) else f k (item_Value v) ts) (t, c_h c))
        (\<lambda>(t, s). Ok (t, c\<lparr>c_h := s\<rparr>)))"

definition Cache_Clean :: "('s, 'k, 'v Item, 't) Mapper \<Rightarrow> 's Cache \<Rightarrow> 's Cache result" where
  "Cache_Clean M c = bind_outcome (m_Clean M (c_h c)) (\<lambda>s. Ok (c\<lparr>c_h := s\<rparr>))"

definition Cache_Close :: "('s, 'k, 'v Item, 't) Mapper \<Rightarrow> 's Cache \<Rightarrow> 's Cache result" where
  "Cache_Close M c =
     (let c = c\<lparr>c_ticker := None\<rparr> in bind_outcome (m_Clean M (c_h c)) (\<lambda>s. Ok (c\<lparr>c_h := s\<rparr>)))"

section \<open>Defx\<close>

text \<open>
  \<open>defx.go\<close>. The loader and the callback for expired values are the caller's code, which acts on a
  world \<open>'w\<close>. Without a callback nothing is called.
\<close>

datatype 'e defx_error = ErrKeyExpired | Loader_error 'e

record 'v DefxValue =
  dv_value :: 'v
  dv_exp :: int

record ('s, 'k, 'v, 'e, 'w) Defx =
  d_m :: 's
  d_expire :: int
  d_ticker :: "int option"
  d_loader :: "'k \<Rightarrow> 'w \<Rightarrow> 'w \<times> ('e + 'v)"
  d_onExpire :: "('k \<Rightarrow> 'v \<Rightarrow> 'w \<Rightarrow> 'w) option"

definition NewDefxWithMapper :: "'v \<Rightarrow> 's \<Rightarrow> int \<Rightarrow> int \<Rightarrow> ('k \<Rightarrow> 'w \<Rightarrow> 'w \<times> ('e + 'v)) option \<Rightarrow> ('s, 'k, 'v, 'e, 'w) Defx" where
  "NewDefxWithMapper zero mp expire gcInterval loader =
     \<lparr>d_m = mp, d_expire = expire,
      d_ticker = Some (if gcInterval < 1 then defaultGcInterval else gcInterval),
      d_loader = (case loader of None \<Rightarrow> (\<lambda>k w. (w, Inr zero)) | Some f \<Rightarrow> f),
      d_onExpire = None\<rparr>"

definition NewDefx :: "'v \<Rightarrow> 'k \<Rightarrow> ('k \<Rightarrow> uintptr) \<Rightarrow> int \<Rightarrow> int \<Rightarrow> ('k \<Rightarrow> 'w \<Rightarrow> 'w \<times> ('e + 'v)) option
    \<Rightarrow> (('k, 'v DefxValue) Map, 'k, 'v, 'e, 'w) Defx result" where
  "NewDefx zv zero h expire gcInterval loader =
     bind_outcome (NewHmap zero h) (\<lambda>m. Ok (NewDefxWithMapper zv m expire gcInterval loader))"

definition Defx_delete :: "('s, 'k, 'v DefxValue, 'w) Mapper \<Rightarrow> ('k \<Rightarrow> 'v \<Rightarrow> 'w \<Rightarrow> 'w) option \<Rightarrow> 'w \<times> 's \<Rightarrow> 'k \<Rightarrow> 'v \<Rightarrow> ('w \<times> 's) result" where
  "Defx_delete M onExpire ws key v =
     (let w = (case onExpire of None \<Rightarrow> fst ws | Some cb \<Rightarrow> cb key v (fst ws))
      in bind_outcome (m_Delete M (snd ws) key) (\<lambda>s. Ok (w, s)))"

definition Defx_Close :: "('s, 'k, 'v DefxValue, 'w) Mapper \<Rightarrow> 'w \<Rightarrow> ('s, 'k, 'v, 'e, 'w) Defx \<Rightarrow> ('w \<times> ('s, 'k, 'v, 'e, 'w) Defx) result" where
  "Defx_Close M w d =
     (let d = d\<lparr>d_ticker := None\<rparr> in
      bind_outcome (m_Range M (\<lambda>k val ws.
        bind_outcome (Defx_delete M (d_onExpire d) ws k (dv_value val)) (\<lambda>ws. Ok (ws, True))) (w, d_m d))
        (\<lambda>(w, s). Ok (w, d\<lparr>d_m := s\<rparr>)))"

definition Defx_gcRound :: "('s, 'k, 'v DefxValue, 'w) Mapper \<Rightarrow> 'w \<Rightarrow> ('s, 'k, 'v, 'e, 'w) Defx \<Rightarrow> int \<Rightarrow> ('w \<times> ('s, 'k, 'v, 'e, 'w) Defx) result" where
  "Defx_gcRound M w d now =
     (let unixTimestamp = Unix now in
      bind_outcome (m_Range M (\<lambda>k val ws.
        if dv_exp val < unixTimestamp
        then bind_outcome (Defx_delete M (d_onExpire d) ws k (dv_value val)) (\<lambda>ws. Ok (ws, True))
        else Ok (ws, True)) (w, d_m d))
        (\<lambda>(w, s). Ok (w, d\<lparr>d_m := s\<rparr>)))"

definition SetOnExpire :: "('k \<Rightarrow> 'v \<Rightarrow> 'w \<Rightarrow> 'w) option \<Rightarrow> ('s, 'k, 'v, 'e, 'w) Defx \<Rightarrow> ('s, 'k, 'v, 'e, 'w) Defx" where
  "SetOnExpire cb d = d\<lparr>d_onExpire := cb\<rparr>"

definition SetExpire :: "int \<Rightarrow> ('s, 'k, 'v, 'e, 'w) Defx \<Rightarrow> ('s, 'k, 'v, 'e, 'w) Defx" where
  "SetExpire expire d = d\<lparr>d_expire := expire\<rparr>"

text \<open>\<open>load\<close> reads the clock when it looks at a stored value and again behind the loader.\<close>

definition Defx_load :: "('s, 'k, 'v DefxValue, 'w) Mapper \<Rightarrow> 'w \<Rightarrow> ('s, 'k, 'v, 'e, 'w) Defx \<Rightarrow> int \<Rightarrow> int \<Rightarrow> 'k
    \<Rightarrow> ('w \<times> ('s, 'k, 'v, 'e, 'w) Defx \<times> ('e defx_error + 'v DefxValue)) result" where
  "Defx_load M w d now now' key =
     bind_outcome (m_Load M (d_m d) key) (\<lambda>(s, v).
     let d = d\<lparr>d_m := s\<rparr> in
     case v of
       Some val \<Rightarrow> Ok (w, d, if dv_exp val < Unix now then Inl ErrKeyExpired else Inr val)
     | None \<Rightarrow>
         (case d_loader d key w of
            (w, Inl e) \<Rightarrow> Ok (w, d, Inl (Loader_error e))
          | (w, Inr val) \<Rightarrow>
              bind_outcome (m_Set M (d_m d) key \<lparr>dv_value = val, dv_exp = Unix (now' + d_expire d)\<rparr>) (\<lambda>(s, val).
              Ok (w, d\<lparr>d_m := s\<rparr>, Inr val))))"

definition Defx_Load :: "'v \<Rightarrow> ('s, 'k, 'v DefxValue, 'w) Mapper \<Rightarrow> 'w \<Rightarrow> ('s, 'k, 'v, 'e, 'w) Defx \<Rightarrow> int \<Rightarrow> int \<Rightarrow> 'k
    \<Rightarrow> ('w \<times> ('s, 'k, 'v, 'e, 'w) Defx \<times> 'v \<times> 'e defx_error option) result" where
  "Defx_Load defaultValue M w d now now' key =
     bind_outcome (Defx_load M w d now now' key) (\<lambda>(w, d, v).
     Ok (w, d, case v of Inl e \<Rightarrow> (defaultValue, Some e) | Inr v \<Rightarrow> (dv_value v, None)))"

definition Loaded :: "('s, 'k, 'v DefxValue, 'w) Mapper \<Rightarrow> ('s, 'k, 'v, 'e, 'w) Defx \<Rightarrow> int \<Rightarrow> 'k \<Rightarrow> (('s, 'k, 'v, 'e, 'w) Defx \<times> bool) result" where
  "Loaded M d now key =
     bind_outcome (m_Load M (d_m d) key) (\<lambda>(s, v).
     Ok (d\<lparr>d_m := s\<rparr>, case v of None \<Rightarrow> False | Some val \<Rightarrow> \<not> dv_exp val < Unix now))"

definition Defx_Range :: "('s, 'k, 'v DefxValue, 'w) Mapper \<Rightarrow> ('k \<Rightarrow> 'v \<Rightarrow> 'w \<times> 's \<Rightarrow> (('w \<times> 's) \<times> bool) result)
    \<Rightarrow> 'w \<Rightarrow> ('s, 'k, 'v, 'e, 'w) Defx \<Rightarrow> ('w \<times> ('s, 'k, 'v, 'e, 'w) Defx) result" where
  "Defx_Range M cb w d =
     bind_outcome (m_Range M (\<lambda>key val. cb key (dv_value val)) (w, d_m d)) (\<lambda>(w, s). Ok (w, d\<lparr>d_m := s\<rparr>))"

definition Defx_Delete :: "('s, 'k, 'v DefxValue, 'w) Mapper \<Rightarrow> 'w \<Rightarrow> ('s, 'k, 'v, 'e, 'w) Defx \<Rightarrow> 'k \<Rightarrow> ('w \<times> ('s, 'k, 'v, 'e, 'w) Defx) result" where
  "Defx_Delete M w d key =
     bind_outcome (m_Load M (d_m d) key) (\<lambda>(s, v).
     case v of
       None \<Rightarrow> Ok (w, d\<lparr>d_m := s\<rparr>)
     | Some val \<Rightarrow> bind_outcome (Defx_delete M (d_onExpire d) (w, s) key (dv_value val)) (\<lambda>(w, s). Ok (w, d\<lparr>d_m := s\<rparr>)))"

section \<open>Defv\<close>

text \<open>
  \<open>defv.go\<close>: a session. Its lock is held only around single operations on the map, never while the
  loader or the callback of \<open>Change\<close> runs. Sessions come from a pool and return to it emptied.
\<close>

record ('k, 'v, 'e, 'w) DefvSession =
  s_loader :: "'k \<Rightarrow> 'w \<Rightarrow> 'w \<times> ('e option \<times> 'v)"
  s_m :: "('k \<times> 'v) list"

definition new_session :: "'v \<Rightarrow> ('k \<Rightarrow> 'w \<Rightarrow> 'w \<times> ('e option \<times> 'v)) option \<Rightarrow> ('k, 'v, 'e, 'w) DefvSession" where
  "new_session zero loader = \<lparr>s_loader = (case loader of None \<Rightarrow> (\<lambda>k w. (w, None, zero)) | Some f \<Rightarrow> f), s_m = []\<rparr>"

definition Defv_Close :: "('k, 'v, 'e, 'w) DefvSession \<Rightarrow> ('k, 'v, 'e, 'w) DefvSession" where
  "Defv_Close s = s\<lparr>s_m := []\<rparr>"

definition Defv_Load :: "'w \<Rightarrow> ('k, 'v, 'e, 'w) DefvSession \<Rightarrow> 'k \<Rightarrow> 'w \<times> ('k, 'v, 'e, 'w) DefvSession \<times> 'v \<times> 'e option" where
  "Defv_Load w s key =
     (case map_of (s_m s) key of
        Some val \<Rightarrow> (w, s, val, None)
      | None \<Rightarrow>
          (case s_loader s key w of
             (w, Some e, val) \<Rightarrow> (w, s, val, Some e)
           | (w, None, val) \<Rightarrow> (w, s\<lparr>s_m := AList.update key val (s_m s)\<rparr>, val, None)))"

definition Defv_Set :: "('k, 'v, 'e, 'w) DefvSession \<Rightarrow> 'k \<Rightarrow> 'v \<Rightarrow> ('k, 'v, 'e, 'w) DefvSession" where
  "Defv_Set s key val = s\<lparr>s_m := AList.update key val (s_m s)\<rparr>"

definition Change :: "('v \<Rightarrow> 'w \<Rightarrow> 'w \<times> ('e option \<times> 'v)) \<Rightarrow> 'w \<Rightarrow> ('k, 'v, 'e, 'w) DefvSession \<Rightarrow> 'k
    \<Rightarrow> 'w \<times> ('k, 'v, 'e, 'w) DefvSession \<times> 'e option" where
  "Change cb w s key =
     (case Defv_Load w s key of
        (w, s, val, Some e) \<Rightarrow> (w, s, Some e)
      | (w, s, val, None) \<Rightarrow>
          (case cb val w of
             (w, Some e, val) \<Rightarrow> (w, s, Some e)
           | (w, None, val) \<Rightarrow> (w, Defv_Set s key val, None)))"

definition Defv_Delete :: "('k, 'v, 'e, 'w) DefvSession \<Rightarrow> 'k \<Rightarrow> ('k, 'v, 'e, 'w) DefvSession" where
  "Defv_Delete s key = s\<lparr>s_m := AList.delete key (s_m s)\<rparr>"

end
