(* ===== verification/Umap_Cache_Correct.thy ===== *)
theory Umap_Cache_Correct
  imports Umap_Cache
begin

text \<open>
  What the caches of \<open>src/umap\<close> do over any mapper that keeps the contract, and over the two mappers
  of the package.
\<close>

section \<open>The cache\<close>

text \<open>An item that has a time of expiry, which is not after the given second.\<close>

definition expired :: "'v Item \<Rightarrow> int \<Rightarrow> bool" where
  "expired v ts \<longleftrightarrow> 0 < item_Expire v \<and> item_Expire v \<le> ts"

locale cache_mapper = mapper_reentrant M ok val
  for M :: "('s, 'k, 'v Item, unit) Mapper" and ok and val
begin

lemma getItem_ok:
  assumes "ok (c_h c)"
  shows "\<exists>s'. getItem M c now key = Ok (c\<lparr>c_h := s'\<rparr>, pruned (\<lambda>k v. expired v (Unix now)) (val (c_h c)) key) \<and> ok s' \<and> val s' = val (c_h c)"
  using Load [OF assms, of key] by (auto simp: getItem_def pruned_def expired_def split: option.splits)

lemma Cache_Set_ok:
  assumes "ok (c_h c)"
  shows "\<exists>s'. Cache_Set M c now key v d = Ok (c\<lparr>c_h := s'\<rparr>, v) \<and> ok s' \<and> val s' = (val (c_h c))(key \<mapsto> new_item now v d)"
  using Set [OF assms, of key "new_item now v d"] by (auto simp: Cache_Set_def)

lemma Cache_Delete_ok:
  assumes "ok (c_h c)"
  shows "\<exists>s'. Cache_Delete M c key = Ok (c\<lparr>c_h := s'\<rparr>) \<and> ok s' \<and> val s' = (val (c_h c))(key := None)"
  using Delete [OF assms, of key] by (auto simp: Cache_Delete_def)

lemma Cache_Clean_ok:
  assumes "ok (c_h c)"
  shows "\<exists>s'. Cache_Clean M c = Ok (c\<lparr>c_h := s'\<rparr>) \<and> ok s' \<and> val s' = Map.empty"
  using Clean [OF assms] by (auto simp: Cache_Clean_def)

lemma Cache_Close_ok:
  assumes "ok (c_h c)"
  shows "\<exists>s'. Cache_Close M c = Ok (c\<lparr>c_ticker := None, c_h := s'\<rparr>) \<and> ok s' \<and> val s' = Map.empty"
  using Clean [OF assms] by (auto simp: Cache_Close_def Let_def)

lemma Cache_gcRound_ok:
  assumes "ok (c_h c)"
  shows "\<exists>s'. Cache_gcRound M c now = Ok (c\<lparr>c_h := s'\<rparr>) \<and> ok s' \<and> val s' = pruned (\<lambda>k v. expired v (Unix now)) (val (c_h c))"
proof -
  have cb: "(\<lambda>k v (t, s). if gc_test (Unix now) v then bind_outcome (m_Delete M s k) (\<lambda>s. Ok ((t, s), True)) else Ok ((t, s), True)) =
      prune M (\<lambda>k v t. (t, expired v (Unix now), True))"
    by (auto simp: prune_def fun_eq_iff gc_test_def expired_def)
  have "sweeps (\<lambda>k v t. (t, expired v (Unix now), True)) (\<lambda>k v. expired v (Unix now))" by (simp add: sweeps_def)
  from Range_sweep [OF assms this, of "()"] show ?thesis unfolding Cache_gcRound_def Let_def cb by auto
qed

end

interpretation hcache: cache_mapper "HmapMapper zero h :: (('k, 'v Item) Map, 'k, 'v Item, unit) Mapper" "hmap_ok h" "\<lambda>m. holding m"
  for zero :: 'k and h :: "'k \<Rightarrow> uintptr"
  by (rule cache_mapper.intro) (rule hmap.mapper_reentrant_axioms)

locale cache_view = mapper M ok val
  for M :: "('s, 'k, 'v Item, 't) Mapper" and ok and val
begin

lemma Cache_Range_ok:
  assumes "ok (c_h c)"
  shows "\<exists>xs s'. Cache_Range M (view look) t c now = Ok (glance (\<lambda>k v t. if expired v (Unix now) then (t, True) else look k (item_Value v) t) xs t, c\<lparr>c_h := s'\<rparr>) \<and>
    ok s' \<and> val s' = val (c_h c) \<and> map_of xs = val (c_h c) \<and> distinct (map fst xs)"
proof -
  have cb: "(\<lambda>k v ts. if item_Expire v > 0 \<and> item_Expire v \<le> Unix now then Ok (ts, True) else view look k (item_Value v) ts) =
      view (\<lambda>k v t. if expired v (Unix now) then (t, True) else look k (item_Value v) t)"
    by (auto simp: view_def fun_eq_iff expired_def)
  obtain xs s' where "m_Range M (view (\<lambda>k v t. if expired v (Unix now) then (t, True) else look k (item_Value v) t)) (t, c_h c) =
        Ok (glance (\<lambda>k v t. if expired v (Unix now) then (t, True) else look k (item_Value v) t) xs t, s')" "ok s'" "val s' = val (c_h c)"
      "map_of xs = val (c_h c)" "distinct (map fst xs)"
    using Range_view [OF assms] by blast
  then show ?thesis unfolding Cache_Range_def Let_def cb by (intro exI [of _ xs] exI [of _ s']) simp
qed

end

interpretation hview: cache_view "HmapMapper zero h :: (('k, 'v Item) Map, 'k, 'v Item, 't) Mapper" "hmap_ok h" "\<lambda>m. holding m"
  for zero :: 'k and h :: "'k \<Rightarrow> uintptr"
  by (rule cache_view.intro) (rule hmap.mapper_axioms)

text \<open>
  A cache in use. Apart from its state there is the collector, which waits for a tick, is in a round, of
  which it has read the time, or has found the entry of a key expired and is about to call \<open>Delete\<close>; then
  \<open>fresh\<close> says whether the key has been stored again since. \<open>f\<close> has for every key what was stored last: the value, the
  time and the duration.
\<close>

datatype 'k collector = Waiting | Round int | Doomed int 'k bool

type_synonym ('k, 'v) stored = "'k \<Rightarrow> ('v \<times> int \<times> int) option"

fun refresh :: "'k \<Rightarrow> 'k collector \<Rightarrow> 'k collector" where
  "refresh k (Doomed ts k' fresh) = Doomed ts k' (fresh \<or> k = k')"
| "refresh k gc = gc"

text \<open>
  \<open>cache_run zero h c now f gc\<close>: the states that are reached. Every operation on the map of a user, of the collector and of the
  resizing goroutine is one step; the collector can meet any entry in its round. What the collector's \<open>Delete\<close> takes away is
  what was stored while the deletion was pending, and nothing else.
\<close>

inductive cache_run :: "'k \<Rightarrow> ('k \<Rightarrow> uintptr) \<Rightarrow> ('k, 'v Item) Map Cache \<Rightarrow> int \<Rightarrow> ('k, 'v) stored \<Rightarrow> 'k collector \<Rightarrow> bool"
  for zero :: 'k and h :: "'k \<Rightarrow> uintptr" where
  cache_new: "NewCache zero h gcInterval = Ok c \<Longrightarrow> Second \<le> now \<Longrightarrow> cache_run zero h c now Map.empty Waiting"
| cache_tick: "cache_run zero h c now f gc \<Longrightarrow> now \<le> now' \<Longrightarrow> cache_run zero h c now' f gc"
| cache_set: "cache_run zero h c now f gc \<Longrightarrow> Cache_Set (HmapMapper zero h :: (_, _, _, unit) Mapper) c now k v d = Ok (c', r) \<Longrightarrow>
    cache_run zero h c' now (f(k \<mapsto> (v, now, d))) (refresh k gc)"
| cache_get: "cache_run zero h c now f gc \<Longrightarrow> getItem (HmapMapper zero h :: (_, _, _, unit) Mapper) c now k = Ok (c', r) \<Longrightarrow>
    cache_run zero h c' now f gc"
| cache_delete: "cache_run zero h c now f gc \<Longrightarrow> Cache_Delete (HmapMapper zero h :: (_, _, _, unit) Mapper) c k = Ok c' \<Longrightarrow>
    cache_run zero h c' now (f(k := None)) gc"
| cache_clean: "cache_run zero h c now f gc \<Longrightarrow> Cache_Clean (HmapMapper zero h :: (_, _, _, unit) Mapper) c = Ok c' \<Longrightarrow>
    cache_run zero h c' now Map.empty gc"
| cache_close: "cache_run zero h c now f gc \<Longrightarrow> Cache_Close (HmapMapper zero h :: (_, _, _, unit) Mapper) c = Ok c' \<Longrightarrow>
    cache_run zero h c' now Map.empty gc"
| cache_grow: "cache_run zero h c now f gc \<Longrightarrow> grow_task (c_h c) 0 = Ok m \<Longrightarrow> cache_run zero h (c\<lparr>c_h := m\<rparr>) now f gc"
| gc_begin: "cache_run zero h c now f Waiting \<Longrightarrow> c_ticker c \<noteq> None \<Longrightarrow> cache_run zero h c now f (Round (Unix now))"
| gc_check: "cache_run zero h c now f (Round ts) \<Longrightarrow> holding (c_h c) k = Some v \<Longrightarrow> gc_test ts v \<Longrightarrow>
    cache_run zero h c now f (Doomed ts k False)"
| gc_delete: "cache_run zero h c now f (Doomed ts k fresh) \<Longrightarrow> Cache_Delete (HmapMapper zero h :: (_, _, _, unit) Mapper) c k = Ok c' \<Longrightarrow>
    cache_run zero h c' now (if fresh then f(k := None) else f) (Round ts)"
| gc_end: "cache_run zero h c now f (Round ts) \<Longrightarrow> cache_run zero h c now f Waiting"

text \<open>
  What a user expects to find: what was stored last, for ever if its duration is not positive, and otherwise until the second in which the
  duration is over.
\<close>

definition unexpired :: "('k, 'v) stored \<Rightarrow> int \<Rightarrow> 'k \<Rightarrow> ('v \<times> int \<times> int) option" where
  "unexpired f now k = (case f k of None \<Rightarrow> None | Some (v, t, d) \<Rightarrow> if 0 < d \<and> Unix (t + d) \<le> Unix now then None else Some (v, t, d))"

definition expiry :: "int \<Rightarrow> int \<Rightarrow> int" where
  "expiry t d = (if 0 < d then Unix (t + d) else 0)"

text \<open>The hash map holds the items of \<open>f\<close>, but for some that are expired.\<close>

definition to_item :: "'v \<times> int \<times> int \<Rightarrow> 'v Item" where
  "to_item = (\<lambda>(v, t, d). \<lparr>item_Value = v, item_Expire = expiry t d\<rparr>)"

definition cached :: "('k, 'v) stored \<Rightarrow> int \<Rightarrow> ('k \<Rightarrow> 'v Item option) \<Rightarrow> bool" where
  "cached f now g \<longleftrightarrow> (\<forall>k. (g k = map_option to_item (f k) \<or> g k = None \<and> unexpired f now k = None) \<and>
     (\<forall>v t d. f k = Some (v, t, d) \<longrightarrow> Second \<le> t))"

lemma to_item_sel [simp]: "item_Value (to_item (v, t, d)) = v" "item_Expire (to_item (v, t, d)) = expiry t d"
  by (simp_all add: to_item_def)

lemma Unix_pos: "Second \<le> t \<Longrightarrow> 1 \<le> Unix t"
  using Unix_mono [of Second t] by (simp add: Unix_def Second_def)

lemma expired_expiry: "Second \<le> t \<Longrightarrow> expired (to_item (v, t, d)) ts \<longleftrightarrow> 0 < d \<and> Unix (t + d) \<le> ts"
  using Unix_pos [of "t + d"] by (auto simp: expired_def expiry_def)

lemma unexpired_tick: "unexpired f now k = None \<Longrightarrow> now \<le> now' \<Longrightarrow> unexpired f now' k = None"
  using Unix_mono [of now now'] by (auto simp: unexpired_def split: option.splits if_splits)

lemma cached_tick: "cached f now g \<Longrightarrow> now \<le> now' \<Longrightarrow> cached f now' g"
  unfolding cached_def using unexpired_tick [of f now _ now'] by meson

lemma cached_pruned: "cached f now g \<Longrightarrow> pruned (\<lambda>k v. expired v (Unix now)) g k = map_option to_item (unexpired f now k)"
proof -
  assume "cached f now g"
  then have g: "g k = map_option to_item (f k) \<or> g k = None \<and> unexpired f now k = None" and t: "\<And>v t d. f k = Some (v, t, d) \<Longrightarrow> Second \<le> t"
    unfolding cached_def by blast+
  show ?thesis
  proof (cases "f k")
    case None
    then show ?thesis using g by (auto simp: pruned_def unexpired_def)
  next
    case (Some x)
    then obtain v t d where x: "f k = Some (v, t, d)" by (cases x) auto
    show ?thesis using g x expired_expiry [OF t [OF x], of v d "Unix now"] by (auto simp: pruned_def unexpired_def)
  qed
qed

lemma cached_upd: "cached f now g \<Longrightarrow> Second \<le> now \<Longrightarrow> cached (f(k \<mapsto> (v, now, d))) now (g(k \<mapsto> to_item (v, now, d)))"
  by (auto simp: cached_def unexpired_def)

lemma cached_del: "cached f now g \<Longrightarrow> cached (f(k := None)) now (g(k := None))"
  by (auto simp: cached_def unexpired_def)

lemma cached_drop: "cached f now g \<Longrightarrow> unexpired f now k = None \<Longrightarrow> cached f now (g(k := None))"
  by (auto simp: cached_def)

lemma cached_empty: "cached Map.empty now Map.empty"
  by (simp add: cached_def)

lemma new_item_to_item: "new_item now v d = to_item (v, now, d)"
  by (simp add: new_item_def to_item_def expiry_def)

text \<open>The collector has read a time that is past, and a doomed entry that has not been stored again is expired.\<close>

fun gc_ok :: "('k, 'v) stored \<Rightarrow> int \<Rightarrow> 'k collector \<Rightarrow> bool" where
  "gc_ok f now Waiting \<longleftrightarrow> True"
| "gc_ok f now (Round ts) \<longleftrightarrow> ts \<le> Unix now"
| "gc_ok f now (Doomed ts k fresh) \<longleftrightarrow> ts \<le> Unix now \<and> (fresh \<or> unexpired f now k = None)"

lemma gc_ok_tick: "gc_ok f now gc \<Longrightarrow> now \<le> now' \<Longrightarrow> gc_ok f now' gc"
  by (cases gc) (auto dest: unexpired_tick Unix_mono)

lemma gc_ok_set: "gc_ok f now gc \<Longrightarrow> gc_ok (f(k \<mapsto> x)) now (refresh k gc)"
  by (cases gc) (auto simp: unexpired_def)

lemma gc_ok_del: "gc_ok f now gc \<Longrightarrow> gc_ok (f(k := None)) now gc" "gc_ok f now gc \<Longrightarrow> gc_ok Map.empty now gc"
  by (cases gc; auto simp: unexpired_def)+

lemma grow_task_hmap:
  assumes "hmap_ok h m" "grow_task m 0 = Ok m'"
  shows "hmap_ok h m' \<and> holding m' = holding m"
  using assms(1) grow_task_rep [OF _ _ assms(2)] by (force elim!: hmap_okE intro: hmap_okI)

lemma NewCache_hmap:
  assumes "NewCache zero h gcInterval = Ok (c :: ('k, 'v Item) Map Cache)"
  shows "hmap_ok h (c_h c) \<and> holding (c_h c) = Map.empty"
proof -
  from assms obtain m where m: "Hashmap.New zero h = Ok m" "c_h c = m"
    by (auto simp: NewCache_def NewCacheWithMapper_def NewHmap_def outcome_simps Let_def)
  moreover obtain m' :: "('k, 'v Item) Map" where "Hashmap.New zero h = Ok m'" "reaches zero h m' Map.empty"
    using New_reaches [of zero h] by blast
  ultimately show ?thesis using reaches_hmap [of zero h m' Map.empty] by auto
qed

lemma cache_run_ok: "cache_run zero h (c :: ('k, 'v Item) Map Cache) now f gc \<Longrightarrow>
  hmap_ok h (c_h c) \<and> cached f now (holding (c_h c)) \<and> gc_ok f now gc \<and> Second \<le> now"
proof (induction rule: cache_run.induct)
  case (cache_new gcInterval c now)
  then show ?case using NewCache_hmap [of zero h gcInterval c] cached_empty by simp
next
  case (cache_tick c now f gc now')
  then show ?case using cached_tick [of f now "holding (c_h c)" now'] gc_ok_tick [of f now gc now'] by simp
next
  case (cache_set c now f gc k v d c' r)
  then obtain s' where "c' = c\<lparr>c_h := s'\<rparr>" "hmap_ok h s'" "holding s' = (holding (c_h c))(k \<mapsto> to_item (v, now, d))"
    using hcache.Cache_Set_ok [of h c zero now k v d] by (auto simp: new_item_to_item)
  then show ?case using cache_set.IH cached_upd [of f now "holding (c_h c)" k v d] gc_ok_set [of f now gc k "(v, now, d)"] by (simp add: fun_upd_def)
next
  case (cache_get c now f gc k c' r)
  then show ?case using hcache.getItem_ok [of h c zero now k] by auto
next
  case (cache_delete c now f gc k c')
  then obtain s' where "c' = c\<lparr>c_h := s'\<rparr>" "hmap_ok h s'" "holding s' = (holding (c_h c))(k := None)"
    using hcache.Cache_Delete_ok [of h c zero k] by auto
  then show ?case using cache_delete.IH cached_del [of f now "holding (c_h c)" k] gc_ok_del(1) [of f now gc k] by (simp add: fun_upd_def)
next
  case (cache_clean c now f gc c')
  then obtain s' where "c' = c\<lparr>c_h := s'\<rparr>" "hmap_ok h s'" "holding s' = Map.empty" using hcache.Cache_Clean_ok [of h c zero] by auto
  then show ?case using cache_clean.IH cached_empty [of now] gc_ok_del(2) [of f now gc] by simp
next
  case (cache_close c now f gc c')
  then obtain s' where "c' = c\<lparr>c_ticker := None, c_h := s'\<rparr>" "hmap_ok h s'" "holding s' = Map.empty" using hcache.Cache_Close_ok [of h c zero] by auto
  then show ?case using cache_close.IH cached_empty [of now] gc_ok_del(2) [of f now gc] by simp
next
  case (cache_grow c now f gc m)
  then show ?case using grow_task_hmap [of h "c_h c" m] by auto
next
  case (gc_check c now f ts k v)
  then have "holding (c_h c) k = map_option to_item (f k)" "\<And>v t d. f k = Some (v, t, d) \<Longrightarrow> Second \<le> t"
    unfolding cached_def by (metis option.distinct(1), metis)
  then obtain w t d where x: "f k = Some (w, t, d)" "v = to_item (w, t, d)" "Second \<le> t" using gc_check(2) by (cases "f k") auto
  have "expired v ts" using gc_check(3) by (simp add: gc_test_def expired_def)
  then have "unexpired f now k = None" using x gc_check.IH expired_expiry [OF x(3), of w d ts] by (auto simp: unexpired_def)
  then show ?case using gc_check.IH by simp
next
  case (gc_delete c now f ts k fresh c')
  then obtain s' where "c' = c\<lparr>c_h := s'\<rparr>" "hmap_ok h s'" "holding s' = (holding (c_h c))(k := None)"
    using hcache.Cache_Delete_ok [of h c zero k] by auto
  then show ?case using gc_delete.IH cached_del [of f now "holding (c_h c)" k] cached_drop [of f now "holding (c_h c)" k]
    by (cases fresh) (simp_all add: fun_upd_def)
qed auto

lemma glance_filter:
  "glance (\<lambda>k v t. if p v then (t, True) else look k (g v) t) xs t =
    glance look (map (\<lambda>(k, v). (k, g v)) (filter (\<lambda>(k, v). \<not> p v) xs)) t"
  by (induction xs arbitrary: t) (auto split: prod.split)

lemma map_of_filter_items:
  assumes "distinct (map fst xs)"
  shows "map_of (map (\<lambda>(k, v). (k, g v)) (filter (\<lambda>(k, v). \<not> p v) xs)) = map_option g \<circ> pruned (\<lambda>k. p) (map_of xs)"
  using assms
proof (induction xs)
  case (Cons x xs)
  obtain k v where x: "x = (k, v)" by (cases x)
  have "map_of xs k = None" using Cons.prems x by (simp add: map_of_eq_None_iff)
  then show ?case using Cons x by (auto simp: fun_eq_iff pruned_def)
qed (simp add: fun_eq_iff pruned_def)

lemma distinct_filter_items:
  "distinct (map fst xs) \<Longrightarrow> distinct (map fst (map (\<lambda>(k, v). (k, g v)) (filter (\<lambda>(k, v). \<not> p v) xs)))"
  by (induction xs) (auto simp: image_iff)

section \<open>Defx\<close>

definition notify :: "('k \<Rightarrow> 'v \<Rightarrow> 'w \<Rightarrow> 'w) option \<Rightarrow> 'k \<Rightarrow> 'v \<Rightarrow> 'w \<Rightarrow> 'w" where
  "notify onExpire k v w = (case onExpire of None \<Rightarrow> w | Some cb \<Rightarrow> cb k v w)"

definition discard :: "('v DefxValue \<Rightarrow> bool) \<Rightarrow> ('k \<Rightarrow> 'v \<Rightarrow> 'w \<Rightarrow> 'w) option \<Rightarrow> 'k \<Rightarrow> 'v DefxValue \<Rightarrow> 'w \<Rightarrow> 'w \<times> bool \<times> bool" where
  "discard p onExpire k val w = (if p val then notify onExpire k (dv_value val) w else w, p val, True)"

lemma Defx_callback:
  "(\<lambda>k val ws. if p val then bind_outcome (Defx_delete M onExpire ws k (dv_value val)) (\<lambda>ws. Ok (ws, True)) else Ok (ws, True)) =
     prune M (discard p onExpire)"
  by (auto simp: prune_def discard_def Defx_delete_def notify_def fun_eq_iff bind_assoc split: option.split)

lemma sweeps_discard: "sweeps (discard p onExpire) (\<lambda>k. p)"
  by (simp add: sweeps_def discard_def)

lemma fold_discard:
  "fold (\<lambda>(k, v) w. fst (discard p onExpire k v w)) xs w = fold (\<lambda>(k, v). notify onExpire k (dv_value v)) (filter (\<lambda>(k, v). p v) xs) w"
  by (induction xs arbitrary: w) (auto simp: discard_def)

lemma map_of_filter_entries:
  assumes "distinct (map fst xs)"
  shows "map_of (filter (\<lambda>(k, v). p v) xs) = pruned (\<lambda>k v. \<not> p v) (map_of xs)" "distinct (map fst (filter (\<lambda>(k, v). p v) xs))"
proof -
  have e: "map (\<lambda>(k, v). (k, id v)) ys = ys" for ys :: "('a \<times> 'b) list" by (induction ys) auto
  show "map_of (filter (\<lambda>(k, v). p v) xs) = pruned (\<lambda>k v. \<not> p v) (map_of xs)"
    using map_of_filter_items [OF assms, of id "\<lambda>v. \<not> p v"] unfolding e by (simp add: fun_eq_iff option.map_id)
  show "distinct (map fst (filter (\<lambda>(k, v). p v) xs))" using assms by (rule distinct_map_filter)
qed

lemma Defx_gcRound_prune:
  "Defx_gcRound M w d now = bind_outcome (m_Range M (prune M (discard (\<lambda>val. dv_exp val < Unix now) (d_onExpire d))) (w, d_m d))
     (\<lambda>(w, s). Ok (w, d\<lparr>d_m := s\<rparr>))"
  unfolding Defx_gcRound_def Let_def Defx_callback [symmetric] ..

lemma Defx_Close_prune:
  "Defx_Close M w d = bind_outcome (m_Range M (prune M (discard (\<lambda>_. True) (d_onExpire d))) (w, d_m d))
     (\<lambda>(w, s). Ok (w, d\<lparr>d_ticker := None, d_m := s\<rparr>))"
  unfolding Defx_Close_def Let_def Defx_callback [symmetric] by simp

locale defx_mapper = mapper_reentrant M ok val
  for M :: "('s, 'k, 'v DefxValue, 'w) Mapper" and ok and val
begin

lemma Defx_load_stored:
  assumes "ok (d_m d)" "val (d_m d) key = Some v"
  shows "\<exists>s'. Defx_load M w d now now' key = Ok (w, d\<lparr>d_m := s'\<rparr>, if dv_exp v < Unix now then Inl ErrKeyExpired else Inr v) \<and>
    ok s' \<and> val s' = val (d_m d)"
  using Load [OF assms(1), of key] assms(2) by (auto simp: Defx_load_def Let_def)

lemma Defx_load_new:
  assumes "ok (d_m d)" "val (d_m d) key = None" "d_loader d key w = (w', Inr v)"
  shows "\<exists>s'. Defx_load M w d now now' key = Ok (w', d\<lparr>d_m := s'\<rparr>, Inr \<lparr>dv_value = v, dv_exp = Unix (now' + d_expire d)\<rparr>) \<and>
    ok s' \<and> val s' = (val (d_m d))(key \<mapsto> \<lparr>dv_value = v, dv_exp = Unix (now' + d_expire d)\<rparr>)"
proof -
  obtain s1 where s1: "m_Load M (d_m d) key = Ok (s1, None)" "ok s1" "val s1 = val (d_m d)"
    using Load [OF assms(1), of key] assms(2) by auto
  show ?thesis using Set [OF s1(2), of key "\<lparr>dv_value = v, dv_exp = Unix (now' + d_expire d)\<rparr>"] s1 assms(3)
    by (auto simp: Defx_load_def Let_def)
qed

lemma Defx_gcRound_ok:
  assumes "ok (d_m d)"
  shows "\<exists>xs s'. Defx_gcRound M w d now = Ok (fold (\<lambda>(k, v). notify (d_onExpire d) k (dv_value v)) xs w, d\<lparr>d_m := s'\<rparr>) \<and>
    ok s' \<and> val s' = pruned (\<lambda>k v. dv_exp v < Unix now) (val (d_m d)) \<and>
    map_of xs = pruned (\<lambda>k v. \<not> dv_exp v < Unix now) (val (d_m d)) \<and> distinct (map fst xs)"
proof -
  let ?p = "\<lambda>val. dv_exp val < Unix now"
  obtain xs s' where "m_Range M (prune M (discard ?p (d_onExpire d))) (w, d_m d) =
      Ok (fold (\<lambda>(k, v). notify (d_onExpire d) k (dv_value v)) (filter (\<lambda>(k, v). ?p v) xs) w, s')"
      "ok s'" "val s' = pruned (\<lambda>k. ?p) (val (d_m d))" "map_of xs = val (d_m d)" "distinct (map fst xs)"
    using Range_sweep [OF assms sweeps_discard [of ?p "d_onExpire d"], of w] unfolding fold_discard by blast
  then show ?thesis using map_of_filter_entries [of xs ?p] unfolding Defx_gcRound_prune
    by (intro exI [of _ "filter (\<lambda>(k, v). ?p v) xs"] exI [of _ s']) simp
qed

lemma Defx_Close_ok:
  assumes "ok (d_m d)"
  shows "\<exists>xs s'. Defx_Close M w d = Ok (fold (\<lambda>(k, v). notify (d_onExpire d) k (dv_value v)) xs w, d\<lparr>d_ticker := None, d_m := s'\<rparr>) \<and>
    ok s' \<and> val s' = Map.empty \<and> map_of xs = val (d_m d) \<and> distinct (map fst xs)"
proof -
  have f: "(\<lambda>(k, v) t. fst (discard (\<lambda>_. True) (d_onExpire d) k v t)) = (\<lambda>(k, v). notify (d_onExpire d) k (dv_value v))"
    by (auto simp: discard_def fun_eq_iff)
  obtain xs s' where "m_Range M (prune M (discard (\<lambda>_. True) (d_onExpire d))) (w, d_m d) = Ok (fold (\<lambda>(k, v). notify (d_onExpire d) k (dv_value v)) xs w, s')"
      "ok s'" "val s' = Map.empty" "map_of xs = val (d_m d)" "distinct (map fst xs)"
    using Range_sweep [OF assms sweeps_discard [of "\<lambda>_. True" "d_onExpire d"], of w] unfolding f pruned_all by blast
  then show ?thesis unfolding Defx_Close_prune by (intro exI [of _ xs] exI [of _ s']) simp
qed

end

interpretation hdefx: defx_mapper "HmapMapper zero h :: (('k, 'v DefxValue) Map, 'k, 'v DefxValue, 'w) Mapper" "hmap_ok h" "\<lambda>m. holding m"
  for zero :: 'k and h :: "'k \<Rightarrow> uintptr"
  by (rule defx_mapper.intro) (rule hmap.mapper_reentrant_axioms)

lemma Mmap_discard_blocks:
  assumes "mmap_ok s" "map_of (mm s) k = Some v" "p v"
  shows "m_Range MmapMapper (prune MmapMapper (discard p onExpire)) (w, s) = Fuel"
  using Mmap_Range_prune_blocks [OF assms(1), of "discard p onExpire" "\<lambda>_. p" k v w] assms(2,3)
  by (simp add: MmapMapper_def discard_def)

lemma hmap_new: "\<exists>m :: ('k, 'v) Map. Hashmap.New zero h = Ok m \<and> hmap_ok h m \<and> holding m = Map.empty"
proof -
  obtain m :: "('k, 'v) Map" where "Hashmap.New zero h = Ok m" "reaches zero h m Map.empty" using New_reaches [of zero h] by blast
  then show ?thesis using reaches_hmap [of zero h m Map.empty] by auto
qed

lemma NewCache_ok: "\<exists>c :: ('k, 'v Item) Map Cache. NewCache zero h gcInterval = Ok c \<and> c_ticker c \<noteq> None"
  using hmap_new [of zero h, where ?'v = "'v Item"] by (auto simp: NewCache_def NewCacheWithMapper_def NewHmap_def Let_def)

section \<open>Properties\<close>



text \<open>
  C33. The life of a value in \<open>Defx\<close>: the first \<open>Load\<close> of a key calls the loader once and stores its value, and nothing else changes in the map.
  Every later one leaves the world and the stored values as they are, so it does not call the loader: it returns that value until the
  second of expiry is over, and then \<open>ErrKeyExpired\<close>, without loading again. A round of the collector removes exactly the
  expired values and calls the callback once for each of them, so that then the next \<open>Load\<close> loads again.
\<close>

theorem Defx_lifecycle:
  fixes d :: "(('k, 'v DefxValue) Map, 'k, 'v, 'e, 'w) Defx"
  assumes "hmap_ok h (d_m d)" "holding (d_m d) key = None" "d_loader d key w = (w', Inr v)"
  shows "\<exists>m1. Defx_Load dv (HmapMapper zero h) w d now now' key = Ok (w', d\<lparr>d_m := m1\<rparr>, v, None) \<and> hmap_ok h m1 \<and>
    holding m1 = (holding (d_m d))(key \<mapsto> \<lparr>dv_value = v, dv_exp = Unix (now' + d_expire d)\<rparr>) \<and>
    (\<forall>t t' u. \<exists>m2. Defx_Load dv (HmapMapper zero h) u (d\<lparr>d_m := m1\<rparr>) t t' key = Ok (u, d\<lparr>d_m := m2\<rparr>,
       if Unix (now' + d_expire d) < Unix t then (dv, Some ErrKeyExpired) else (v, None)) \<and> hmap_ok h m2 \<and> holding m2 = holding m1) \<and>
    (\<forall>t u. \<exists>xs m2. Defx_gcRound (HmapMapper zero h) u (d\<lparr>d_m := m1\<rparr>) t =
         Ok (fold (\<lambda>(k, x). notify (d_onExpire d) k (dv_value x)) xs u, d\<lparr>d_m := m2\<rparr>) \<and> hmap_ok h m2 \<and>
       holding m2 = pruned (\<lambda>k x. dv_exp x < Unix t) (holding m1) \<and>
       map_of xs = pruned (\<lambda>k x. \<not> dv_exp x < Unix t) (holding m1) \<and> distinct (map fst xs))"
proof -
  let ?v = "\<lparr>dv_value = v, dv_exp = Unix (now' + d_expire d)\<rparr>"
  obtain m where l: "Defx_load (HmapMapper zero h) w d now now' key = Ok (w', d\<lparr>d_m := m\<rparr>, Inr ?v)" and m: "hmap_ok h m"
    and hm: "holding m = (holding (d_m d))(key \<mapsto> ?v)"
    using hdefx.Defx_load_new [OF assms(1-3), of zero now now'] by auto
  let ?d = "d\<lparr>d_m := m\<rparr>"
  have d: "hmap_ok h (d_m ?d)" "holding (d_m ?d) key = Some ?v" using m hm by simp_all
  have "\<exists>m2. Defx_Load dv (HmapMapper zero h) u ?d t t' key = Ok (u, d\<lparr>d_m := m2\<rparr>,
      if Unix (now' + d_expire d) < Unix t then (dv, Some ErrKeyExpired) else (v, None)) \<and> hmap_ok h m2 \<and> holding m2 = holding m" for t t' u
    using hdefx.Defx_load_stored [OF d, of zero u t t'] by (auto simp: Defx_Load_def)
  moreover have "\<exists>xs m2. Defx_gcRound (HmapMapper zero h) u ?d t =
        Ok (fold (\<lambda>(k, x). notify (d_onExpire d) k (dv_value x)) xs u, d\<lparr>d_m := m2\<rparr>) \<and> hmap_ok h m2 \<and>
      holding m2 = pruned (\<lambda>k x. dv_exp x < Unix t) (holding m) \<and>
      map_of xs = pruned (\<lambda>k x. \<not> dv_exp x < Unix t) (holding m) \<and> distinct (map fst xs)" for t u
    using hdefx.Defx_gcRound_ok [OF d(1), of zero u t] by simp
  moreover have "Defx_Load dv (HmapMapper zero h) w d now now' key = Ok (w', ?d, v, None)" using l by (simp add: Defx_Load_def)
  ultimately show ?thesis using m hm by blast
qed

theorem Defx_lifecycle_witness:
  "\<exists>(d :: ((nat, string DefxValue) Map, nat, string, unit, nat) Defx) d1 d2.
     NewDefx '''' 0 of_nat (3 * Second) 0 (Some (\<lambda>k w. (w + k, Inr ''v''))) = Ok d \<and>
     Defx_Load '''' (HmapMapper 0 of_nat) 0 d 0 0 7 = Ok (7, d1, ''v'', None) \<and>
     Defx_Load '''' (HmapMapper 0 of_nat) 7 d1 (4 * Second) (4 * Second) 7 = Ok (7, d2, '''', Some ErrKeyExpired)"
proof -
  obtain m :: "(nat, string DefxValue) Map" where m: "Hashmap.New 0 of_nat = Ok m" "hmap_ok of_nat m" "holding m = Map.empty"
    using hmap_new [of 0 of_nat] by blast
  let ?d = "NewDefxWithMapper '''' m (3 * Second) 0 (Some (\<lambda>k w. (w + k, Inr ''v''))) :: ((nat, string DefxValue) Map, nat, string, unit, nat) Defx"
  have n: "NewDefx '''' 0 of_nat (3 * Second) 0 (Some (\<lambda>k w. (w + k, Inr ''v''))) = Ok ?d" using m(1) by (simp add: NewDefx_def NewHmap_def)
  have d: "hmap_ok of_nat (d_m ?d)" "holding (d_m ?d) 7 = None" "d_loader ?d 7 0 = (7, Inr ''v'')" "d_expire ?d = 3 * Second"
    using m by (simp_all add: NewDefxWithMapper_def)
  from Defx_lifecycle [OF d(1-3), where dv = "''''" and zero = 0 and now = 0 and now' = 0] obtain m1 where
    d1: "Defx_Load '''' (HmapMapper 0 of_nat) 0 ?d 0 0 7 = Ok (7, ?d\<lparr>d_m := m1\<rparr>, ''v'', None)"
    "\<forall>t t' u. \<exists>m2. Defx_Load '''' (HmapMapper 0 of_nat) u (?d\<lparr>d_m := m1\<rparr>) t t' 7 =
      Ok (u, ?d\<lparr>d_m := m2\<rparr>, if Unix (0 + d_expire ?d) < Unix t then ('''', Some ErrKeyExpired) else (''v'', None)) \<and> hmap_ok of_nat m2 \<and> holding m2 = holding m1" by blast
  have "Unix (0 + d_expire ?d) < Unix (4 * Second)" unfolding d(4) by (simp add: Unix_def Second_def)
  then obtain m2 where "Defx_Load '''' (HmapMapper 0 of_nat) 7 (?d\<lparr>d_m := m1\<rparr>) (4 * Second) (4 * Second) 7 = Ok (7, ?d\<lparr>d_m := m2\<rparr>, '''', Some ErrKeyExpired)"
    using d1(2) [rule_format, of 7 "4 * Second" "4 * Second"] by auto
  then show ?thesis using n d1(1) by blast
qed

text \<open>
  C34. \<open>Close\<close> of a \<open>Defx\<close> over a hash map reports every stored value once and leaves the map empty.
  Over an \<open>Mmap\<close> it never returns unless the map is empty, and so does every round of the collector
  that meets an expired value: the callback waits for the lock that \<open>Range\<close> holds.
\<close>

theorem Defx_Close_mappers:
  fixes d :: "(('k, 'v DefxValue) Map, 'k, 'v, 'e, 'w) Defx" and b :: "(('k, 'v DefxValue) Mmap, 'k, 'v, 'e, 'w) Defx"
  assumes "hmap_ok h (d_m d)" "mmap_ok (d_m b)"
  shows "(\<exists>xs m'. Defx_Close (HmapMapper zero h) w d =
        Ok (fold (\<lambda>(k, v). notify (d_onExpire d) k (dv_value v)) xs w, d\<lparr>d_ticker := None, d_m := m'\<rparr>) \<and>
        map_of xs = holding (d_m d) \<and> distinct (map fst xs) \<and> holding m' = Map.empty) \<and>
    (map_of (mm (d_m b)) k = Some v \<longrightarrow> Defx_Close MmapMapper w b = Fuel) \<and>
    (map_of (mm (d_m b)) k = Some v \<and> dv_exp v < Unix now \<longrightarrow> Defx_gcRound MmapMapper w b now = Fuel)"
proof (intro conjI impI)
  show "\<exists>xs m'. Defx_Close (HmapMapper zero h) w d =
        Ok (fold (\<lambda>(k, v). notify (d_onExpire d) k (dv_value v)) xs w, d\<lparr>d_ticker := None, d_m := m'\<rparr>) \<and>
        map_of xs = holding (d_m d) \<and> distinct (map fst xs) \<and> holding m' = Map.empty"
    using hdefx.Defx_Close_ok [OF assms(1), of zero w] by blast
  show "Defx_Close MmapMapper w b = Fuel" if "map_of (mm (d_m b)) k = Some v"
    using Mmap_discard_blocks [OF assms(2) that, of "\<lambda>_. True" "d_onExpire b" w] by (simp add: Defx_Close_prune)
  show "Defx_gcRound MmapMapper w b now = Fuel" if "map_of (mm (d_m b)) k = Some v \<and> dv_exp v < Unix now"
    using Mmap_discard_blocks [OF assms(2), of k v "\<lambda>val. dv_exp val < Unix now" "d_onExpire b" w] that by (simp add: Defx_gcRound_prune)
qed

theorem Defx_Close_mappers_witness:
  "\<exists>(d :: ((nat, string DefxValue) Map, nat, string, unit, nat) Defx) d'. NewDefx '''' 0 of_nat 1 0 None = Ok d \<and>
     Defx_Close (HmapMapper 0 of_nat) 5 d = Ok (5, d') \<and>
     Defx_Close MmapMapper 5 (NewDefxWithMapper '''' ((NewMmap rev)\<lparr>mm := [(1 :: nat, \<lparr>dv_value = ''v'', dv_exp = 3\<rparr>)]\<rparr>) 1 0 None
       :: ((nat, string DefxValue) Mmap, nat, string, unit, nat) Defx) = Fuel"
proof -
  obtain m :: "(nat, string DefxValue) Map" where m: "Hashmap.New 0 of_nat = Ok m" "hmap_ok of_nat m" "holding m = Map.empty"
    using hmap_new [of 0 of_nat] by blast
  let ?d = "NewDefxWithMapper '''' m 1 0 None :: ((nat, string DefxValue) Map, nat, string, unit, nat) Defx"
  let ?b = "NewDefxWithMapper '''' ((NewMmap rev)\<lparr>mm := [(1 :: nat, \<lparr>dv_value = ''v'', dv_exp = 3\<rparr>)]\<rparr>) 1 0 None
    :: ((nat, string DefxValue) Mmap, nat, string, unit, nat) Defx"
  have h: "hmap_ok of_nat (d_m ?d)" "d_onExpire ?d = None" "d_m ?d = m" using m by (simp_all add: NewDefxWithMapper_def)
  have b: "mmap_ok (d_m ?b)" "map_of (mm (d_m ?b)) 1 = Some \<lparr>dv_value = ''v'', dv_exp = 3\<rparr>"
    by (simp_all add: NewDefxWithMapper_def NewMmap_def mmap_ok_def)
  from Defx_Close_mappers [OF h(1) b(1), of 0 5 1 "\<lparr>dv_value = ''v'', dv_exp = 3\<rparr>"] obtain xs m' where
    x: "Defx_Close (HmapMapper 0 of_nat) 5 ?d = Ok (fold (\<lambda>(k, v). notify (d_onExpire ?d) k (dv_value v)) xs 5, ?d\<lparr>d_ticker := None, d_m := m'\<rparr>)"
    "map_of xs = holding (d_m ?d)" "Defx_Close MmapMapper 5 ?b = Fuel" using b(2) by blast
  have "xs = []" using x(2) h(3) m(3) by (cases xs) (auto simp: fun_eq_iff split: if_splits)
  then show ?thesis using x m(1) by (auto simp: NewDefx_def NewHmap_def)
qed

end
