(* ===== verification/Umap_Lock.thy ===== *)
theory Umap_Lock
  imports Umap_Mapper
begin

text \<open>
  The locks by key of \<open>src/umap/mlock.go\<close>: the operations over any mapper, one at a time, and a step
  relation in which threads interleave at every access to the mapper or to a channel.
\<close>

section \<open>The operations, one at a time\<close>

text \<open>
  A lock is a channel of capacity one: \<open>chans\<close> has the number of values in each channel, and a channel is
  its position there. The state of a locker is the pair of its mapper and the channels.
\<close>

type_synonym chans = "nat list"

definition NewLockerWithMapper :: "'s \<Rightarrow> 's \<times> chans" where
  "NewLockerWithMapper mp = (mp, [])"

text \<open>\<open>NewLocker\<close> does not use its mapper.\<close>

definition NewLocker :: "'k \<Rightarrow> ('k \<Rightarrow> uintptr) \<Rightarrow> 's \<Rightarrow> (('k, nat) Map \<times> chans) result" where
  "NewLocker zero h mp = bind_outcome (NewHmap zero h) (\<lambda>m. Ok (m, []))"

fun getLocker :: "nat \<Rightarrow> ('s, 'k, nat, 't) Mapper \<Rightarrow> 's \<times> chans \<Rightarrow> 'k \<Rightarrow> (('s \<times> chans) \<times> nat) result" where
  "getLocker 0 M m k = Fuel"
| "getLocker (Suc f) M m k =
     bind_outcome (m_Load M (fst m) k) (\<lambda>(s, v).
     case v of
       Some locker \<Rightarrow> Ok ((s, snd m), locker)
     | None \<Rightarrow> bind_outcome (m_Set M s k (length (snd m))) (\<lambda>(s, _). getLocker f M (s, snd m @ [0]) k))"

text \<open>
  \<open>LockWithContext\<close> when nothing else runs: \<open>done\<close> tells whether the context is already done, and \<open>pick\<close>
  which case \<open>select\<close> takes when both are ready. Sending to a full channel blocks.
\<close>

definition LockWithContext :: "('s, 'k, nat, 't) Mapper \<Rightarrow> bool \<Rightarrow> bool \<Rightarrow> 's \<times> chans \<Rightarrow> 'k \<Rightarrow> (('s \<times> chans) \<times> bool) result" where
  "LockWithContext M ctx_done pick m k =
     bind_outcome (getLocker 2 M m k) (\<lambda>(m, locker).
     if snd m ! locker = 0 \<and> (\<not> ctx_done \<or> pick) then Ok ((fst m, (snd m)[locker := 1]), True)
     else if ctx_done then Ok (m, False)
     else Fuel)"

definition MLock_Lock :: "('s, 'k, nat, 't) Mapper \<Rightarrow> 's \<times> chans \<Rightarrow> 'k \<Rightarrow> ('s \<times> chans) result" where
  "MLock_Lock M m k = bind_outcome (LockWithContext M False False m k) (\<lambda>(m, _). Ok m)"

definition IsLocked :: "('s, 'k, nat, 't) Mapper \<Rightarrow> 's \<times> chans \<Rightarrow> 'k \<Rightarrow> (('s \<times> chans) \<times> bool) result" where
  "IsLocked M m k = bind_outcome (getLocker 2 M m k) (\<lambda>(m, locker). Ok (m, snd m ! locker > 0))"

definition unlock :: "chans \<Rightarrow> nat \<Rightarrow> chans" where
  "unlock cs locker = (if cs ! locker > 0 then cs[locker := cs ! locker - 1] else cs)"

definition MLock_Unlock :: "('s, 'k, nat, 't) Mapper \<Rightarrow> 's \<times> chans \<Rightarrow> 'k \<Rightarrow> ('s \<times> chans) result" where
  "MLock_Unlock M m k = bind_outcome (getLocker 2 M m k) (\<lambda>(m, locker). Ok (fst m, unlock (snd m) locker))"

definition Release :: "('s, 'k, nat, 't) Mapper \<Rightarrow> 's \<times> chans \<Rightarrow> 'k \<Rightarrow> ('s \<times> chans) result" where
  "Release M m k =
     bind_outcome (MLock_Unlock M m k) (\<lambda>m. bind_outcome (m_Delete M (fst m) k) (\<lambda>s. Ok (s, snd m)))"

definition ReleaseAll :: "('s, 'k, nat, chans) Mapper \<Rightarrow> 's \<times> chans \<Rightarrow> ('s \<times> chans) result" where
  "ReleaseAll M m =
     bind_outcome (m_Range M (\<lambda>k v (cs, s).
       let cs = unlock cs v in bind_outcome (m_Delete M s k) (\<lambda>s. Ok ((cs, s), True))) (snd m, fst m))
       (\<lambda>(cs, s). Ok (s, cs))"

section \<open>Many threads\<close>

text \<open>
  The same code with a thread standing in front of each access to the mapper or to a channel. A thread
  locks when it is idle, and unlocks or releases what it has locked.
\<close>

datatype goal = To_lock | To_unlock | To_release

datatype 'k pc =
    Idle
  | Loading 'k goal
  | Making 'k goal
  | Sending 'k nat
  | Holding 'k
  | Checking 'k nat goal
  | Receiving 'k nat goal
  | Deleting 'k

record ('t, 'k) sys =
  table :: "'k \<Rightarrow> nat option"
  chan :: chans
  pcs :: "'t \<Rightarrow> 'k pc"

definition go :: "'t \<Rightarrow> 'k pc \<Rightarrow> ('t, 'k) sys \<Rightarrow> ('t, 'k) sys" where
  "go t p S = S\<lparr>pcs := (pcs S)(t := p)\<rparr>"

definition got :: "'k \<Rightarrow> goal \<Rightarrow> nat \<Rightarrow> 'k pc" where
  "got k g c = (case g of To_lock \<Rightarrow> Sending k c | _ \<Rightarrow> Checking k c g)"

definition unlocked :: "'k \<Rightarrow> goal \<Rightarrow> 'k pc" where
  "unlocked k g = (case g of To_release \<Rightarrow> Deleting k | _ \<Rightarrow> Idle)"

datatype 'k action = Call 'k goal | Internal

inductive mlock_step :: "'t \<Rightarrow> 'k action \<Rightarrow> ('t, 'k) sys \<Rightarrow> ('t, 'k) sys \<Rightarrow> bool" where
  call_lock: "pcs S t = Idle \<Longrightarrow> mlock_step t (Call k To_lock) S (go t (Loading k To_lock) S)"
| call_unlock: "pcs S t = Holding k \<Longrightarrow> g \<noteq> To_lock \<Longrightarrow> mlock_step t (Call k g) S (go t (Loading k g) S)"
| load_hit: "pcs S t = Loading k g \<Longrightarrow> table S k = Some c \<Longrightarrow> mlock_step t Internal S (go t (got k g c) S)"
| load_miss: "pcs S t = Loading k g \<Longrightarrow> table S k = None \<Longrightarrow> mlock_step t Internal S (go t (Making k g) S)"
| make_chan: "pcs S t = Making k g \<Longrightarrow> mlock_step t Internal S
    (go t (Loading k g) (S\<lparr>table := (table S)(k \<mapsto> length (chan S)), chan := chan S @ [0]\<rparr>))"
| send: "pcs S t = Sending k c \<Longrightarrow> chan S ! c = 0 \<Longrightarrow> mlock_step t Internal S (go t (Holding k) (S\<lparr>chan := (chan S)[c := 1]\<rparr>))"
| cancel: "pcs S t = Sending k c \<Longrightarrow> mlock_step t Internal S (go t Idle S)"
| check: "pcs S t = Checking k c g \<Longrightarrow>
    mlock_step t Internal S (go t (if chan S ! c > 0 then Receiving k c g else unlocked k g) S)"
| receive: "pcs S t = Receiving k c g \<Longrightarrow> chan S ! c > 0 \<Longrightarrow>
    mlock_step t Internal S (go t (unlocked k g) (S\<lparr>chan := (chan S)[c := chan S ! c - 1]\<rparr>))"
| delete: "pcs S t = Deleting k \<Longrightarrow> mlock_step t Internal S (go t Idle (S\<lparr>table := (table S)(k := None)\<rparr>))"

inductive mlock_run :: "('k action \<Rightarrow> bool) \<Rightarrow> ('t, 'k) sys \<Rightarrow> ('t, 'k) sys \<Rightarrow> bool" for P where
  run_refl: "mlock_run P S S"
| run_step: "mlock_run P S S' \<Longrightarrow> P a \<Longrightarrow> mlock_step t a S' S'' \<Longrightarrow> mlock_run P S S''"

section \<open>Mutual exclusion\<close>

text \<open>Whether a thread owns the key.\<close>

fun owns :: "'k \<Rightarrow> 'k pc \<Rightarrow> bool" where
  "owns k (Holding l) \<longleftrightarrow> l = k"
| "owns k (Loading l g) \<longleftrightarrow> l = k \<and> g \<noteq> To_lock"
| "owns k (Checking l d g) \<longleftrightarrow> l = k"
| "owns k (Receiving l d g) \<longleftrightarrow> l = k"
| "owns k _ \<longleftrightarrow> False"

text \<open>
  Where a thread may stand while nobody releases \<open>k\<close>: the channel \<open>c\<close> is used for \<open>k\<close> only, and no thread
  is about to make a channel for \<open>k\<close> or to delete it.
\<close>

fun pc_ok :: "'k \<Rightarrow> nat \<Rightarrow> 'k pc \<Rightarrow> bool" where
  "pc_ok k c (Making l g) \<longleftrightarrow> l \<noteq> k"
| "pc_ok k c (Deleting l) \<longleftrightarrow> l \<noteq> k"
| "pc_ok k c (Loading l g) \<longleftrightarrow> \<not> (l = k \<and> g = To_release)"
| "pc_ok k c (Sending l d) \<longleftrightarrow> (l = k \<longleftrightarrow> d = c)"
| "pc_ok k c (Checking l d g) \<longleftrightarrow> (l = k \<longleftrightarrow> d = c) \<and> g \<noteq> To_lock \<and> \<not> (l = k \<and> g = To_release)"
| "pc_ok k c (Receiving l d g) \<longleftrightarrow> (l = k \<longleftrightarrow> d = c) \<and> g \<noteq> To_lock \<and> \<not> (l = k \<and> g = To_release)"
| "pc_ok k c _ \<longleftrightarrow> True"

definition chans_ok :: "'k \<Rightarrow> nat \<Rightarrow> ('t, 'k) sys \<Rightarrow> bool" where
  "chans_ok k c S \<longleftrightarrow> table S k = Some c \<and> c < length (chan S) \<and> (\<forall>l. l \<noteq> k \<longrightarrow> table S l \<noteq> Some c) \<and> (\<forall>t. pc_ok k c (pcs S t))"

definition exclusive :: "'k \<Rightarrow> nat \<Rightarrow> ('t, 'k) sys \<Rightarrow> bool" where
  "exclusive k c S \<longleftrightarrow> (\<forall>t u. owns k (pcs S t) \<longrightarrow> owns k (pcs S u) \<longrightarrow> t = u) \<and>
     chan S ! c = (if \<exists>t. owns k (pcs S t) then 1 else 0)"

lemma go_simps [simp]: "table (go t p S) = table S" "chan (go t p S) = chan S" "pcs (go t p S) = (pcs S)(t := p)"
  by (simp_all add: go_def)

lemma chans_okD: "chans_ok k c S \<Longrightarrow> pc_ok k c (pcs S t)"
  by (simp add: chans_ok_def)

lemma chans_ok_same:
  assumes "chans_ok k c S" "table S' k = Some c" "\<And>l. l \<noteq> k \<Longrightarrow> table S' l \<noteq> Some c" "length (chan S) \<le> length (chan S')"
    "pcs S' = (pcs S)(t := p)" "pc_ok k c p"
  shows "chans_ok k c S'"
proof -
  have "c < length (chan S')" using assms(1,4) by (simp add: chans_ok_def)
  moreover have "pc_ok k c (pcs S' u)" for u using assms(1,5,6) by (simp add: chans_ok_def)
  ultimately show ?thesis unfolding chans_ok_def using assms(2,3) by blast
qed

lemma chans_ok_go:
  assumes "chans_ok k c S" "pc_ok k c p"
  shows "chans_ok k c (go t p S)"
  using assms(2) by (intro chans_ok_same [OF assms(1), of _ t p]) (use assms(1) in \<open>simp_all add: chans_ok_def\<close>)

lemma chans_ok_step:
  assumes "mlock_step t a S S'" "chans_ok k c S" "a \<noteq> Call k To_release"
  shows "chans_ok k c S'"
  using assms chans_okD [OF assms(2), of t]
proof (induction rule: mlock_step.induct)
  case (call_lock S t l)
  then show ?case by (intro chans_ok_go) auto
next
  case (call_unlock S t l g)
  then show ?case by (intro chans_ok_go) auto
next
  case (load_hit S t l g d)
  then have "l = k \<longleftrightarrow> d = c" by (auto simp: chans_ok_def)
  then show ?case using load_hit by (intro chans_ok_go) (auto simp: got_def split: goal.split)
next
  case (load_miss S t l g)
  then show ?case by (intro chans_ok_go) (auto simp: chans_ok_def)
next
  case (make_chan S t l g)
  then have "l \<noteq> k" "c < length (chan S)" by (simp_all add: chans_ok_def)
  then show ?case using make_chan by (intro chans_ok_same [OF make_chan(2), of _ t "Loading l g"]) (auto simp: chans_ok_def split: if_splits)
next
  case (send S t l d)
  then show ?case by (intro chans_ok_same [OF send(3), of _ t "Holding l"]) (auto simp: chans_ok_def)
next
  case (cancel S t l d)
  then show ?case by (intro chans_ok_go) auto
next
  case (check S t l d g)
  then show ?case by (intro chans_ok_go) (auto simp: unlocked_def split: goal.split)
next
  case (receive S t l d g)
  then have "pc_ok k c (unlocked l g)" by (auto simp: unlocked_def split: goal.split)
  then show ?case using receive by (intro chans_ok_same [OF receive(3), of _ t "unlocked l g"]) (auto simp: chans_ok_def)
next
  case (delete S t l)
  then show ?case by (intro chans_ok_same [OF delete(2), of _ t Idle]) (auto simp: chans_ok_def)
qed

text \<open>Ownership changes only when a thread takes the value of the channel or puts it there.\<close>

lemma exclusive_same:
  assumes "exclusive k c S" "chan S' ! c = chan S ! c" "pcs S' = (pcs S)(t := p)" "owns k p \<longleftrightarrow> owns k (pcs S t)"
  shows "exclusive k c S'"
proof -
  have "owns k (pcs S' u) = owns k (pcs S u)" for u using assms(3,4) by simp
  then show ?thesis using assms(1,2) by (simp add: exclusive_def)
qed

lemma exclusive_step:
  assumes "mlock_step t a S S'" "chans_ok k c S" "exclusive k c S" "a \<noteq> Call k To_release"
  shows "exclusive k c S'"
  using assms chans_okD [OF assms(2), of t]
proof (induction rule: mlock_step.induct)
  case (call_lock S t l)
  then show ?case by - (rule exclusive_same [of k c S _ t "Loading l To_lock"], auto)
next
  case (call_unlock S t l g)
  then show ?case by - (rule exclusive_same [of k c S _ t "Loading l g"], auto)
next
  case (load_hit S t l g d)
  then show ?case by - (rule exclusive_same [of k c S _ t "got l g d"], auto simp: got_def split: goal.split)
next
  case (load_miss S t l g)
  then show ?case by - (rule exclusive_same [of k c S _ t "Making l g"], auto simp: chans_ok_def)
next
  case (make_chan S t l g)
  then show ?case by - (rule exclusive_same [of k c S _ t "Loading l g"], auto simp: chans_ok_def nth_append)
next
  case (send S t l d)
  show ?case
  proof (cases "l = k")
    case True
    then have "\<forall>u. \<not> owns k (pcs S u)" "d = c" using send by (auto simp: exclusive_def split: if_splits)
    then show ?thesis using True send by (auto simp: exclusive_def chans_ok_def)
  next
    case False
    then show ?thesis using send by - (rule exclusive_same [of k c S _ t "Holding l"], auto)
  qed
next
  case (cancel S t l d)
  then show ?case by - (rule exclusive_same [of k c S _ t Idle], auto)
next
  case (check S t l d g)
  have "owns k (if chan S ! d > 0 then Receiving l d g else unlocked l g) = owns k (pcs S t)"
  proof (cases "l = k")
    case True
    then have "owns k (pcs S t)" "d = c" using check by auto
    then have "chan S ! d = 1" using check(3) by (auto simp: exclusive_def split: if_splits)
    then show ?thesis using True check(1) by simp
  next
    case False
    then show ?thesis using check by (auto simp: unlocked_def split: goal.split)
  qed
  then show ?case using check by - (rule exclusive_same [of k c S _ t "if chan S ! d > 0 then Receiving l d g else unlocked l g"], auto)
next
  case (receive S t l d g)
  show ?case
  proof (cases "l = k")
    case True
    then have o: "d = c" "owns k (pcs S t)" "g = To_unlock" using receive by (cases g; simp)+
    then have "chan S ! c = 1" "\<forall>u. owns k (pcs S u) \<longrightarrow> u = t" using receive by (auto simp: exclusive_def split: if_splits)
    moreover have "\<not> owns k (unlocked l g)" using o(3) by (simp add: unlocked_def)
    ultimately have "\<not> owns k (((pcs S)(t := unlocked l g)) u)" for u by auto
    then show ?thesis using receive(3) o(1) \<open>chan S ! c = 1\<close> by (simp add: exclusive_def chans_ok_def)
  next
    case False
    then show ?thesis using receive
      by - (rule exclusive_same [of k c S _ t "unlocked l g"], auto simp: unlocked_def split: goal.split)
  qed
next
  case (delete S t l)
  then show ?case by - (rule exclusive_same [of k c S _ t Idle], auto)
qed

lemma mlock_run_exclusive:
  assumes "mlock_run (\<lambda>a. a \<noteq> Call k To_release) S S'" "chans_ok k c S" "exclusive k c S"
  shows "chans_ok k c S' \<and> exclusive k c S'"
  using assms by (induction rule: mlock_run.induct) (auto dest: chans_ok_step exclusive_step)

section \<open>One at a time, a locker is a set of keys\<close>

text \<open>The keys that are locked, when every key has a channel of its own.\<close>

definition locked :: "('k \<Rightarrow> nat option) \<Rightarrow> chans \<Rightarrow> 'k set" where
  "locked f cs = {k. \<exists>c. f k = Some c \<and> cs ! c > 0}"

definition lockers_ok :: "('k \<Rightarrow> nat option) \<Rightarrow> chans \<Rightarrow> bool" where
  "lockers_ok f cs \<longleftrightarrow> (\<forall>k c. f k = Some c \<longrightarrow> c < length cs) \<and> (\<forall>k l c. f k = Some c \<longrightarrow> f l = Some c \<longrightarrow> k = l) \<and> (\<forall>c \<in> set cs. c \<le> 1)"

lemma in_locked: "f k = Some c \<Longrightarrow> k \<in> locked f cs \<longleftrightarrow> cs ! c > 0"
  by (simp add: locked_def)

lemma lockers_new:
  assumes "lockers_ok f cs" "f k = None"
  shows "lockers_ok (f(k \<mapsto> length cs)) (cs @ [0])" "locked (f(k \<mapsto> length cs)) (cs @ [0]) = locked f cs"
proof -
  have b: "c < length cs" if "f l = Some c" for l c using assms(1) that by (simp add: lockers_ok_def)
  show "lockers_ok (f(k \<mapsto> length cs)) (cs @ [0])"
    unfolding lockers_ok_def
  proof (intro conjI allI impI)
    show "c < length (cs @ [0])" if "(f(k \<mapsto> length cs)) l = Some c" for l c
      using that b [of l c] by (auto split: if_splits)
    show "l = l'" if "(f(k \<mapsto> length cs)) l = Some c" "(f(k \<mapsto> length cs)) l' = Some c" for l l' c
      using that b [of l c] b [of l' c] assms(1) by (auto simp: lockers_ok_def split: if_splits)
  qed (use assms(1) in \<open>auto simp: lockers_ok_def\<close>)
  show "locked (f(k \<mapsto> length cs)) (cs @ [0]) = locked f cs"
    using b assms(2) by (auto simp: locked_def nth_append split: if_splits)
qed

lemma lockers_set:
  assumes "lockers_ok f cs" "f k = Some c" "n \<le> 1"
  shows "lockers_ok f (cs[c := n])" "locked f (cs[c := n]) = (if n = 0 then locked f cs - {k} else insert k (locked f cs))"
proof -
  have c: "c < length cs" using assms(1,2) by (simp add: lockers_ok_def)
  have other: "(cs[c := n]) ! d = cs ! d" if "f l = Some d" "l \<noteq> k" for l d
    using assms(1,2) that by (metis lockers_ok_def nth_list_update_neq)
  show "lockers_ok f (cs[c := n])" using assms c by (auto simp: lockers_ok_def dest!: set_update_subset_insert [THEN subsetD])
  show "locked f (cs[c := n]) = (if n = 0 then locked f cs - {k} else insert k (locked f cs))"
  proof (rule set_eqI)
    fix l
    show "l \<in> locked f (cs[c := n]) \<longleftrightarrow> l \<in> (if n = 0 then locked f cs - {k} else insert k (locked f cs))"
      using c assms(2) other [of l] by (cases "l = k") (auto simp: locked_def)
  qed
qed

locale lock_mapper = mapper_reentrant M ok val
  for M :: "('s, 'k, nat, chans) Mapper" and ok and val
begin

lemma getLocker_ok:
  assumes "ok (fst m)" "lockers_ok (val (fst m)) (snd m)"
  shows "\<exists>m' c. getLocker 2 M m k = Ok (m', c) \<and> ok (fst m') \<and> lockers_ok (val (fst m')) (snd m') \<and>
    val (fst m') k = Some c \<and> locked (val (fst m')) (snd m') = locked (val (fst m)) (snd m)"
proof -
  obtain s1 where s1: "m_Load M (fst m) k = Ok (s1, val (fst m) k)" "ok s1" "val s1 = val (fst m)" using Load [OF assms(1)] by blast
  show ?thesis
  proof (cases "val (fst m) k")
    case (Some c)
    then show ?thesis using s1 assms(2) by (simp add: numeral_2_eq_2)
  next
    case None
    obtain s2 where s2: "m_Set M s1 k (length (snd m)) = Ok (s2, length (snd m))" "ok s2" "val s2 = (val s1)(k \<mapsto> length (snd m))"
      using Set [OF s1(2)] by blast
    obtain s3 where s3: "m_Load M s2 k = Ok (s3, val s2 k)" "ok s3" "val s3 = val s2" using Load [OF s2(2)] by blast
    show ?thesis using None s1 s2 s3 lockers_new [OF assms(2) None] by (simp add: numeral_2_eq_2)
  qed
qed

lemma LockWithContext_ok:
  assumes "ok (fst m)" "lockers_ok (val (fst m)) (snd m)" "k \<notin> locked (val (fst m)) (snd m)"
  shows "\<exists>m'. LockWithContext M False pick m k = Ok (m', True) \<and> ok (fst m') \<and> lockers_ok (val (fst m')) (snd m') \<and>
    locked (val (fst m')) (snd m') = insert k (locked (val (fst m)) (snd m))"
proof -
  obtain m1 c where m1: "getLocker 2 M m k = Ok (m1, c)" "ok (fst m1)" "lockers_ok (val (fst m1)) (snd m1)" "val (fst m1) k = Some c"
      "locked (val (fst m1)) (snd m1) = locked (val (fst m)) (snd m)"
    using getLocker_ok [OF assms(1,2), of k] by blast
  have "snd m1 ! c = 0" using assms(3) in_locked [of "val (fst m1)" k c "snd m1"] m1 by simp
  then show ?thesis using m1 lockers_set [OF m1(3,4), of 1] by (simp add: LockWithContext_def)
qed

lemma LockWithContext_blocks:
  assumes "ok (fst m)" "lockers_ok (val (fst m)) (snd m)" "k \<in> locked (val (fst m)) (snd m)"
  shows "LockWithContext M False pick m k = Fuel" "\<exists>m'. LockWithContext M True pick m k = Ok (m', False)"
proof -
  obtain m1 c where m1: "getLocker 2 M m k = Ok (m1, c)" "val (fst m1) k = Some c" "locked (val (fst m1)) (snd m1) = locked (val (fst m)) (snd m)"
    using getLocker_ok [OF assms(1,2), of k] by blast
  have "snd m1 ! c \<noteq> 0" using assms(3) in_locked [of "val (fst m1)" k c "snd m1"] m1 by simp
  then show "LockWithContext M False pick m k = Fuel" "\<exists>m'. LockWithContext M True pick m k = Ok (m', False)"
    using m1(1) by (simp_all add: LockWithContext_def)
qed

lemma Unlock_ok:
  assumes "ok (fst m)" "lockers_ok (val (fst m)) (snd m)"
  shows "\<exists>m'. MLock_Unlock M m k = Ok m' \<and> ok (fst m') \<and> lockers_ok (val (fst m')) (snd m') \<and>
    locked (val (fst m')) (snd m') = locked (val (fst m)) (snd m) - {k}"
proof -
  obtain m1 c where m1: "getLocker 2 M m k = Ok (m1, c)" "ok (fst m1)" "lockers_ok (val (fst m1)) (snd m1)" "val (fst m1) k = Some c"
      "locked (val (fst m1)) (snd m1) = locked (val (fst m)) (snd m)"
    using getLocker_ok [OF assms, of k] by blast
  have "c < length (snd m1)" using m1(3,4) by (simp add: lockers_ok_def)
  then have "snd m1 ! c \<le> 1" using m1(3) by (simp add: lockers_ok_def)
  then have u: "unlock (snd m1) c = (snd m1)[c := 0]"
    using \<open>c < length (snd m1)\<close> by (auto simp: unlock_def le_Suc_eq) (metis list_update_id)
  show ?thesis using m1 lockers_set [OF m1(3,4), of 0] by (simp add: MLock_Unlock_def u)
qed

lemma IsLocked_ok:
  assumes "ok (fst m)" "lockers_ok (val (fst m)) (snd m)"
  shows "\<exists>m'. IsLocked M m k = Ok (m', k \<in> locked (val (fst m)) (snd m))"
proof -
  obtain m1 c where m1: "getLocker 2 M m k = Ok (m1, c)" "val (fst m1) k = Some c" "locked (val (fst m1)) (snd m1) = locked (val (fst m)) (snd m)"
    using getLocker_ok [OF assms, of k] by blast
  then have "snd m1 ! c > 0 \<longleftrightarrow> k \<in> locked (val (fst m)) (snd m)" using in_locked [of "val (fst m1)" k c "snd m1"] m1 by simp
  then show ?thesis using m1(1) by (simp add: IsLocked_def)
qed

end

interpretation hlock: lock_mapper "HmapMapper zero h :: (('k, nat) Map, 'k, nat, chans) Mapper" "hmap_ok h" "\<lambda>m. holding m"
  for zero :: 'k and h :: "'k \<Rightarrow> uintptr"
  by (rule lock_mapper.intro) (rule hmap.mapper_reentrant_axioms)

text \<open>\<open>ReleaseAll\<close> over an \<open>Mmap\<close> with a lock in it waits for the lock of the map itself.\<close>

lemma ReleaseAll_prune:
  "ReleaseAll M m = bind_outcome (m_Range M (prune M (\<lambda>k v cs. (unlock cs v, True, True))) (snd m, fst m)) (\<lambda>(cs, s). Ok (s, cs))"
proof -
  have "(\<lambda>k v (cs, s). let cs = unlock cs v in bind_outcome (m_Delete M s k) (\<lambda>s. Ok ((cs, s), True))) =
      prune M (\<lambda>k v cs. (unlock cs v, True, True))"
    by (auto simp: prune_def fun_eq_iff)
  then show ?thesis unfolding ReleaseAll_def by simp
qed

theorem ReleaseAll_Mmap_blocks:
  assumes "mmap_ok s" "map_of (mm s) k = Some c"
  shows "ReleaseAll MmapMapper (s, cs) = Fuel"
  using Mmap_Range_prune_blocks [OF assms(1), of "\<lambda>k v cs. (unlock cs v, True, True)" "\<lambda>_ _. True" k c cs] assms(2)
  by (simp add: ReleaseAll_prune MmapMapper_def)

theorem ReleaseAll_Hmap:
  assumes "hmap_ok h s"
  shows "\<exists>s' cs'. ReleaseAll (HmapMapper zero h) (s, cs) = Ok (s', cs') \<and> hmap_ok h s' \<and> locked (holding s') cs' = {}"
proof -
  have "sweeps (\<lambda>k v cs. (unlock cs v, True, True)) (\<lambda>_ _. True)" by (simp add: sweeps_def)
  then obtain s' cs' where "m_Range (HmapMapper zero h) (prune (HmapMapper zero h) (\<lambda>k v cs. (unlock cs v, True, True))) (cs, s) = Ok (cs', s')"
      "hmap_ok h s'" "holding s' = pruned (\<lambda>_ _. True) (holding s)"
    using hmap.Range_sweep [OF assms, where step = "\<lambda>k v cs. (unlock cs v, True, True)" and zero = zero and t = cs] by blast
  then show ?thesis by (simp add: ReleaseAll_prune locked_def pruned_all)
qed

section \<open>Properties\<close>

abbreviation HashLocks :: "'k \<Rightarrow> ('k \<Rightarrow> uintptr) \<Rightarrow> (('k, nat) Map, 'k, nat, chans) Mapper" where
  "HashLocks \<equiv> HmapMapper"



lemma run_more:
  "mlock_run (\<lambda>a. a \<noteq> Call k To_release) S S' \<Longrightarrow> mlock_step t (Call k To_lock) S' S'' \<Longrightarrow> mlock_run (\<lambda>a. a \<noteq> Call k To_release) S S''"
  "mlock_run (\<lambda>a. a \<noteq> Call k To_release) S S' \<Longrightarrow> mlock_step t Internal S' S'' \<Longrightarrow> mlock_run (\<lambda>a. a \<noteq> Call k To_release) S S''"
  by (rule run_step; simp)+



text \<open>
  C37. Without a channel for the key there is no mutual exclusion: two threads that lock a new key at
  the same time may both find no channel, each make one, and both hold the key.
\<close>

theorem MLock_race:
  "\<exists>S. mlock_run (\<lambda>a. a \<noteq> Call k To_release) \<lparr>table = Map.empty, chan = [], pcs = (\<lambda>t :: bool. Idle)\<rparr> S \<and>
     pcs S True = Holding k \<and> pcs S False = Holding k"
proof -
  let ?P = "\<lambda>a. a \<noteq> Call k To_release"
  let ?S0 = "\<lparr>table = Map.empty, chan = [], pcs = (\<lambda>t :: bool. Idle)\<rparr>"
  let ?S1 = "go True (Loading k To_lock) ?S0"
  let ?S2 = "go False (Loading k To_lock) ?S1"
  let ?S3 = "go True (Making k To_lock) ?S2"
  let ?S4 = "go False (Making k To_lock) ?S3"
  let ?S5 = "go True (Loading k To_lock) (?S4\<lparr>table := [k \<mapsto> 0], chan := [0]\<rparr>)"
  let ?S6 = "go True (Sending k 0) ?S5"
  let ?S7 = "go True (Holding k) (?S6\<lparr>chan := [1]\<rparr>)"
  let ?S8 = "go False (Loading k To_lock) (?S7\<lparr>table := [k \<mapsto> 1], chan := [1, 0]\<rparr>)"
  let ?S9 = "go False (Sending k 1) ?S8"
  let ?S10 = "go False (Holding k) (?S9\<lparr>chan := [1, 1]\<rparr>)"
  have "mlock_run ?P ?S0 ?S0" by (rule run_refl)
  moreover have "mlock_step True (Call k To_lock) ?S0 ?S1" using call_lock [of ?S0 True k] by simp
  ultimately have "mlock_run ?P ?S0 ?S1" by (rule run_more(1))
  moreover have "mlock_step False (Call k To_lock) ?S1 ?S2" using call_lock [of ?S1 False k] by simp
  ultimately have "mlock_run ?P ?S0 ?S2" by (rule run_more(1))
  moreover have "mlock_step True (Internal) ?S2 ?S3" using load_miss [of ?S2 True k To_lock] by simp
  ultimately have "mlock_run ?P ?S0 ?S3" by (rule run_more(2))
  moreover have "mlock_step False (Internal) ?S3 ?S4" using load_miss [of ?S3 False k To_lock] by simp
  ultimately have "mlock_run ?P ?S0 ?S4" by (rule run_more(2))
  moreover have "mlock_step True (Internal) ?S4 ?S5" using make_chan [of ?S4 True k To_lock] by simp
  ultimately have "mlock_run ?P ?S0 ?S5" by (rule run_more(2))
  moreover have "mlock_step True (Internal) ?S5 ?S6" using load_hit [of ?S5 True k To_lock 0] by (simp add: got_def)
  ultimately have "mlock_run ?P ?S0 ?S6" by (rule run_more(2))
  moreover have "mlock_step True (Internal) ?S6 ?S7" using send [of ?S6 True k 0] by simp
  ultimately have "mlock_run ?P ?S0 ?S7" by (rule run_more(2))
  moreover have "mlock_step False (Internal) ?S7 ?S8" using make_chan [of ?S7 False k To_lock] by simp
  ultimately have "mlock_run ?P ?S0 ?S8" by (rule run_more(2))
  moreover have "mlock_step False (Internal) ?S8 ?S9" using load_hit [of ?S8 False k To_lock 1] by (simp add: got_def)
  ultimately have "mlock_run ?P ?S0 ?S9" by (rule run_more(2))
  moreover have "mlock_step False (Internal) ?S9 ?S10" using send [of ?S9 False k 1] by simp
  ultimately have "mlock_run ?P ?S0 ?S10" by (rule run_more(2))
  then show ?thesis by (intro exI [of _ ?S10]) simp
qed

end
