(* ===== verification/Uweb.thy ===== *)
theory Uweb
  imports Utree "HOL-Library.AList"
begin

text \<open>
  The web framework of \<open>src/uweb\<close>: groups and the registration of routes (\<open>group.go\<close>), the context of
  a request with the chain of handlers (\<open>context.go\<close>), and the server (\<open>tux.go\<close>), on top of the routing
  tree. Handlers are programs over the operations of a context. Not modelled are the operations that
  only call encoders or \<open>net/http\<close> (\<open>JSON\<close>, \<open>XML\<close>, \<open>File\<close>, \<open>Query\<close>, \<open>Cookie\<close>, listeners) and \<open>Object\<close>,
  which works by reflection.
\<close>

section \<open>Strings and paths of the standard library\<close>

fun Split_on :: "char \<Rightarrow> string \<Rightarrow> string list" where
  "Split_on c [] = [[]]"
| "Split_on c (x # xs) =
     (if x = c then [] # Split_on c xs
      else case Split_on c xs of [] \<Rightarrow> [[x]] | y # ys \<Rightarrow> (x # y) # ys)"

fun Join_with :: "string \<Rightarrow> string list \<Rightarrow> string" where
  "Join_with sep [] = []"
| "Join_with sep [x] = x"
| "Join_with sep (x # y # xs) = x @ sep @ Join_with sep (y # xs)"

definition ascii :: "string \<Rightarrow> bool" where
  "ascii s = list_all (\<lambda>c. of_char c < (128 :: nat)) s"

definition upper_byte :: "char \<Rightarrow> char" where
  "upper_byte c = (let n = of_char c :: nat in if 97 \<le> n \<and> n \<le> 122 then char_of (n - 32) else c)"

text \<open>\<open>strings.ToUpper\<close>; the mapping of other than ASCII strings is an argument.\<close>

definition ToUpper :: "(string \<Rightarrow> string) \<Rightarrow> string \<Rightarrow> string" where
  "ToUpper unicode s = (if ascii s then map upper_byte s else unicode s)"

definition space_byte :: "char \<Rightarrow> bool" where
  "space_byte c = (let n = of_char c :: nat in n = 32 \<or> 9 \<le> n \<and> n \<le> 13)"

definition TrimSpace :: "(string \<Rightarrow> string) \<Rightarrow> string \<Rightarrow> string" where
  "TrimSpace unicode s =
     (if ascii s then rev (dropWhile space_byte (rev (dropWhile space_byte s))) else unicode s)"

text \<open>\<open>path.Clean\<close>: the elements that are left, last one first.\<close>

definition clean_element :: "bool \<Rightarrow> string \<Rightarrow> string list \<Rightarrow> string list" where
  "clean_element rooted e st =
     (if e = '''' \<or> e = ''.'' then st
      else if e = ''..''
      then (case st of
              [] \<Rightarrow> if rooted then [] else [e]
            | x # xs \<Rightarrow> if x = ''..'' then e # st else xs)
      else e # st)"

definition Clean :: "string \<Rightarrow> string" where
  "Clean p =
     (if p = '''' then ''.''
      else let rooted = (hd p = CHR ''/'');
               out = (if rooted then ''/'' else '''') @ Join_with ''/'' (rev (fold (clean_element rooted) (Split_on CHR ''/'' p) []))
           in if out = '''' then ''.'' else out)"

definition path_Join :: "string list \<Rightarrow> string" where
  "path_Join elem =
     (let es = dropWhile (\<lambda>e. e = '''') elem
      in if es = [] then '''' else Clean (Join_with ''/'' es))"

text \<open>\<open>textproto.CanonicalMIMEHeaderKey\<close>\<close>

definition letter :: "char \<Rightarrow> bool" where
  "letter c = (let n = of_char c :: nat in 65 \<le> n \<and> n \<le> 90 \<or> 97 \<le> n \<and> n \<le> 122)"

definition token_byte :: "char \<Rightarrow> bool" where
  "token_byte c = (letter c \<or> (let n = of_char c :: nat in 48 \<le> n \<and> n \<le> 57) \<or> c \<in> set ''!#$%&*+-.^_`|~'' \<or> of_char c = (39 :: nat))"

definition lower_byte :: "char \<Rightarrow> char" where
  "lower_byte c = (let n = of_char c :: nat in if 65 \<le> n \<and> n \<le> 90 then char_of (n + 32) else c)"

fun canonical :: "bool \<Rightarrow> string \<Rightarrow> string" where
  "canonical up [] = []"
| "canonical up (c # cs) = (if up then upper_byte c else lower_byte c) # canonical (c = CHR ''-'') cs"

definition Normalize :: "string \<Rightarrow> string" where
  "Normalize header = (if list_all token_byte header then canonical True header else header)"

section \<open>Responses and requests\<close>

datatype panic = ErrAbortHandler | Panicked string

fun panic_text :: "panic \<Rightarrow> string" where
  "panic_text ErrAbortHandler = ''net/http: abort Handler''"
| "panic_text (Panicked s) = s"

text \<open>
  The request, and the response writer of \<open>net/http\<close>. The first status is the one that is sent, and
  later ones are ignored; a status of an interim response is not the status of the response.
  \<open>w_limit\<close> is the length of the body that the writer takes, if it is bounded (a declared
  \<open>Content-Length\<close>).
\<close>

record Request =
  r_Method :: string
  r_Path :: string

record ResponseWriter =
  w_header :: "(string \<times> string) list"
  w_status :: "int option"
  w_limit :: "nat option"
  w_body :: string

definition raw_WriteHeader :: "int \<Rightarrow> ResponseWriter \<Rightarrow> panic option \<times> ResponseWriter" where
  "raw_WriteHeader code w =
     (if w_status w \<noteq> None then (None, w)
      else if code < 100 \<or> 999 < code then (Some (Panicked ''invalid WriteHeader code''), w)
      else if code \<le> 199 \<and> code \<noteq> 101 then (None, w)
      else (None, w\<lparr>w_status := Some code\<rparr>))"

definition bodyAllowed :: "int \<Rightarrow> bool" where
  "bodyAllowed code \<longleftrightarrow> \<not> (100 \<le> code \<and> code \<le> 199) \<and> code \<noteq> 204 \<and> code \<noteq> 304"

definition raw_Write :: "string \<Rightarrow> ResponseWriter \<Rightarrow> string option \<times> ResponseWriter" where
  "raw_Write b w =
     (let w = snd (raw_WriteHeader 200 w) in
      if b = [] then (None, w)
      else if \<not> bodyAllowed (the (w_status w))
      then (Some ''http: request method or response status code does not allow body'', w)
      else if (case w_limit w of None \<Rightarrow> False | Some n \<Rightarrow> n < length (w_body w) + length b)
      then (Some ''http: wrote more than the declared Content-Length'', w)
      else (None, w\<lparr>w_body := w_body w @ b\<rparr>))"

section \<open>Handlers\<close>

text \<open>
  A handler is a program over the operations of \<open>Context\<close>. \<open>Next_then\<close> calls \<open>Next\<close> and goes on, \<open>Raw\<close> is
  \<open>ResponseWriter\<close> with a function on the writer, and \<open>Try\<close> is a function with a deferred \<open>recover\<close>.
\<close>

datatype 'v act =
    Status int
  | SetHeader string string
  | WriteString string
  | String int string
  | Html int string
  | Data int string
  | SetKey string 'v
  | DeleteKey string
  | CleanWriter
  | HttpError string int

datatype 'v HandlerFunc =
    Return
  | Panics panic
  | Act "'v act" "'v HandlerFunc"
  | GetKey string "'v option \<Rightarrow> 'v HandlerFunc"
  | Param string "string \<Rightarrow> 'v HandlerFunc"
  | Ask "Request \<Rightarrow> 'v HandlerFunc"
  | AskStatus "int \<Rightarrow> 'v HandlerFunc"
  | AskIndex "int \<Rightarrow> 'v HandlerFunc"
  | Next_then "'v HandlerFunc"
  | End
  | Close
  | Raw "ResponseWriter \<Rightarrow> ResponseWriter"
  | Try "'v HandlerFunc" "panic \<Rightarrow> 'v HandlerFunc"

definition EndIndex :: int where "EndIndex = -10"
definition OutlineEndIndex :: int where "OutlineEndIndex = -20"
definition CloseIndex :: int where "CloseIndex = -30"
definition defaultStatusCode :: int where "defaultStatusCode = 200"

text \<open>
  \<open>c_header\<close> tells whether \<open>Writer.header\<close> is the header map of \<open>writer\<close>, which the two share, or nil.
\<close>

record 'v Context =
  writer :: "ResponseWriter option"
  Req :: "Request option"
  c_status :: int
  c_header :: bool
  c_body :: string
  ctxStore :: "(string \<times> 'v) list option"
  c_vpath :: "string option"
  parmas :: "(string \<times> string) list option"
  index :: int
  handlerList :: "'v HandlerFunc list"

definition newContext :: "'v Context" where
  "newContext = \<lparr>writer = None, Req = None, c_status = 200, c_header = False, c_body = [],
     ctxStore = None, c_vpath = None, parmas = None, index = 0, handlerList = []\<rparr>"

definition Writer_reset :: "'v Context \<Rightarrow> 'v Context" where
  "Writer_reset c = c\<lparr>c_status := defaultStatusCode, c_header := False, c_body := []\<rparr>"

definition Context_reset :: "'v Context \<Rightarrow> 'v Context" where
  "Context_reset c = (Writer_reset (c\<lparr>writer := None, Req := None\<rparr>))
     \<lparr>c_vpath := None, parmas := None, ctxStore := None, index := 0, handlerList := []\<rparr>"

definition Context_use :: "ResponseWriter \<Rightarrow> Request \<Rightarrow> 'v Context \<Rightarrow> 'v Context" where
  "Context_use w req c = c\<lparr>writer := Some w, Req := Some req, c_header := True\<rparr>"

text \<open>Writing to a nil map panics; reading gives the empty string.\<close>

definition Header_Set :: "string \<Rightarrow> string \<Rightarrow> 'v Context \<Rightarrow> panic option \<times> 'v Context" where
  "Header_Set k v c =
     (case writer c of
        Some w \<Rightarrow> if c_header c then (None, c\<lparr>writer := Some (w\<lparr>w_header := AList.update (Normalize k) v (w_header w)\<rparr>)\<rparr>)
                  else (Some (Panicked ''assignment to entry in nil map''), c)
      | None \<Rightarrow> (Some (Panicked ''assignment to entry in nil map''), c))"

definition Header_Get :: "string \<Rightarrow> 'v Context \<Rightarrow> string" where
  "Header_Get k c =
     (case writer c of
        Some w \<Rightarrow> if c_header c then (case map_of (w_header w) (Normalize k) of None \<Rightarrow> '''' | Some v \<Rightarrow> v) else ''''
      | None \<Rightarrow> '''')"

definition WriteHeader :: "int \<Rightarrow> 'v Context \<Rightarrow> 'v Context" where
  "WriteHeader code c = c\<lparr>c_status := code\<rparr>"

definition Writer_Write :: "string \<Rightarrow> 'v Context \<Rightarrow> 'v Context" where
  "Writer_Write b c = c\<lparr>c_body := c_body c @ b\<rparr>"

definition http_Error :: "string \<Rightarrow> int \<Rightarrow> 'v Context \<Rightarrow> panic option \<times> 'v Context" where
  "http_Error msg code c =
     (case Header_Set ''Content-Type'' ''text/plain; charset=utf-8'' c of
        (Some p, c) \<Rightarrow> (Some p, c)
      | (None, c) \<Rightarrow>
          (case Header_Set ''X-Content-Type-Options'' ''nosniff'' c of
             (Some p, c) \<Rightarrow> (Some p, c)
           | (None, c) \<Rightarrow> (None, Writer_Write (msg @ [CHR 0x0A]) (WriteHeader code c))))"

definition write_output :: "string \<Rightarrow> int \<Rightarrow> string \<Rightarrow> 'v Context \<Rightarrow> panic option \<times> 'v Context" where
  "write_output contentType code b c =
     (let c = WriteHeader code c in
      case (if Header_Get ''Content-Type'' c = '''' then Header_Set ''Content-Type'' contentType c else (None, c)) of
        (Some p, c) \<Rightarrow> (Some p, c)
      | (None, c) \<Rightarrow> (None, Writer_Write b c))"

definition Context_Set :: "string \<Rightarrow> 'v \<Rightarrow> 'v Context \<Rightarrow> 'v Context" where
  "Context_Set key v c =
     (let m = (case ctxStore c of None \<Rightarrow> [] | Some m \<Rightarrow> m) in c\<lparr>ctxStore := Some (AList.update key v m)\<rparr>)"

definition Context_Get :: "string \<Rightarrow> 'v Context \<Rightarrow> 'v option" where
  "Context_Get key c = (case ctxStore c of None \<Rightarrow> None | Some m \<Rightarrow> map_of m key)"

definition Context_Delete :: "string \<Rightarrow> 'v Context \<Rightarrow> 'v Context" where
  "Context_Delete key c =
     (case ctxStore c of None \<Rightarrow> c | Some m \<Rightarrow> c\<lparr>ctxStore := Some (AList.delete key m)\<rparr>)"

text \<open>\<open>Param\<close>: the segments of the route and of the path side by side.\<close>

fun param_loop :: "string list \<Rightarrow> string list \<Rightarrow> (string \<times> string) list \<Rightarrow> (string \<times> string) list" where
  "param_loop (v # vs) (p # ps) m =
     (case v of
        [] \<Rightarrow> param_loop vs ps m
      | x # name \<Rightarrow>
          if x = CHR '':'' then param_loop vs ps (AList.update name p m)
          else if x = CHR ''*'' then AList.update name (Join_with ''/'' (p # ps)) m
          else param_loop vs ps m)"
| "param_loop vs ps m = m"

definition Context_Param :: "string \<Rightarrow> 'v Context \<Rightarrow> string \<times> 'v Context" where
  "Context_Param key c =
     (let get = (\<lambda>m. case map_of m key of None \<Rightarrow> '''' | Some v \<Rightarrow> v) in
      case parmas c of
        Some m \<Rightarrow> (get m, c)
      | None \<Rightarrow>
          let vp = Split_on CHR ''/'' (case c_vpath c of None \<Rightarrow> [] | Some v \<Rightarrow> v);
              pa = Split_on CHR ''/'' (case Req c of None \<Rightarrow> [] | Some r \<Rightarrow> r_Path r);
              vp = (if length pa < length vp then take (length pa) vp else vp);
              m = param_loop vp pa []
          in (get m, c\<lparr>parmas := Some m\<rparr>))"

definition Context_Clean :: "'v Context \<Rightarrow> 'v Context" where
  "Context_Clean c = (Writer_reset c)\<lparr>c_header := True\<rparr>"

definition Context_end :: "int \<Rightarrow> 'v Context \<Rightarrow> panic option \<times> 'v Context" where
  "Context_end i c = (Some ErrAbortHandler, c\<lparr>index := i\<rparr>)"

primrec perform :: "'v act \<Rightarrow> 'v Context \<Rightarrow> panic option \<times> 'v Context" where
  "perform (Status code) c = (None, WriteHeader code c)"
| "perform (SetHeader k v) c = Header_Set k v c"
| "perform (WriteString s) c = (None, Writer_Write s c)"
| "perform (String code s) c = write_output ''text/plain; charset=utf-8'' code s c"
| "perform (Html code s) c = write_output ''text/html; charset=utf-8'' code s c"
| "perform (Data code s) c = write_output ''application/octet-stream'' code s c"
| "perform (SetKey k v) c = (None, Context_Set k v c)"
| "perform (DeleteKey k) c = (None, Context_Delete k c)"
| "perform CleanWriter c =
     (if writer c = None then (Some (Panicked ''nil pointer dereference''), Writer_reset c) else (None, Context_Clean c))"
| "perform (HttpError msg code) c = http_Error msg code c"

text \<open>The run of a handler: whether it panicked, and the context, unless it needs more fuel.\<close>

type_synonym 'v run = "(unit, panic option \<times> 'v Context) outcome"

primrec exec :: "('v Context \<Rightarrow> 'v run) \<Rightarrow> 'v HandlerFunc \<Rightarrow> 'v Context \<Rightarrow> 'v run" where
  "exec nx Return c = Ok (None, c)"
| "exec nx (Panics p) c = Ok (Some p, c)"
| "exec nx (Act a k) c = (case perform a c of (Some p, c) \<Rightarrow> Ok (Some p, c) | (None, c) \<Rightarrow> exec nx k c)"
| "exec nx (GetKey key k) c = exec nx (k (Context_Get key c)) c"
| "exec nx (Param key k) c =
     (if parmas c = None \<and> Req c = None then Ok (Some (Panicked ''nil pointer dereference''), c\<lparr>parmas := Some []\<rparr>)
      else exec nx (k (fst (Context_Param key c))) (snd (Context_Param key c)))"
| "exec nx (Ask k) c = (case Req c of None \<Rightarrow> Ok (Some (Panicked ''nil pointer dereference''), c) | Some r \<Rightarrow> exec nx (k r) c)"
| "exec nx (AskStatus k) c = exec nx (k (c_status c)) c"
| "exec nx (AskIndex k) c = exec nx (k (index c)) c"
| "exec nx (Next_then k) c = bind_outcome (nx c) (\<lambda>(r, c). case r of Some p \<Rightarrow> Ok (Some p, c) | None \<Rightarrow> exec nx k c)"
| "exec nx End c = Ok (Context_end EndIndex c)"
| "exec nx Close c = Ok (Context_end CloseIndex c)"
| "exec nx (Raw f) c = Ok (Context_end OutlineEndIndex (c\<lparr>writer := map_option f (writer c)\<rparr>))"
| "exec nx (Try h k) c = bind_outcome (exec nx h c) (\<lambda>(r, c). case r of None \<Rightarrow> Ok (None, c) | Some p \<Rightarrow> exec nx (k p) c)"

text \<open>\<open>Next\<close>. The fuel bounds how often it is called and goes round.\<close>

primrec Context_Next :: "nat \<Rightarrow> 'v Context \<Rightarrow> 'v run" where
  "Context_Next 0 = (\<lambda>c. Fuel)"
| "Context_Next (Suc f) = (\<lambda>c.
     if index c > -1 \<and> index c < int (length (handlerList c))
     then let c = c\<lparr>index := index c + 1\<rparr> in
       bind_outcome (exec (Context_Next f) (handlerList c ! nat (index c - 1)) c) (\<lambda>(r, c).
         if r \<noteq> None \<and> index c > -1 then Ok (r, c) else Context_Next f c)
     else Ok (None, c))"

section \<open>Groups and routes\<close>

record 'v Group =
  prefix :: string
  parent :: "nat option"
  middleware :: "'v HandlerFunc list"

text \<open>The groups are numbered in the order of their creation; the root group is number 0.\<close>

record 'v Uweb =
  groups :: "'v Group list"
  tree :: "'v HandlerFunc list Tree"

definition Uweb_New :: "'v Uweb" where
  "Uweb_New = \<lparr>groups = [\<lparr>prefix = ''/'', parent = None, middleware = []\<rparr>], tree = Utree.New []\<rparr>"

definition NewGroup :: "'v Uweb \<Rightarrow> nat \<Rightarrow> string \<Rightarrow> 'v Uweb \<times> nat" where
  "NewGroup u g p =
     (u\<lparr>groups := groups u @ [\<lparr>prefix = path_Join [prefix (groups u ! g), p], parent = Some g, middleware = []\<rparr>]\<rparr>,
      length (groups u))"

fun handler_loop :: "nat \<Rightarrow> 'v Uweb \<Rightarrow> nat \<Rightarrow> 'v HandlerFunc list \<Rightarrow> (unit, 'v HandlerFunc list) outcome" where
  "handler_loop 0 u g handles = Fuel"
| "handler_loop (Suc f) u g handles =
     (let handles = handles @ middleware (groups u ! g) in
      case parent (groups u ! g) of Some g \<Rightarrow> handler_loop f u g handles | None \<Rightarrow> Ok handles)"

definition generateHandlerList :: "'v Uweb \<Rightarrow> nat \<Rightarrow> 'v HandlerFunc list \<Rightarrow> (unit, 'v HandlerFunc list) outcome" where
  "generateHandlerList u g handler =
     bind_outcome (handler_loop (length (groups u)) u g []) (\<lambda>handles. Ok (handles @ handler))"

definition Use :: "'v Uweb \<Rightarrow> nat \<Rightarrow> 'v HandlerFunc list \<Rightarrow> 'v Uweb" where
  "Use u g ms = u\<lparr>groups := (groups u)[g := (groups u ! g)\<lparr>middleware := middleware (groups u ! g) @ ms\<rparr>]\<rparr>"

definition route_of :: "(string \<Rightarrow> string) \<Rightarrow> 'v Uweb \<Rightarrow> nat \<Rightarrow> string \<Rightarrow> string \<Rightarrow> string" where
  "route_of up u g meth part = ToUpper up meth @ ''@'' @ path_Join [prefix (groups u ! g), part]"

definition Method :: "(string \<Rightarrow> string) \<Rightarrow> 'v Uweb \<Rightarrow> nat \<Rightarrow> string \<Rightarrow> string \<Rightarrow> 'v HandlerFunc \<Rightarrow> (unit, 'v Uweb) outcome" where
  "Method up u g meth part handler =
     bind_outcome (generateHandlerList u g [handler]) (\<lambda>hs.
     Ok (u\<lparr>tree := Utree.Set [] (tree u) (route_of up u g meth part) hs\<rparr>))"

fun split_loop :: "(string \<Rightarrow> string) \<Rightarrow> (string \<Rightarrow> string) \<Rightarrow> 'v Uweb \<Rightarrow> nat \<Rightarrow> string list \<Rightarrow> string \<Rightarrow> 'v HandlerFunc \<Rightarrow> (unit, 'v Uweb) outcome" where
  "split_loop up trim u g [] part handler = Ok u"
| "split_loop up trim u g (m # ms) part handler =
     bind_outcome (Method up u g (TrimSpace trim m) part handler) (\<lambda>u. split_loop up trim u g ms part handler)"

definition Group_Split :: "(string \<Rightarrow> string) \<Rightarrow> (string \<Rightarrow> string) \<Rightarrow> 'v Uweb \<Rightarrow> nat \<Rightarrow> string \<Rightarrow> string \<Rightarrow> 'v HandlerFunc \<Rightarrow> (unit, 'v Uweb) outcome" where
  "Group_Split up trim u g methods part handler = split_loop up trim u g (Split_on CHR '','' methods) part handler"

definition Any :: "(string \<Rightarrow> string) \<Rightarrow> (string \<Rightarrow> string) \<Rightarrow> 'v Uweb \<Rightarrow> nat \<Rightarrow> string \<Rightarrow> 'v HandlerFunc \<Rightarrow> (unit, 'v Uweb) outcome" where
  "Any up trim u g part handler = Group_Split up trim u g ''GET,POST,PUT,DELETE,PATCH,HEAD,OPTIONS'' part handler"

definition Group_Get :: "(string \<Rightarrow> string) \<Rightarrow> 'v Uweb \<Rightarrow> nat \<Rightarrow> string \<Rightarrow> 'v HandlerFunc \<Rightarrow> (unit, 'v Uweb) outcome" where
  "Group_Get up u g part handler = Method up u g ''GET'' part handler"

definition Post :: "(string \<Rightarrow> string) \<Rightarrow> 'v Uweb \<Rightarrow> nat \<Rightarrow> string \<Rightarrow> 'v HandlerFunc \<Rightarrow> (unit, 'v Uweb) outcome" where
  "Post up u g part handler = Method up u g ''POST'' part handler"

definition Put :: "(string \<Rightarrow> string) \<Rightarrow> 'v Uweb \<Rightarrow> nat \<Rightarrow> string \<Rightarrow> 'v HandlerFunc \<Rightarrow> (unit, 'v Uweb) outcome" where
  "Put up u g part handler = Method up u g ''PUT'' part handler"

definition Group_Delete :: "(string \<Rightarrow> string) \<Rightarrow> 'v Uweb \<Rightarrow> nat \<Rightarrow> string \<Rightarrow> 'v HandlerFunc \<Rightarrow> (unit, 'v Uweb) outcome" where
  "Group_Delete up u g part handler = Method up u g ''DELETE'' part handler"

definition Patch :: "(string \<Rightarrow> string) \<Rightarrow> 'v Uweb \<Rightarrow> nat \<Rightarrow> string \<Rightarrow> 'v HandlerFunc \<Rightarrow> (unit, 'v Uweb) outcome" where
  "Patch up u g part handler = Method up u g ''PATCH'' part handler"

definition Head :: "(string \<Rightarrow> string) \<Rightarrow> 'v Uweb \<Rightarrow> nat \<Rightarrow> string \<Rightarrow> 'v HandlerFunc \<Rightarrow> (unit, 'v Uweb) outcome" where
  "Head up u g part handler = Method up u g ''HEAD'' part handler"

definition Options :: "(string \<Rightarrow> string) \<Rightarrow> 'v Uweb \<Rightarrow> nat \<Rightarrow> string \<Rightarrow> 'v HandlerFunc \<Rightarrow> (unit, 'v Uweb) outcome" where
  "Options up u g part handler = Method up u g ''OPTIONS'' part handler"

section \<open>Serving\<close>

definition defaultNotFound :: "'v HandlerFunc" where
  "defaultNotFound = Ask (\<lambda>r. Act (HttpError (''404 NOT FOUND:'' @ r_Path r) 404) Return)"

definition DumpRoute :: "'v Uweb \<Rightarrow> (string \<times> 'v HandlerFunc list) list" where
  "DumpRoute u = Dump (tree u)"

definition dispatch :: "'v Uweb \<Rightarrow> Request \<Rightarrow> 'v Context \<Rightarrow> 'v Context" where
  "dispatch u req c =
     (let (hs, vp) = Utree.Get [] (tree u) (r_Method req @ ''@'' @ r_Path req);
          c = c\<lparr>handlerList := hs, c_vpath := vp\<rparr>
      in if handlerList c = [] then c\<lparr>handlerList := middleware (groups u ! 0) @ [defaultNotFound]\<rparr> else c)"

definition recover_text :: "panic \<Rightarrow> string" where
  "recover_text p = ''Internal Server Error, Recover: '' @ panic_text p"

definition recovered :: "panic option \<Rightarrow> 'v Context \<Rightarrow> panic option \<times> 'v Context" where
  "recovered r c =
     (case r of
        Some p \<Rightarrow> if index c > -1
                  then http_Error (recover_text p) 500 (Context_Clean c)
                  else (None, c)
      | None \<Rightarrow> (None, c))"

definition Handle :: "'v Uweb \<Rightarrow> Request \<Rightarrow> 'v Context \<Rightarrow> 'v run" where
  "Handle u req c =
     (let c = dispatch u req c in
      bind_outcome (Context_Next (length (handlerList c) + 1) c) (\<lambda>(r, c). Ok (recovered r c)))"

text \<open>The pool of contexts: \<open>pick\<close> is the one that \<open>Get\<close> returns, if any.\<close>

definition SafePool_Get :: "'a \<Rightarrow> nat option \<Rightarrow> 'a list \<Rightarrow> 'a \<times> 'a list" where
  "SafePool_Get new pick pool =
     (case pick of
        Some i \<Rightarrow> if i < length pool then (pool ! i, take i pool @ drop (i + 1) pool) else (new, pool)
      | None \<Rightarrow> (new, pool))"

definition SafePool_Put :: "'a \<Rightarrow> 'a list \<Rightarrow> 'a list" where
  "SafePool_Put c pool = pool @ [c]"

definition respond :: "'v Context \<Rightarrow> ResponseWriter \<Rightarrow> panic option \<times> ResponseWriter" where
  "respond c w =
     (if index c < EndIndex
      then if index c \<le> CloseIndex then (Some ErrAbortHandler, w) else (None, w)
      else case raw_WriteHeader (c_status c) w of
             (Some p, w) \<Rightarrow> (Some p, w)
           | (None, w) \<Rightarrow>
               if c_body c = [] then (None, w)
               else (case raw_Write (c_body c) w of
                       (Some e, w) \<Rightarrow> (Some (Panicked e), w)
                     | (None, w) \<Rightarrow> (None, w)))"

definition ServeHTTP :: "'v Uweb \<Rightarrow> nat option \<Rightarrow> 'v Context list \<Rightarrow> ResponseWriter \<Rightarrow> Request
    \<Rightarrow> (unit, panic option \<times> ResponseWriter \<times> 'v Context list) outcome" where
  "ServeHTTP u pick pool w req =
     (let (c, pool) = SafePool_Get newContext pick pool in
      bind_outcome (Handle u req (Context_use w req c)) (\<lambda>(r, c).
      let w = the (writer c);
          (p, w) = (case r of Some p \<Rightarrow> (Some p, w) | None \<Rightarrow> respond c w)
      in Ok (p, w, SafePool_Put (Context_reset c) pool)))"

end
