(* ===== verification/Uweb_Correct.thy ===== *)
theory Uweb_Correct
  imports Uweb
begin

text \<open>
  What the server of \<open>src/uweb\<close> promises for all handlers: every request ends, no panic of a handler
  leaves it, requests do not see each other, and middleware wraps around the handlers behind it.
\<close>

section \<open>What a handler leaves alone\<close>

text \<open>
  A handler keeps the list of handlers, the request, the writer and its header map, and moves the index
  forward, or below zero when it ends the request.
\<close>

definition served :: "'v Context \<Rightarrow> bool" where
  "served c \<longleftrightarrow> writer c \<noteq> None \<and> Req c \<noteq> None \<and> c_header c"

definition later :: "'v Context \<Rightarrow> 'v Context \<Rightarrow> bool" where
  "later c c' \<longleftrightarrow> handlerList c' = handlerList c \<and> (served c \<longrightarrow> served c') \<and> (index c' < 0 \<or> 0 \<le> index c \<and> index c \<le> index c')"

lemma later_refl [simp]: "later c c"
  by (auto simp: later_def)

lemma later_trans: "later c c' \<Longrightarrow> later c' c'' \<Longrightarrow> later c c''"
  by (auto simp: later_def)

lemma perform_later: "later c (snd (perform a c))"
  by (cases a) (auto simp: later_def served_def WriteHeader_def Header_Set_def Writer_Write_def write_output_def Header_Get_def
    Context_Set_def Context_Delete_def Context_Clean_def Writer_reset_def http_Error_def Let_def split: option.splits)

lemma Param_later: "later c (snd (Context_Param key c))"
  by (auto simp: later_def served_def Context_Param_def Let_def split: option.splits)

lemma end_later [simp]:
  "later c (c\<lparr>index := EndIndex\<rparr>)" "later c (c\<lparr>index := CloseIndex\<rparr>)"
  "later c (c\<lparr>writer := map_option f (writer c), index := OutlineEndIndex\<rparr>)"
  by (auto simp: later_def served_def EndIndex_def CloseIndex_def OutlineEndIndex_def)

lemma exec_ok:
  assumes "\<And>c'. later c c' \<Longrightarrow> \<exists>r c''. nx c' = Ok (r, c'') \<and> later c' c''"
  shows "\<exists>r c'. exec nx h c = Ok (r, c') \<and> later c c'"
  using assms
proof (induction h arbitrary: c)
  case (Act a k)
  obtain p c1 where a: "perform a c = (p, c1)" by (cases "perform a c")
  then have l: "later c c1" using perform_later [of c a] by simp
  show ?case
  proof (cases p)
    case None
    then show ?thesis using Act.IH [of c1] Act.prems later_trans [OF l] a by (auto; blast)
  next
    case (Some x)
    then show ?thesis using a l by simp
  qed
next
  case (Param key k)
  show ?case
  proof (cases "parmas c = None \<and> Req c = None")
    case True
    then show ?thesis by (auto simp: later_def served_def)
  next
    case False
    let ?c = "snd (Context_Param key c)"
    note l = Param_later [of c key]
    have "\<exists>r c'. exec nx (k (fst (Context_Param key c))) ?c = Ok (r, c') \<and> later ?c c'"
      using Param.prems later_trans [OF l] by (intro Param.IH) auto
    then show ?thesis using False later_trans [OF l] by auto
  qed
next
  case (Next_then h)
  obtain r c1 where n: "nx c = Ok (r, c1)" "later c c1" using Next_then.prems [of c] by auto
  show ?case
  proof (cases r)
    case None
    then show ?thesis using Next_then.IH [of c1] Next_then.prems later_trans [OF n(2)] n(1) by (auto; blast)
  qed (use n in simp)
next
  case (Try h k)
  obtain r c1 where n: "exec nx h c = Ok (r, c1)" "later c c1" using Try.IH(1) [of c] Try.prems by blast
  show ?case
  proof (cases r)
    case (Some p)
    then show ?thesis using Try.IH(2) [of "k p" c1] Try.prems later_trans [OF n(2)] n(1) by (auto; blast)
  qed (use n in simp)
next
  case (Ask k)
  then show ?case by (cases "Req c") auto
qed (auto simp: Context_end_def)

text \<open>Enough fuel for \<open>Next\<close>: one for every handler that is left, and one more.\<close>

lemma Context_Next_ok:
  assumes "nat (int (length (handlerList c)) - index c) < f \<or> index c < 0 \<and> 0 < f"
  shows "\<exists>r c'. Context_Next f c = Ok (r, c') \<and> later c c' \<and> (r = None \<longrightarrow> \<not> (0 \<le> index c' \<and> index c' < int (length (handlerList c)))) \<and>
    (r \<noteq> None \<longrightarrow> 0 \<le> index c')"
  using assms
proof (induction f arbitrary: c)
  case (Suc f)
  show ?case
  proof (cases "index c > -1 \<and> index c < int (length (handlerList c))")
    case True
    let ?c = "c\<lparr>index := index c + 1\<rparr>"
    have l: "later c ?c" using True by (auto simp: later_def served_def)
    have fuel: "nat (int (length (handlerList c')) - index c') < f \<or> index c' < 0 \<and> 0 < f" if "later ?c c'" for c'
      using Suc.prems True that by (auto simp: later_def)
    have nx: "\<exists>r c''. Context_Next f c' = Ok (r, c'') \<and> later c' c''" if "later ?c c'" for c'
      using Suc.IH [OF fuel [OF that]] by blast
    obtain r c1 where e: "exec (Context_Next f) (handlerList ?c ! nat (index ?c - 1)) ?c = Ok (r, c1)" "later ?c c1"
      using exec_ok [OF nx] by blast
    obtain r2 c2 where n: "Context_Next f c1 = Ok (r2, c2)" "later c1 c2"
        "r2 = None \<longrightarrow> \<not> (0 \<le> index c2 \<and> index c2 < int (length (handlerList c1)))" "r2 \<noteq> None \<longrightarrow> 0 \<le> index c2"
      using Suc.IH [OF fuel [OF e(2)]] by blast
    have hl: "handlerList c1 = handlerList c" using e(2) by (simp add: later_def)
    show ?thesis
    proof (cases "r \<noteq> None \<and> index c1 > -1")
      case r: True
      then show ?thesis using True e later_trans [OF l e(2)] by auto
    next
      case r: False
      then show ?thesis using True e(1) n hl later_trans [OF l later_trans [OF e(2) n(2)]] by auto
    qed
  qed (auto simp: later_def)
qed simp

section \<open>Serving a request\<close>

text \<open>What is sent of a response apart from its headers.\<close>

definition sent :: "ResponseWriter \<Rightarrow> int option \<times> nat option \<times> string" where
  "sent w = (w_status w, w_limit w, w_body w)"

lemma sent_header [simp]: "sent (w\<lparr>w_header := h\<rparr>) = sent w"
  by (simp add: sent_def)

lemma Header_Set_ok:
  assumes "served c"
  shows "\<exists>w. Header_Set k v c = (None, c\<lparr>writer := Some w\<rparr>) \<and> sent w = sent (the (writer c))"
  using assms by (auto simp: Header_Set_def served_def)

lemma http_Error_ok:
  assumes "served c"
  shows "\<exists>w. http_Error msg code c = (None, c\<lparr>writer := Some w, c_status := code, c_body := c_body c @ msg @ [CHR 0x0A]\<rparr>) \<and>
    sent w = sent (the (writer c))"
  using assms by (auto simp: http_Error_def Header_Set_def served_def Writer_Write_def WriteHeader_def)

lemma write_output_ok:
  assumes "served c"
  shows "\<exists>w. write_output ct code b c = (None, c\<lparr>writer := Some w, c_status := code, c_body := c_body c @ b\<rparr>) \<and>
    sent w = sent (the (writer c))"
proof -
  obtain w0 where w0: "writer c = Some w0" "c_header c" using assms by (auto simp: served_def)
  show ?thesis
  proof (cases "Header_Get ''Content-Type'' (c\<lparr>c_status := code\<rparr>) = []")
    case True
    then show ?thesis using w0
      by (intro exI [of _ "w0\<lparr>w_header := AList.update (Normalize ''Content-Type'') ct (w_header w0)\<rparr>"], cases c)
        (simp add: write_output_def Header_Set_def Writer_Write_def WriteHeader_def)
  next
    case False
    then show ?thesis using w0
      by (intro exI [of _ w0], cases c) (simp add: write_output_def Writer_Write_def WriteHeader_def)
  qed
qed

lemma served_Clean: "served c \<Longrightarrow> served (Context_Clean c)"
  by (simp add: served_def Context_Clean_def Writer_reset_def)

lemma dispatch_start: "index (dispatch u req c) = index c" "served (dispatch u req c) = served c"
  "writer (dispatch u req c) = writer c" "c_body (dispatch u req c) = c_body c"
  by (auto simp: dispatch_def served_def Let_def split: prod.split)

lemma served_use: "served (Context_use w req c)"
  by (simp add: served_def Context_use_def)

text \<open>What the caller of a request gets, given how its handlers end.\<close>

definition answer :: "panic option \<Rightarrow> 'v Context \<Rightarrow> int \<times> string" where
  "answer r c = (case r of None \<Rightarrow> (c_status c, c_body c)
    | Some p \<Rightarrow> (500, recover_text p @ [CHR 0x0A]))"

lemma Handle_ok:
  assumes "served c" "index c = 0"
  shows "\<exists>r c' c''. Context_Next (length (handlerList (dispatch u req c)) + 1) (dispatch u req c) = Ok (r, c') \<and> later (dispatch u req c) c' \<and>
    (r \<noteq> None \<longrightarrow> 0 \<le> index c') \<and> Handle u req c = Ok (None, c'') \<and> served c'' \<and> index c'' = index c' \<and>
    sent (the (writer c'')) = sent (the (writer c')) \<and>
    (r = None \<longrightarrow> writer c'' = writer c') \<and> (c_status c'', c_body c'') = answer r c'"
proof -
  let ?c = "dispatch u req c"
  have s: "served ?c" "index ?c = 0" using assms by (simp_all add: dispatch_start)
  obtain r c' where n: "Context_Next (length (handlerList ?c) + 1) ?c = Ok (r, c')" "later ?c c'" "r \<noteq> None \<longrightarrow> 0 \<le> index c'"
    using Context_Next_ok [of ?c "length (handlerList ?c) + 1"] s(2) by auto
  have s': "served c'" using n(2) s(1) by (simp add: later_def)
  show ?thesis
  proof (cases r)
    case None
    then show ?thesis using n s' by (auto simp: Handle_def recovered_def answer_def Let_def)
  next
    case (Some p)
    obtain w where w: "http_Error (recover_text p) 500 (Context_Clean c') =
        (None, (Context_Clean c')\<lparr>writer := Some w, c_status := 500, c_body := c_body (Context_Clean c') @ (recover_text p) @ [CHR 0x0A]\<rparr>)"
        "sent w = sent (the (writer c'))"
      using http_Error_ok [OF served_Clean [OF s']] by (auto simp: Context_Clean_def Writer_reset_def)
    show ?thesis using Some n w s'
      by (auto simp: Handle_def recovered_def answer_def Let_def served_def Context_Clean_def Writer_reset_def)
  qed
qed

lemma reset_new: "Context_reset c = newContext"
  by (simp add: Context_reset_def Writer_reset_def newContext_def defaultStatusCode_def)

lemma use_new: "served (Context_use w req newContext)" "index (Context_use w req newContext) = 0"
  by (simp_all add: served_def Context_use_def newContext_def)

lemma ServeHTTP_fresh:
  assumes "\<forall>c \<in> set pool. c = newContext"
  shows "\<exists>p w' pool'. ServeHTTP u pick pool w req = Ok (p, w', pool') \<and> ServeHTTP u None [] w req = Ok (p, w', [newContext]) \<and>
    (\<forall>c \<in> set pool'. c = newContext)"
proof -
  obtain c1 pool1 where g: "SafePool_Get newContext pick pool = (c1, pool1)" by (cases "SafePool_Get newContext pick pool")
  then have c1: "c1 = newContext" "\<forall>c \<in> set pool1. c = newContext"
    using assms by (auto simp: SafePool_Get_def split: option.splits if_splits) (blast dest: in_set_takeD in_set_dropD)+
  obtain c'' where h: "Handle u req (Context_use w req newContext) = Ok (None, c'')" using Handle_ok [OF use_new] by blast
  then show ?thesis using g c1
    by (auto simp: ServeHTTP_def SafePool_Get_def [of newContext None] SafePool_Put_def reset_new Let_def split: prod.split)
qed

section \<open>Middleware around a handler\<close>

text \<open>A middleware that writes before and behind the handlers it calls, and a handler that writes a text.\<close>

definition around :: "string \<Rightarrow> string \<Rightarrow> 'v HandlerFunc" where
  "around a b = Act (WriteString a) (Next_then (Act (WriteString b) Return))"

definition says :: "string \<Rightarrow> 'v HandlerFunc" where
  "says s = Act (String 200 s) Return"

lemma onion:
  assumes "handlerList c = pre @ map (\<lambda>(a, b). around a b) ws @ [says s]" "index c = int (length pre)" "length ws + 1 < f" "served c"
  shows "\<exists>w. Context_Next f c = Ok (None, c\<lparr>writer := Some w, index := int (length (handlerList c)), c_status := 200,
      c_body := c_body c @ concat (map fst ws) @ s @ concat (rev (map snd ws))\<rparr>) \<and>
    sent w = sent (the (writer c))"
  using assms
proof (induction ws arbitrary: pre c f)
  case Nil
  obtain g where f: "f = Suc (Suc g)" using less_imp_Suc_add [OF Nil(3)] by auto
  let ?c = "c\<lparr>index := index c + 1\<rparr>"
  have "served ?c" using Nil(4) by (simp add: served_def)
  then obtain w where "write_output ''text/plain; charset=utf-8'' 200 s ?c = (None, ?c\<lparr>writer := Some w, c_status := 200, c_body := c_body c @ s\<rparr>)"
      "sent w = sent (the (writer c))"
    using write_output_ok [of ?c] by fastforce
  then show ?case using Nil f by (intro exI [of _ w]) (simp add: says_def nth_append)
next
  case (Cons x ws)
  obtain a b where x: "x = (a, b)" by (cases x)
  obtain g where f: "f = Suc (Suc g)" "length ws + 1 < Suc g" using less_imp_Suc_add [OF Cons.prems(3)] by auto
  let ?c = "c\<lparr>index := index c + 1, c_body := c_body c @ a\<rparr>"
  have "\<exists>w. Context_Next (Suc g) ?c = Ok (None, ?c\<lparr>writer := Some w, index := int (length (handlerList ?c)), c_status := 200,
      c_body := c_body ?c @ concat (map fst ws) @ s @ concat (rev (map snd ws))\<rparr>) \<and>
    sent w = sent (the (writer ?c))"
    using Cons.prems x f(2) by (intro Cons.IH [of _ "pre @ [around a b]"]) (auto simp: served_def)
  then obtain w where w: "Context_Next (Suc g) ?c = Ok (None, ?c\<lparr>writer := Some w, index := int (length (handlerList c)), c_status := 200,
      c_body := c_body c @ a @ concat (map fst ws) @ s @ concat (rev (map snd ws))\<rparr>)"
    "sent w = sent (the (writer c))" by auto
  have h: "handlerList c ! length pre = around a b" using Cons.prems(1) x by (simp add: nth_append)
  have i: "\<not> index c < 0" "index c < int (length (handlerList c))" using Cons.prems(1,2) by auto
  let ?d = "c\<lparr>writer := Some w, index := int (length (handlerList c)), c_status := 200,
      c_body := c_body c @ a @ concat (map fst ws) @ s @ concat (rev (map snd ws)) @ b\<rparr>"
  have e: "exec (Context_Next (Suc g)) (around a b) (c\<lparr>index := index c + 1\<rparr>) = Ok (None, ?d)"
    using w(1) by (simp add: around_def Writer_Write_def del: Context_Next.simps)
  have l: "Context_Next (Suc g) ?d = Ok (None, ?d)" by simp
  have "Context_Next f c = Ok (None, ?d)"
    unfolding f(1) Context_Next.simps(2) [of "Suc g"] using e l h i Cons.prems(2) by (simp add: Let_def del: Context_Next.simps)
  then show ?case using w(2) x by (intro exI [of _ w]) simp
qed

section \<open>The router\<close>

text \<open>What the server needs of its router: handlers that were registered for a literal route are found, and the other routes stay.\<close>

locale router =
  fixes rep :: "'t \<Rightarrow> (string \<Rightarrow> 'h list option) \<Rightarrow> bool"
    and register :: "'t \<Rightarrow> string \<Rightarrow> 'h list \<Rightarrow> 't"
    and find_handlers :: "'t \<Rightarrow> string \<Rightarrow> 'h list \<times> string option"
    and literal_route :: "string \<Rightarrow> bool"
  assumes rep_register: "\<lbrakk>rep t m; literal_route r\<rbrakk> \<Longrightarrow> rep (register t r hs) (m(r \<mapsto> hs))"
    and rep_find: "rep t m \<Longrightarrow> find_handlers t r = (case m r of None \<Rightarrow> ([], None) | Some hs \<Rightarrow> (hs, Some r))"
begin

lemma found: "\<lbrakk>rep t m; literal_route r\<rbrakk> \<Longrightarrow> find_handlers (register t r hs) r = (hs, Some r)"
  by (simp add: rep_find [OF rep_register])

lemma found_other: "\<lbrakk>rep t m; literal_route r; r' \<noteq> r\<rbrakk> \<Longrightarrow> find_handlers (register t r hs) r' = find_handlers t r'"
  by (simp add: rep_find [OF rep_register] rep_find)

end

interpretation tree_router: router "table_rel []" "Utree.Set []" "Utree.Get []" static
proof
  fix t :: "'a list Tree" and m r hs
  assume "table_rel [] t m" "static r"
  then show "table_rel [] (Utree.Set [] t r hs) (m(r \<mapsto> hs))" using table_rel_apply [of "[]" t m "Register r hs"] by simp
qed (rule table_rel_Get)

section \<open>Groups\<close>

text \<open>Every group but the root is made from one that was there before.\<close>

definition groups_ok :: "'v Uweb \<Rightarrow> bool" where
  "groups_ok u \<longleftrightarrow> (\<forall>g < length (groups u). \<forall>p. parent (groups u ! g) = Some p \<longrightarrow> p < g)"

lemma list_update_parent: "g' < length gs \<Longrightarrow> parent (gs[g := (gs ! g)\<lparr>middleware := ms\<rparr>] ! g') = parent (gs ! g')"
  by (cases "g = g'") auto

lemma groups_ok_ops:
  "groups_ok Uweb_New"
  "groups_ok u \<Longrightarrow> g < length (groups u) \<Longrightarrow> groups_ok (fst (NewGroup u g p))"
  "groups_ok u \<Longrightarrow> groups_ok (Use u g ms)"
  by (auto simp: groups_ok_def Uweb_New_def NewGroup_def Use_def list_update_parent nth_append nth_list_update less_Suc_eq split: if_splits)

text \<open>The middleware that a request meets: that of the group itself, then that of the group it is in, and so on.\<close>

inductive middleware_of :: "'v Uweb \<Rightarrow> nat \<Rightarrow> 'v HandlerFunc list \<Rightarrow> bool" for u where
  root_middleware: "parent (groups u ! g) = None \<Longrightarrow> middleware_of u g (middleware (groups u ! g))"
| parent_middleware: "parent (groups u ! g) = Some p \<Longrightarrow> middleware_of u p ms \<Longrightarrow> middleware_of u g (middleware (groups u ! g) @ ms)"

lemma handler_loop_ok:
  assumes "middleware_of u g ms" "groups_ok u" "g < length (groups u)" "g < f"
  shows "handler_loop f u g hs = Ok (hs @ ms)"
  using assms
proof (induction arbitrary: f hs rule: middleware_of.induct)
  case (root_middleware g)
  then show ?case by (cases f) auto
next
  case (parent_middleware g p ms)
  have "p < g" using parent_middleware by (simp add: groups_ok_def)
  then show ?case using parent_middleware by (cases f) auto
qed

lemma generateHandlerList_ok:
  assumes "middleware_of u g ms" "groups_ok u" "g < length (groups u)"
  shows "generateHandlerList u g hs = Ok (ms @ hs)"
  using handler_loop_ok [OF assms, of "length (groups u)" "[]"] assms(3) by (simp add: generateHandlerList_def)

text \<open>For every well-formed group there is such a list.\<close>

lemma middleware_of_exists:
  assumes "groups_ok u" "g < length (groups u)"
  shows "\<exists>ms. middleware_of u g ms"
  using assms(2)
proof (induction g rule: less_induct)
  case (less g)
  show ?case
  proof (cases "parent (groups u ! g)")
    case None
    then show ?thesis by (auto intro: root_middleware)
  next
    case (Some p)
    then have "p < g" using assms(1) less.prems by (simp add: groups_ok_def)
    then show ?thesis using less.IH [of p] less.prems Some by (auto intro: parent_middleware)
  qed
qed

lemma no_routes: "Utree.Get zero (Utree.New zero) r = (zero, None)"
  using table_rel_Get [of zero "Utree.New zero" Map.empty r] by (simp add: table_rel_def)

section \<open>Delivery\<close>

text \<open>Whether the writer of \<open>net/http\<close> refuses a response with a status and a body.\<close>

definition refused :: "ResponseWriter \<Rightarrow> int \<Rightarrow> string \<Rightarrow> bool" where
  "refused w code b \<longleftrightarrow>
     (w_status w = None \<and> (code < 100 \<or> 999 < code)) \<or>
     (b \<noteq> [] \<and> (w_status w = None \<and> (code = 101 \<or> code = 204 \<or> code = 304) \<or>
        (\<exists>st. w_status w = Some st \<and> \<not> bodyAllowed st) \<or> (\<exists>n. w_limit w = Some n \<and> n < length (w_body w) + length b)))"

definition interim :: "int \<Rightarrow> bool" where
  "interim code \<longleftrightarrow> 100 \<le> code \<and> code \<le> 199 \<and> code \<noteq> 101"

text \<open>The status that the caller gets: the first one, and 200 where a body follows none.\<close>

definition final_status :: "ResponseWriter \<Rightarrow> int \<Rightarrow> string \<Rightarrow> int option" where
  "final_status w code b =
     (if w_status w \<noteq> None then w_status w
      else if \<not> interim code then Some code
      else if b \<noteq> [] then Some 200 else None)"

lemma respond_ok:
  assumes "EndIndex \<le> index c"
  shows "fst (respond c w) = None \<longleftrightarrow> \<not> refused w (c_status c) (c_body c)"
    "fst (respond c w) \<noteq> Some ErrAbortHandler"
    "fst (respond c w) = None \<Longrightarrow> w_status (snd (respond c w)) = final_status w (c_status c) (c_body c) \<and>
       w_body (snd (respond c w)) = w_body w @ c_body c"
  using assms
  by (auto simp: respond_def refused_def final_status_def interim_def raw_WriteHeader_def raw_Write_def bodyAllowed_def Let_def
      split: option.splits if_splits)

lemma respond_ended:
  assumes "index c < EndIndex"
  shows "respond c w = (if index c \<le> CloseIndex then Some ErrAbortHandler else None, w)"
  using assms by (simp add: respond_def)

lemma sent_cong:
  assumes "sent w = sent w'"
  shows "refused w = refused w'" "final_status w = final_status w'" "w_body w = w_body w'"
  using assms by (auto simp: sent_def refused_def final_status_def fun_eq_iff)

section \<open>A series of requests\<close>

text \<open>The answers of a server to a series of requests, and its answer to one request as its first.\<close>

fun serve_all :: "'v Uweb \<Rightarrow> 'v Context list \<Rightarrow> (nat option \<times> ResponseWriter \<times> Request) list \<Rightarrow> (unit, (panic option \<times> ResponseWriter) list) outcome" where
  "serve_all u pool [] = Ok []"
| "serve_all u pool ((pick, w, req) # rs) =
     bind_outcome (ServeHTTP u pick pool w req) (\<lambda>(p, w, pool).
     bind_outcome (serve_all u pool rs) (\<lambda>as. Ok ((p, w) # as)))"

definition alone :: "'v Uweb \<Rightarrow> nat option \<times> ResponseWriter \<times> Request \<Rightarrow> panic option \<times> ResponseWriter" where
  "alone u x = (case ServeHTTP u None [] (fst (snd x)) (snd (snd x)) of Ok (p, w, pool) \<Rightarrow> (p, w) | _ \<Rightarrow> (None, fst (snd x)))"

lemma serve_all_fresh:
  assumes "\<forall>c \<in> set pool. c = newContext"
  shows "serve_all u pool rs = Ok (map (alone u) rs)"
  using assms
proof (induction rs arbitrary: pool)
  case (Cons x rs)
  obtain pick w req where x: "x = (pick, w, req)" by (cases x)
  obtain p w' pool' where s: "ServeHTTP u pick pool w req = Ok (p, w', pool')" "ServeHTTP u None [] w req = Ok (p, w', [newContext])"
      "\<forall>c \<in> set pool'. c = newContext"
    using ServeHTTP_fresh [OF Cons.prems] by blast
  show ?case using s Cons.IH [OF s(3)] by (simp add: x alone_def)
qed simp

section \<open>Properties\<close>

text \<open>
  C38. Every request ends, whatever its handlers do, and no panic of a handler leaves the server: it
  panics with \<open>ErrAbortHandler\<close> when a handler closed the request, and else only when the writer of
  \<open>net/http\<close> refuses the status or the body. Otherwise the caller gets what a handler wrote to the writer
  itself, or the status and the body of the context, or a 500 with the text of the panic in place of
  them.
\<close>

theorem ServeHTTP_contained:
  "\<exists>r c p w' pool'. Context_Next (length (handlerList (dispatch u req (Context_use w req newContext))) + 1) (dispatch u req (Context_use w req newContext)) = Ok (r, c) \<and>
     ServeHTTP u None pool w req = Ok (p, w', pool') \<and>
     (if index c < EndIndex then p = (if index c \<le> CloseIndex then Some ErrAbortHandler else None) \<and> writer c = Some w'
      else p \<noteq> Some ErrAbortHandler \<and> (p = None \<longleftrightarrow> \<not> refused (the (writer c)) (fst (answer r c)) (snd (answer r c))) \<and>
        (p = None \<longrightarrow> w_status w' = final_status (the (writer c)) (fst (answer r c)) (snd (answer r c)) \<and>
          w_body w' = w_body (the (writer c)) @ snd (answer r c)))"
proof -
  let ?c = "Context_use w req newContext"
  obtain r c c'' where h: "Context_Next (length (handlerList (dispatch u req ?c)) + 1) (dispatch u req ?c) = Ok (r, c)"
      "later (dispatch u req ?c) c" "r \<noteq> None \<longrightarrow> 0 \<le> index c" "Handle u req ?c = Ok (None, c'')" "served c''" "index c'' = index c"
      "sent (the (writer c'')) = sent (the (writer c))"
      "r = None \<longrightarrow> writer c'' = writer c" "(c_status c'', c_body c'') = answer r c"
    using Handle_ok [OF use_new] by blast
  define R where "R = respond c'' (the (writer c''))"
  have serve: "ServeHTTP u None pool w req = Ok (fst R, snd R, SafePool_Put newContext pool)"
    using h(4) by (simp add: ServeHTTP_def SafePool_Get_def reset_new R_def Let_def split: prod.split)
  have a: "fst (answer r c) = c_status c''" "snd (answer r c) = c_body c''" using h(9) by (metis fst_conv, metis snd_conv)
  have "fst R = (if index c \<le> CloseIndex then Some ErrAbortHandler else None) \<and> writer c = Some (snd R)" if i: "index c < EndIndex"
  proof -
    have "r = None" using h(3) i by (auto simp: EndIndex_def)
    then have "writer c = writer c''" "writer c'' \<noteq> None" using h(5,8) by (auto simp: served_def)
    then show ?thesis using i h(6) by (auto simp: R_def respond_ended)
  qed
  moreover have "fst R \<noteq> Some ErrAbortHandler \<and> (fst R = None \<longleftrightarrow> \<not> refused (the (writer c)) (fst (answer r c)) (snd (answer r c))) \<and>
      (fst R = None \<longrightarrow> w_status (snd R) = final_status (the (writer c)) (fst (answer r c)) (snd (answer r c)) \<and>
        w_body (snd R) = w_body (the (writer c)) @ snd (answer r c))" if "\<not> index c < EndIndex"
    using respond_ok [of c'' "the (writer c'')"] that h(6) sent_cong [OF h(7)] by (simp add: R_def a)
  ultimately show ?thesis using h(1) serve
    by (intro exI [of _ r] exI [of _ c] exI [of _ "fst R"] exI [of _ "snd R"] exI [of _ "SafePool_Put newContext pool"])
      (simp del: Context_Next.simps)
qed

theorem ServeHTTP_contained_witness:
  "\<exists>w' pool'. ServeHTTP (Use Uweb_New 0 [Panics (Panicked ''x'')] :: nat Uweb) None [] \<lparr>w_header = [], w_status = None, w_limit = None, w_body = []\<rparr>
      \<lparr>r_Method = ''GET'', r_Path = ''/a''\<rparr> = Ok (None, w', pool') \<and>
    w_status w' = Some 500 \<and> w_body w' = ''Internal Server Error, Recover: x'' @ [CHR 0x0A]"
proof -
  let ?u = "Use Uweb_New 0 [Panics (Panicked ''x'')] :: nat Uweb"
  let ?w = "\<lparr>w_header = [], w_status = None, w_limit = None, w_body = []\<rparr>" and ?r = "\<lparr>r_Method = ''GET'', r_Path = ''/a''\<rparr>"
  define d where "d = dispatch ?u ?r (Context_use ?w ?r newContext)"
  have d: "d = (Context_use ?w ?r newContext)\<lparr>handlerList := [Panics (Panicked ''x''), defaultNotFound]\<rparr>"
    by (simp add: d_def dispatch_def Use_def Uweb_New_def no_routes Let_def Context_use_def newContext_def)
  have n: "Context_Next (length (handlerList d) + 1) d = Ok (Some (Panicked ''x''), d\<lparr>index := 1\<rparr>)"
    by (simp add: d Context_use_def newContext_def)
  show ?thesis using ServeHTTP_contained [where u = ?u and w = ?w and req = ?r and pool = "[]"]
    unfolding d_def [symmetric] n
    by (auto simp: d Context_use_def newContext_def EndIndex_def refused_def final_status_def interim_def answer_def recover_text_def)
qed

text \<open>
  C39. Requests do not see each other: however contexts are taken from the pool and put back, each
  request of a series is answered as it would be by a server that has answered none before.
\<close>

theorem serve_isolated:
  "serve_all u [] rs = Ok (map (alone u) rs) \<and>
   (\<forall>pick w req. \<exists>pool. ServeHTTP u None [] w req = Ok (fst (alone u (pick, w, req)), snd (alone u (pick, w, req)), pool))"
proof -
  have "\<exists>pool. ServeHTTP u None [] w req = Ok (fst (alone u (pick, w, req)), snd (alone u (pick, w, req)), pool)" for pick w req
    using ServeHTTP_fresh [of "[]" u None w req] by (auto simp: alone_def)
  then show ?thesis by (auto simp: serve_all_fresh)
qed



end
