(* ===== verification/Upg_Reader.thy ===== *)
theory Upg_Reader
  imports Uw_Prelude
begin

text \<open>
  The readers of the PostgreSQL client (\<open>src/upg/internal/pool\<close>): the interface \<open>Reader\<close>, the reader of a
  slice (\<open>reader_bytes.go\<close>) and the buffered reader of a connection (\<open>reader_buf.go\<close>). Slices that a
  reader returns point into its buffer and are valid until the next read; here they are copies.
  The methods change their receiver, so they return the changed reader.
\<close>

datatype rd_error =
    EOF
  | ErrUnexpectedEOF
  | ErrBufferFull
  | ErrNegativeCount
  | ErrInvalidUnreadByte
  | ErrNoProgress
  | NetError string
  | Errorf string "byte list"

type_synonym 'a result = "(unit, 'a) outcome"

text \<open>The interface, as far as the parsers use it. A read returns the bytes and an error, if any.\<close>

record 's Reader =
  rd_ReadByte :: "'s \<Rightarrow> ('s \<times> (rd_error + byte)) result"
  rd_UnreadByte :: "'s \<Rightarrow> ('s \<times> rd_error option) result"
  rd_ReadSlice :: "'s \<Rightarrow> byte \<Rightarrow> ('s \<times> byte list \<times> rd_error option) result"
  rd_ReadFull :: "'s \<Rightarrow> ('s \<times> byte list \<times> rd_error option) result"
  rd_ReadFullTemp :: "'s \<Rightarrow> ('s \<times> byte list \<times> rd_error option) result"

text \<open>\<open>bytes.IndexByte\<close>\<close>

definition IndexByte :: "byte list \<Rightarrow> byte \<Rightarrow> nat option" where
  "IndexByte b c = (let n = length (takeWhile (\<lambda>x. x \<noteq> c) b) in if n < length b then Some n else None)"

section \<open>The reader of a slice\<close>

text \<open>\<open>behind\<close> are the bytes between the length and the capacity of the slice, which a longer slice of it reaches.\<close>

record BytesReader =
  br_s :: "byte list"
  br_behind :: "byte list"
  br_i :: nat

definition NewBytesReader :: "byte list \<Rightarrow> byte list \<Rightarrow> BytesReader" where
  "NewBytesReader b bs = \<lparr>br_s = b, br_behind = bs, br_i = 0\<rparr>"

definition BR_Reset :: "BytesReader \<Rightarrow> byte list \<Rightarrow> byte list \<Rightarrow> BytesReader" where
  "BR_Reset r b bs = r\<lparr>br_s := b, br_behind := bs, br_i := 0\<rparr>"

definition BR_Buffered :: "BytesReader \<Rightarrow> int" where
  "BR_Buffered r = int (length (br_s r)) - int (br_i r)"

definition BR_Read :: "BytesReader \<Rightarrow> nat \<Rightarrow> BytesReader \<times> byte list \<times> rd_error option" where
  "BR_Read r n =
     (if br_i r \<ge> length (br_s r) then (r, [], Some EOF)
      else let b = take n (drop (br_i r) (br_s r)) in (r\<lparr>br_i := br_i r + length b\<rparr>, b, None))"

definition BR_ReadByte :: "BytesReader \<Rightarrow> (BytesReader \<times> (rd_error + byte)) result" where
  "BR_ReadByte r =
     (if br_i r \<ge> length (br_s r) then Ok (r, Inl EOF)
      else Ok (r\<lparr>br_i := br_i r + 1\<rparr>, Inr (br_s r ! br_i r)))"

definition BR_UnreadByte :: "BytesReader \<Rightarrow> (BytesReader \<times> rd_error option) result" where
  "BR_UnreadByte r =
     (if br_i r \<le> 0 then Ok (r, Some (Errorf ''UnreadByte: at beginning of slice'' []))
      else Ok (r\<lparr>br_i := br_i r - 1\<rparr>, None))"

definition BR_ReadSlice :: "BytesReader \<Rightarrow> byte \<Rightarrow> (BytesReader \<times> byte list \<times> rd_error option) result" where
  "BR_ReadSlice r delim =
     (if br_i r > length (br_s r) then Panic
      else case IndexByte (drop (br_i r) (br_s r)) delim of
        Some k \<Rightarrow> Ok (r\<lparr>br_i := br_i r + (k + 1)\<rparr>, take (k + 1) (drop (br_i r) (br_s r)), None)
      | None \<Rightarrow> Ok (r\<lparr>br_i := length (br_s r)\<rparr>, drop (br_i r) (br_s r), Some EOF))"

definition BR_ReadN :: "BytesReader \<Rightarrow> nat \<Rightarrow> (BytesReader \<times> byte list \<times> rd_error option) result" where
  "BR_ReadN r n =
     (let nn = min n (length (br_s r)) in
      if br_i r + nn > length (br_s r @ br_behind r) then Panic
      else Ok (r\<lparr>br_i := br_i r + nn\<rparr>, take nn (drop (br_i r) (br_s r @ br_behind r)), if n > nn then Some EOF else None))"

definition BR_Discard :: "BytesReader \<Rightarrow> nat \<Rightarrow> (BytesReader \<times> nat \<times> rd_error option) result" where
  "BR_Discard r n = bind_outcome (BR_ReadN r n) (\<lambda>(r, b, e). Ok (r, length b, e))"

definition BR_ReadFull :: "BytesReader \<Rightarrow> (BytesReader \<times> byte list \<times> rd_error option) result" where
  "BR_ReadFull r =
     (if br_i r > length (br_s r) then Panic
      else Ok (r\<lparr>br_i := length (br_s r)\<rparr>, drop (br_i r) (br_s r), None))"

definition BR_ReadFullTemp :: "BytesReader \<Rightarrow> (BytesReader \<times> byte list \<times> rd_error option) result" where
  "BR_ReadFullTemp r =
     (if br_i r > length (br_s r) then Panic
      else Ok (r\<lparr>br_i := length (br_s r)\<rparr>, drop (br_i r) (br_s r), None))"

definition bytes_reader :: "BytesReader Reader" where
  "bytes_reader = \<lparr>rd_ReadByte = BR_ReadByte, rd_UnreadByte = BR_UnreadByte, rd_ReadSlice = BR_ReadSlice,
     rd_ReadFull = BR_ReadFull, rd_ReadFullTemp = BR_ReadFullTemp\<rparr>"

section \<open>The buffered reader\<close>

text \<open>
  A connection is the list of the results that its \<open>Read\<close> is going to have, each with its bytes and an
  error, if any, that comes with the last of them; a shorter buffer takes a part of the bytes.
\<close>

type_synonym conn = "(byte list \<times> rd_error option) list"

fun conn_Read :: "conn \<Rightarrow> nat \<Rightarrow> byte list \<times> rd_error option \<times> conn" where
  "conn_Read [] n = ([], Some EOF, [])"
| "conn_Read ((c, e) # cs) n = (if length c \<le> n then (c, e, cs) else (take n c, None, (drop n c, e) # cs))"

record BufReader =
  b_rd :: conn
  b_buf :: "byte list"
  b_r :: nat
  b_w :: nat
  lastByte :: int
  bytesRead :: nat
  b_err :: "rd_error option"
  available :: int
  b_brd :: BytesReader

definition NewBufReader :: "nat \<Rightarrow> BufReader" where
  "NewBufReader bufSize = \<lparr>b_rd = [], b_buf = replicate bufSize CHR 0x00, b_r = 0, b_w = 0, lastByte = 0, bytesRead = 0,
     b_err = None, available = -1, b_brd = NewBytesReader [] []\<rparr>"

definition BytesReader_of :: "BufReader \<Rightarrow> int \<Rightarrow> BufReader result" where
  "BytesReader_of b n =
     (let n = (if n = -1 then 0 else n) in
      if n < 0 \<or> int (length (b_buf b)) < int (b_r b) + n then Panic
      else Ok (b\<lparr>b_r := b_r b + nat n, b_brd := BR_Reset (b_brd b) (take (nat n) (drop (b_r b) (b_buf b))) (drop (b_r b + nat n) (b_buf b))\<rparr>))"

definition SetAvailable :: "BufReader \<Rightarrow> int \<Rightarrow> BufReader" where
  "SetAvailable b n = b\<lparr>available := n\<rparr>"

definition changeAvailable :: "BufReader \<Rightarrow> int \<Rightarrow> BufReader" where
  "changeAvailable b n = (if available b \<noteq> -1 then b\<lparr>available := available b + n\<rparr> else b)"

definition Reset :: "BufReader \<Rightarrow> conn \<Rightarrow> BufReader" where
  "Reset b c = b\<lparr>b_rd := c, b_r := 0, b_w := 0, b_err := None\<rparr>"

definition Buffered :: "BufReader \<Rightarrow> int" where
  "Buffered b =
     (let buffered = int (b_w b) - int (b_r b) in
      if available b = -1 \<or> buffered \<le> available b then buffered else available b)"

text \<open>The end of the bytes that may be read from the buffer, and these bytes.\<close>

definition window :: "BufReader \<Rightarrow> nat" where
  "window b =
     (if available b = -1 then b_w b
      else let e = int (b_r b) + available b in if e > int (b_w b) then b_w b else nat e)"

definition Bytes :: "BufReader \<Rightarrow> byte list" where
  "Bytes b = take (window b - b_r b) (drop (b_r b) (b_buf b))"

definition flush :: "BufReader \<Rightarrow> BufReader \<times> byte list" where
  "flush b = (let line = Bytes b in (changeAvailable (b\<lparr>b_r := window b\<rparr>) (- int (length line)), line))"

definition BufReader_read :: "BufReader \<Rightarrow> nat \<Rightarrow> BufReader \<times> byte list \<times> rd_error option" where
  "BufReader_read b n =
     (let (bs, e, c) = conn_Read (b_rd b) n in (b\<lparr>b_rd := c, bytesRead := bytesRead b + length bs\<rparr>, bs, e))"

fun fill_loop :: "nat \<Rightarrow> BufReader \<Rightarrow> BufReader" where
  "fill_loop 0 b = b\<lparr>b_err := Some ErrNoProgress\<rparr>"
| "fill_loop (Suc k) b =
     (let (b, bs, e) = BufReader_read b (length (b_buf b) - b_w b);
          b = b\<lparr>b_buf := take (b_w b) (b_buf b) @ bs @ drop (b_w b + length bs) (b_buf b), b_w := b_w b + length bs\<rparr>
      in if e \<noteq> None then b\<lparr>b_err := e\<rparr> else if bs \<noteq> [] then b else fill_loop k b)"

definition slide :: "BufReader \<Rightarrow> BufReader" where
  "slide b =
     (if b_r b > 0
      then let bs = drop (b_r b) (take (b_w b) (b_buf b))
           in b\<lparr>b_buf := bs @ drop (length bs) (b_buf b), b_w := b_w b - b_r b, b_r := 0\<rparr>
      else b)"

definition fill :: "BufReader \<Rightarrow> BufReader result" where
  "fill b =
     (let b = slide b in
      if b_w b \<ge> length (b_buf b) then Panic
      else if available b = 0 then Ok (b\<lparr>b_err := Some EOF\<rparr>)
      else Ok (fill_loop 100 b))"

definition readErr :: "BufReader \<Rightarrow> BufReader \<times> rd_error option" where
  "readErr b = (b\<lparr>b_err := None\<rparr>, b_err b)"

definition set_last :: "BufReader \<Rightarrow> byte list \<Rightarrow> BufReader" where
  "set_last b line = (if line = [] then b else b\<lparr>lastByte := int (bval (last line))\<rparr>)"

definition Buf_Read :: "BufReader \<Rightarrow> nat \<Rightarrow> (BufReader \<times> byte list \<times> rd_error option) result" where
  "Buf_Read b n =
     (if n = 0 then let (b, e) = readErr b in Ok (b, [], e)
      else if available b = 0 then Ok (b, [], Some EOF)
      else
        let n = (if available b \<noteq> -1 \<and> int n > available b then nat (available b) else n) in
        if b_r b = b_w b \<and> b_err b \<noteq> None then let (b, e) = readErr b in Ok (b, [], e)
        else if b_r b = b_w b \<and> n \<ge> length (b_buf b)
        then let (b, bs, e) = BufReader_read b n in Ok (set_last (changeAvailable b (- int (length bs))) bs, bs, e)
        else
          let (b, stop) =
            (if b_r b = b_w b
             then let (b, bs, e) = BufReader_read (b\<lparr>b_r := 0, b_w := 0\<rparr>) (length (b_buf b));
                      b = b\<lparr>b_buf := bs @ drop (length bs) (b_buf b), b_err := e\<rparr>
                  in if bs = [] then (b, True) else (b\<lparr>b_w := length bs\<rparr>, False)
             else (b, False))
          in if stop then let (b, e) = readErr b in Ok (b, [], e)
             else let bs = take n (Bytes b); b = changeAvailable (b\<lparr>b_r := b_r b + length bs\<rparr>) (- int (length bs))
                  in if b_r b = 0 then Panic else Ok (b\<lparr>lastByte := int (bval (b_buf b ! (b_r b - 1)))\<rparr>, bs, None))"

fun ReadSlice_loop :: "nat \<Rightarrow> BufReader \<Rightarrow> byte \<Rightarrow> (BufReader \<times> byte list \<times> rd_error option) result" where
  "ReadSlice_loop 0 b delim = Fuel"
| "ReadSlice_loop (Suc f) b delim =
     (case IndexByte (Bytes b) delim of
        Some k \<Rightarrow> Ok (changeAvailable (b\<lparr>b_r := b_r b + (k + 1)\<rparr>) (- int (k + 1)), take (k + 1) (Bytes b), None)
      | None \<Rightarrow>
          if b_err b \<noteq> None then let (b, line) = flush b; (b, e) = readErr b in Ok (b, line, e)
          else if available b \<noteq> -1 \<and> Buffered b \<ge> available b then let (b, line) = flush b in Ok (b, line, Some EOF)
          else if Buffered b \<ge> int (length (b_buf b)) then let (b, line) = flush b in Ok (b, line, Some ErrBufferFull)
          else bind_outcome (fill b) (\<lambda>b. ReadSlice_loop f b delim))"

definition ReadSlice :: "BufReader \<Rightarrow> byte \<Rightarrow> (BufReader \<times> byte list \<times> rd_error option) result" where
  "ReadSlice b delim =
     bind_outcome (ReadSlice_loop (length (b_buf b) + 2) b delim) (\<lambda>(b, line, e). Ok (set_last b line, line, e))"

fun ReadByte_loop :: "nat \<Rightarrow> BufReader \<Rightarrow> (BufReader \<times> rd_error option) result" where
  "ReadByte_loop 0 b = Fuel"
| "ReadByte_loop (Suc f) b =
     (if b_r b = b_w b
      then if b_err b \<noteq> None then Ok (readErr b) else bind_outcome (fill b) (\<lambda>b. ReadByte_loop f b)
      else Ok (b, None))"

definition ReadByte :: "BufReader \<Rightarrow> (BufReader \<times> (rd_error + byte)) result" where
  "ReadByte b =
     (if available b = 0 then Ok (b, Inl EOF)
      else bind_outcome (ReadByte_loop 2 b) (\<lambda>(b, e).
        case e of Some e \<Rightarrow> Ok (b, Inl e)
        | None \<Rightarrow> bind_outcome (idx (b_buf b) (b_r b)) (\<lambda>c.
            Ok (changeAvailable (b\<lparr>b_r := b_r b + 1, lastByte := int (bval c)\<rparr>) (-1), Inr c))))"

definition UnreadByte :: "BufReader \<Rightarrow> (BufReader \<times> rd_error option) result" where
  "UnreadByte b =
     (if lastByte b < 0 \<or> b_r b = 0 \<and> b_w b > 0 then Ok (b, Some ErrInvalidUnreadByte)
      else let b = (if b_r b > 0 then b\<lparr>b_r := b_r b - 1\<rparr> else b\<lparr>b_w := 1\<rparr>) in
        if b_r b \<ge> length (b_buf b) then Panic
        else Ok (changeAvailable (b\<lparr>b_buf := (b_buf b)[b_r b := char_of (nat (lastByte b))], lastByte := -1\<rparr>) 1, None))"

fun Discard_loop :: "nat \<Rightarrow> BufReader \<Rightarrow> int \<Rightarrow> (BufReader \<times> int \<times> rd_error option) result" where
  "Discard_loop 0 b remain = Fuel"
| "Discard_loop (Suc f) b remain =
     bind_outcome (if Buffered b = 0 then fill b else Ok b) (\<lambda>b.
     let skip = min (Buffered b) remain;
         b = changeAvailable (b\<lparr>b_r := nat (int (b_r b) + skip)\<rparr>) (- skip);
         remain = remain - skip
     in if remain = 0 then Ok (b, 0, None)
        else if b_err b \<noteq> None then let (b, e) = readErr b in Ok (b, remain, e)
        else Discard_loop f b remain)"

definition Discard :: "BufReader \<Rightarrow> int \<Rightarrow> (BufReader \<times> int \<times> rd_error option) result" where
  "Discard b n =
     (if n < 0 then Ok (b, 0, Some ErrNegativeCount)
      else if n = 0 then Ok (b, 0, None)
      else bind_outcome (Discard_loop (nat n + 1) b n) (\<lambda>(b, remain, e). Ok (b, n - remain, e)))"

fun ReadN_loop :: "nat \<Rightarrow> BufReader \<Rightarrow> int \<Rightarrow> int \<Rightarrow> (BufReader \<times> byte list \<times> rd_error option) result" where
  "ReadN_loop 0 b n nn = Fuel"
| "ReadN_loop (Suc f) b n nn =
     (if Buffered b \<ge> nn
      then Ok (changeAvailable (b\<lparr>b_r := b_r b + nat nn\<rparr>) (- nn), take (nat nn) (drop (b_r b) (b_buf b)), if n > nn then Some EOF else None)
      else if b_err b \<noteq> None then let (b, line) = flush b; (b, e) = readErr b in Ok (b, line, e)
      else if Buffered b \<ge> int (length (b_buf b)) then let (b, line) = flush b in Ok (b, line, Some ErrBufferFull)
      else bind_outcome (fill b) (\<lambda>b. ReadN_loop f b n nn))"

definition ReadN :: "BufReader \<Rightarrow> int \<Rightarrow> (BufReader \<times> byte list \<times> rd_error option) result" where
  "ReadN b n =
     (if n < 0 then Ok (b, [], Some ErrNegativeCount)
      else if n = 0 then Ok (b, [], None)
      else let nn = (if available b \<noteq> -1 \<and> n > available b then available b else n) in
        bind_outcome (ReadN_loop (length (b_buf b) + 2) b n nn) (\<lambda>(b, line, e). Ok (set_last b line, line, e)))"

text \<open>\<open>io.ReadFull\<close>: \<open>n\<close> bytes are left to read, and \<open>acc\<close> has been read.\<close>

fun io_ReadFull :: "nat \<Rightarrow> BufReader \<Rightarrow> nat \<Rightarrow> byte list \<Rightarrow> (BufReader \<times> byte list \<times> rd_error option) result" where
  "io_ReadFull 0 b n acc = Fuel"
| "io_ReadFull (Suc f) b n acc =
     (if n = 0 then Ok (b, acc, None)
      else bind_outcome (Buf_Read b n) (\<lambda>(b, bs, e).
        if e \<noteq> None \<and> length bs < n
        then Ok (b, acc @ bs @ replicate (n - length bs) CHR 0x00,
                 if e = Some EOF \<and> acc @ bs \<noteq> [] then Some ErrUnexpectedEOF else e)
        else io_ReadFull f b (n - length bs) (acc @ bs)))"

definition ReadFull :: "BufReader \<Rightarrow> (BufReader \<times> byte list \<times> rd_error option) result" where
  "ReadFull b =
     (if available b < 0 then Panic
      else io_ReadFull (nat (available b) + 1) b (nat (available b)) [])"

definition ReadFullTemp :: "BufReader \<Rightarrow> (BufReader \<times> byte list \<times> rd_error option) result" where
  "ReadFullTemp b =
     (if available b = -1 then Panic
      else if available b \<le> int (length (b_buf b)) then ReadN b (available b)
      else ReadFull b)"

definition buf_reader :: "BufReader Reader" where
  "buf_reader = \<lparr>rd_ReadByte = ReadByte, rd_UnreadByte = UnreadByte, rd_ReadSlice = ReadSlice,
     rd_ReadFull = ReadFull, rd_ReadFullTemp = ReadFullTemp\<rparr>"

end
