(* ===== verification/Upg_Reader_Correct.thy ===== *)
theory Upg_Reader_Correct
  imports Upg_Reader
begin

text \<open>
  The contract of a reader as a locale, and that the reader of a slice and the buffered reader of a
  connection keep it. The buffered reader refines the sequence of bytes that the connection delivers,
  however it is cut into reads.
\<close>

section \<open>The contract of a reader\<close>

text \<open>
  \<open>rest\<close> are the bytes up to the end of the value. A byte that was read can be taken back. \<open>ReadSlice\<close>
  returns the bytes up to and with the delimiter, or all that is left with \<open>EOF\<close>, or some part without
  the delimiter with \<open>ErrBufferFull\<close>.
\<close>

definition slice_end :: "byte \<Rightarrow> byte list \<Rightarrow> byte list \<Rightarrow> rd_error option \<Rightarrow> bool" where
  "slice_end d line left e =
     (case e of
        None \<Rightarrow> (\<exists>l. line = l @ [d] \<and> d \<notin> set l)
      | Some e \<Rightarrow> d \<notin> set line \<and> (e = EOF \<and> left = [] \<or> e = ErrBufferFull \<and> line \<noteq> []))"

locale byte_reader =
  fixes R :: "'s Reader" and ok :: "'s \<Rightarrow> bool" and rest :: "'s \<Rightarrow> byte list"
  assumes read_byte: "\<lbrakk>ok s; rest s = c # cs\<rbrakk> \<Longrightarrow>
      \<exists>s'. rd_ReadByte R s = Ok (s', Inr c) \<and> ok s' \<and> rest s' = cs \<and>
        (\<exists>s''. rd_UnreadByte R s' = Ok (s'', None) \<and> ok s'' \<and> rest s'' = c # cs)"
    and read_end: "\<lbrakk>ok s; rest s = []\<rbrakk> \<Longrightarrow> \<exists>s'. rd_ReadByte R s = Ok (s', Inl EOF) \<and> ok s' \<and> rest s' = []"
    and read_slice: "ok s \<Longrightarrow>
      \<exists>s' line e. rd_ReadSlice R s d = Ok (s', line, e) \<and> ok s' \<and> rest s = line @ rest s' \<and> slice_end d line (rest s') e"
    and read_full: "ok s \<Longrightarrow> \<exists>s'. rd_ReadFull R s = Ok (s', rest s, None) \<and> ok s' \<and> rest s' = []"
    and read_full_temp: "ok s \<Longrightarrow> \<exists>s'. rd_ReadFullTemp R s = Ok (s', rest s, None) \<and> ok s' \<and> rest s' = []"

section \<open>The reader of a slice\<close>

lemma IndexByte_Some: "IndexByte b c = Some k \<Longrightarrow> k < length b \<and> b ! k = c \<and> c \<notin> set (take k b)"
proof -
  assume "IndexByte b c = Some k"
  then have k: "k = length (takeWhile (\<lambda>x. x \<noteq> c) b)" "k < length b" by (auto simp: IndexByte_def Let_def split: if_splits)
  have "take k b = takeWhile (\<lambda>x. x \<noteq> c) b" using k(1) by (simp add: takeWhile_eq_take [symmetric])
  then show ?thesis using k nth_length_takeWhile [of "\<lambda>x. x \<noteq> c" b] by (auto dest: set_takeWhileD)
qed

lemma IndexByte_None: "IndexByte b c = None \<Longrightarrow> c \<notin> set b"
proof -
  have "c \<in> set b \<Longrightarrow> length (takeWhile (\<lambda>x. x \<noteq> c) b) < length b" by (induction b) auto
  then show "IndexByte b c = None \<Longrightarrow> c \<notin> set b" by (auto simp: IndexByte_def Let_def split: if_splits)
qed

lemma slice_found:
  assumes "IndexByte b c = Some k"
  shows "\<exists>l. take (k + 1) b = l @ [c] \<and> c \<notin> set l"
  using IndexByte_Some [OF assms] by (intro exI [of _ "take k b"]) (simp add: take_Suc_conv_app_nth)

interpretation slice_reader: byte_reader bytes_reader "\<lambda>r. br_i r \<le> length (br_s r)" "\<lambda>r. drop (br_i r) (br_s r)"
proof
  fix s :: BytesReader and c cs
  assume "br_i s \<le> length (br_s s)" "drop (br_i s) (br_s s) = c # cs"
  then show "\<exists>s'. rd_ReadByte bytes_reader s = Ok (s', Inr c) \<and> br_i s' \<le> length (br_s s') \<and> drop (br_i s') (br_s s') = cs \<and>
      (\<exists>s''. rd_UnreadByte bytes_reader s' = Ok (s'', None) \<and> br_i s'' \<le> length (br_s s'') \<and> drop (br_i s'') (br_s s'') = c # cs)"
    by (cases "br_i s < length (br_s s)")
      (auto simp: bytes_reader_def BR_ReadByte_def BR_UnreadByte_def Cons_nth_drop_Suc [symmetric])
next
  fix s :: BytesReader and d
  assume i: "br_i s \<le> length (br_s s)"
  show "\<exists>s' line e. rd_ReadSlice bytes_reader s d = Ok (s', line, e) \<and> br_i s' \<le> length (br_s s') \<and>
      drop (br_i s) (br_s s) = line @ drop (br_i s') (br_s s') \<and> slice_end d line (drop (br_i s') (br_s s')) e"
  proof (cases "IndexByte (drop (br_i s) (br_s s)) d")
    case None
    then show ?thesis using i IndexByte_None [OF None] by (simp add: bytes_reader_def BR_ReadSlice_def slice_end_def)
  next
    case (Some k)
    then have "br_i s + (k + 1) \<le> length (br_s s)" using IndexByte_Some [OF Some] i by (auto simp: less_diff_conv)
    moreover have "drop (br_i s) (br_s s) = take (k + 1) (drop (br_i s) (br_s s)) @ drop (br_i s + (k + 1)) (br_s s)"
      by (metis append_take_drop_id drop_drop add.commute)
    ultimately show ?thesis using i Some slice_found [OF Some] by (simp add: bytes_reader_def BR_ReadSlice_def slice_end_def)
  qed
qed (auto simp: bytes_reader_def BR_ReadByte_def BR_ReadFull_def BR_ReadFullTemp_def)

section \<open>The buffered reader\<close>

text \<open>
  The bytes that a connection delivers before its first error. A lively connection never returns
  nothing at all, as the contract of \<open>io.Reader\<close> asks, and its only error is the end of the stream.
\<close>

fun stream :: "conn \<Rightarrow> byte list" where
  "stream [] = []"
| "stream ((c, e) # cs) = c @ (if e = None then stream cs else [])"

fun lively :: "conn \<Rightarrow> bool" where
  "lively [] \<longleftrightarrow> True"
| "lively ((c, e) # cs) \<longleftrightarrow> (e = None \<and> c \<noteq> [] \<and> lively cs \<or> e = Some EOF \<and> cs = [])"

lemma conn_Read_ok:
  assumes "lively cs" "0 < n" "conn_Read cs n = (bs, e, cs')"
  shows "lively cs'" "stream cs = bs @ stream cs'" "bs \<noteq> [] \<or> e = Some EOF" "e = None \<or> e = Some EOF \<and> cs' = []" "length bs \<le> n"
proof -
  have "lively cs' \<and> stream cs = bs @ stream cs' \<and> (bs \<noteq> [] \<or> e = Some EOF) \<and> (e = None \<or> e = Some EOF \<and> cs' = []) \<and> length bs \<le> n"
  proof (cases cs)
    case (Cons x xs)
    obtain c d where x: "x = (c, d)" by (cases x)
    show ?thesis
    proof (cases "length c \<le> n")
      case True
      then have "bs = c" "e = d" "cs' = xs" using assms(3) Cons x by auto
      then show ?thesis using assms(1) True Cons x by auto
    next
      case False
      then have r: "bs = take n c" "e = None" "cs' = (drop n c, d) # xs" using assms(3) Cons x by auto
      then show ?thesis using assms(1,2) False Cons x by auto
    qed
  qed (use assms in auto)
  then show "lively cs'" "stream cs = bs @ stream cs'" "bs \<noteq> [] \<or> e = Some EOF" "e = None \<or> e = Some EOF \<and> cs' = []" "length bs \<le> n" by blast+
qed

text \<open>The bytes in the buffer, and all bytes that are still to come.\<close>

definition buffered :: "BufReader \<Rightarrow> byte list" where
  "buffered b = drop (b_r b) (take (b_w b) (b_buf b))"

definition pending :: "BufReader \<Rightarrow> byte list" where
  "pending b = buffered b @ stream (b_rd b)"

definition buf_wf :: "BufReader \<Rightarrow> bool" where
  "buf_wf b \<longleftrightarrow> b_r b \<le> b_w b \<and> b_w b \<le> length (b_buf b) \<and> b_buf b \<noteq> [] \<and> lively (b_rd b) \<and>
     (b_err b = None \<or> b_err b = Some EOF \<and> b_rd b = [])"

lemma length_buffered: "buf_wf b \<Longrightarrow> length (buffered b) = b_w b - b_r b"
  by (simp add: buffered_def buf_wf_def)

lemma slide_ok:
  assumes "buf_wf b"
  shows "buf_wf (slide b)" "buffered (slide b) = buffered b" "pending (slide b) = pending b" "b_r (slide b) = 0" "b_w (slide b) = b_w b - b_r b"
    "length (b_buf (slide b)) = length (b_buf b)" "available (slide b) = available b" "b_err (slide b) = b_err b"
  using assms by (auto simp: slide_def buf_wf_def buffered_def pending_def Let_def)

lemma fill_loop_ok:
  assumes "buf_wf b" "b_w b < length (b_buf b)" "b_err b = None"
  shows "buf_wf (fill_loop (Suc k) b) \<and> pending (fill_loop (Suc k) b) = pending b \<and> b_r (fill_loop (Suc k) b) = b_r b \<and>
    length (b_buf (fill_loop (Suc k) b)) = length (b_buf b) \<and> available (fill_loop (Suc k) b) = available b \<and>
    (b_w b < b_w (fill_loop (Suc k) b) \<or> b_w b = b_w (fill_loop (Suc k) b) \<and> b_err (fill_loop (Suc k) b) \<noteq> None)"
proof -
  obtain bs e cs where c: "conn_Read (b_rd b) (length (b_buf b) - b_w b) = (bs, e, cs)" by (cases "conn_Read (b_rd b) (length (b_buf b) - b_w b)") auto
  have b: "b_r b \<le> b_w b" "lively (b_rd b)" "b_buf b \<noteq> []" using assms(1) by (simp_all add: buf_wf_def)
  have pos: "0 < length (b_buf b) - b_w b" using assms(2) by simp
  note ok = conn_Read_ok [OF b(2) pos c]
  let ?b = "b\<lparr>b_rd := cs, bytesRead := bytesRead b + length bs, b_buf := take (b_w b) (b_buf b) @ bs @ drop (b_w b + length bs) (b_buf b),
    b_w := b_w b + length bs, b_err := e\<rparr>"
  have f: "fill_loop (Suc k) b = ?b" using ok(3,4) assms(3) by (cases e) (simp_all add: BufReader_read_def c)
  have l: "length (b_buf ?b) = length (b_buf b)" using assms(2) ok(5) by simp
  have "buffered ?b = buffered b @ bs" using b(1) assms(2) by (simp add: buffered_def)
  then have "pending ?b = pending b" using ok(2) assms(3) by (simp add: pending_def)
  moreover have "buf_wf ?b" using b ok(1,4,5) assms(2) l by (simp add: buf_wf_def)
  moreover have "b_w b < b_w ?b \<or> b_w b = b_w ?b \<and> b_err ?b \<noteq> None" using ok(3) by (cases bs) auto
  ultimately show ?thesis unfolding f using l by simp
qed

lemma fill_ok:
  assumes "buf_wf b" "b_w b - b_r b < length (b_buf b)" "b_err b = None" "available b \<noteq> 0"
  shows "\<exists>b'. fill b = Ok b' \<and> buf_wf b' \<and> pending b' = pending b \<and> available b' = available b \<and> length (b_buf b') = length (b_buf b) \<and>
    (b_w b - b_r b < b_w b' - b_r b' \<or> b_w b - b_r b = b_w b' - b_r b' \<and> b_err b' \<noteq> None)"
proof -
  note s = slide_ok [OF assms(1)]
  have "fill b = Ok (fill_loop (Suc 99) (slide b))" using assms(2,4) s(5-7) by (simp add: fill_def Let_def)
  then show ?thesis using fill_loop_ok [of "slide b" 99] s assms(2,3) by auto
qed

text \<open>
  The bytes that may still be read: all of them, or those of the current value. \<open>buf_ok\<close> says that the
  connection delivers them.
\<close>

definition limit :: "BufReader \<Rightarrow> nat" where
  "limit b = (if available b = -1 then length (pending b) else nat (available b))"

definition rest_of :: "BufReader \<Rightarrow> byte list" where
  "rest_of b = take (limit b) (pending b)"

definition buf_ok :: "BufReader \<Rightarrow> bool" where
  "buf_ok b \<longleftrightarrow> buf_wf b \<and> -1 \<le> available b \<and> limit b \<le> length (pending b)"

lemma length_rest: "buf_ok b \<Longrightarrow> length (rest_of b) = limit b"
  by (simp add: buf_ok_def rest_of_def)

text \<open>Going on by some bytes of the buffer.\<close>

definition advance :: "BufReader \<Rightarrow> nat \<Rightarrow> BufReader" where
  "advance b n = changeAvailable (b\<lparr>b_r := b_r b + n\<rparr>) (- int n)"

lemma advance_fields [simp]:
  "b_buf (advance b n) = b_buf b" "b_w (advance b n) = b_w b" "b_r (advance b n) = b_r b + n" "b_err (advance b n) = b_err b"
  "b_rd (advance b n) = b_rd b" "lastByte (advance b n) = lastByte b" "b_brd (advance b n) = b_brd b"
  by (simp_all add: advance_def changeAvailable_def)

lemma advance_ok:
  assumes "buf_ok b" "n \<le> length (buffered b)" "n \<le> limit b"
  shows "buf_ok (advance b n)" "rest_of (advance b n) = drop n (rest_of b)" "pending (advance b n) = drop n (pending b)"
    "available (advance b n) = -1 \<longleftrightarrow> available b = -1"
proof -
  have w: "buf_wf b" "-1 \<le> available b" "limit b \<le> length (pending b)" using assms(1) by (simp_all add: buf_ok_def)
  have r: "b_r b + n \<le> b_w b" using assms(2) w(1) by (auto simp: length_buffered buf_wf_def)
  have p: "pending (advance b n) = drop n (pending b)" using assms(2) by (simp add: pending_def buffered_def add.commute)
  then show "pending (advance b n) = drop n (pending b)" .
  show a: "available (advance b n) = -1 \<longleftrightarrow> available b = -1" using assms(3) w(2) by (auto simp: advance_def changeAvailable_def limit_def split: if_splits)
  have l: "limit (advance b n) = limit b - n" using assms(3) p a w(2) by (auto simp: limit_def advance_def changeAvailable_def split: if_splits)
  show "rest_of (advance b n) = drop n (rest_of b)" by (simp add: rest_of_def l p drop_take)
  have "-1 \<le> available (advance b n)" using assms(3) w(2) by (auto simp: advance_def changeAvailable_def limit_def split: if_splits)
  then show "buf_ok (advance b n)" using w r l p assms(3) by (auto simp: buf_ok_def buf_wf_def)
qed

lemma Bytes_ok:
  assumes "buf_ok b"
  shows "Bytes b = take (limit b) (buffered b)" "window b = b_r b + length (Bytes b)" "Buffered b = int (length (Bytes b))"
    "rest_of b = Bytes b @ drop (length (Bytes b)) (rest_of b)" "length (Bytes b) \<le> limit b" "length (Bytes b) \<le> length (buffered b)"
proof -
  have w: "buf_wf b" "-1 \<le> available b" "limit b \<le> length (pending b)" using assms by (simp_all add: buf_ok_def)
  have rw: "b_r b \<le> b_w b" "b_w b \<le> length (b_buf b)" using w(1) by (simp_all add: buf_wf_def)
  have B: "Bytes b = take (window b - b_r b) (drop (b_r b) (b_buf b))" by (simp add: Bytes_def)
  have win: "window b = b_r b + min (limit b) (b_w b - b_r b)"
    using rw w(2) by (auto simp: window_def limit_def pending_def length_buffered [OF w(1)] Let_def)
  show e: "Bytes b = take (limit b) (buffered b)" using rw by (simp add: B win buffered_def drop_take min.commute)
  then have l: "length (Bytes b) = min (limit b) (b_w b - b_r b)" by (simp add: length_buffered [OF w(1)] min.commute)
  then show "window b = b_r b + length (Bytes b)" by (simp add: win)
  show "Buffered b = int (length (Bytes b))"
    using rw w(2) by (auto simp: l Buffered_def limit_def pending_def length_buffered [OF w(1)] Let_def)
  show "length (Bytes b) \<le> limit b" "length (Bytes b) \<le> length (buffered b)" by (simp_all add: l length_buffered [OF w(1)])
  have "Bytes b = take (length (Bytes b)) (rest_of b)" by (simp add: e rest_of_def pending_def min_def)
  then show "rest_of b = Bytes b @ drop (length (Bytes b)) (rest_of b)" by (metis append_take_drop_id)
qed

lemma flush_ok: "buf_ok b \<Longrightarrow> flush b = (advance b (length (Bytes b)), Bytes b)"
  by (simp add: flush_def advance_def Bytes_ok(2) Let_def)

lemma buf_ok_update [simp]:
  "buf_ok (b\<lparr>lastByte := l\<rparr>) = buf_ok b" "rest_of (b\<lparr>lastByte := l\<rparr>) = rest_of b" "pending (b\<lparr>lastByte := l\<rparr>) = pending b"
  "buf_ok b \<Longrightarrow> buf_ok (b\<lparr>b_err := None\<rparr>)" "rest_of (b\<lparr>b_err := e\<rparr>) = rest_of b" "pending (b\<lparr>b_err := e\<rparr>) = pending b"
  by (auto simp: buf_ok_def buf_wf_def rest_of_def limit_def pending_def buffered_def)

lemma set_last_ok [simp]:
  "buf_ok (set_last b l) = buf_ok b" "rest_of (set_last b l) = rest_of b" "available (set_last b l) = available b" "b_buf (set_last b l) = b_buf b"
  by (simp_all add: set_last_def)

lemma fill_buf_ok:
  assumes "buf_ok b" "b_w b - b_r b < length (b_buf b)" "b_err b = None" "available b \<noteq> 0"
  shows "\<exists>b'. fill b = Ok b' \<and> buf_ok b' \<and> rest_of b' = rest_of b \<and> available b' = available b \<and> length (b_buf b') = length (b_buf b) \<and>
    (b_w b - b_r b < b_w b' - b_r b' \<or> b_w b - b_r b = b_w b' - b_r b' \<and> b_err b' \<noteq> None)"
proof -
  have w: "buf_wf b" using assms(1) by (simp add: buf_ok_def)
  obtain b' where f: "fill b = Ok b'" "buf_wf b'" "pending b' = pending b" "available b' = available b" "length (b_buf b') = length (b_buf b)"
      "b_w b - b_r b < b_w b' - b_r b' \<or> b_w b - b_r b = b_w b' - b_r b' \<and> b_err b' \<noteq> None"
    using fill_ok [OF w assms(2-4)] by blast
  have l: "limit b' = limit b" by (simp add: limit_def f(3,4))
  then have "buf_ok b'" "rest_of b' = rest_of b" using assms(1) f(2-4) by (simp_all add: buf_ok_def rest_of_def)
  then show ?thesis using f by blast
qed

lemma buffered_all:
  assumes "buf_ok b" "b_err b \<noteq> None"
  shows "pending b = buffered b" "b_err b = Some EOF" "rest_of b = Bytes b"
  using assms Bytes_ok(1) [OF assms(1)] by (auto simp: buf_ok_def buf_wf_def pending_def rest_of_def)

lemma nothing_buffered: "buf_ok b \<Longrightarrow> b_w b \<le> b_r b \<Longrightarrow> buffered b = []"
  by (simp add: buffered_def)

lemma ReadByte_loop_ok:
  assumes "buf_ok b" "rest_of b \<noteq> []"
  shows "\<exists>b'. ReadByte_loop 2 b = Ok (b', None) \<and> buf_ok b' \<and> rest_of b' = rest_of b \<and> available b' = available b \<and> b_r b' < b_w b'"
proof (cases "b_r b = b_w b")
  case True
  have B: "buffered b = []" using nothing_buffered [OF assms(1)] True by simp
  have e: "b_err b = None" using buffered_all(1) [OF assms(1)] B assms(2) by (cases "b_err b") (simp_all add: rest_of_def)
  have a: "available b \<noteq> 0" using assms(2) by (auto simp: rest_of_def limit_def)
  have "0 < length (b_buf b)" using assms(1) by (auto simp: buf_ok_def buf_wf_def)
  then obtain b' where f: "fill b = Ok b'" "buf_ok b'" "rest_of b' = rest_of b" "available b' = available b"
      "0 < b_w b' - b_r b' \<or> 0 = b_w b' - b_r b' \<and> b_err b' \<noteq> None"
    using fill_buf_ok [OF assms(1) _ e a] True by auto
  have "b_r b' < b_w b'"
  proof (rule ccontr)
    assume n: "\<not> b_r b' < b_w b'"
    then have "pending b' = []" using buffered_all [OF f(2)] nothing_buffered [OF f(2)] f(5) by simp
    then show False using f(3) assms(2) by (auto simp: rest_of_def)
  qed
  then show ?thesis using f True e by (auto simp: numeral_2_eq_2)
next
  case False
  then show ?thesis using assms by (auto simp: numeral_2_eq_2 buf_ok_def buf_wf_def)
qed

lemma advance_back:
  assumes "buf_ok b" "b_r b < b_w b" "limit b \<noteq> 0"
  shows "UnreadByte ((advance b 1)\<lparr>lastByte := int (bval (b_buf b ! b_r b))\<rparr>) = Ok (b\<lparr>lastByte := -1\<rparr>, None)"
proof -
  have l: "b_r b < length (b_buf b)" using assms(1,2) by (simp add: buf_ok_def buf_wf_def)
  have "available b = -1 \<or> 1 \<le> available b" using assms(1,3) by (auto simp: buf_ok_def limit_def split: if_splits)
  then show ?thesis
  proof
    assume "available b = -1"
    then show ?thesis using l by (cases b) (simp add: UnreadByte_def Let_def advance_def changeAvailable_def)
  next
    assume "1 \<le> available b"
    then show ?thesis using l by (cases b) (simp add: UnreadByte_def Let_def advance_def changeAvailable_def)
  qed
qed

lemma ReadByte_ok:
  assumes "buf_ok b" "rest_of b = c # cs"
  shows "\<exists>b'. ReadByte b = Ok (b', Inr c) \<and> buf_ok b' \<and> rest_of b' = cs \<and> (available b' = -1 \<longleftrightarrow> available b = -1) \<and>
    b_buf b' \<noteq> [] \<and> (\<exists>b''. UnreadByte b' = Ok (b'', None) \<and> buf_ok b'' \<and> rest_of b'' = c # cs \<and> available b'' = available b)"
proof -
  have a: "available b \<noteq> 0" using assms(2) by (auto simp: rest_of_def limit_def)
  obtain b1 where 1: "ReadByte_loop 2 b = Ok (b1, None)" "buf_ok b1" "rest_of b1 = c # cs" "available b1 = available b" "b_r b1 < b_w b1"
    using ReadByte_loop_ok [of b] assms by auto
  have l: "limit b1 \<noteq> 0" using 1(3) by (cases "limit b1") (simp_all add: rest_of_def)
  have w: "b_r b1 < length (b_buf b1)" "b_w b1 \<le> length (b_buf b1)" using 1(2,5) by (auto simp: buf_ok_def buf_wf_def)
  have "buffered b1 = b_buf b1 ! b_r b1 # drop (b_r b1 + 1) (take (b_w b1) (b_buf b1))"
    using 1(5) w by (simp add: buffered_def Cons_nth_drop_Suc [symmetric])
  then have c: "b_buf b1 ! b_r b1 = c" using 1(3) l by (cases "limit b1") (auto simp: rest_of_def pending_def)
  have adv: "buf_ok (advance b1 1)" "rest_of (advance b1 1) = cs" "available (advance b1 1) = -1 \<longleftrightarrow> available b = -1"
    using advance_ok [OF 1(2), of 1] 1(2-5) l w by (auto simp: length_buffered buf_ok_def)
  have "ReadByte b = Ok ((advance b1 1)\<lparr>lastByte := int (bval c)\<rparr>, Inr c)"
    using 1(1) a w c by (simp add: ReadByte_def advance_def changeAvailable_def)
  moreover have "UnreadByte ((advance b1 1)\<lparr>lastByte := int (bval c)\<rparr>) = Ok (b1\<lparr>lastByte := -1\<rparr>, None)"
    using advance_back [OF 1(2,5) l] c by simp
  ultimately show ?thesis using adv 1(2-4) w by auto
qed

lemma ReadByte_end:
  assumes "buf_ok b" "rest_of b = []"
  shows "\<exists>b'. ReadByte b = Ok (b', Inl EOF) \<and> buf_ok b' \<and> rest_of b' = [] \<and> (available b' = -1 \<longleftrightarrow> available b = -1)"
proof (cases "available b = 0")
  case True
  then show ?thesis using assms by (simp add: ReadByte_def)
next
  case False
  then have p: "pending b = []" "available b = -1" using assms by (auto simp: rest_of_def limit_def buf_ok_def split: if_splits)
  then have rw: "b_r b = b_w b" using assms(1) length_buffered [of b] by (auto simp: pending_def buf_ok_def buf_wf_def)
  show ?thesis
  proof (cases "b_err b = None")
    case True
    have "0 < length (b_buf b)" using assms(1) by (auto simp: buf_ok_def buf_wf_def)
    then obtain b' where f: "fill b = Ok b'" "buf_ok b'" "rest_of b' = []" "available b' = -1"
        "0 < b_w b' - b_r b' \<or> 0 = b_w b' - b_r b' \<and> b_err b' \<noteq> None"
      using fill_buf_ok [OF assms(1) _ True] rw p(2) assms(2) by auto
    have "pending b' = []" using f(3,4) by (simp add: rest_of_def limit_def)
    then have "b_r b' = b_w b'" using f(2) length_buffered [of b'] by (auto simp: pending_def buf_ok_def buf_wf_def)
    then show ?thesis using f rw True False p(2) buffered_all(2) [OF f(2)] by (simp add: ReadByte_def numeral_2_eq_2 readErr_def)
  next
    case e: False
    then show ?thesis using assms rw False p(2) buffered_all(2) [OF assms(1) e] by (simp add: ReadByte_def numeral_2_eq_2 readErr_def)
  qed
qed

end
