(* ===== verification/Upg_Scan.thy ===== *)
theory Upg_Scan
  imports Upg_Reader Uw_Strconv "HOL-Library.AList"
begin

text \<open>
  How the PostgreSQL client reads values (\<open>src/upg/types\<close> and \<open>internal/parser\<close>): the parsers of arrays
  and hstores and the scanners of single values, over any \<open>Reader\<close>. A scanner returns the changed
  reader and an error or the value; \<^const>\<open>None\<close> as a value is \<open>nil\<close>. Loops carry fuel.
\<close>

section \<open>The streaming parser\<close>

definition SkipByte :: "'s Reader \<Rightarrow> 's \<Rightarrow> byte \<Rightarrow> ('s \<times> rd_error option) result" where
  "SkipByte R p skip =
     bind_outcome (rd_ReadByte R p) (\<lambda>(p, c).
     case c of
       Inl e \<Rightarrow> Ok (p, Some e)
     | Inr c \<Rightarrow>
         if c = skip then Ok (p, None)
         else bind_outcome (rd_UnreadByte R p) (\<lambda>(p, _). Ok (p, Some (Errorf ''got %q, wanted %q'' [c, skip]))))"

fun ReadSubstring_loop :: "nat \<Rightarrow> 's Reader \<Rightarrow> 's \<Rightarrow> byte list \<Rightarrow> byte \<Rightarrow> ('s \<times> byte list \<times> rd_error option) result" where
  "ReadSubstring_loop 0 R p b c = Fuel"
| "ReadSubstring_loop (Suc f) R p b c =
     (if c = c_dq then Ok (p, b, None)
      else bind_outcome (rd_ReadByte R p) (\<lambda>(p, nx).
        case nx of
          Inl e \<Rightarrow> Ok (p, b, Some e)
        | Inr nx \<Rightarrow>
            if c = c_bs
            then if nx = c_bs \<or> nx = c_dq
                 then bind_outcome (rd_ReadByte R p) (\<lambda>(p, c).
                        case c of Inl e \<Rightarrow> Ok (p, [], Some e) | Inr c \<Rightarrow> ReadSubstring_loop f R p (b @ [nx]) c)
                 else ReadSubstring_loop f R p (b @ [c_bs]) nx
            else ReadSubstring_loop f R p (b @ [c]) nx))"

definition ReadSubstring :: "nat \<Rightarrow> 's Reader \<Rightarrow> 's \<Rightarrow> ('s \<times> byte list \<times> rd_error option) result" where
  "ReadSubstring f R p =
     bind_outcome (rd_ReadByte R p) (\<lambda>(p, c).
     case c of Inl e \<Rightarrow> Ok (p, [], Some e) | Inr c \<Rightarrow> ReadSubstring_loop f R p [] c)"

section \<open>Arrays\<close>

definition errEndOfArray :: rd_error where
  "errEndOfArray = Errorf ''pg: end of array'' []"

record 's arrayParser =
  ap_p :: 's
  stickyErr :: "rd_error option"

definition newArrayParser :: "'s Reader \<Rightarrow> 's \<Rightarrow> 's arrayParser result" where
  "newArrayParser R p = bind_outcome (SkipByte R p CHR ''{'') (\<lambda>(p, e). Ok \<lparr>ap_p = p, stickyErr = e\<rparr>)"

definition readCommaBrace :: "'s Reader \<Rightarrow> 's \<Rightarrow> ('s \<times> rd_error option) result" where
  "readCommaBrace R p =
     bind_outcome (rd_ReadByte R p) (\<lambda>(p, c).
     case c of
       Inl e \<Rightarrow> Ok (p, Some e)
     | Inr c \<Rightarrow> if c = CHR '','' \<or> c = CHR ''}'' then Ok (p, None) else Ok (p, Some (Errorf ''pg: got %q, wanted , or }'' [c])))"

fun readSimple :: "nat \<Rightarrow> 's Reader \<Rightarrow> 's \<Rightarrow> byte list \<Rightarrow> ('s \<times> (rd_error + byte list)) result" where
  "readSimple 0 R p b = Fuel"
| "readSimple (Suc f) R p b =
     bind_outcome (rd_ReadSlice R p CHR '','') (\<lambda>(p, tmp, e).
     let b = b @ tmp in
     case e of
       None \<Rightarrow> if b = [] then Panic else Ok (p, Inr (butlast b))
     | Some e \<Rightarrow>
         if e = ErrBufferFull then readSimple f R p b
         else if e = EOF
         then if b = [] then Panic else if last b = CHR ''}'' then Ok (p, Inr (butlast b)) else Ok (p, Inl e)
         else Ok (p, Inl e))"

text \<open>A string in a nested array is copied up to a quote that has no backslash before it.\<close>

fun readSubString :: "nat \<Rightarrow> 's Reader \<Rightarrow> 's \<Rightarrow> byte list \<Rightarrow> ('s \<times> (rd_error + byte list)) result" where
  "readSubString 0 R p b = Fuel"
| "readSubString (Suc f) R p b =
     bind_outcome (rd_ReadSlice R p c_dq) (\<lambda>(p, tmp, e).
     let b = b @ tmp in
     case e of
       Some e \<Rightarrow> if e = ErrBufferFull then readSubString f R p b else Ok (p, Inl e)
     | None \<Rightarrow> if length b > 1 \<and> b ! (length b - 2) \<noteq> c_bs then Ok (p, Inr b) else readSubString f R p b)"

fun readSubArray_loop :: "nat \<Rightarrow> 's Reader \<Rightarrow> 's \<Rightarrow> byte list \<Rightarrow> ('s \<times> (rd_error + byte list)) result" where
  "readSubArray_loop 0 R p b = Fuel"
| "readSubArray_loop (Suc f) R p b =
     bind_outcome (rd_ReadByte R p) (\<lambda>(p, c).
     case c of
       Inl e \<Rightarrow> Ok (p, Inl e)
     | Inr c \<Rightarrow>
         if c = CHR ''}'' then Ok (p, Inr (b @ ''}''))
         else if c = c_dq
         then bind_outcome (readSubString f R p (b @ [c_dq])) (\<lambda>(p, x).
                case x of Inl e \<Rightarrow> Ok (p, Inl e) | Inr b \<Rightarrow> readSubArray_loop f R p b)
         else readSubArray_loop f R p (b @ [c]))"

definition readSubArray :: "nat \<Rightarrow> 's Reader \<Rightarrow> 's \<Rightarrow> ('s \<times> (rd_error + byte list)) result" where
  "readSubArray f R p = readSubArray_loop f R p ''{''"

definition with_comma :: "'s Reader \<Rightarrow> 's \<Rightarrow> byte list \<Rightarrow> ('s \<times> (rd_error + byte list option)) result" where
  "with_comma R p b =
     bind_outcome (readCommaBrace R p) (\<lambda>(p, e). case e of Some e \<Rightarrow> Ok (p, Inl e) | None \<Rightarrow> Ok (p, Inr (Some b)))"

definition read_elem :: "nat \<Rightarrow> 's Reader \<Rightarrow> 's \<Rightarrow> ('s \<times> (rd_error + byte list option)) result" where
  "read_elem f R p =
     bind_outcome (rd_ReadByte R p) (\<lambda>(p, c).
     case c of
       Inl e \<Rightarrow> Ok (p, Inl (if e = EOF then errEndOfArray else e))
     | Inr c \<Rightarrow>
         if c = c_dq
         then bind_outcome (ReadSubstring f R p) (\<lambda>(p, b, e). case e of Some e \<Rightarrow> Ok (p, Inl e) | None \<Rightarrow> with_comma R p b)
         else if c = CHR ''{''
         then bind_outcome (readSubArray f R p) (\<lambda>(p, x). case x of Inl e \<Rightarrow> Ok (p, Inl e) | Inr b \<Rightarrow> with_comma R p b)
         else if c = CHR ''}'' then Ok (p, Inl errEndOfArray)
         else bind_outcome (rd_UnreadByte R p) (\<lambda>(p, e).
           case e of
             Some e \<Rightarrow> Ok (p, Inl e)
           | None \<Rightarrow> bind_outcome (readSimple f R p []) (\<lambda>(p, x).
               case x of Inl e \<Rightarrow> Ok (p, Inl e) | Inr b \<Rightarrow> Ok (p, Inr (if b = ''NULL'' then None else Some b)))))"

definition NextElem :: "nat \<Rightarrow> 's Reader \<Rightarrow> 's arrayParser \<Rightarrow> ('s arrayParser \<times> (rd_error + byte list option)) result" where
  "NextElem f R p =
     (case stickyErr p of
        Some e \<Rightarrow> Ok (p, Inl e)
      | None \<Rightarrow> bind_outcome (read_elem f R (ap_p p)) (\<lambda>(q, x). Ok (p\<lparr>ap_p := q\<rparr>, x)))"

fun scan_elems :: "nat \<Rightarrow> 's Reader \<Rightarrow> (byte list option \<Rightarrow> rd_error + 'v) \<Rightarrow> 's arrayParser \<Rightarrow> 'v list \<Rightarrow> ('s \<times> (rd_error + 'v list option)) result" where
  "scan_elems 0 R elem_value p slice = Fuel"
| "scan_elems (Suc f) R elem_value p slice =
     bind_outcome (NextElem f R p) (\<lambda>(p, x).
     case x of
       Inl e \<Rightarrow> if e = errEndOfArray then Ok (ap_p p, Inr (Some slice)) else Ok (ap_p p, Inl e)
     | Inr elem \<Rightarrow>
         (case elem_value elem of
            Inl e \<Rightarrow> Ok (ap_p p, Inl e)
          | Inr v \<Rightarrow> scan_elems f R elem_value p (slice @ [v])))"

definition scan_array :: "nat \<Rightarrow> 's Reader \<Rightarrow> (byte list option \<Rightarrow> rd_error + 'v) \<Rightarrow> 's \<Rightarrow> int \<Rightarrow> ('s \<times> (rd_error + 'v list option)) result" where
  "scan_array f R elem_value p n =
     (if n = -1 then Ok (p, Inr None)
      else bind_outcome (newArrayParser R p) (\<lambda>p. scan_elems f R elem_value p []))"

definition scanStringArray :: "nat \<Rightarrow> 's Reader \<Rightarrow> 's \<Rightarrow> int \<Rightarrow> ('s \<times> (rd_error + byte list list option)) result" where
  "scanStringArray f R = scan_array f R (\<lambda>elem. Inr (case elem of None \<Rightarrow> [] | Some b \<Rightarrow> b))"

definition parse_int :: "byte list \<Rightarrow> rd_error + int" where
  "parse_int b = (case ParseInt b 10 of None \<Rightarrow> Inl (Errorf ''strconv.ParseInt'' b) | Some n \<Rightarrow> Inr n)"

definition scanInt64Array :: "nat \<Rightarrow> 's Reader \<Rightarrow> 's \<Rightarrow> int \<Rightarrow> ('s \<times> (rd_error + int list option)) result" where
  "scanInt64Array f R = scan_array f R (\<lambda>elem. case elem of None \<Rightarrow> Inr 0 | Some b \<Rightarrow> parse_int b)"

text \<open>\<open>strconv.ParseFloat\<close> and the zero of its type are arguments.\<close>

definition scanFloat64Array :: "(byte list \<Rightarrow> 'f option) \<Rightarrow> 'f \<Rightarrow> nat \<Rightarrow> 's Reader \<Rightarrow> 's \<Rightarrow> int \<Rightarrow> ('s \<times> (rd_error + 'f list option)) result" where
  "scanFloat64Array ParseFloat zero f R =
     scan_array f R (\<lambda>elem. case elem of None \<Rightarrow> Inr zero
       | Some b \<Rightarrow> (case ParseFloat b of None \<Rightarrow> Inl (Errorf ''strconv.ParseFloat'' b) | Some v \<Rightarrow> Inr v))"

section \<open>Hstores\<close>

definition errEndOfHstore :: rd_error where
  "errEndOfHstore = Errorf ''pg: end of hstore'' []"

definition NextKey :: "nat \<Rightarrow> 's Reader \<Rightarrow> 's \<Rightarrow> ('s \<times> (rd_error + byte list)) result" where
  "NextKey f R p =
     bind_outcome (SkipByte R p c_dq) (\<lambda>(p, e).
     case e of
       Some e \<Rightarrow> Ok (p, Inl (if e = EOF then errEndOfHstore else e))
     | None \<Rightarrow> bind_outcome (ReadSubstring f R p) (\<lambda>(p, key, e).
         case e of
           Some e \<Rightarrow> Ok (p, Inl e)
         | None \<Rightarrow> bind_outcome (SkipByte R p CHR ''='') (\<lambda>(p, e).
             case e of
               Some e \<Rightarrow> Ok (p, Inl e)
             | None \<Rightarrow> bind_outcome (SkipByte R p CHR ''>'') (\<lambda>(p, e).
                 case e of Some e \<Rightarrow> Ok (p, Inl e) | None \<Rightarrow> Ok (p, Inr key)))))"

definition NextValue :: "nat \<Rightarrow> 's Reader \<Rightarrow> 's \<Rightarrow> ('s \<times> (rd_error + byte list)) result" where
  "NextValue f R p =
     bind_outcome (SkipByte R p c_dq) (\<lambda>(p, e).
     case e of
       Some e \<Rightarrow> Ok (p, Inl e)
     | None \<Rightarrow> bind_outcome (ReadSubstring f R p) (\<lambda>(p, val, e).
         case e of
           Some e \<Rightarrow> Ok (p, Inl e)
         | None \<Rightarrow> bind_outcome (SkipByte R p CHR '','') (\<lambda>(p, e).
             if e = None then bind_outcome (SkipByte R p CHR '' '') (\<lambda>(p, _). Ok (p, Inr val)) else Ok (p, Inr val))))"

fun scan_pairs :: "nat \<Rightarrow> 's Reader \<Rightarrow> 's \<Rightarrow> (byte list \<times> byte list) list \<Rightarrow> ('s \<times> (rd_error + (byte list \<times> byte list) list option)) result" where
  "scan_pairs 0 R p m = Fuel"
| "scan_pairs (Suc f) R p m =
     bind_outcome (NextKey f R p) (\<lambda>(p, key).
     case key of
       Inl e \<Rightarrow> if e = errEndOfHstore then Ok (p, Inr (Some m)) else Ok (p, Inl e)
     | Inr key \<Rightarrow> bind_outcome (NextValue f R p) (\<lambda>(p, val).
         case val of Inl e \<Rightarrow> Ok (p, Inl e) | Inr val \<Rightarrow> scan_pairs f R p (AList.update key val m)))"

definition scanMapStringString :: "nat \<Rightarrow> 's Reader \<Rightarrow> 's \<Rightarrow> int \<Rightarrow> ('s \<times> (rd_error + (byte list \<times> byte list) list option)) result" where
  "scanMapStringString f R p n = (if n = -1 then Ok (p, Inr None) else scan_pairs f R p [])"

section \<open>Single values\<close>

definition ScanString :: "'s Reader \<Rightarrow> 's \<Rightarrow> int \<Rightarrow> ('s \<times> (rd_error + byte list)) result" where
  "ScanString R p n =
     (if n \<le> 0 then Ok (p, Inr [])
      else bind_outcome (rd_ReadFull R p) (\<lambda>(p, b, e). case e of Some e \<Rightarrow> Ok (p, Inl e) | None \<Rightarrow> Ok (p, Inr b)))"

text \<open>\<open>pkg/hex\<close>\<close>

definition fromHexChar :: "byte \<Rightarrow> nat option" where
  "fromHexChar c =
     (if bval CHR ''0'' \<le> bval c \<and> bval c \<le> bval CHR ''9'' then Some (bval c - bval CHR ''0'')
      else if bval CHR ''a'' \<le> bval c \<and> bval c \<le> bval CHR ''f'' then Some (bval c - bval CHR ''a'' + 10)
      else if bval CHR ''A'' \<le> bval c \<and> bval c \<le> bval CHR ''F'' then Some (bval c - bval CHR ''A'' + 10)
      else None)"

fun decodeGeneric :: "byte list \<Rightarrow> byte + byte list" where
  "decodeGeneric (x # y # src) =
     (case fromHexChar x of
        None \<Rightarrow> Inl x
      | Some a \<Rightarrow>
          (case fromHexChar y of
             None \<Rightarrow> Inl y
           | Some b \<Rightarrow> map_sum id (Cons (char_of (a * 16 + b))) (decodeGeneric src)))"
| "decodeGeneric _ = Inr []"

definition hex_Decode :: "byte list \<Rightarrow> rd_error + byte list" where
  "hex_Decode src =
     (if odd (length src) then Inl (Errorf ''go-hex: odd length hex string'' [])
      else case decodeGeneric src of Inl c \<Rightarrow> Inl (Errorf ''go-hex: invalid byte: %#U'' [c]) | Inr b \<Rightarrow> Inr b)"

definition ReadBytes :: "'s Reader \<Rightarrow> 's \<Rightarrow> nat \<Rightarrow> ('s \<times> (rd_error + byte list)) result" where
  "ReadBytes R p n =
     bind_outcome (rd_ReadFullTemp R p) (\<lambda>(p, tmp, e).
     case e of
       Some e \<Rightarrow> Ok (p, Inl e)
     | None \<Rightarrow>
         if length tmp < 2 \<or> tmp ! 0 \<noteq> c_bs \<or> tmp ! 1 \<noteq> CHR ''x'' then Ok (p, Inl (Errorf ''pg: cannot parse bytea: %q'' tmp))
         else let tmp = drop 2 tmp in
           if n \<noteq> length tmp div 2 then Ok (p, Inl (Errorf ''pg: too small buf to decode hex'' []))
           else Ok (p, hex_Decode tmp))"

definition ScanBytes :: "'s Reader \<Rightarrow> 's \<Rightarrow> int \<Rightarrow> ('s \<times> (rd_error + byte list option)) result" where
  "ScanBytes R p n =
     (if n = -1 then Ok (p, Inr None)
      else if n = 0 then Ok (p, Inr (Some []))
      else if n \<le> -2 then Panic
      else bind_outcome (ReadBytes R p (nat (n - 2) div 2)) (\<lambda>(p, x). Ok (p, map_sum id Some x)))"

definition ScanInt64 :: "'s Reader \<Rightarrow> 's \<Rightarrow> int \<Rightarrow> ('s \<times> (rd_error + int)) result" where
  "ScanInt64 R p n =
     (if n \<le> 0 then Ok (p, Inr 0)
      else bind_outcome (rd_ReadFullTemp R p) (\<lambda>(p, tmp, e). case e of Some e \<Rightarrow> Ok (p, Inl e) | None \<Rightarrow> Ok (p, parse_int tmp)))"

definition ScanBool :: "'s Reader \<Rightarrow> 's \<Rightarrow> int \<Rightarrow> ('s \<times> (rd_error + bool)) result" where
  "ScanBool R p n =
     bind_outcome (rd_ReadFullTemp R p) (\<lambda>(p, tmp, e).
     case e of Some e \<Rightarrow> Ok (p, Inl e) | None \<Rightarrow> Ok (p, Inr (length tmp = 1 \<and> (tmp ! 0 = CHR ''t'' \<or> tmp ! 0 = CHR ''1''))))"

end
