(* ===== verification/Upg_Types.thy ===== *)
theory Upg_Types
  imports Toml_Characters Uw_Strconv
begin

unbundle bit_operations_syntax

text \<open>
  How the PostgreSQL client writes values (\<open>src/upg/types\<close>): strings, byte strings, arrays, hstores,
  JSON and identifiers, as SQL text with the flag \<open>quoteFlag\<close> and as the text of a parameter without
  it. The functions append to a buffer and return it; \<^const>\<open>None\<close> is the slice \<open>nil\<close> that stands
  for NULL.
\<close>

section \<open>Flags\<close>

definition quoteFlag :: nat where "quoteFlag = 1"
definition arrayFlag :: nat where "arrayFlag = 2"
definition subArrayFlag :: nat where "subArrayFlag = 4"

definition hasFlag :: "nat \<Rightarrow> nat \<Rightarrow> bool" where
  "hasFlag flags flag \<longleftrightarrow> flags AND flag = flag"

definition shouldQuoteArray :: "nat \<Rightarrow> bool" where
  "shouldQuoteArray flags \<longleftrightarrow> hasFlag flags quoteFlag \<and> \<not> hasFlag flags subArrayFlag"

section \<open>Strings\<close>

text \<open>
  The runes of a string as \<open>range\<close> delivers them: \<open>decodeRune\<close> is the first rune with its size, U+FFFD
  with size 1 where the bytes are not UTF-8.
\<close>

definition cont :: "byte \<Rightarrow> bool" where
  "cont c \<longleftrightarrow> 0x80 \<le> bval c \<and> bval c \<le> 0xBF"

fun decodeRune :: "byte list \<Rightarrow> nat \<times> nat" where
  "decodeRune [] = (0xFFFD, 1)"
| "decodeRune (a # p) =
     (if bval a < 0x80 then (bval a, 1)
      else if 0xC2 \<le> bval a \<and> bval a \<le> 0xDF \<and> 1 \<le> length p \<and> cont (p ! 0)
      then ((bval a - 0xC0) * 64 + (bval (p ! 0) - 0x80), 2)
      else if 0xE0 \<le> bval a \<and> bval a \<le> 0xEF \<and> 2 \<le> length p \<and> cont (p ! 0) \<and> cont (p ! 1) \<and>
        (bval a = 0xE0 \<longrightarrow> 0xA0 \<le> bval (p ! 0)) \<and> (bval a = 0xED \<longrightarrow> bval (p ! 0) \<le> 0x9F)
      then (((bval a - 0xE0) * 64 + (bval (p ! 0) - 0x80)) * 64 + (bval (p ! 1) - 0x80), 3)
      else if 0xF0 \<le> bval a \<and> bval a \<le> 0xF4 \<and> 3 \<le> length p \<and> cont (p ! 0) \<and> cont (p ! 1) \<and> cont (p ! 2) \<and>
        (bval a = 0xF0 \<longrightarrow> 0x90 \<le> bval (p ! 0)) \<and> (bval a = 0xF4 \<longrightarrow> bval (p ! 0) \<le> 0x8F)
      then ((((bval a - 0xF0) * 64 + (bval (p ! 0) - 0x80)) * 64 + (bval (p ! 1) - 0x80)) * 64 + (bval (p ! 2) - 0x80), 4)
      else (0xFFFD, 1))"

lemma decodeRune_size: "0 < snd (decodeRune p)"
  by (cases p) auto

function runes :: "byte list \<Rightarrow> nat list" where
  "runes s = (if s = [] then [] else fst (decodeRune s) # runes (drop (snd (decodeRune s)) s))"
  by auto
termination by (relation "measure length") (auto simp: decodeRune_size)

declare runes.simps [simp del]

definition appendRune :: "byte list \<Rightarrow> nat \<Rightarrow> byte list" where
  "appendRune b r = b @ encodeRune r"

fun appendString2_loop :: "byte list \<Rightarrow> nat list \<Rightarrow> nat \<Rightarrow> byte list" where
  "appendString2_loop b [] flags = b"
| "appendString2_loop b (c # cs) flags =
     appendString2_loop
      (if c = 0 then b
       else if c = bval c_sq then (if hasFlag flags quoteFlag then b @ [c_sq] else b) @ [c_sq]
       else if c = bval c_dq then b @ [c_bs, c_dq]
       else if c = bval c_bs then b @ [c_bs, c_bs]
       else appendRune b c) cs flags"

definition appendString2 :: "byte list \<Rightarrow> byte list \<Rightarrow> nat \<Rightarrow> byte list" where
  "appendString2 b s flags = appendString2_loop (b @ [c_dq]) (runes s) flags @ [c_dq]"

fun AppendString_quoted :: "byte list \<Rightarrow> nat list \<Rightarrow> byte list" where
  "AppendString_quoted b [] = b"
| "AppendString_quoted b (c # cs) =
     AppendString_quoted (if c = 0 then b else if c = bval c_sq then b @ [c_sq, c_sq] else appendRune b c) cs"

fun AppendString_plain :: "byte list \<Rightarrow> nat list \<Rightarrow> byte list" where
  "AppendString_plain b [] = b"
| "AppendString_plain b (c # cs) = AppendString_plain (if c \<noteq> 0 then appendRune b c else b) cs"

definition AppendString :: "byte list \<Rightarrow> byte list \<Rightarrow> nat \<Rightarrow> byte list" where
  "AppendString b s flags =
     (if hasFlag flags arrayFlag then appendString2 b s flags
      else if hasFlag flags quoteFlag then AppendString_quoted (b @ [c_sq]) (runes s) @ [c_sq]
      else AppendString_plain b (runes s))"

section \<open>Other scalars\<close>

definition AppendError :: "byte list \<Rightarrow> string \<Rightarrow> byte list" where
  "AppendError b e = b @ ''?!('' @ e @ '')''"

definition AppendNull :: "byte list \<Rightarrow> nat \<Rightarrow> byte list option" where
  "AppendNull b flags = (if hasFlag flags quoteFlag then Some (b @ ''NULL'') else None)"

definition appendBool :: "byte list \<Rightarrow> bool \<Rightarrow> byte list" where
  "appendBool dst v = (if v then dst @ ''TRUE'' else dst @ ''FALSE'')"

text \<open>A floating-point number: a finite one is what \<open>strconv.AppendFloat\<close> writes for it, for each bit size.\<close>

datatype float = NaN | PosInf | NegInf | Finite "nat \<Rightarrow> byte list"

definition appendFloat2 :: "byte list \<Rightarrow> float \<Rightarrow> byte list" where
  "appendFloat2 dst v =
     (case v of NaN \<Rightarrow> dst @ ''NaN'' | PosInf \<Rightarrow> dst @ ''Infinity'' | NegInf \<Rightarrow> dst @ ''-Infinity''
      | Finite text \<Rightarrow> dst @ text 64)"

definition appendFloat :: "byte list \<Rightarrow> float \<Rightarrow> nat \<Rightarrow> nat \<Rightarrow> byte list" where
  "appendFloat dst v flags bitSize =
     (if hasFlag flags arrayFlag then appendFloat2 dst v
      else case v of
        NaN \<Rightarrow> if hasFlag flags quoteFlag then dst @ [c_sq] @ ''NaN'' @ [c_sq] else dst @ ''NaN''
      | PosInf \<Rightarrow> if hasFlag flags quoteFlag then dst @ [c_sq] @ ''Infinity'' @ [c_sq] else dst @ ''Infinity''
      | NegInf \<Rightarrow> if hasFlag flags quoteFlag then dst @ [c_sq] @ ''-Infinity'' @ [c_sq] else dst @ ''-Infinity''
      | Finite text \<Rightarrow> dst @ text bitSize)"

text \<open>\<open>pkg/hex\<close>\<close>

definition hex_lower :: "byte list" where
  "hex_lower = ''0123456789abcdef''"

fun encodeGeneric :: "byte list \<Rightarrow> byte list" where
  "encodeGeneric [] = []"
| "encodeGeneric (v # src) = hex_lower ! (bval v div 16) # hex_lower ! (bval v mod 16) # encodeGeneric src"

definition AppendBytes :: "byte list \<Rightarrow> byte list option \<Rightarrow> nat \<Rightarrow> byte list option" where
  "AppendBytes b v flags =
     (case v of
        None \<Rightarrow> AppendNull b flags
      | Some bs \<Rightarrow>
          let b = (if hasFlag flags arrayFlag then b @ [c_dq, c_bs] else if hasFlag flags quoteFlag then b @ [c_sq] else b);
              b = b @ [c_bs, CHR ''x''] @ encodeGeneric bs
          in Some (if hasFlag flags arrayFlag then b @ [c_dq] else if hasFlag flags quoteFlag then b @ [c_sq] else b))"

text \<open>The text of a time is what \<open>AppendFormat\<close> writes for it in UTC.\<close>

definition AppendTime :: "byte list \<Rightarrow> byte list \<Rightarrow> nat \<Rightarrow> byte list" where
  "AppendTime b tm flags =
     (let b = (if flags = 1 then b @ [c_sq] else b) @ tm in if flags = 1 then b @ [c_sq] else b)"

section \<open>Arrays and hstores\<close>

definition array_end :: "byte list \<Rightarrow> bool \<Rightarrow> byte list" where
  "array_end b nonempty = (if nonempty then b[length b - 1 := CHR ''}''] else b @ ''}'')"

fun append_elems :: "('a \<Rightarrow> byte list \<Rightarrow> byte list) \<Rightarrow> byte list \<Rightarrow> 'a list \<Rightarrow> byte list" where
  "append_elems f b [] = b"
| "append_elems f b (v # vs) = append_elems f (f v b @ '','') vs"

definition append_slice :: "('a \<Rightarrow> byte list \<Rightarrow> byte list) \<Rightarrow> byte list \<Rightarrow> 'a list option \<Rightarrow> nat \<Rightarrow> byte list option" where
  "append_slice f b vs flags =
     (case vs of
        None \<Rightarrow> AppendNull b flags
      | Some vs \<Rightarrow>
          let quote = shouldQuoteArray flags;
              b = (if quote then b @ [c_sq] else b);
              b = array_end (append_elems f (b @ ''{'') vs) (vs \<noteq> [])
          in Some (if quote then b @ [c_sq] else b))"

definition appendSliceString :: "byte list \<Rightarrow> byte list list option \<Rightarrow> nat \<Rightarrow> byte list option" where
  "appendSliceString b ss flags = append_slice (\<lambda>s b. appendString2 b s flags) b ss flags"

definition appendSliceInt64 :: "byte list \<Rightarrow> int list option \<Rightarrow> nat \<Rightarrow> byte list option" where
  "appendSliceInt64 b ints flags = append_slice (\<lambda>n b. b @ Itoa n) b ints flags"

definition appendSliceFloat64 :: "byte list \<Rightarrow> float list option \<Rightarrow> nat \<Rightarrow> byte list option" where
  "appendSliceFloat64 b floats flags = append_slice (\<lambda>n b. appendFloat2 b n) b floats flags"

fun append_pairs :: "byte list \<Rightarrow> (byte list \<times> byte list) list \<Rightarrow> nat \<Rightarrow> byte list" where
  "append_pairs b [] flags = b"
| "append_pairs b ((key, val) # m) flags =
     append_pairs (appendString2 (appendString2 b key flags @ ''=>'') val flags @ '','') m flags"

text \<open>The pairs of the map come in the order in which \<open>range\<close> delivers them.\<close>

definition appendMapStringString :: "byte list \<Rightarrow> (byte list \<times> byte list) list option \<Rightarrow> nat \<Rightarrow> byte list option" where
  "appendMapStringString b m flags =
     (case m of
        None \<Rightarrow> AppendNull b flags
      | Some m \<Rightarrow>
          let b = (if hasFlag flags quoteFlag then b @ [c_sq] else b);
              b = append_pairs b m flags;
              b = (if m \<noteq> [] then butlast b else b)
          in Some (if hasFlag flags quoteFlag then b @ [c_sq] else b))"

section \<open>JSON\<close>

fun AppendJSONB_loop :: "nat \<Rightarrow> byte list \<Rightarrow> byte list \<Rightarrow> nat \<Rightarrow> byte list" where
  "AppendJSONB_loop 0 b p flags = b"
| "AppendJSONB_loop (Suc n) b p flags =
     (case p of
        [] \<Rightarrow> b
      | c # p \<Rightarrow>
          if c = c_dq then AppendJSONB_loop n ((if hasFlag flags arrayFlag then b @ [c_bs] else b) @ [c_dq]) p flags
          else if c = c_sq then AppendJSONB_loop n ((if hasFlag flags quoteFlag then b @ [c_sq] else b) @ [c_sq]) p flags
          else if c = CHR 0x00 then AppendJSONB_loop n b p flags
          else if c = c_bs
          then if take 5 p = ''u0000'' then AppendJSONB_loop n (b @ [c_bs, c_bs] @ ''u0000'') (drop 5 p) flags
               else AppendJSONB_loop n (b @ [c_bs] @ take 1 p) (drop 1 p) flags
          else AppendJSONB_loop n (b @ [c]) p flags)"

definition AppendJSONB :: "byte list \<Rightarrow> byte list \<Rightarrow> nat \<Rightarrow> byte list" where
  "AppendJSONB b jsonb flags =
     (let b = (if hasFlag flags arrayFlag then b @ [c_dq] else if hasFlag flags quoteFlag then b @ [c_sq] else b);
          b = AppendJSONB_loop (length jsonb) b jsonb flags
      in if hasFlag flags arrayFlag then b @ [c_dq] else if hasFlag flags quoteFlag then b @ [c_sq] else b)"

section \<open>Identifiers\<close>

fun appendIdent_loop :: "byte list \<Rightarrow> byte list \<Rightarrow> nat \<Rightarrow> bool \<Rightarrow> byte list \<times> bool" where
  "appendIdent_loop b [] flags quoted = (b, quoted)"
| "appendIdent_loop b (c # src) flags quoted =
     (if c = CHR ''*'' \<and> \<not> quoted then appendIdent_loop (b @ ''*'') src flags quoted
      else if c = CHR ''.''
      then if quoted \<and> hasFlag flags quoteFlag
           then appendIdent_loop (b @ [c_dq] @ ''.'') src flags False
           else appendIdent_loop (b @ ''.'') src flags quoted
      else
        let (b, quoted) = (if \<not> quoted \<and> hasFlag flags quoteFlag then (b @ [c_dq], True) else (b, quoted))
        in appendIdent_loop (if c = c_dq then b @ [c_dq, c_dq] else b @ [c]) src flags quoted)"

definition appendIdent :: "byte list \<Rightarrow> byte list \<Rightarrow> nat \<Rightarrow> byte list" where
  "appendIdent b src flags =
     (let (b, quoted) = appendIdent_loop b src flags False
      in if quoted \<and> hasFlag flags quoteFlag then b @ [c_dq] else b)"

section \<open>Values\<close>

text \<open>
  The values that \<open>Append\<close> distinguishes: the kinds of its type switch, and of the values that append
  themselves identifiers, safe queries, arrays and hstores. \<open>Slice\<close> is an array of other elements than
  strings, integers and floating-point numbers.
\<close>

datatype Value =
    Nil_value
  | Bool bool
  | Integer int
  | Float32 float
  | Float64 float
  | String "byte list"
  | Time "byte list"
  | Bytes_value "byte list option"
  | SliceString "byte list list option"
  | SliceInt "int list option"
  | SliceFloat "float list option"
  | Slice "Value list option"
  | Hstore_value "(byte list \<times> byte list) list option"
  | Ident "byte list"
  | Safe "byte list"
  | Json "byte list"
  | Failing string

definition from_nil :: "byte list option \<Rightarrow> byte list" where
  "from_nil b = (case b of None \<Rightarrow> [] | Some b \<Rightarrow> b)"

fun Append :: "byte list \<Rightarrow> Value \<Rightarrow> nat \<Rightarrow> byte list option"
  and Append_elems :: "byte list \<Rightarrow> Value list \<Rightarrow> nat \<Rightarrow> byte list" where
  "Append b Nil_value flags = AppendNull b flags"
| "Append b (Bool v) flags = Some (appendBool b v)"
| "Append b (Integer v) flags = Some (b @ Itoa v)"
| "Append b (Float32 v) flags = Some (appendFloat b v flags 32)"
| "Append b (Float64 v) flags = Some (appendFloat b v flags 64)"
| "Append b (String v) flags = Some (AppendString b v flags)"
| "Append b (Time v) flags = Some (AppendTime b v flags)"
| "Append b (Bytes_value v) flags = AppendBytes b v flags"
| "Append b (SliceString v) flags = appendSliceString b v flags"
| "Append b (SliceInt v) flags = appendSliceInt64 b v flags"
| "Append b (SliceFloat v) flags = appendSliceFloat64 b v flags"
| "Append b (Slice None) flags = AppendNull b (flags OR arrayFlag)"
| "Append b (Slice (Some vs)) flags =
     (let flags = flags OR arrayFlag;
          quote = shouldQuoteArray flags;
          b = (if quote then b @ [c_sq] else b);
          b = array_end (Append_elems (b @ ''{'') vs (flags OR subArrayFlag)) (vs \<noteq> [])
      in Some (if quote then b @ [c_sq] else b))"
| "Append b (Hstore_value v) flags = appendMapStringString b v flags"
| "Append b (Ident v) flags = Some (appendIdent b v flags)"
| "Append b (Safe v) flags = Some (b @ v)"
| "Append b (Json v) flags = Some (AppendJSONB b v flags)"
| "Append b (Failing e) flags = Some (AppendError b e)"
| "Append_elems b [] flags = b"
| "Append_elems b (v # vs) flags = Append_elems (from_nil (Append b v flags) @ '','') vs flags"

end
