(* ===== verification/Upg_Types_Correct.thy ===== *)
theory Upg_Types_Correct
  imports Upg_Types
begin

text \<open>Strings survive the way through their runes, and quoted values are SQL literals.\<close>

section \<open>Runes\<close>

definition utf8 :: "nat list \<Rightarrow> byte list" where
  "utf8 rs = concat (map encodeRune rs)"

lemma utf8_simps [simp]: "utf8 [] = []" "utf8 (r # rs) = encodeRune r @ utf8 rs" "utf8 (rs @ rs') = utf8 rs @ utf8 rs'"
  by (simp_all add: utf8_def)

lemma decodeRune_encodeRune:
  assumes "scalar r"
  shows "decodeRune (encodeRune r @ p) = (r, length (encodeRune r))"
  using assms
proof (cases r rule: scalar_cases)
  case 1
  then show ?thesis by (simp add: encodeRune_1)
next
  case (2 a b)
  then show ?thesis by (simp add: encodeRune_2 cont_def)
next
  case (3 a b c)
  have e: "encodeRune r = [char_of (0xE0 + a), char_of (0x80 + b), char_of (0x80 + c)]" unfolding 3(6) by (rule encodeRune_3(2) [OF 3(1-5)])
  show ?thesis unfolding e using 3 by (auto simp: cont_def)
next
  case (4 a b c d)
  have e: "encodeRune r = [char_of (0xF0 + a), char_of (0x80 + b), char_of (0x80 + c), char_of (0x80 + d)]" unfolding 4(7) by (rule encodeRune_4(2) [OF 4(1-6)])
  show ?thesis unfolding e using 4 by (auto simp: cont_def)
qed

lemma cont_cases:
  assumes "cont c"
  obtains b where "b < 64" "bval c = 0x80 + b"
  using assms that [of "bval c - 0x80"] by (auto simp: cont_def)

lemma decodeRune_scalar: "scalar (fst (decodeRune p))"
proof (cases p)
  case (Cons a q)
  have s: "scalar (a * 64 + b)" if "a < 32" "b < 64" for a b using that by (simp add: scalar_def)
  have "scalar (bval a)" if "bval a < 0x80" using that by (simp add: scalar_def)
  moreover have "scalar ((bval a - 0xC0) * 64 + (bval c - 0x80))" if "bval a \<le> 0xDF" "cont c" for c
    using that by (intro s) (auto simp: cont_def)
  moreover have "scalar (((bval a - 0xE0) * 64 + (bval c - 0x80)) * 64 + (bval d - 0x80))"
    if "0xE0 \<le> bval a" "bval a \<le> 0xEF" "cont c" "cont d" "bval a = 0xE0 \<longrightarrow> 0xA0 \<le> bval c" "bval a = 0xED \<longrightarrow> bval c \<le> 0x9F" for c d
    using that by (intro encodeRune_3(1)) (auto simp: cont_def)
  moreover have "scalar ((((bval a - 0xF0) * 64 + (bval c - 0x80)) * 64 + (bval d - 0x80)) * 64 + (bval e - 0x80))"
    if "0xF0 \<le> bval a" "bval a \<le> 0xF4" "cont c" "cont d" "cont e" "bval a = 0xF0 \<longrightarrow> 0x90 \<le> bval c" "bval a = 0xF4 \<longrightarrow> bval c \<le> 0x8F" for c d e
    using that by (intro encodeRune_4(1)) (auto simp: cont_def)
  moreover have "scalar 0xFFFD" by (simp add: scalar_def)
  ultimately show ?thesis unfolding Cons decodeRune.simps by (auto split: if_splits)
qed (simp add: scalar_def)

lemma runes_utf8: "list_all scalar rs \<Longrightarrow> runes (utf8 rs) = rs"
proof (induction rs)
  case (Cons r rs)
  then show ?case by (simp add: runes.simps [of "encodeRune r @ utf8 rs"] decodeRune_encodeRune)
qed (simp add: runes.simps)

lemma runes_scalar: "r \<in> set (runes s) \<Longrightarrow> scalar r"
proof (induction s rule: runes.induct)
  case (1 s)
  show ?case
  proof (cases "s = []")
    case False
    then show ?thesis using 1 runes.simps [of s] decodeRune_scalar [of s] by auto
  qed (use 1 in \<open>simp add: runes.simps\<close>)
qed

lemma encodeRune_high:
  assumes "scalar r" "0x80 \<le> r" "c \<in> set (encodeRune r)"
  shows "0x80 \<le> bval c"
  using assms(1)
proof (cases r rule: scalar_cases)
  case (2 a b)
  then show ?thesis using assms(3) by (auto simp: encodeRune_2)
next
  case (3 a b c)
  then show ?thesis using assms(3) encodeRune_3(2) [OF 3(1-5)] by auto
next
  case (4 a b c d)
  then show ?thesis using assms(3) encodeRune_4(2) [OF 4(1-6)] by auto
qed (use assms in simp)

text \<open>An ASCII character occurs in an encoding only as itself.\<close>

lemma encodeRune_ascii:
  assumes "scalar r" "bval c < 0x80"
  shows "c \<in> set (encodeRune r) \<longleftrightarrow> r = bval c"
proof (cases "r < 0x80")
  case True
  then have "char_of r = c \<longleftrightarrow> r = bval c" by auto
  then show ?thesis using True by (auto simp: encodeRune_1)
next
  case False
  then show ?thesis using encodeRune_high [OF assms(1)] assms(2) by fastforce
qed

text \<open>A string without its NUL characters, and with U+FFFD where it is not UTF-8.\<close>

definition clean :: "byte list \<Rightarrow> byte list" where
  "clean s = utf8 (filter (\<lambda>r. r \<noteq> 0) (runes s))"

lemma clean_utf8:
  assumes "list_all scalar rs" "0 \<notin> set rs"
  shows "clean (utf8 rs) = utf8 rs"
proof -
  have "filter (\<lambda>r. r \<noteq> 0) rs = rs" using assms(2) by (simp add: filter_id_conv del: neq0_conv) metis
  then show ?thesis using assms(1) by (simp only: clean_def runes_utf8)
qed

section \<open>What the append functions add\<close>

definition esc2 :: "nat \<Rightarrow> nat \<Rightarrow> byte list" where
  "esc2 flags c =
     (if c = 0 then [] else if c = bval c_sq then if hasFlag flags quoteFlag then [c_sq, c_sq] else [c_sq]
      else if c = bval c_dq then [c_bs, c_dq] else if c = bval c_bs then [c_bs, c_bs] else encodeRune c)"

lemma appendString2_loop_eq: "appendString2_loop b rs flags = b @ concat (map (esc2 flags) rs)"
  by (induction b rs flags rule: appendString2_loop.induct) (auto simp: esc2_def appendRune_def)

definition string2 :: "byte list \<Rightarrow> nat \<Rightarrow> byte list" where
  "string2 s flags = c_dq # concat (map (esc2 flags) (runes s)) @ [c_dq]"

lemma appendString2_eq: "appendString2 b s flags = b @ string2 s flags"
  by (simp add: appendString2_def appendString2_loop_eq string2_def)

lemma AppendString_plain_eq: "AppendString_plain b rs = b @ utf8 (filter (\<lambda>r. r \<noteq> 0) rs)"
  by (induction b rs rule: AppendString_plain.induct) (auto simp: appendRune_def)

text \<open>The doubling of quotes.\<close>

definition doubled_by :: "byte \<Rightarrow> byte list \<Rightarrow> byte list" where
  "doubled_by q t = concat (map (\<lambda>c. if c = q then [q, q] else [c]) t)"

abbreviation doubled :: "byte list \<Rightarrow> byte list" where
  "doubled \<equiv> doubled_by c_sq"

lemma doubled_simps [simp]:
  "doubled_by q [] = []" "doubled_by q (c # t) = (if c = q then [q, q] else [c]) @ doubled_by q t"
  "doubled_by q (t @ t') = doubled_by q t @ doubled_by q t'"
  by (simp_all add: doubled_by_def)

lemma doubled_none: "q \<notin> set t \<Longrightarrow> doubled_by q t = t"
  by (induction t) auto

lemma doubled_concat: "doubled_by q (concat (map f xs)) = concat (map (\<lambda>x. doubled_by q (f x)) xs)"
  by (induction xs) auto

lemma encodeRune_no_quote:
  assumes "scalar r" "r \<noteq> bval c_sq"
  shows "doubled (encodeRune r) = encodeRune r"
  using encodeRune_ascii [OF assms(1), of c_sq] assms(2) by (intro doubled_none) auto

lemma encodeRune_quotes: "encodeRune 39 = [c_sq]" "encodeRune 34 = [c_dq]" "encodeRune 92 = [c_bs]"
  by (simp_all add: encodeRune_1 char_of_eqI)

lemma AppendString_quoted_eq:
  assumes "\<forall>r\<in>set rs. scalar r"
  shows "AppendString_quoted b rs = b @ doubled (utf8 (filter (\<lambda>r. r \<noteq> 0) rs))"
  using assms
  by (induction b rs rule: AppendString_quoted.induct) (auto simp: appendRune_def encodeRune_quotes encodeRune_no_quote)

lemma AppendString_eq:
  "AppendString b s 0 = b @ clean s" "AppendString b s 1 = b @ c_sq # doubled (clean s) @ [c_sq]"
  by (simp_all add: AppendString_def hasFlag_def arrayFlag_def quoteFlag_def AppendString_plain_eq clean_def
      AppendString_quoted_eq runes_scalar)

text \<open>With the flag \<open>quoteFlag\<close>, quotes are doubled and nothing else changes.\<close>

lemma esc2_doubled:
  assumes "scalar c" "hasFlag flags quoteFlag" "\<not> hasFlag flags' quoteFlag"
  shows "esc2 flags c = doubled (esc2 flags' c)"
  using assms by (auto simp: esc2_def encodeRune_no_quote)

lemma string2_doubled:
  assumes "hasFlag flags quoteFlag" "\<not> hasFlag flags' quoteFlag"
  shows "string2 s flags = doubled (string2 s flags')"
proof -
  have "concat (map (esc2 flags) (runes s)) = concat (map (\<lambda>c. doubled (esc2 flags' c)) (runes s))"
    by (intro arg_cong [of _ _ concat] map_cong) (auto intro: esc2_doubled [OF runes_scalar assms])
  then show ?thesis by (simp add: string2_def doubled_concat)
qed

section \<open>SQL literals\<close>

text \<open>
  How the server reads a literal or a quoted identifier behind its opening quote: a doubled quote is a
  quote.
\<close>

fun quoted_body :: "byte \<Rightarrow> byte list \<Rightarrow> (byte list \<times> byte list) option" where
  "quoted_body q [] = None"
| "quoted_body q [c] = (if c = q then Some ([], []) else None)"
| "quoted_body q (c # d # cs) =
     (if c \<noteq> q then map_option (apfst (Cons c)) (quoted_body q (d # cs))
      else if d = q then map_option (apfst (Cons q)) (quoted_body q cs)
      else Some ([], d # cs))"

definition sql_literal :: "byte list \<Rightarrow> (byte list \<times> byte list) option" where
  "sql_literal p = (case p of [] \<Rightarrow> None | c # p \<Rightarrow> if c = c_sq then quoted_body c_sq p else None)"

lemma quoted_body_end: "(rest = [] \<or> hd rest \<noteq> q) \<Longrightarrow> quoted_body q (q # rest) = Some ([], rest)"
  by (cases rest) auto

lemma quoted_body_other: "c \<noteq> q \<Longrightarrow> p \<noteq> [] \<Longrightarrow> quoted_body q (c # p) = map_option (apfst (Cons c)) (quoted_body q p)"
  by (cases p) auto

lemma quoted_body_doubled:
  assumes "rest = [] \<or> hd rest \<noteq> q"
  shows "quoted_body q (doubled_by q t @ q # rest) = Some (t, rest)"
proof (induction t)
  case Nil
  then show ?case using quoted_body_end [OF assms] by simp
next
  case (Cons c t)
  then show ?case by (auto simp: quoted_body_other)
qed

lemma sql_literal_doubled:
  assumes "rest = [] \<or> hd rest \<noteq> c_sq"
  shows "sql_literal (c_sq # doubled t @ c_sq # rest) = Some (t, rest)"
  using quoted_body_doubled [OF assms] by (simp add: sql_literal_def)

section \<open>The text of a value\<close>

fun commas :: "byte list list \<Rightarrow> byte list" where
  "commas [] = []"
| "commas [t] = t"
| "commas (t # u # ts) = t @ '','' @ commas (u # ts)"

definition braces :: "byte list list \<Rightarrow> byte list" where
  "braces ts = ''{'' @ commas ts @ ''}''"

lemma commas_closed: "ts \<noteq> [] \<Longrightarrow> concat (map (\<lambda>t. t @ '','') ts) = commas ts @ '',''"
  by (induction ts rule: commas.induct) auto

lemma array_end_eq: "array_end (b @ concat (map (\<lambda>t. t @ '','') ts)) (ts \<noteq> []) = b @ commas ts @ ''}''"
  by (auto simp: array_end_def commas_closed list_update_append)

definition in_quotes :: "bool \<Rightarrow> byte list \<Rightarrow> byte list" where
  "in_quotes q t = (if q then c_sq # t @ [c_sq] else t)"

lemma append_elems_eq:
  assumes "\<And>v b. f v b = b @ g v"
  shows "append_elems f b vs = b @ concat (map (\<lambda>t. t @ '','') (map g vs))"
  by (induction vs arbitrary: b) (simp_all add: assms)

lemma append_slice_eq:
  assumes "\<And>v b. f v b = b @ g v"
  shows "append_slice f b (Some vs) flags = Some (b @ in_quotes (shouldQuoteArray flags) (braces (map g vs)))"
  unfolding append_slice_def option.case append_elems_eq [OF assms] Let_def
  using array_end_eq [of "if shouldQuoteArray flags then (b @ [c_sq]) @ ''{'' else b @ ''{''" "map g vs"]
  by (auto simp: in_quotes_def braces_def)

fun hstore_text :: "nat \<Rightarrow> (byte list \<times> byte list) list \<Rightarrow> byte list" where
  "hstore_text flags m = commas (map (\<lambda>(k, v). string2 k flags @ ''=>'' @ string2 v flags) m)"

lemma append_pairs_eq: "append_pairs b m flags = b @ (if m = [] then [] else hstore_text flags m @ '','')"
proof -
  have "append_pairs b m flags = b @ concat (map (\<lambda>t. t @ '','') (map (\<lambda>(k, v). string2 k flags @ ''=>'' @ string2 v flags) m))"
    by (induction m arbitrary: b) (auto simp: appendString2_eq)
  then show ?thesis by (auto simp: commas_closed simp del: map_map)
qed

lemma appendMapStringString_eq:
  "appendMapStringString b (Some m) flags = Some (b @ in_quotes (hasFlag flags quoteFlag) (hstore_text flags m))"
  by (auto simp: appendMapStringString_def append_pairs_eq in_quotes_def butlast_append Let_def simp del: hstore_text.simps)
    (simp_all add: hstore_text.simps)

definition json_loop :: "byte list \<Rightarrow> nat \<Rightarrow> byte list" where
  "json_loop p flags = AppendJSONB_loop (length p) [] p flags"

lemma AppendJSONB_loop_eq: "AppendJSONB_loop n b p flags = b @ AppendJSONB_loop n [] p flags"
proof (induction n arbitrary: b p)
  case (Suc n)
  have IH: "AppendJSONB_loop n (b @ x) p flags = b @ AppendJSONB_loop n x p flags" for b x p
    by (metis Suc.IH append.assoc)
  have IH1: "AppendJSONB_loop n (c # x) p flags = c # AppendJSONB_loop n x p flags" for c x p
    using IH [of "[c]"] by simp
  show ?case using Suc.IH [of b] by (auto simp: IH IH1 split: list.split)
qed simp

lemma appendIdent_loop_eq:
  "appendIdent_loop b src flags q = (let (t, q') = appendIdent_loop [] src flags q in (b @ t, q'))"
proof (induction src arbitrary: b q)
  case (Cons c src)
  have IH: "appendIdent_loop (b @ x) src flags q = (let (t, q') = appendIdent_loop x src flags q in (b @ t, q'))" for b x q
    using Cons.IH [of "b @ x"] Cons.IH [of x] by (auto simp: split_def Let_def)
  have IH1: "appendIdent_loop (c # x) src flags q = (let (t, q') = appendIdent_loop x src flags q in (c # t, q'))" for c x q
    using IH [of "[c]"] by simp
  show ?case using Cons.IH [of b] by (auto simp: IH IH1 split_def Let_def)
qed simp


definition json_text :: "byte list \<Rightarrow> nat \<Rightarrow> byte list" where
  "json_text p flags =
     (if hasFlag flags arrayFlag then c_dq # json_loop p flags @ [c_dq]
      else in_quotes (hasFlag flags quoteFlag) (json_loop p flags))"

lemma AppendJSONB_eq: "AppendJSONB b p flags = b @ json_text p flags"
  using AppendJSONB_loop_eq [of "length p" "b @ [c_dq]"] AppendJSONB_loop_eq [of "length p" "b @ [c_sq]"] AppendJSONB_loop_eq [of "length p" b]
  by (simp add: AppendJSONB_def json_text_def json_loop_def in_quotes_def)

lemma appendIdent_eq: "appendIdent b src flags = b @ appendIdent [] src flags"
  using appendIdent_loop_eq [of b] by (simp add: appendIdent_def split_def Let_def)

definition float_text :: "float \<Rightarrow> nat \<Rightarrow> nat \<Rightarrow> byte list" where
  "float_text v flags bitSize = appendFloat [] v flags bitSize"

lemma appendFloat_eq: "appendFloat b v flags n = b @ float_text v flags n" "appendFloat2 b v = b @ appendFloat2 [] v"
  by (simp_all add: appendFloat_def appendFloat2_def float_text_def split: float.split)

definition bytes_text :: "byte list \<Rightarrow> nat \<Rightarrow> byte list" where
  "bytes_text bs flags =
     (if hasFlag flags arrayFlag then [c_dq, c_bs, c_bs, CHR ''x''] @ encodeGeneric bs @ [c_dq]
      else in_quotes (hasFlag flags quoteFlag) ([c_bs, CHR ''x''] @ encodeGeneric bs))"

lemma AppendBytes_eq: "AppendBytes b (Some bs) flags = Some (b @ bytes_text bs flags)"
  by (simp add: AppendBytes_def bytes_text_def in_quotes_def)

text \<open>Values without NULL, at any depth.\<close>

fun nil_free :: "Value \<Rightarrow> bool" where
  "nil_free Nil_value \<longleftrightarrow> False"
| "nil_free (Bytes_value v) \<longleftrightarrow> v \<noteq> None"
| "nil_free (SliceString v) \<longleftrightarrow> v \<noteq> None"
| "nil_free (SliceInt v) \<longleftrightarrow> v \<noteq> None"
| "nil_free (SliceFloat v) \<longleftrightarrow> v \<noteq> None"
| "nil_free (Slice None) \<longleftrightarrow> False"
| "nil_free (Slice (Some vs)) \<longleftrightarrow> (\<forall>v\<in>set vs. nil_free v)"
| "nil_free (Hstore_value v) \<longleftrightarrow> v \<noteq> None"
| "nil_free _ \<longleftrightarrow> True"

fun value_text :: "nat \<Rightarrow> Value \<Rightarrow> byte list" where
  "value_text flags Nil_value = ''NULL''"
| "value_text flags (Bool v) = (if v then ''TRUE'' else ''FALSE'')"
| "value_text flags (Integer v) = Itoa v"
| "value_text flags (Float32 v) = float_text v flags 32"
| "value_text flags (Float64 v) = float_text v flags 64"
| "value_text flags (String v) = AppendString [] v flags"
| "value_text flags (Time v) = in_quotes (flags = 1) v"
| "value_text flags (Bytes_value v) = bytes_text (the v) flags"
| "value_text flags (SliceString v) = in_quotes (shouldQuoteArray flags) (braces (map (\<lambda>s. string2 s flags) (the v)))"
| "value_text flags (SliceInt v) = in_quotes (shouldQuoteArray flags) (braces (map Itoa (the v)))"
| "value_text flags (SliceFloat v) = in_quotes (shouldQuoteArray flags) (braces (map (appendFloat2 []) (the v)))"
| "value_text flags (Slice None) = ''NULL''"
| "value_text flags (Slice (Some vs)) =
     in_quotes (shouldQuoteArray (flags OR arrayFlag)) (braces (map (value_text (flags OR arrayFlag OR subArrayFlag)) vs))"
| "value_text flags (Hstore_value v) = in_quotes (hasFlag flags quoteFlag) (hstore_text flags (the v))"
| "value_text flags (Ident v) = appendIdent [] v flags"
| "value_text flags (Safe v) = v"
| "value_text flags (Json v) = json_text v flags"
| "value_text flags (Failing e) = AppendError [] e"

lemma AppendString_append: "AppendString b s flags = b @ AppendString [] s flags"
  by (simp add: AppendString_def appendString2_eq AppendString_plain_eq AppendString_quoted_eq runes_scalar)

lemma append_slices_eq:
  "appendSliceString b (Some ss) flags = Some (b @ in_quotes (shouldQuoteArray flags) (braces (map (\<lambda>s. string2 s flags) ss)))"
  "appendSliceInt64 b (Some is) flags = Some (b @ in_quotes (shouldQuoteArray flags) (braces (map Itoa is)))"
  "appendSliceFloat64 b (Some fs) flags = Some (b @ in_quotes (shouldQuoteArray flags) (braces (map (appendFloat2 []) fs)))"
  unfolding appendSliceString_def appendSliceInt64_def appendSliceFloat64_def
  by (rule append_slice_eq, rule appendString2_eq) (rule append_slice_eq, rule refl, rule append_slice_eq, rule appendFloat_eq(2))

lemma Append_text:
  "nil_free v \<Longrightarrow> Append b v flags = Some (b @ value_text flags v)"
  "\<forall>v\<in>set vs. nil_free v \<Longrightarrow> Append_elems b vs flags = b @ concat (map (\<lambda>t. t @ '','') (map (value_text flags) vs))"
proof (induction b v flags and b vs flags rule: Append_Append_elems.induct)
  case (13 b vs flags)
  let ?f = "flags OR arrayFlag"
  let ?b = "if shouldQuoteArray ?f then b @ [c_sq] else b"
  have "Append_elems (?b @ ''{'') vs (?f OR subArrayFlag) = (?b @ ''{'') @ concat (map (\<lambda>t. t @ '','') (map (value_text (?f OR subArrayFlag)) vs))"
    using 13 by (auto simp: Let_def)
  then show ?case using array_end_eq [of "?b @ ''{''" "map (value_text (?f OR subArrayFlag)) vs"]
    by (auto simp: Let_def in_quotes_def braces_def or.assoc)
next
  case (6 b v flags)
  then show ?case using AppendString_append [of b] by simp
next
  case (15 b v flags)
  then show ?case using appendIdent_eq [of b] by simp
next
  case (20 b v vs flags)
  then show ?case by (simp add: from_nil_def)
qed (auto simp: appendBool_def appendFloat_eq AppendTime_def AppendBytes_eq append_slices_eq appendMapStringString_eq AppendJSONB_eq AppendError_def in_quotes_def simp del: hstore_text.simps)

section \<open>Quoted values are literals\<close>

lemma flag_values [simp]:
  "hasFlag 0 quoteFlag = False" "hasFlag 1 quoteFlag = True" "hasFlag 6 quoteFlag = False" "hasFlag 7 quoteFlag = True"
  "hasFlag 0 arrayFlag = False" "hasFlag 1 arrayFlag = False" "hasFlag 6 arrayFlag = True" "hasFlag 7 arrayFlag = True"
  "hasFlag (Suc 0) quoteFlag = True" "hasFlag (Suc 0) arrayFlag = False"
  "hasFlag 2 quoteFlag = False" "hasFlag 3 quoteFlag = True"
  "shouldQuoteArray 0 = False" "shouldQuoteArray 1 = True" "shouldQuoteArray 6 = False" "shouldQuoteArray 7 = False"
  "shouldQuoteArray (Suc 0) = True" "shouldQuoteArray 2 = False" "shouldQuoteArray 3 = True"
  by (simp_all add: hasFlag_def shouldQuoteArray_def quoteFlag_def arrayFlag_def subArrayFlag_def)

lemma flag_or [simp]:
  "arrayFlag OR subArrayFlag = 6" "shouldQuoteArray arrayFlag = False" "Suc 0 OR arrayFlag = 3" "6 OR arrayFlag = 6" "7 OR arrayFlag = 7"
  "Suc 0 OR arrayFlag OR subArrayFlag = 7" "6 OR arrayFlag OR subArrayFlag = 6" "7 OR arrayFlag OR subArrayFlag = 7"
  by (simp_all add: arrayFlag_def subArrayFlag_def quoteFlag_def shouldQuoteArray_def hasFlag_def)

lemma doubled_commas: "doubled (commas ts) = commas (map doubled ts)"
  by (induction ts rule: commas.induct) auto

lemma doubled_braces: "doubled (braces ts) = braces (map doubled ts)"
  by (simp add: braces_def doubled_commas)

lemma quote_utoa: "c_sq \<notin> set (utoa n)"
  using utoa_digits [of c_sq n] by auto

lemma quote_Itoa: "c_sq \<notin> set (Itoa n)"
  by (auto simp: Itoa_def quote_utoa)

lemma nibbles: "bval a div 16 < 16" "bval a mod 16 < 16"
  by (simp_all add: less_mult_imp_div_less)

lemma quote_hex: "c_sq \<notin> set (encodeGeneric bs)"
proof -
  have "c_sq \<noteq> hex_lower ! n" if "n < 16" for n
  proof -
    have "hex_lower ! n \<in> set hex_lower" using that by (intro nth_mem) (simp add: hex_lower_def)
    then show ?thesis by (auto simp: hex_lower_def)
  qed
  then show ?thesis using nibbles by (induction bs) fastforce+
qed

text \<open>JSON text in which no backslash stands before a single quote, as in all JSON.\<close>

fun json_plain :: "byte list \<Rightarrow> bool" where
  "json_plain (c # d # p) = (if c = c_bs then d \<noteq> c_sq \<and> json_plain p else json_plain (d # p))"
| "json_plain _ = True"

lemma json_plain_other: "c \<noteq> c_bs \<Longrightarrow> json_plain (c # p) = json_plain p"
  by (cases p) auto

lemma json_plain_drop5:
  assumes "take 5 p = ''u0000''" "json_plain (c_bs # p)"
  shows "json_plain (drop 5 p)"
proof -
  have "p = ''u0000'' @ drop 5 p" using assms(1) by (metis append_take_drop_id)
  then have "json_plain (c_bs # ''u0000'' @ drop 5 p)" using assms(2) by simp
  then show ?thesis by (simp add: json_plain_other)
qed

lemma json_loop_doubled:
  assumes "json_plain p" "hasFlag f quoteFlag" "\<not> hasFlag f' quoteFlag" "hasFlag f arrayFlag = hasFlag f' arrayFlag"
  shows "AppendJSONB_loop n [] p f = doubled (AppendJSONB_loop n [] p f')"
  using assms(1)
proof (induction n arbitrary: p)
  case (Suc n)
  have app: "AppendJSONB_loop n (c # x) p f = (c # x) @ AppendJSONB_loop n [] p f" for c x p f by (rule AppendJSONB_loop_eq)
  show ?case
  proof (cases p)
    case p: (Cons c q)
    show ?thesis
    proof (cases "c = c_bs")
      case True
      have "json_plain (drop 1 q) \<and> c_sq \<notin> set (take 1 q)" using Suc.prems True p by (cases q) auto
      then show ?thesis using Suc True p json_plain_drop5 [of q] by (auto simp: app doubled_none)
    next
      case False
      then show ?thesis using Suc.IH [of q] Suc.prems p assms(2-4) by (auto simp: app json_plain_other)
    qed
  qed simp
qed simp

definition float_ok :: "float \<Rightarrow> bool" where
  "float_ok v \<longleftrightarrow> (case v of Finite text \<Rightarrow> c_sq \<notin> set (text 32) \<and> c_sq \<notin> set (text 64) | _ \<Rightarrow> True)"

text \<open>The values that may stand in an array, and those that are written as literals.\<close>

fun elem_ok :: "Value \<Rightarrow> bool" where
  "elem_ok (Bool v) \<longleftrightarrow> True"
| "elem_ok (Integer v) \<longleftrightarrow> True"
| "elem_ok (Float32 v) \<longleftrightarrow> float_ok v"
| "elem_ok (Float64 v) \<longleftrightarrow> float_ok v"
| "elem_ok (String v) \<longleftrightarrow> True"
| "elem_ok (Time v) \<longleftrightarrow> c_sq \<notin> set v"
| "elem_ok (Bytes_value v) \<longleftrightarrow> v \<noteq> None"
| "elem_ok (SliceString v) \<longleftrightarrow> v \<noteq> None"
| "elem_ok (SliceInt v) \<longleftrightarrow> v \<noteq> None"
| "elem_ok (SliceFloat (Some vs)) \<longleftrightarrow> (\<forall>v\<in>set vs. float_ok v)"
| "elem_ok (Slice (Some vs)) \<longleftrightarrow> (\<forall>v\<in>set vs. elem_ok v)"
| "elem_ok (Json v) \<longleftrightarrow> json_plain v"
| "elem_ok _ \<longleftrightarrow> False"

fun literal_value :: "Value \<Rightarrow> bool" where
  "literal_value (Bool v) \<longleftrightarrow> False"
| "literal_value (Integer v) \<longleftrightarrow> False"
| "literal_value (Float32 v) \<longleftrightarrow> (\<forall>text. v \<noteq> Finite text)"
| "literal_value (Float64 v) \<longleftrightarrow> (\<forall>text. v \<noteq> Finite text)"
| "literal_value (Hstore_value v) \<longleftrightarrow> v \<noteq> None"
| "literal_value v \<longleftrightarrow> elem_ok v"

lemma elem_ok_nil_free: "elem_ok v \<Longrightarrow> nil_free v"
  by (induction v rule: elem_ok.induct) auto

lemma float_ok_doubled: "float_ok v \<Longrightarrow> doubled (appendFloat2 [] v) = appendFloat2 [] v"
  by (auto simp: float_ok_def appendFloat2_def doubled_none split: float.splits)

lemma map_doubled: "(\<And>x. x \<in> set xs \<Longrightarrow> f x = doubled (g x)) \<Longrightarrow> map f xs = map doubled (map g xs)"
  by simp

lemma elem_doubled: "elem_ok v \<Longrightarrow> value_text 7 v = doubled (value_text 6 v)"
proof (induction v rule: elem_ok.induct)
  case (8 v)
  have "map (\<lambda>s. string2 s 7) (the v) = map doubled (map (\<lambda>s. string2 s 6) (the v))"
    by (rule map_doubled) (rule string2_doubled; simp)
  then show ?case by (simp add: in_quotes_def doubled_braces del: map_map)
next
  case (9 v)
  have "map Itoa (the v) = map doubled (map Itoa (the v))" by (rule map_doubled) (simp add: doubled_none quote_Itoa)
  then show ?case by (simp add: in_quotes_def doubled_braces del: map_map)
next
  case (10 vs)
  have "map (appendFloat2 []) vs = map doubled (map (appendFloat2 []) vs)" by (rule map_doubled) (use 10 in \<open>simp add: float_ok_doubled\<close>)
  then show ?case by (simp add: in_quotes_def doubled_braces del: map_map)
next
  case (11 vs)
  have "map (value_text 7) vs = map doubled (map (value_text 6) vs)" by (rule map_doubled) (use 11 in simp)
  then show ?case by (simp add: in_quotes_def doubled_braces del: map_map)
next
  case (12 v)
  then show ?case by (simp add: json_text_def json_loop_def json_loop_doubled [of v 7 6])
qed (simp_all add: doubled_none quote_Itoa float_text_def appendFloat_def float_ok_doubled AppendString_def appendString2_eq
    string2_doubled [of 7 6] in_quotes_def bytes_text_def quote_hex)

lemma literal_text:
  assumes "literal_value v"
  shows "nil_free v" "value_text 1 v = c_sq # doubled (value_text 0 v) @ [c_sq]"
proof -
  have i: "map (\<lambda>s. string2 s 1) xs = map doubled (map (\<lambda>s. string2 s 0) xs)" for xs
    by (rule map_doubled) (rule string2_doubled; simp)
  have n: "map Itoa xs = map doubled (map Itoa xs)" for xs by (rule map_doubled) (simp add: doubled_none quote_Itoa)
  have f: "map (appendFloat2 []) xs = map doubled (map (appendFloat2 []) xs)" if "\<forall>v\<in>set xs. float_ok v" for xs
    by (rule map_doubled) (use that in \<open>simp add: float_ok_doubled\<close>)
  have e: "map (value_text 7) xs = map doubled (map (value_text 6) xs)" if "\<forall>v\<in>set xs. elem_ok v" for xs
    by (rule map_doubled) (use that in \<open>simp add: elem_doubled\<close>)
  have h: "hstore_text 1 m = doubled (hstore_text 0 m)" for m
    by (auto simp: doubled_commas string2_doubled [of "Suc 0" 0] intro!: arg_cong [of _ _ commas])
  have j: "json_loop p 1 = doubled (json_loop p 0)" if "json_plain p" for p using json_loop_doubled [of p 1 0] that by (simp add: json_loop_def)
  show "nil_free v" using assms elem_ok_nil_free [of v] by (cases v rule: literal_value.cases) simp_all
  show "value_text 1 v = c_sq # doubled (value_text 0 v) @ [c_sq]"
  proof (cases v)
    case (SliceFloat x)
    then show ?thesis using assms f by (cases x) (auto simp: in_quotes_def doubled_braces simp del: map_map)
  next
    case (Slice x)
    then show ?thesis using assms e by (cases x) (auto simp: in_quotes_def doubled_braces simp del: map_map)
  next
    case (SliceString x)
    then show ?thesis using i by (simp add: in_quotes_def doubled_braces del: map_map)
  next
    case (SliceInt x)
    then show ?thesis using n by (simp add: in_quotes_def doubled_braces del: map_map)
  next
    case (Float32 x)
    then show ?thesis using assms by (cases x) (auto simp: float_text_def appendFloat_def)
  next
    case (Float64 x)
    then show ?thesis using assms by (cases x) (auto simp: float_text_def appendFloat_def)
  qed (use assms h j in \<open>auto simp: AppendString_eq AppendString_eq(2) [simplified] doubled_none in_quotes_def bytes_text_def quote_hex json_text_def simp del: hstore_text.simps\<close>)
qed

section \<open>Properties\<close>

text \<open>
  C0. No value escapes from its literal: the server reads the quoted text of a string, byte string, array,
  hstore, time or JSON value as one literal that ends where the text ends, and the literal stands for
  exactly the text that is sent for the value as a parameter.
\<close>

theorem Append_literal:
  assumes "literal_value v" "rest = [] \<or> hd rest \<noteq> c_sq"
  shows "\<exists>t l. Append b v 0 = Some (b @ t) \<and> Append b v 1 = Some (b @ l) \<and> sql_literal (l @ rest) = Some (t, rest)"
  using Append_text(1) [OF literal_text(1) [OF assms(1)]] literal_text(2) [OF assms(1)] sql_literal_doubled [OF assms(2)]
  by simp

theorem Append_literal_witness:
  "\<exists>t l. Append [] (SliceString (Some [''a'' @ [c_sq, c_dq]])) 0 = Some t \<and> Append [] (SliceString (Some [''a'' @ [c_sq, c_dq]])) 1 = Some l \<and>
     sql_literal (l @ ''; --'') = Some (t, ''; --'')"
  using Append_literal [of "SliceString (Some [''a'' @ [c_sq, c_dq]])" "''; --''" "[]"] by simp

section \<open>Identifiers\<close>

text \<open>How the server reads a dotted name of quoted identifiers and stars.\<close>

datatype ident_token = Quoted_ident "byte list" | Star | Dot

fun token_text :: "ident_token \<Rightarrow> byte list" where
  "token_text (Quoted_ident n) = n"
| "token_text Star = ''*''"
| "token_text Dot = ''.''"

inductive sql_name :: "byte list \<Rightarrow> ident_token list \<Rightarrow> byte list \<Rightarrow> bool" where
  name_end: "rest = [] \<or> hd rest \<notin> {c_dq, CHR ''*'', CHR ''.''} \<Longrightarrow> sql_name rest [] rest"
| name_star: "sql_name p ts rest \<Longrightarrow> sql_name (CHR ''*'' # p) (Star # ts) rest"
| name_dot: "sql_name p ts rest \<Longrightarrow> sql_name (CHR ''.'' # p) (Dot # ts) rest"
| name_quoted: "quoted_body c_dq p = Some (n, p') \<Longrightarrow> sql_name p' ts rest \<Longrightarrow> sql_name (c_dq # p) (Quoted_ident n # ts) rest"

definition ident_text :: "byte list \<Rightarrow> bool \<Rightarrow> byte list" where
  "ident_text src q = (let (t, q') = appendIdent_loop [] src 1 q in if q' then t @ [c_dq] else t)"

lemma ident_text_simps:
  "ident_text [] q = (if q then [c_dq] else [])"
  "ident_text (c # src) False =
     (if c = CHR ''*'' \<or> c = CHR ''.'' then c # ident_text src False else c_dq # (if c = c_dq then [c_dq, c_dq] else [c]) @ ident_text src True)"
  "ident_text (c # src) True =
     (if c = CHR ''.'' then c_dq # CHR ''.'' # ident_text src False else (if c = c_dq then [c_dq, c_dq] else [c]) @ ident_text src True)"
  using appendIdent_loop_eq [of "[_]" src "Suc 0"] appendIdent_loop_eq [of "[_, _]" src "Suc 0"] appendIdent_loop_eq [of "[_, _, _]" src "Suc 0"]
  by (simp_all add: ident_text_def split_def Let_def)

lemma appendIdent_text: "appendIdent b src 1 = b @ ident_text src False"
  using appendIdent_eq [of b src 1] by (simp add: appendIdent_def ident_text_def split_def Let_def)

lemma ident_text_ok:
  assumes "rest = [] \<or> hd rest \<notin> {c_dq, CHR ''*'', CHR ''.''}"
  shows "(\<exists>ts. sql_name (ident_text src False @ rest) ts rest \<and> concat (map token_text ts) = src) \<and>
    (\<exists>n p' ts. quoted_body c_dq (ident_text src True @ rest) = Some (n, p') \<and> sql_name p' ts rest \<and> n @ concat (map token_text ts) = src)"
proof (induction src)
  case Nil
  have "quoted_body c_dq (c_dq # rest) = Some ([], rest)" using assms by (intro quoted_body_end) auto
  then show ?case using name_end [OF assms] by (fastforce simp: ident_text_simps)
next
  case (Cons c src)
  then obtain ts n p' us where IH: "sql_name (ident_text src False @ rest) ts rest" "concat (map token_text ts) = src"
      "quoted_body c_dq (ident_text src True @ rest) = Some (n, p')" "sql_name p' us rest" "n @ concat (map token_text us) = src"
    by blast
  have ne: "ident_text src True @ rest \<noteq> []" using IH(3) by auto
  have q: "quoted_body c_dq ((if c = c_dq then [c_dq, c_dq] else [c]) @ ident_text src True @ rest) = Some (c # n, p')"
    using IH(3) quoted_body_other [OF _ ne, of c c_dq] by simp
  have "\<exists>ts. sql_name (ident_text (c # src) False @ rest) ts rest \<and> concat (map token_text ts) = c # src"
  proof (cases "c = CHR ''*'' \<or> c = CHR ''.''")
    case True
    then show ?thesis using name_star [OF IH(1)] name_dot [OF IH(1)] IH(2)
      by (auto simp: ident_text_simps intro: exI [of _ "Star # ts"] exI [of _ "Dot # ts"])
  next
    case False
    then show ?thesis using name_quoted [OF q IH(4)] IH(5)
      by (intro exI [of _ "Quoted_ident (c # n) # us"]) (auto simp: ident_text_simps)
  qed
  moreover have "\<exists>n p' ts. quoted_body c_dq (ident_text (c # src) True @ rest) = Some (n, p') \<and> sql_name p' ts rest \<and> n @ concat (map token_text ts) = c # src"
  proof (cases "c = CHR ''.''")
    case True
    then show ?thesis using name_dot [OF IH(1)] IH(2)
      by (intro exI [of _ "[]"] exI [of _ "CHR ''.'' # ident_text src False @ rest"] exI [of _ "Dot # ts"]) (auto simp: ident_text_simps)
  next
    case False
    then show ?thesis using q IH(4,5)
      by (intro exI [of _ "c # n"] exI [of _ p'] exI [of _ us]) (auto simp: ident_text_simps)
  qed
  ultimately show ?case by blast
qed

text \<open>
  C0. No name escapes from its quotes: the server reads the quoted form of an identifier as a sequence of
  quoted names, dots and stars that together are the identifier, and that ends where the text ends.
\<close>

theorem appendIdent_name:
  assumes "rest = [] \<or> hd rest \<notin> {c_dq, CHR ''*'', CHR ''.''}"
  shows "\<exists>t ts. appendIdent b src 1 = b @ t \<and> sql_name (t @ rest) ts rest \<and> concat (map token_text ts) = src"
  using ident_text_ok [OF assms, of src] appendIdent_text by blast

theorem appendIdent_name_witness:
  "\<exists>t ts. appendIdent [] (''a.'' @ [c_dq] @ ''; --'') 1 = t \<and> sql_name (t @ '' FROM'') ts '' FROM'' \<and> concat (map token_text ts) = ''a.'' @ [c_dq] @ ''; --''"
  using appendIdent_name [of "'' FROM''" "[]" "''a.'' @ [c_dq] @ ''; --''"] by simp

end
