(* ===== verification/Upg_Scan_Correct.thy ===== *)
theory Upg_Scan_Correct
  imports Upg_Reader_Correct Upg_Scan Upg_Types_Correct
begin

text \<open>
  The parsers of the PostgreSQL client, over any reader that keeps its contract, read back what the
  client writes.
\<close>

section \<open>Skipping a byte\<close>

context byte_reader
begin

lemma skip_same: "\<lbrakk>ok s; rest s = c # cs\<rbrakk> \<Longrightarrow> \<exists>s'. SkipByte R s c = Ok (s', None) \<and> ok s' \<and> rest s' = cs"
  using read_byte [of s c cs] by (auto simp: SkipByte_def)

lemma skip_other:
  assumes "ok s" "rest s = c # cs" "c \<noteq> d"
  shows "\<exists>s' e. SkipByte R s d = Ok (s', Some e) \<and> e \<noteq> EOF \<and> ok s' \<and> rest s' = c # cs"
  using read_byte [OF assms(1,2)] assms(3) by (auto simp: SkipByte_def)

lemma skip_end: "\<lbrakk>ok s; rest s = []\<rbrakk> \<Longrightarrow> \<exists>s'. SkipByte R s d = Ok (s', Some EOF) \<and> ok s' \<and> rest s' = []"
  using read_end [of s] by (auto simp: SkipByte_def)

end

section \<open>Escaped strings\<close>

definition escape :: "byte list \<Rightarrow> byte list" where
  "escape t = concat (map (\<lambda>c. if c = c_dq \<or> c = c_bs then [c_bs, c] else [c]) t)"

lemma escape_simps [simp]:
  "escape [] = []" "escape (c # t) = (if c = c_dq \<or> c = c_bs then [c_bs, c] else [c]) @ escape t" "escape (t @ t') = escape t @ escape t'"
  by (simp_all add: escape_def)

lemma escape_none: "c_dq \<notin> set t \<Longrightarrow> c_bs \<notin> set t \<Longrightarrow> escape t = t"
  by (induction t) auto

lemma escape_length: "length t \<le> length (escape t)"
  by (induction t) auto

lemma esc2_escape:
  assumes "scalar r" "\<not> hasFlag flags quoteFlag"
  shows "esc2 flags r = escape (if r = 0 then [] else encodeRune r)"
proof -
  have "escape (encodeRune r) = encodeRune r" if "r \<noteq> bval c_dq" "r \<noteq> bval c_bs"
    using that encodeRune_ascii [OF assms(1), of c_dq] encodeRune_ascii [OF assms(1), of c_bs] by (intro escape_none) auto
  then show ?thesis using assms(2) by (auto simp: esc2_def encodeRune_quotes)
qed

lemma string2_escape:
  assumes "\<not> hasFlag flags quoteFlag"
  shows "string2 s flags = c_dq # escape (clean s) @ [c_dq]"
proof -
  have "concat (map (esc2 flags) rs) = escape (utf8 (filter (\<lambda>r. r \<noteq> 0) rs))" if "\<forall>r\<in>set rs. scalar r" for rs
    using that by (induction rs) (auto simp: esc2_escape assms)
  then show ?thesis by (simp add: string2_def clean_def runes_scalar)
qed

lemma escape_hd: "\<exists>c x. escape t @ [c_dq] = c # x"
  by (cases t) auto

context byte_reader
begin

lemma substring_loop:
  assumes "escape t @ [c_dq] = c # x" "ok s" "rest s = x @ cs" "length t < f"
  shows "\<exists>s'. ReadSubstring_loop f R s b c = Ok (s', b @ t, None) \<and> ok s' \<and> rest s' = cs"
  using assms
proof (induction t arbitrary: b c x s f)
  case Nil
  then show ?case by (cases f) auto
next
  case (Cons d t)
  obtain g where f: "f = Suc g" "length t < g" using Cons.prems(4) by (cases f) auto
  obtain c' x' where x': "escape t @ [c_dq] = c' # x'" using escape_hd by blast
  show ?case
  proof (cases "d = c_dq \<or> d = c_bs")
    case True
    then have "c = c_bs" "rest s = d # c' # x' @ cs" using Cons.prems(1,3) x' by auto
    moreover obtain s1 where "rd_ReadByte R s = Ok (s1, Inr d)" "ok s1" "rest s1 = c' # x' @ cs"
      using read_byte [OF Cons.prems(2)] calculation(2) by blast
    moreover obtain s2 where "rd_ReadByte R s1 = Ok (s2, Inr c')" "ok s2" "rest s2 = x' @ cs"
      using read_byte calculation(4,5) by blast
    ultimately show ?thesis using Cons.IH [OF x', of s2 g "b @ [d]"] f True by auto
  next
    case False
    then have "c = d" "rest s = c' # x' @ cs" using Cons.prems(1,3) x' by auto
    moreover obtain s1 where "rd_ReadByte R s = Ok (s1, Inr c')" "ok s1" "rest s1 = x' @ cs"
      using read_byte [OF Cons.prems(2)] calculation(2) by blast
    ultimately show ?thesis using Cons.IH [OF x', of s1 g "b @ [d]"] f False by auto
  qed
qed

lemma substring:
  assumes "ok s" "rest s = escape t @ c_dq # cs" "length t < f"
  shows "\<exists>s'. ReadSubstring f R s = Ok (s', t, None) \<and> ok s' \<and> rest s' = cs"
proof -
  obtain c x where x: "escape t @ [c_dq] = c # x" using escape_hd by blast
  then have "rest s = c # x @ cs" using assms(2) by (metis append.assoc append_Cons append_Nil)
  then obtain s1 where "rd_ReadByte R s = Ok (s1, Inr c)" "ok s1" "rest s1 = x @ cs" using read_byte [OF assms(1)] by blast
  then show ?thesis using substring_loop [OF x, of s1 cs f "[]"] assms(3) by (auto simp: ReadSubstring_def)
qed

end

section \<open>Elements and arrays\<close>

lemma slice_end_None: "slice_end d line left None \<Longrightarrow> line @ left = l @ d # cs \<Longrightarrow> d \<notin> set l \<Longrightarrow> line = l @ [d] \<and> left = cs"
  by (auto simp: slice_end_def append_eq_append_conv2 append_eq_Cons_conv Cons_eq_append_conv)

lemma append_split:
  assumes "d \<notin> set line" "line @ left = l @ d # cs"
  shows "\<exists>l'. l = line @ l' \<and> left = l' @ d # cs"
  using assms
proof (induction line arbitrary: l)
  case (Cons a line)
  then show ?case by (cases l) auto
qed simp

context byte_reader
begin

lemma simple_comma:
  assumes "ok s" "rest s = l @ CHR '','' # cs" "CHR '','' \<notin> set l" "length l < f"
  shows "\<exists>s'. readSimple f R s b = Ok (s', Inr (b @ l)) \<and> ok s' \<and> rest s' = cs"
  using assms
proof (induction f arbitrary: s l b)
  case (Suc f)
  obtain s' line e where r: "rd_ReadSlice R s CHR '','' = Ok (s', line, e)" "ok s'" "rest s = line @ rest s'" "slice_end CHR '','' line (rest s') e"
    using read_slice [OF Suc.prems(1)] by blast
  show ?case
  proof (cases e)
    case None
    then have "line = l @ [CHR '',''] \<and> rest s' = cs" using slice_end_None [of "CHR '',''" line "rest s'" l cs] r(3,4) Suc.prems(2,3) by simp
    then show ?thesis using None r(1,2) by (simp add: butlast_append)
  next
    case (Some e')
    then have line: "CHR '','' \<notin> set line" "e' = EOF \<and> rest s' = [] \<or> e' = ErrBufferFull \<and> line \<noteq> []" using r(4) by (simp_all add: slice_end_def)
    obtain l' where l': "l = line @ l'" "rest s' = l' @ CHR '','' # cs"
      using append_split [OF line(1), of "rest s'" l cs] r(3) Suc.prems(2) by auto
    then have e': "e' = ErrBufferFull" "length l' < f" using line(2) Suc.prems(4) by (cases line; auto)+
    then show ?thesis using Suc.IH [of s' l' "b @ line"] Suc.prems(3) l' r(1,2) Some by simp
  qed
qed simp

lemma simple_last:
  assumes "ok s" "b @ rest s = l @ ''}''" "CHR '','' \<notin> set (rest s)" "length (rest s) < f"
  shows "\<exists>s'. readSimple f R s b = Ok (s', Inr l) \<and> ok s' \<and> rest s' = []"
  using assms
proof (induction f arbitrary: s b)
  case (Suc f)
  obtain s' line e where r: "rd_ReadSlice R s CHR '','' = Ok (s', line, e)" "ok s'" "rest s = line @ rest s'" "slice_end CHR '','' line (rest s') e"
    using read_slice [OF Suc.prems(1)] by blast
  show ?case
  proof (cases e)
    case None
    then show ?thesis using r Suc.prems(3) by (auto simp: slice_end_def)
  next
    case (Some e')
    then have line: "e' = EOF \<and> rest s' = [] \<or> e' = ErrBufferFull \<and> line \<noteq> []" using r(4) by (auto simp: slice_end_def)
    then show ?thesis
    proof
      assume "e' = EOF \<and> rest s' = []"
      then show ?thesis using Suc.prems(2) r(1-3) Some by simp
    next
      assume e': "e' = ErrBufferFull \<and> line \<noteq> []"
      then have "length (rest s') < f" using Suc.prems(4) r(3) by (cases line) auto
      with e' show ?thesis using Suc.IH [of s' "b @ line"] Suc.prems(2-4) r(1-3) Some by simp
    qed
  qed
qed simp

lemma with_comma_ok:
  assumes "ok s" "rest s = c # cs" "c = CHR '','' \<or> c = CHR ''}''"
  shows "\<exists>s'. with_comma R s b = Ok (s', Inr (Some b)) \<and> ok s' \<and> rest s' = cs"
  using read_byte [OF assms(1,2)] assms(3) by (auto simp: with_comma_def readCommaBrace_def)

text \<open>An element in quotes, with what follows it.\<close>

lemma elem_quoted:
  assumes "ok s" "rest s = (c_dq # escape t @ [c_dq]) @ c # cs" "c = CHR '','' \<or> c = CHR ''}''" "length t < f"
  shows "\<exists>s'. read_elem f R s = Ok (s', Inr (Some t)) \<and> ok s' \<and> rest s' = cs"
proof -
  have "rest s = c_dq # escape t @ c_dq # c # cs" using assms(2) by simp
  then obtain s1 where 1: "rd_ReadByte R s = Ok (s1, Inr c_dq)" "ok s1" "rest s1 = escape t @ c_dq # c # cs"
    using read_byte [OF assms(1)] by blast
  then obtain s2 where 2: "ReadSubstring f R s1 = Ok (s2, t, None)" "ok s2" "rest s2 = c # cs" using substring [of s1 t] assms(4) by blast
  then show ?thesis using 1 with_comma_ok [OF 2(2,3) assms(3), of t] by (auto simp: read_elem_def)
qed

text \<open>An element without quotes.\<close>

lemma elem_plain:
  assumes "ok s" "l \<noteq> []" "hd l \<notin> {c_dq, CHR ''{'', CHR ''}''}" "CHR '','' \<notin> set l" "l \<noteq> ''NULL''" "length l + 1 < f"
  shows "rest s = l @ CHR '','' # cs \<Longrightarrow> \<exists>s'. read_elem f R s = Ok (s', Inr (Some l)) \<and> ok s' \<and> rest s' = cs"
    "rest s = l @ ''}'' \<Longrightarrow> \<exists>s'. read_elem f R s = Ok (s', Inr (Some l)) \<and> ok s' \<and> rest s' = []"
proof -
  obtain c l' where l: "l = c # l'" using assms(2) by (cases l) auto
  have u: "\<exists>s1 s2. rd_ReadByte R s = Ok (s1, Inr c) \<and> rd_UnreadByte R s1 = Ok (s2, None) \<and> ok s2 \<and> rest s2 = rest s"
    if "rest s = l @ xs" for xs using read_byte [OF assms(1), of c "l' @ xs"] that l by auto
  {
    assume r: "rest s = l @ CHR '','' # cs"
    obtain s1 s2 where 1: "rd_ReadByte R s = Ok (s1, Inr c)" "rd_UnreadByte R s1 = Ok (s2, None)" "ok s2" "rest s2 = rest s" using u [OF r] by blast
    then obtain s3 where "readSimple f R s2 [] = Ok (s3, Inr l)" "ok s3" "rest s3 = cs" using simple_comma [of s2 l cs f "[]"] assms(4,6) r by auto
    then show "\<exists>s'. read_elem f R s = Ok (s', Inr (Some l)) \<and> ok s' \<and> rest s' = cs" using 1 assms(3,5) l by (auto simp: read_elem_def)
  }
  assume r: "rest s = l @ ''}''"
  obtain s1 s2 where 1: "rd_ReadByte R s = Ok (s1, Inr c)" "rd_UnreadByte R s1 = Ok (s2, None)" "ok s2" "rest s2 = rest s" using u [OF r] by blast
  then obtain s3 where "readSimple f R s2 [] = Ok (s3, Inr l)" "ok s3" "rest s3 = []" using simple_last [of s2 "[]" l f] assms(4,6) r by auto
  then show "\<exists>s'. read_elem f R s = Ok (s', Inr (Some l)) \<and> ok s' \<and> rest s' = []" using 1 assms(3,5) l by (auto simp: read_elem_def)
qed

end

context byte_reader
begin

text \<open>Elements between commas, each of which the parser reads as its value, up to the closing brace.\<close>

lemma scan_elems_ok:
  assumes comma: "\<And>s cs f x. \<lbrakk>ok s; x \<in> X; rest s = form x @ CHR '','' # cs; length (rest s) < f\<rbrakk> \<Longrightarrow>
      \<exists>s'. read_elem f R s = Ok (s', Inr (val x)) \<and> ok s' \<and> rest s' = cs"
    and brace: "\<And>s f x. \<lbrakk>ok s; x \<in> X; rest s = form x @ ''}''; length (rest s) < f\<rbrakk> \<Longrightarrow>
      \<exists>s'. read_elem f R s = Ok (s', Inr (val x)) \<and> ok s' \<and> rest s' = []"
    and h: "\<And>x. x \<in> X \<Longrightarrow> h (val x) = Inr (g x)"
    and "ok s" "xs \<noteq> []" "set xs \<subseteq> X" "rest s = commas (map form xs) @ ''}''" "length (rest s) + 1 < f"
  shows "\<exists>s'. scan_elems f R h \<lparr>ap_p = s, stickyErr = None\<rparr> vs = Ok (s', Inr (Some (vs @ map g xs))) \<and> ok s' \<and> rest s' = []"
  using assms(4-)
proof (induction xs arbitrary: s f vs rule: induct_list012)
  case (2 x)
  have r: "rest s = form x @ ''}''" and x: "x \<in> X" using 2(3,4) by simp_all
  obtain k where f: "f = Suc (Suc k)" "length (rest s) < Suc k" using 2(5) r by (cases f; cases "f - 1") auto
  obtain s1 where 1: "read_elem (Suc k) R s = Ok (s1, Inr (val x))" "ok s1" "rest s1 = []" using brace [OF 2(1) x r f(2)] by blast
  obtain s2 where 2: "rd_ReadByte R s1 = Ok (s2, Inl EOF)" "ok s2" "rest s2 = []" using read_end [OF 1(2,3)] by blast
  then have "read_elem k R s1 = Ok (s2, Inl errEndOfArray)" by (simp add: read_elem_def)
  then show ?case using 1(1) h [OF x] 2(2,3) by (simp add: f(1) NextElem_def)
next
  case (3 x y xs)
  have r: "rest s = form x @ CHR '','' # commas (map form (y # xs)) @ ''}''" and x: "x \<in> X" using 3(5,6) by simp_all
  obtain k where f: "f = Suc k" "length (rest s) < k" using 3(7) by (cases f) auto
  obtain s1 where 1: "read_elem k R s = Ok (s1, Inr (val x))" "ok s1" "rest s1 = commas (map form (y # xs)) @ ''}''"
    using comma [OF 3(3) x r f(2)] by blast
  have "length (rest s1) + 1 < k" using 1(3) r f(2) by simp
  then have "\<exists>s'. scan_elems k R h \<lparr>ap_p = s1, stickyErr = None\<rparr> (vs @ [g x]) = Ok (s', Inr (Some ((vs @ [g x]) @ map g (y # xs)))) \<and> ok s' \<and> rest s' = []"
    using 3(5) by (intro 3(2) [OF 1(2) _ _ 1(3)]) auto
  then show ?case using 1(1) h [OF x] by (simp add: f(1) NextElem_def)
qed simp

lemma scan_array_ok:
  assumes "\<And>s cs f x. \<lbrakk>ok s; x \<in> set xs; rest s = form x @ CHR '','' # cs; length (rest s) < f\<rbrakk> \<Longrightarrow>
      \<exists>s'. read_elem f R s = Ok (s', Inr (val x)) \<and> ok s' \<and> rest s' = cs"
    and "\<And>s f x. \<lbrakk>ok s; x \<in> set xs; rest s = form x @ ''}''; length (rest s) < f\<rbrakk> \<Longrightarrow>
      \<exists>s'. read_elem f R s = Ok (s', Inr (val x)) \<and> ok s' \<and> rest s' = []"
    and "\<And>x. x \<in> set xs \<Longrightarrow> h (val x) = Inr (g x)"
    and "ok s" "rest s = braces (map form xs)" "length (rest s) < f" "n \<noteq> -1"
  shows "\<exists>s'. scan_array f R h s n = Ok (s', Inr (Some (map g xs))) \<and> ok s' \<and> rest s' = []"
proof -
  have "rest s = CHR ''{'' # commas (map form xs) @ ''}''" using assms(5) by (simp add: braces_def)
  then obtain s1 where 1: "SkipByte R s CHR ''{'' = Ok (s1, None)" "ok s1" "rest s1 = commas (map form xs) @ ''}''"
    using skip_same [OF assms(4)] by blast
  have l: "length (rest s1) + 1 < f" using 1(3) assms(5,6) by (simp add: braces_def)
  have "\<exists>s'. scan_elems f R h \<lparr>ap_p = s1, stickyErr = None\<rparr> [] = Ok (s', Inr (Some ([] @ map g xs))) \<and> ok s' \<and> rest s' = []"
  proof (cases "xs = []")
    case True
    then obtain s2 where "rd_ReadByte R s1 = Ok (s2, Inr CHR ''}'')" "ok s2" "rest s2 = []" using read_byte [OF 1(2)] 1(3) by auto
    moreover obtain k where "f = Suc k" using l by (cases f) auto
    ultimately show ?thesis using True by (auto simp: NextElem_def read_elem_def)
  next
    case False
    show ?thesis
      by (rule scan_elems_ok [where form = form and val = val and X = "set xs" and h = h and g = g, OF assms(1-3) 1(2) False subset_refl 1(3) l])
  qed
  then show ?thesis using 1(1) assms(7) by (simp add: scan_array_def newArrayParser_def)
qed

lemma string_array:
  assumes "ok s" "rest s = braces (map (\<lambda>t. c_dq # escape t @ [c_dq]) ts)" "length (rest s) < f" "n \<noteq> -1"
  shows "\<exists>s'. scanStringArray f R s n = Ok (s', Inr (Some ts)) \<and> ok s' \<and> rest s' = []"
proof -
  have "\<exists>s'. scan_array f R (\<lambda>elem. Inr (case elem of None \<Rightarrow> [] | Some b \<Rightarrow> b)) s n = Ok (s', Inr (Some (map (\<lambda>t. t) ts))) \<and> ok s' \<and> rest s' = []"
  proof (rule scan_array_ok [where val = Some and form = "\<lambda>t. c_dq # escape t @ [c_dq]"])
    fix s cs f t assume a: "ok s" "rest s = (c_dq # escape t @ [c_dq]) @ CHR '','' # cs" "length (rest s) < f"
    show "\<exists>s'. read_elem f R s = Ok (s', Inr (Some t)) \<and> ok s' \<and> rest s' = cs"
      using elem_quoted [OF a(1,2)] a(2,3) escape_length [of t] by simp
  next
    fix s f t assume a: "ok s" "rest s = (c_dq # escape t @ [c_dq]) @ ''}''" "length (rest s) < f"
    show "\<exists>s'. read_elem f R s = Ok (s', Inr (Some t)) \<and> ok s' \<and> rest s' = []"
      using elem_quoted [OF a(1,2)] a(2,3) escape_length [of t] by simp
  qed (use assms in auto)
  then show ?thesis by (simp add: scanStringArray_def)
qed

end

section \<open>Integers, byte strings and hstores\<close>

lemma Itoa_chars: "c \<in> set (Itoa n) \<Longrightarrow> c = CHR ''-'' \<or> 48 \<le> bval c \<and> bval c \<le> 57"
  using utoa_digits by (fastforce simp: Itoa_def split: if_splits)

lemma Itoa_elem:
  "Itoa n \<noteq> []" "hd (Itoa n) \<notin> {c_dq, CHR ''{'', CHR ''}''}" "CHR '','' \<notin> set (Itoa n)" "Itoa n \<noteq> ''NULL''"
proof -
  show ne: "Itoa n \<noteq> []" by (simp add: Itoa_def)
  have "hd (Itoa n) = CHR ''-'' \<or> 48 \<le> bval (hd (Itoa n)) \<and> bval (hd (Itoa n)) \<le> 57" by (rule Itoa_chars [OF hd_in_set [OF ne]])
  then show "hd (Itoa n) \<notin> {c_dq, CHR ''{'', CHR ''}''}" by auto
  show "CHR '','' \<notin> set (Itoa n)" using Itoa_chars [of "CHR '',''" n] by auto
  show "Itoa n \<noteq> ''NULL''" using Itoa_chars [of "CHR ''N''" n] by auto
qed

lemma hex_digit: "n < 16 \<Longrightarrow> fromHexChar (hex_lower ! n) = Some n"
proof -
  have "\<forall>n\<in>set [0..<16]. fromHexChar (hex_lower ! n) = Some n" by code_simp
  then show "n < 16 \<Longrightarrow> fromHexChar (hex_lower ! n) = Some n" by simp
qed

lemma decode_encode: "decodeGeneric (encodeGeneric bs) = Inr bs" "length (encodeGeneric bs) = 2 * length bs"
  by (induction bs) (simp_all add: hex_digit nibbles char_of_eqI)

context byte_reader
begin

lemma int_array:
  assumes "ok s" "rest s = braces (map Itoa ns)" "length (rest s) < f" "n \<noteq> -1" "\<forall>k\<in>set ns. - (2 ^ 63) \<le> k \<and> k < 2 ^ 63"
  shows "\<exists>s'. scanInt64Array f R s n = Ok (s', Inr (Some ns)) \<and> ok s' \<and> rest s' = []"
proof -
  have "\<exists>s'. scan_array f R (\<lambda>elem. case elem of None \<Rightarrow> Inr 0 | Some b \<Rightarrow> parse_int b) s n = Ok (s', Inr (Some (map (\<lambda>k. k) ns))) \<and> ok s' \<and> rest s' = []"
  proof (rule scan_array_ok [where val = "\<lambda>k. Some (Itoa k)" and form = Itoa])
    fix s cs f k assume a: "ok s" "rest s = Itoa k @ CHR '','' # cs" "length (rest s) < f"
    then show "\<exists>s'. read_elem f R s = Ok (s', Inr (Some (Itoa k))) \<and> ok s' \<and> rest s' = cs"
      using elem_plain(1) [OF a(1) Itoa_elem, of k f cs] by simp
  next
    fix s f k assume a: "ok s" "rest s = Itoa k @ ''}''" "length (rest s) < f"
    then show "\<exists>s'. read_elem f R s = Ok (s', Inr (Some (Itoa k))) \<and> ok s' \<and> rest s' = []"
      using elem_plain(2) [OF a(1) Itoa_elem, of k f] by simp
  next
    fix k assume "k \<in> set ns"
    then show "(case Some (Itoa k) of None \<Rightarrow> Inr 0 | Some b \<Rightarrow> parse_int b) = Inr k" using assms(5) by (simp add: parse_int_def ParseInt_Itoa)
  qed (use assms in auto)
  then show ?thesis by (simp add: scanInt64Array_def)
qed

lemma scan_bytes:
  assumes "ok s" "rest s = [c_bs, CHR ''x''] @ encodeGeneric bs" "n = int (length (rest s))"
  shows "\<exists>s'. ScanBytes R s n = Ok (s', Inr (Some bs)) \<and> ok s' \<and> rest s' = []"
proof -
  have n: "n = 2 * int (length bs) + 2" using assms(2,3) by (simp add: decode_encode(2))
  have d: "hex_Decode (encodeGeneric bs) = Inr bs" by (simp add: hex_Decode_def decode_encode)
  show ?thesis using read_full_temp [OF assms(1)] assms(2)
    by (auto simp: ScanBytes_def ReadBytes_def n d decode_encode(2))
qed

lemma next_key:
  assumes "ok s" "rest s = (c_dq # escape k @ [c_dq]) @ ''=>'' @ cs" "length k < f"
  shows "\<exists>s'. NextKey f R s = Ok (s', Inr k) \<and> ok s' \<and> rest s' = cs"
proof -
  obtain s1 where 1: "SkipByte R s c_dq = Ok (s1, None)" "ok s1" "rest s1 = escape k @ c_dq # ''=>'' @ cs"
    using skip_same [OF assms(1), of c_dq "escape k @ c_dq # ''=>'' @ cs"] assms(2) by auto
  obtain s2 where 2: "ReadSubstring f R s1 = Ok (s2, k, None)" "ok s2" "rest s2 = CHR ''='' # CHR ''>'' # cs"
    using substring [OF 1(2,3) assms(3)] by auto
  obtain s3 where 3: "SkipByte R s2 CHR ''='' = Ok (s3, None)" "ok s3" "rest s3 = CHR ''>'' # cs" using skip_same [OF 2(2,3)] by blast
  obtain s4 where 4: "SkipByte R s3 CHR ''>'' = Ok (s4, None)" "ok s4" "rest s4 = cs" using skip_same [OF 3(2,3)] by blast
  show ?thesis using 1(1) 2(1) 3(1) 4 by (simp add: NextKey_def)
qed

lemma next_value:
  assumes "ok s" "rest s = (c_dq # escape v @ [c_dq]) @ cs" "length v < f" "cs = [] \<or> cs = CHR '','' # ds \<and> ds \<noteq> [] \<and> hd ds \<noteq> CHR '' ''"
  shows "\<exists>s'. NextValue f R s = Ok (s', Inr v) \<and> ok s' \<and> rest s' = (if cs = [] then [] else ds)"
proof -
  obtain s1 where 1: "SkipByte R s c_dq = Ok (s1, None)" "ok s1" "rest s1 = escape v @ c_dq # cs"
    using skip_same [OF assms(1), of c_dq "escape v @ c_dq # cs"] assms(2) by auto
  obtain s2 where 2: "ReadSubstring f R s1 = Ok (s2, v, None)" "ok s2" "rest s2 = cs" using substring [OF 1(2,3) assms(3)] by auto
  show ?thesis
  proof (cases "cs = []")
    case True
    then show ?thesis using 1(1) 2 skip_end [OF 2(2), of "CHR '',''"] by (auto simp: NextValue_def)
  next
    case False
    then obtain d ds' where ds: "cs = CHR '','' # d # ds'" "ds = d # ds'" "d \<noteq> CHR '' ''" using assms(4) by (cases ds) auto
    obtain s3 where 3: "SkipByte R s2 CHR '','' = Ok (s3, None)" "ok s3" "rest s3 = d # ds'" using skip_same [OF 2(2)] 2(3) ds(1) by blast
    show ?thesis using 1(1) 2(1) 3(1) ds skip_other [OF 3(2,3) ds(3)] by (auto simp: NextValue_def)
  qed
qed

lemma pairs:
  assumes "ok s" "rest s = commas (map (\<lambda>(k, v). (c_dq # escape k @ [c_dq]) @ ''=>'' @ (c_dq # escape v @ [c_dq])) ps)" "length (rest s) < f"
  shows "\<exists>s'. scan_pairs f R s m = Ok (s', Inr (Some (fold (\<lambda>(k, v). AList.update k v) ps m))) \<and> ok s' \<and> rest s' = []"
  using assms
proof (induction ps arbitrary: s f m)
  case Nil
  then obtain g where "f = Suc g" by (cases f) auto
  then show ?case using skip_end [of s c_dq] Nil(1,2) by (auto simp: NextKey_def)
next
  case (Cons p ps)
  obtain k v where p: "p = (k, v)" by (cases p)
  obtain g where g: "f = Suc g" using Cons.prems(3) by (cases f) auto
  let ?q = "\<lambda>t. c_dq # escape t @ [c_dq]" and ?ds = "commas (map (\<lambda>(k, v). (c_dq # escape k @ [c_dq]) @ ''=>'' @ (c_dq # escape v @ [c_dq])) ps)"
  let ?cs = "if ps = [] then [] else CHR '','' # ?ds"
  have r: "rest s = ?q k @ ''=>'' @ ?q v @ ?cs" using Cons.prems(2) p by (cases ps) auto
  then have l: "length k < g" "length v < g" "length ?ds < g" using Cons.prems(3) g escape_length [of k] escape_length [of v] by (auto split: if_splits)
  obtain s1 where 1: "NextKey g R s = Ok (s1, Inr k)" "ok s1" "rest s1 = ?q v @ ?cs" using next_key [OF Cons.prems(1) r l(1)] by blast
  have "?cs = [] \<or> ?cs = CHR '','' # ?ds \<and> ?ds \<noteq> [] \<and> hd ?ds \<noteq> CHR '' ''" by (cases ps; cases "tl ps") auto
  then obtain s2 where 2: "NextValue g R s1 = Ok (s2, Inr v)" "ok s2" "rest s2 = ?ds"
    using next_value [OF 1(2,3) l(2), of ?ds] by (cases "ps = []") auto
  show ?case using 1(1) 2(1) Cons.IH [OF 2(2,3), of g "AList.update k v m"] l(3) 2(3) by (simp add: g p)
qed

end

end
