(* ===== verification/Spec2Isabelle.thy ===== *)
theory Spec2Isabelle
  imports Toml_LocalTime Toml_Errors Toml_Tracker_Correct Utree Hashmap_Correct Hashmap_Hash Umap_Cache_Correct Umap_Lock Uweb_Correct Upg_Scan_Correct
begin

text \<open>
  A verification library for the Go repository \<open>uw\<close>, a set of packages for small services: a TOML
  reader (\<open>utoml\<close>), a routing tree (\<open>utree\<close>) with a web framework on top (\<open>uweb\<close>), maps, caches and
  locks (\<open>umap\<close>) over a hash map (\<open>pkg/hashmap\<close>), a module loader (\<open>uboot\<close>), and clients for HTTP and
  PostgreSQL.

  \<^bold>\<open>Common ground.\<close> \<open>Uw_Prelude\<close> has what the components share of Go: bytes, slices with their
  address, and \<open>outcome\<close>, the result of code that can return an error value (\<^const>\<open>Err\<close>) or panic
  (\<^const>\<open>Panic\<close>). A loop that no structural argument bounds carries fuel and ends with
  \<^const>\<open>Fuel\<close> when it runs out; so does an operation that waits for good. Theorems state that calls
  return, so they exclude \<^const>\<open>Fuel\<close>. \<open>Uw_Strconv\<close> has the part of \<open>strconv\<close> and \<open>fmt\<close> that the code
  uses.

  \<^bold>\<open>utoml.\<close> The reader works in layers, and each layer has a theory.
  \<^item> \<open>Toml_Characters\<close> (\<open>internal/characters\<close>): the byte tables and the UTF-8 validators; they are
    shown to accept exactly the encodings of the allowed code points, the optimised one included.
  \<^item> \<open>Toml_Scanner\<close> (\<open>unstable/scanner.go\<close>) and \<open>Toml_Strings\<close> (the string half of
    \<open>unstable/parser.go\<close>): the tokens; they return on every input, cut their argument in two, point
    into it with their errors, and deliver UTF-8.
  \<^item> \<open>Toml_Ast\<close> (\<open>unstable/ast.go\<close>, \<open>builder.go\<close>, \<open>kind.go\<close>, \<open>internal/danger\<close>): the node array with
    relative links, and the tree that it represents.
  \<^item> \<open>Toml_Parser\<close>, \<open>Toml_Parser_Correct\<close> (\<open>unstable/parser.go\<close>): the recursive-descent parser. On
    every document it returns without a panic, its errors lie in the document and its nodes form
    trees of the grammar with well-formed tokens. The fuel of the mutually recursive functions is
    \<open>parse_fuel\<close>, six times the bytes that are left plus six: a round of calls takes at least a byte.
  \<^item> \<open>Toml_Decode\<close> (\<open>decode.go\<close>): integers, floats, dates and times from these tokens;
    \<open>strconv.ParseFloat\<close> is a parameter.
  \<^item> \<open>Toml_LocalTime\<close> (\<open>localtime.go\<close>): the text form of local dates and times and its round trip.
  \<^item> \<open>Toml_Errors\<close> (\<open>errors.go\<close>): the human-readable extract of an error.
  \<^item> \<open>Toml_Tracker\<close>, \<open>Toml_Tracker_Correct\<close> (\<open>internal/tracker\<close>): the record of the keys seen. The
    array of linked entries refines a map from paths to kinds, and no document with a duplicate key
    passes.

  \<^bold>\<open>utree.\<close> \<open>Utree\<close> models the routing tree (\<open>tree.go\<close>) and relates it to a map from patterns to
  registered routes: what \<open>Set\<close> and \<open>Delete\<close> change, which pattern \<open>Get\<close> prefers, and what \<open>Dump\<close> lists.

  \<^bold>\<open>pkg/hashmap.\<close> \<open>Hashmap\<close> models the hash map: a linked list sorted by hash, an index into it, and
  the resizing goroutine as a task that runs between two operations. \<open>Hashmap_Links\<close> and \<open>Hashmap_List\<close>
  have the facts about the list, \<open>Hashmap_Index\<close> those about the index, and \<open>Hashmap_Correct\<close> shows that
  the whole refines a map under every series of operations. The fuel of its loops is the number of
  elements ever made, since each step goes to another element. \<open>Hashmap_Hash\<close> has the hash functions:
  the specialised ones agree with the one on byte strings.

  \<^bold>\<open>umap.\<close> \<open>Umap_Mapper\<close> has the interface \<open>Mapper\<close> as a record of operations with two implementations,
  the map behind a lock (\<open>mmap.go\<close>) and the hash map (\<open>hmap.go\<close>). Its laws are the locales \<open>mapper\<close> and
  \<open>mapper_reentrant\<close>, and both implementations are interpretations, the second law for the hash map only.
  \<open>Umap_Cache\<close> has the caches over any mapper (\<open>cache.go\<close>, \<open>defx.go\<close>, \<open>defv.go\<close>), with the time as an
  argument and the collector as an operation, and \<open>Umap_Cache_Correct\<close> what they promise. \<open>Umap_Lock\<close> has
  the locks per key (\<open>mlock.go\<close>), one operation at a time over a mapper, and as a step relation of
  threads that interleave.

  \<^bold>\<open>uweb.\<close> \<open>Uweb\<close> models groups and routes (\<open>group.go\<close>), the context with its chain of handlers
  (\<open>context.go\<close>) and the server (\<open>tux.go\<close>) on the routing tree. A handler is a program over the operations of
  a context, a value of the type \<open>HandlerFunc\<close>. \<open>Next\<close> has as fuel the number of handlers plus one, since
  every round moves the index. \<open>Uweb_Correct\<close> shows that requests end, that panics of handlers stay
  inside, that requests do not see each other and how middleware nests. The locale \<open>router\<close> is what the
  server needs of the tree.

  \<^bold>\<open>Not modelled.\<close> The marshaler and unmarshaler of \<open>utoml\<close> work by reflection over Go values, as do
  \<open>Object\<close> in \<open>uweb\<close>, \<open>urest\<close> and \<open>utils/struct_field.go\<close>. \<open>uboot\<close>, \<open>ulog\<close>, \<open>upg\<close> and \<open>ureq\<close>
  are mostly input and output and calls of the Go libraries. \<open>examples\<close> holds sample
  programs, and the rest of \<open>pkg\<close> is third-party code kept in the repository.
\<close>

end
